(* ===== verification/Prelude.thy ===== *)
theory Prelude
  imports Main "HOL-Library.Word"
begin

text \<open>
  Shared vocabulary of the FrankenFS development: the machine integers of the Rust source
  (\<open>u8\<close> to \<open>u64\<close> as words, \<open>usize\<close> as a natural number whose checked operations test the
  64-bit bound), the parts of the Rust standard library the modelled crates call (checked and
  saturating arithmetic, slicing, little-endian conversion, \<open>slice::binary_search_by\<close> and
  \<open>partition_point\<close>, \<open>BTreeMap\<close> and \<open>BTreeSet\<close> as strictly sorted lists, decimal and
  hexadecimal formatting), and the generic lemmas about them that the component theories use
  through the collections \<open>slice_simps\<close>, \<open>le_simps\<close> and \<open>arith_defs\<close>.
\<close>

unbundle bit_operations_syntax

named_theorems slice_simps \<open>slices and in-place writes of byte buffers\<close>
named_theorems le_simps \<open>little-endian encoding and decoding\<close>
named_theorems arith_defs \<open>definitions of checked and saturating arithmetic\<close>

type_synonym u8 = "8 word"
type_synonym u16 = "16 word"
type_synonym u32 = "32 word"
type_synonym u64 = "64 word"
type_synonym u128 = "128 word"
type_synonym i32 = "32 word"
type_synonym usize = nat
type_synonym bytes = "u8 list"

section \<open>Checked and saturating arithmetic\<close>

definition checked_add :: "'a::len word \<Rightarrow> 'a word \<Rightarrow> 'a word option" where
  [arith_defs]: "checked_add a b = (if unat a + unat b < 2 ^ LENGTH('a) then Some (a + b) else None)"

definition checked_sub :: "'a::len word \<Rightarrow> 'a word \<Rightarrow> 'a word option" where
  [arith_defs]: "checked_sub a b = (if b \<le> a then Some (a - b) else None)"

definition checked_mul :: "'a::len word \<Rightarrow> 'a word \<Rightarrow> 'a word option" where
  [arith_defs]: "checked_mul a b = (if unat a * unat b < 2 ^ LENGTH('a) then Some (a * b) else None)"

definition saturating_add :: "'a::len word \<Rightarrow> 'a word \<Rightarrow> 'a word" where
  [arith_defs]: "saturating_add a b = (if unat a + unat b < 2 ^ LENGTH('a) then a + b else - 1)"

definition saturating_sub :: "'a::len word \<Rightarrow> 'a word \<Rightarrow> 'a word" where
  [arith_defs]: "saturating_sub a b = (if b \<le> a then a - b else 0)"

definition try_from_nat :: "nat \<Rightarrow> 'a::len word option" where
  [arith_defs]: "try_from_nat n = (if n < 2 ^ LENGTH('a) then Some (of_nat n) else None)"

definition usize_max :: usize where
  "usize_max = 2 ^ 64 - 1"

definition checked_add_usize :: "usize \<Rightarrow> usize \<Rightarrow> usize option" where
  [arith_defs]: "checked_add_usize a b = (if a + b \<le> usize_max then Some (a + b) else None)"

definition checked_sub_usize :: "usize \<Rightarrow> usize \<Rightarrow> usize option" where
  [arith_defs]: "checked_sub_usize a b = (if b \<le> a then Some (a - b) else None)"

definition saturating_add_usize :: "usize \<Rightarrow> usize \<Rightarrow> usize" where
  [arith_defs]: "saturating_add_usize a b = min (a + b) usize_max"

lemma unat_add_no_overflow:
  "unat a + unat b < 2 ^ LENGTH('a) \<Longrightarrow> unat (a + b) = unat a + unat (b :: 'a::len word)"
  by (simp add: unat_word_ariths)

lemma unat_sub_le: "b \<le> a \<Longrightarrow> unat (a - b) = unat a - unat (b :: 'a::len word)"
  by (rule unat_sub)

lemma checked_add_SomeD:
  "checked_add a b = Some c \<Longrightarrow> unat c = unat a + unat b"
  by (auto simp: arith_defs unat_add_no_overflow split: if_splits)

lemma checked_mul_SomeD:
  "checked_mul a b = Some c \<Longrightarrow> unat c = unat a * unat b"
  by (auto simp: arith_defs unat_word_ariths split: if_splits)

lemma try_from_nat_SomeD:
  "try_from_nat n = Some (c :: 'a::len word) \<Longrightarrow> unat c = n \<and> n < 2 ^ LENGTH('a)"
  by (auto simp: arith_defs unat_of_nat split: if_splits)

lemma try_from_nat_None_iff: "try_from_nat n = (None :: 'a::len word option) \<longleftrightarrow> 2 ^ LENGTH('a) \<le> n"
  by (auto simp: arith_defs)

lemma saturating_add_ge: "a \<le> saturating_add a (b :: 'a::len word)"
proof (cases "unat a + unat b < 2 ^ LENGTH('a)")
  case True
  then show ?thesis by (simp add: arith_defs word_le_nat_alt unat_add_no_overflow)
next
  case False
  then show ?thesis by (simp add: arith_defs)
qed

section \<open>Slices and in-place writes\<close>

definition segment :: "'a list \<Rightarrow> usize \<Rightarrow> usize \<Rightarrow> 'a list" where
  "segment xs i j = take (j - i) (drop i xs)"

definition get_range :: "'a list \<Rightarrow> usize \<Rightarrow> usize \<Rightarrow> 'a list option" where
  "get_range xs i j = (if i \<le> j \<and> j \<le> length xs then Some (segment xs i j) else None)"

definition blit :: "'a list \<Rightarrow> usize \<Rightarrow> 'a list \<Rightarrow> 'a list" where
  "blit xs off ys = take off xs @ ys @ drop (off + length ys) xs"

lemma length_segment [simp, slice_simps]: "length (segment xs i j) = min (j - i) (length xs - i)"
  by (simp add: segment_def)

lemma nth_segment [simp, slice_simps]: "i + k < j \<Longrightarrow> j \<le> length xs \<Longrightarrow> segment xs i j ! k = xs ! (i + k)"
  by (simp add: segment_def)

lemma segment_empty [simp, slice_simps]: "j \<le> i \<Longrightarrow> segment xs i j = []"
  by (simp add: segment_def)

lemma segment_full [simp, slice_simps]: "length xs \<le> j \<Longrightarrow> segment xs 0 j = xs"
  by (simp add: segment_def)

lemma segment_eqI:
  assumes "length xs = length ys" and "\<And>k. i \<le> k \<Longrightarrow> k < j \<Longrightarrow> k < length xs \<Longrightarrow> xs ! k = ys ! k"
  shows "segment xs i j = segment ys i j"
  by (rule nth_equalityI) (use assms in \<open>auto simp: segment_def\<close>)

lemma segment_eqD:
  assumes "segment xs i j = segment ys i j" and "i \<le> k" "k < j" "j \<le> length xs" "j \<le> length ys"
  shows "xs ! k = ys ! k"
proof -
  have "segment xs i j ! (k - i) = segment ys i j ! (k - i)" using assms(1) by simp
  then show ?thesis using assms(2-) by simp
qed

lemma segment_append_adjacent:
  "i \<le> j \<Longrightarrow> j \<le> k \<Longrightarrow> segment xs i j @ segment xs j k = segment xs i k"
proof -
  assume "i \<le> j" "j \<le> k"
  then have "k - i = (j - i) + (k - j)" and "drop (j - i) (drop i xs) = drop j xs" by simp_all
  then show ?thesis by (simp add: segment_def take_add)
qed

lemma length_blit [simp, slice_simps]: "off + length ys \<le> length xs \<Longrightarrow> length (blit xs off ys) = length xs"
  by (simp add: blit_def)

lemma nth_blit [slice_simps]:
  assumes "off + length ys \<le> length xs" and "k < length xs"
  shows "blit xs off ys ! k = (if off \<le> k \<and> k < off + length ys then ys ! (k - off) else xs ! k)"
  using assms by (auto simp: blit_def nth_append)

lemma segment_blit_same [slice_simps]:
  "off + length ys \<le> length xs \<Longrightarrow> segment (blit xs off ys) off (off + length ys) = ys"
  by (simp add: segment_def blit_def)

lemma segment_blit_before [slice_simps]:
  "j \<le> off \<Longrightarrow> off + length ys \<le> length xs \<Longrightarrow> segment (blit xs off ys) i j = segment xs i j"
  by (intro segment_eqI) (auto simp: nth_blit)

lemma segment_blit_after [slice_simps]:
  "off + length ys \<le> i \<Longrightarrow> off + length ys \<le> length xs \<Longrightarrow> segment (blit xs off ys) i j = segment xs i j"
  by (intro segment_eqI) (auto simp: nth_blit)

lemma blit_Nil [simp, slice_simps]: "blit xs off [] = xs"
  by (simp add: blit_def)

lemma blit_append [slice_simps]:
  "off + length ys + length zs \<le> length xs \<Longrightarrow> blit (blit xs off ys) (off + length ys) zs = blit xs off (ys @ zs)"
  by (simp add: blit_def add.commute add.left_commute)

lemma get_range_Some_iff [slice_simps]:
  "get_range xs i j = Some ys \<longleftrightarrow> i \<le> j \<and> j \<le> length xs \<and> ys = segment xs i j"
  by (auto simp: get_range_def)

lemma get_range_None_iff [slice_simps]: "get_range xs i j = None \<longleftrightarrow> j < i \<or> length xs < j"
  by (auto simp: get_range_def)

section \<open>Chunks\<close>

text \<open>\<open>slice::chunks\<close>: pieces of \<open>n\<close> elements, the last one possibly shorter.\<close>

fun chunks :: "nat \<Rightarrow> 'a list \<Rightarrow> 'a list list" where
  "chunks n xs = (if n = 0 \<or> xs = [] then [] else take n xs # chunks n (drop n xs))"

declare chunks.simps [simp del]

lemma chunks_Nil [simp]: "chunks n [] = []"
  by (simp add: chunks.simps)

lemma concat_chunks [simp]: "0 < n \<Longrightarrow> concat (chunks n xs) = xs"
  by (induction n xs rule: chunks.induct) (simp add: chunks.simps)

lemma chunks_concat: "0 < n \<Longrightarrow> \<forall>b \<in> set bs. length b = n \<Longrightarrow> chunks n (concat bs) = bs"
  by (induction bs) (auto simp: chunks.simps [of n "_ @ _"])

lemma chunks_exact:
  assumes "n dvd length xs" "0 < n"
  shows "length (chunks n xs) = length xs div n"
    and "i < length xs div n \<Longrightarrow> chunks n xs ! i = segment xs (i * n) (i * n + n)"
proof -
  have "length (chunks n xs) = length xs div n \<and> (\<forall>i < length xs div n. chunks n xs ! i = segment xs (i * n) (i * n + n))"
    using assms
  proof (induction n xs rule: chunks.induct)
    case (1 n xs)
    show ?case
    proof (cases "xs = []")
      case False
      then have len: "n \<le> length xs" using "1.prems"(1) dvd_imp_le by blast
      have "n dvd length (drop n xs)" using "1.prems"(1) len by simp
      with "1.IH" False "1.prems"(2)
      have IH: "length (chunks n (drop n xs)) = length (drop n xs) div n"
        "\<forall>i < length (drop n xs) div n. chunks n (drop n xs) ! i = segment (drop n xs) (i * n) (i * n + n)" by auto
      have div: "length xs div n = Suc (length (drop n xs) div n)"
        using len "1.prems"(2) by (simp add: le_div_geq)
      have "chunks n xs ! i = segment xs (i * n) (i * n + n)" if "i < length xs div n" for i
        using that IH(2) False "1.prems"(2) div
        by (cases i) (auto simp: chunks.simps [of n xs] segment_def add.commute)
      then show ?thesis using IH(1) div False "1.prems"(2) by (simp add: chunks.simps [of n xs])
    qed simp
  qed
  then show "length (chunks n xs) = length xs div n"
    and "i < length xs div n \<Longrightarrow> chunks n xs ! i = segment xs (i * n) (i * n + n)" by auto
qed

lemma chunks_lengths:
  assumes "n dvd length xs" "0 < n" "b \<in> set (chunks n xs)"
  shows "length b = n"
proof -
  obtain i where i: "i < length xs div n" "b = segment xs (i * n) (i * n + n)"
    using assms(3) chunks_exact [OF assms(1,2)] by (auto simp: in_set_conv_nth)
  have "i * n + n \<le> length xs" using i(1) assms(1,2) by (metis Suc_leI add.commute dvd_div_mult_self mult_Suc mult_le_mono1)
  then show ?thesis using i(2) by simp
qed

lemma chunks_blit:
  assumes "n dvd length xs" "n dvd length ys" "0 < n" "i * n + length ys \<le> length xs"
  shows "chunks n (blit xs (i * n) ys) = blit (chunks n xs) i (chunks n ys)"
proof -
  obtain k m where k: "length ys = k * n" and m: "length xs = m * n"
    using assms(1,2) by (metis dvd_def mult.commute)
  have room: "i + k \<le> m" using assms(3,4) k m by (metis add_mult_distrib mult_le_cancel2)
  note X = chunks_exact [OF assms(1,3)] and Y = chunks_exact [OF assms(2,3)]
  have B: "n dvd length (blit xs (i * n) ys)" using assms(1,4) by simp
  note B = chunks_exact [OF B assms(3)]
  show ?thesis
  proof (rule nth_equalityI)
    show "length (chunks n (blit xs (i * n) ys)) = length (blit (chunks n xs) i (chunks n ys))"
      using B(1) X(1) Y(1) assms(3,4) room k m by simp
    fix j
    assume "j < length (chunks n (blit xs (i * n) ys))"
    then have j: "j < m" using B(1) assms(3,4) m by simp
    have lhs: "chunks n (blit xs (i * n) ys) ! j = segment (blit xs (i * n) ys) (j * n) (j * n + n)"
      using B(2) j assms(3,4) m by simp
    have jm: "j * n + n \<le> length xs" using j m by (metis Suc_leI add.commute mult_Suc mult_le_mono1)
    show "chunks n (blit xs (i * n) ys) ! j = blit (chunks n xs) i (chunks n ys) ! j"
    proof (cases "i \<le> j \<and> j < i + k")
      case True
      then have jy: "(j - i) * n + n \<le> length ys" using k by (metis Suc_leI add.commute less_diff_conv2 mult_Suc mult_le_mono1)
      have off: "j * n = i * n + (j - i) * n" using True by (simp flip: add_mult_distrib)
      have "segment (blit xs (i * n) ys) (j * n) (j * n + n) = segment ys ((j - i) * n) ((j - i) * n + n)"
        using jm jy off assms(4) by (intro nth_equalityI) (auto simp: nth_blit)
      moreover have "j - i < k" using True by linarith
      ultimately show ?thesis using lhs True Y X(1) k m assms(3) room j by (simp add: nth_blit)
    next
      case False
      have "j * n + n \<le> i * n \<or> i * n + length ys \<le> j * n"
      proof (cases "j < i")
        case True
        then have "(j + 1) * n \<le> i * n" by (intro mult_le_mono1) simp
        then show ?thesis by simp
      next
        case nl: False
        then have "(i + k) * n \<le> j * n" using False by (intro mult_le_mono1) simp
        then show ?thesis using k by (simp add: add_mult_distrib)
      qed
      then have "segment (blit xs (i * n) ys) (j * n) (j * n + n) = segment xs (j * n) (j * n + n)"
        using assms(4) segment_blit_before segment_blit_after by metis
      then show ?thesis using lhs False X Y(1) k m assms(3) room j by (auto simp: nth_blit)
    qed
  qed
qed

section \<open>Little-endian conversion\<close>

fun le_val :: "bytes \<Rightarrow> nat" where
  "le_val [] = 0"
| "le_val (b # bs) = unat b + 256 * le_val bs"

fun le_enc :: "nat \<Rightarrow> nat \<Rightarrow> bytes" where
  "le_enc 0 v = []"
| "le_enc (Suc n) v = of_nat (v mod 256) # le_enc n (v div 256)"

definition from_le :: "bytes \<Rightarrow> 'a::len word" where
  "from_le bs = of_nat (le_val bs)"

definition u16_to_le :: "u16 \<Rightarrow> bytes" where
  "u16_to_le x = le_enc 2 (unat x)"

definition u32_to_le :: "u32 \<Rightarrow> bytes" where
  "u32_to_le x = le_enc 4 (unat x)"

definition u64_to_le :: "u64 \<Rightarrow> bytes" where
  "u64_to_le x = le_enc 8 (unat x)"

lemma unat_u8_less [simp]: "unat (b :: u8) < 256"
  using unsigned_less [of b] by simp

lemma length_le_enc [simp, le_simps]: "length (le_enc n v) = n"
  by (induction n arbitrary: v) auto

lemma le_val_bound: "le_val bs < 256 ^ length bs"
proof (induction bs)
  case (Cons b bs)
  have "unat b < 256" by (rule unat_u8_less)
  moreover have "le_val bs + 1 \<le> 256 ^ length bs" using Cons.IH by simp
  then have "256 * (le_val bs + 1) \<le> 256 * 256 ^ length bs" by (rule mult_le_mono2)
  ultimately show ?case by (simp del: unat_u8_less)
qed simp

lemma le_val_le_enc [le_simps]: "le_val (le_enc n v) = v mod 256 ^ n"
proof (induction n arbitrary: v)
  case (Suc n)
  have "v mod (256 * 256 ^ n) = v mod 256 + 256 * (v div 256 mod 256 ^ n)"
    using mod_mult2_eq [of v 256 "256 ^ n"] by simp
  then show ?case by (simp add: Suc.IH unat_of_nat)
qed simp

lemma le_enc_le_val [le_simps]: "le_enc (length bs) (le_val bs) = bs"
proof (induction bs)
  case (Cons b bs)
  have "(unat b + 256 * le_val bs) div 256 = le_val bs" by simp
  with Cons show ?case by simp
qed simp

lemma length_to_le [simp, le_simps]:
  "length (u16_to_le x) = 2" "length (u32_to_le y) = 4" "length (u64_to_le z) = 8"
  by (simp_all add: u16_to_le_def u32_to_le_def u64_to_le_def)

lemma from_le_to_le [simp, le_simps]:
  "from_le (u16_to_le x) = x" "from_le (u32_to_le y) = y" "from_le (u64_to_le z) = z"
  using unsigned_less [of x, where 'a = nat] unsigned_less [of y, where 'a = nat]
    unsigned_less [of z, where 'a = nat]
  by (simp_all add: from_le_def u16_to_le_def u32_to_le_def u64_to_le_def le_val_le_enc)

lemma to_le_from_le [le_simps]:
  "length bs = 2 \<Longrightarrow> u16_to_le (from_le bs) = bs"
  "length bs = 4 \<Longrightarrow> u32_to_le (from_le bs) = bs"
  "length bs = 8 \<Longrightarrow> u64_to_le (from_le bs) = bs"
  using le_val_bound [of bs] le_enc_le_val [of bs]
  by (simp_all add: from_le_def u16_to_le_def u32_to_le_def u64_to_le_def unat_of_nat)

lemma le_val_eq_0_iff: "le_val bs = 0 \<longleftrightarrow> (\<forall>b \<in> set bs. b = 0)"
  by (induction bs) (auto simp: unat_eq_zero)

text \<open>
  The contract of a fixed-width integer codec: \<open>encode\<close> writes exactly \<open>width\<close> bytes and
  \<open>decode\<close> inverts it, also when the bytes are read back out of a larger buffer.
\<close>

locale byte_codec =
  fixes width :: nat and encode :: "'v \<Rightarrow> bytes" and decode :: "bytes \<Rightarrow> 'v"
  assumes encode_length: "length (encode v) = width"
    and decode_encode: "decode (encode v) = v"
    and encode_decode: "length bs = width \<Longrightarrow> encode (decode bs) = bs"
begin

lemma read_after_write:
  assumes "off + width \<le> length buf"
  shows "decode (segment (blit buf off (encode v)) off (off + width)) = v"
  using assms segment_blit_same [of off "encode v" buf] by (simp add: encode_length decode_encode)

lemma write_back_identity:
  assumes "off + width \<le> length buf"
  shows "blit buf off (encode (decode (segment buf off (off + width)))) = buf"
proof -
  have "encode (decode (segment buf off (off + width))) = segment buf off (off + width)"
    using assms by (intro encode_decode) simp
  moreover have "take off buf @ segment buf off (off + width) @ drop (off + width) buf = buf"
    using append_take_drop_id [of width "drop off buf"] append_take_drop_id [of off buf]
    by (simp add: segment_def add.commute)
  ultimately show ?thesis using assms by (simp add: blit_def)
qed

lemma encode_inj: "encode v = encode w \<Longrightarrow> v = w"
  by (metis decode_encode)

lemma read_frame:
  assumes "off + width \<le> length buf" and "j \<le> off \<or> off + width \<le> i"
  shows "segment (blit buf off (encode v)) i j = segment buf i j"
  using assms by (auto simp: encode_length segment_blit_before segment_blit_after)

end

interpretation u16_codec: byte_codec 2 u16_to_le "from_le :: bytes \<Rightarrow> u16"
  by unfold_locales (simp_all add: to_le_from_le)

interpretation u32_codec: byte_codec 4 u32_to_le "from_le :: bytes \<Rightarrow> u32"
  by unfold_locales (simp_all add: to_le_from_le)

interpretation u64_codec: byte_codec 8 u64_to_le "from_le :: bytes \<Rightarrow> u64"
  by unfold_locales (simp_all add: to_le_from_le)

section \<open>Binary search over slices\<close>

text \<open>
  \<open>slice::binary_search_by\<close> as the Rust standard library runs it: the window
  \<open>[base, base + sz)\<close> is halved until one candidate is left. \<open>Inr i\<close> is \<open>Ok(i)\<close> and
  \<open>Inl i\<close> is \<open>Err(i)\<close>, the insertion point.
\<close>

datatype ordering = Less | Equal | Greater

definition cmp_key :: "'k::linorder \<Rightarrow> 'k \<Rightarrow> ordering" where
  "cmp_key a b = (if a < b then Less else if a = b then Equal else Greater)"

function bs_loop :: "('a \<Rightarrow> ordering) \<Rightarrow> 'a list \<Rightarrow> nat \<Rightarrow> nat \<Rightarrow> nat" where
  "bs_loop f xs base sz =
     (if 1 < sz
      then let half = sz div 2; mid = base + half
           in bs_loop f xs (if f (xs ! mid) = Greater then base else mid) (sz - half)
      else base)"
  by pat_completeness auto
termination
  by (relation "measure (\<lambda>(f, xs, base, sz). sz)") auto

declare bs_loop.simps [simp del]

definition binary_search_by :: "('a \<Rightarrow> ordering) \<Rightarrow> 'a list \<Rightarrow> nat + nat" where
  "binary_search_by f xs =
     (if xs = [] then Inl 0
      else let base = bs_loop f xs 0 (length xs)
           in case f (xs ! base) of
                Equal \<Rightarrow> Inr base
              | Less \<Rightarrow> Inl (base + 1)
              | Greater \<Rightarrow> Inl base)"

definition partition_point :: "('a \<Rightarrow> bool) \<Rightarrow> 'a list \<Rightarrow> nat" where
  "partition_point p xs =
     (case binary_search_by (\<lambda>x. if p x then Less else Greater) xs of Inl i \<Rightarrow> i | Inr i \<Rightarrow> i)"

definition partitioned :: "('a \<Rightarrow> bool) \<Rightarrow> 'a list \<Rightarrow> bool" where
  "partitioned p xs \<longleftrightarrow> (\<forall>i j. i < j \<and> j < length xs \<and> p (xs ! j) \<longrightarrow> p (xs ! i))"

lemma bs_loop_bound:
  assumes "0 < sz" "base + sz \<le> length xs"
  shows "bs_loop f xs base sz < length xs"
  using assms
proof (induction f xs base sz rule: bs_loop.induct)
  case (1 f xs base sz)
  then show ?case
    by (cases "1 < sz") (auto simp: bs_loop.simps [of f xs base sz] Let_def)
qed

lemma bs_loop_spec:
  assumes "0 < sz" "base + sz \<le> length xs"
    and "base = 0 \<or> f (xs ! base) \<noteq> Greater"
    and "\<And>i. base + sz \<le> i \<Longrightarrow> i < length xs \<Longrightarrow> f (xs ! i) = Greater"
    and "\<And>i j. i < j \<Longrightarrow> j < length xs \<Longrightarrow> f (xs ! i) = Greater \<Longrightarrow> f (xs ! j) = Greater"
  shows "(bs_loop f xs base sz = 0 \<or> f (xs ! bs_loop f xs base sz) \<noteq> Greater)
         \<and> (\<forall>i. bs_loop f xs base sz < i \<and> i < length xs \<longrightarrow> f (xs ! i) = Greater)"
  using assms
proof (induction f xs base sz rule: bs_loop.induct)
  case (1 f xs base sz)
  show ?case
  proof (cases "1 < sz")
    case False
    then have "bs_loop f xs base sz = base" and "sz = 1"
      using "1.prems"(1) by (simp_all add: bs_loop.simps [of f xs base sz])
    then show ?thesis using "1.prems"(3,4) by simp
  next
    case True
    define base' where "base' = (if f (xs ! (base + sz div 2)) = Greater then base else base + sz div 2)"
    have le: "base' + (sz - sz div 2) \<le> length xs" "0 < sz - sz div 2"
      using "1.prems"(2) True by (auto simp: base'_def)
    have above: "f (xs ! i) = Greater" if "base' + (sz - sz div 2) \<le> i" "i < length xs" for i
    proof (cases "f (xs ! (base + sz div 2)) = Greater")
      case True
      then have "base + sz div 2 \<le> i" using that by (simp add: base'_def)
      then show ?thesis using "1.prems"(5) [of "base + sz div 2" i] that True
        by (cases "base + sz div 2 = i") auto
    next
      case False
      then show ?thesis using that "1.prems"(4) by (simp add: base'_def)
    qed
    have "base' = 0 \<or> f (xs ! base') \<noteq> Greater"
      using "1.prems"(3) by (simp add: base'_def)
    from "1.IH" [OF True refl refl, folded base'_def, OF le(2) le(1) this above "1.prems"(5)]
    show ?thesis using True
      by (simp add: bs_loop.simps [of f xs base sz] Let_def base'_def [symmetric])
  qed
qed

lemma takeWhile_length_eqI:
  assumes "k \<le> length xs" and "\<And>i. i < k \<Longrightarrow> p (xs ! i)" and "k = length xs \<or> \<not> p (xs ! k)"
  shows "length (takeWhile p xs) = k"
  using assms
proof (induction xs arbitrary: k)
  case (Cons x xs)
  show ?case
  proof (cases k)
    case 0
    with Cons.prems(3) show ?thesis by simp
  next
    case (Suc k')
    have "p x" using Cons.prems(2) [of 0] Suc by simp
    moreover have "length (takeWhile p xs) = k'"
      by (rule Cons.IH) (use Cons.prems Suc in \<open>force+\<close>)
    ultimately show ?thesis using Suc by simp
  qed
qed simp

lemma partition_point_takeWhile:
  assumes "partitioned p xs"
  shows "partition_point p xs = length (takeWhile p xs)"
proof (cases "xs = []")
  case True
  then show ?thesis by (simp add: partition_point_def binary_search_by_def)
next
  case False
  define f where "f = (\<lambda>x. if p x then Less else Greater)"
  define r where "r = bs_loop f xs 0 (length xs)"
  have f: "f x = Greater \<longleftrightarrow> \<not> p x" for x by (simp add: f_def)
  have mono: "f (xs ! j) = Greater" if "i < j" "j < length xs" "f (xs ! i) = Greater" for i j
    using assms that unfolding f partitioned_def by blast
  have r: "r < length xs" using bs_loop_bound [of "length xs" 0 xs f] False by (simp add: r_def)
  have r0: "r = 0 \<or> p (xs ! r)" and r1: "\<forall>i. r < i \<and> i < length xs \<longrightarrow> \<not> p (xs ! i)"
    using bs_loop_spec [of "length xs" 0 xs f] mono False by (auto simp: r_def f)
  have below: "p (xs ! i)" if "i < r" for i
    using that r r0 assms unfolding partitioned_def by blast
  have eq: "partition_point p xs = (if p (xs ! r) then r + 1 else r)"
    using False by (simp add: partition_point_def binary_search_by_def f_def [symmetric] r_def
        Let_def) (simp add: f_def)
  show ?thesis
  proof (cases "p (xs ! r)")
    case True
    have "length (takeWhile p xs) = r + 1"
      by (rule takeWhile_length_eqI) (use r r1 below True in \<open>auto simp: less_Suc_eq\<close>)
    with True eq show ?thesis by simp
  next
    case False
    have "length (takeWhile p xs) = r"
      by (rule takeWhile_length_eqI) (use r below False in auto)
    with False eq show ?thesis by simp
  qed
qed

lemma partition_point_le: "partition_point p xs \<le> length xs"
proof (cases "xs = []")
  case True
  then show ?thesis by (simp add: partition_point_def binary_search_by_def)
next
  case False
  then show ?thesis
    using bs_loop_bound [of "length xs" 0 xs "\<lambda>x. if p x then Less else Greater"]
    by (auto simp: partition_point_def binary_search_by_def Let_def)
qed

lemma sorted_partitioned:
  assumes "sorted (map f xs)"
  shows "partitioned (\<lambda>x. f x \<le> h) xs"
  unfolding partitioned_def
proof (intro allI impI)
  fix i j assume *: "i < j \<and> j < length xs \<and> f (xs ! j) \<le> h"
  then have "map f xs ! i \<le> map f xs ! j"
    using assms by (intro sorted_nth_mono) auto
  with * show "f (xs ! i) \<le> h" by (auto intro: order_trans)
qed

section \<open>Ordered maps and sets\<close>

text \<open>
  \<open>BTreeMap\<close> and \<open>BTreeSet\<close> are lists with strictly ascending keys, so that iteration order is
  the code's. \<open>FxHashMap\<close> uses the same representation: the modelled code either never iterates
  over it or sorts what it collected, so its unspecified order is not observable.
\<close>

type_synonym ('k, 'v) btree_map = "('k \<times> 'v) list"

definition bt_inv :: "('k::linorder, 'v) btree_map \<Rightarrow> bool" where
  "bt_inv m \<longleftrightarrow> sorted_wrt (<) (map fst m)"

abbreviation bt_get :: "('k, 'v) btree_map \<Rightarrow> 'k \<Rightarrow> 'v option" where
  "bt_get \<equiv> map_of"

fun bt_insert :: "'k::linorder \<Rightarrow> 'v \<Rightarrow> ('k, 'v) btree_map \<Rightarrow> ('k, 'v) btree_map" where
  "bt_insert k v [] = [(k, v)]"
| "bt_insert k v ((k', v') # m) =
     (if k < k' then (k, v) # (k', v') # m
      else if k = k' then (k, v) # m
      else (k', v') # bt_insert k v m)"

definition bt_remove :: "'k \<Rightarrow> ('k, 'v) btree_map \<Rightarrow> ('k, 'v) btree_map" where
  "bt_remove k m = filter (\<lambda>e. fst e \<noteq> k) m"

fun bts_insert :: "'k::linorder \<Rightarrow> 'k list \<Rightarrow> 'k list" where
  "bts_insert k [] = [k]"
| "bts_insert k (k' # ks) =
     (if k < k' then k # k' # ks else if k = k' then k' # ks else k' # bts_insert k ks)"

lemma fst_set_bt_insert: "fst ` set (bt_insert k v m) = insert k (fst ` set m)"
  by (induction k v m rule: bt_insert.induct) auto

lemma bt_inv_Nil [simp]: "bt_inv []"
  by (simp add: bt_inv_def)

lemma bt_inv_Cons: "bt_inv ((k, v) # m) \<longleftrightarrow> (\<forall>k' \<in> fst ` set m. k < k') \<and> bt_inv m"
  by (auto simp: bt_inv_def)

lemma bt_inv_insert [intro]: "bt_inv m \<Longrightarrow> bt_inv (bt_insert k v m)"
proof (induction k v m rule: bt_insert.induct)
  case (2 k v k' v' m)
  show ?case
  proof (cases "k < k'")
    case True
    with "2.prems" show ?thesis by (auto simp: bt_inv_Cons)
  next
    case False
    with 2 show ?thesis by (auto simp: bt_inv_Cons fst_set_bt_insert)
  qed
qed (simp add: bt_inv_def)

lemma bt_get_insert [simp]:
  "bt_inv m \<Longrightarrow> bt_get (bt_insert k v m) k' = (if k' = k then Some v else bt_get m k')"
  by (induction k v m rule: bt_insert.induct) (auto simp: bt_inv_Cons)

lemma bt_inv_filter: "bt_inv m \<Longrightarrow> bt_inv (filter P m)"
  by (induction m) (auto simp: bt_inv_Cons)

lemma bt_inv_remove [intro]: "bt_inv m \<Longrightarrow> bt_inv (bt_remove k m)"
  by (simp add: bt_remove_def bt_inv_filter)

lemma bt_get_remove [simp]: "bt_get (bt_remove k m) k' = (if k' = k then None else bt_get m k')"
  by (induction m) (auto simp: bt_remove_def)

lemma bt_inv_map_values [simp]: "bt_inv (map (\<lambda>(k, v). (k, f k v)) m) \<longleftrightarrow> bt_inv m"
  by (simp add: bt_inv_def comp_def case_prod_beta)

lemma bt_get_map_values: "bt_get (map (\<lambda>(k, v). (k, f k v)) m) k = map_option (f k) (bt_get m k)"
  by (induction m) auto

lemma bt_inv_distinct: "bt_inv m \<Longrightarrow> distinct (map fst m)"
  by (simp add: bt_inv_def strict_sorted_iff)

lemma bt_mem_iff_get: "bt_inv m \<Longrightarrow> (k, v) \<in> set m \<longleftrightarrow> bt_get m k = Some v"
  by (simp add: bt_inv_distinct)

lemma bt_get_None_iff: "bt_get m k = None \<longleftrightarrow> k \<notin> fst ` set m"
  by (rule map_of_eq_None_iff)

lemma set_bts_insert [simp]: "set (bts_insert k ks) = insert k (set ks)"
  by (induction k ks rule: bts_insert.induct) auto

lemma sorted_bts_insert [intro]: "sorted_wrt (<) ks \<Longrightarrow> sorted_wrt (<) (bts_insert k ks)"
  by (induction k ks rule: bts_insert.induct) auto

section \<open>Text formatting\<close>

text \<open>\<open>format!("{}")\<close> of an unsigned integer and \<open>format!("{:#010x}")\<close> of a \<open>u32\<close>.\<close>

definition digit_char :: "nat \<Rightarrow> char" where
  "digit_char d = (if d < 10 then char_of (48 + d) else char_of (87 + d))"

fun show_nat :: "nat \<Rightarrow> string" where
  "show_nat n = (if n < 10 then [digit_char n] else show_nat (n div 10) @ [digit_char (n mod 10)])"

declare show_nat.simps [simp del]

definition show_hex010 :: "u32 \<Rightarrow> string" where
  "show_hex010 x = ''0x'' @ map (\<lambda>i. digit_char (unat x div 16 ^ i mod 16)) (rev [0..<8])"

end
