(* ===== verification/Ffs_Error.thy ===== *)
theory Ffs_Error
  imports Prelude
begin

text \<open>
  The error taxonomy of the crate \<open>ffs-error\<close>: \<open>FfsError\<close>, the error type every FUSE
  handler and library call returns, and its translation to a POSIX errno. \<open>std::io::Error\<close> is
  seen through the two observers the code uses, \<open>raw_os_error()\<close> and \<open>kind()\<close>. The errno
  constants are those of the Linux ABI.
\<close>

section \<open>Errors\<close>

datatype io_error_kind =
    KNotFound | KPermissionDenied | KAlreadyExists | KWouldBlock | KNotADirectory | KIsADirectory
  | KDirectoryNotEmpty | KReadOnlyFilesystem | KStorageFull | KQuotaExceeded | KFileTooLarge
  | KResourceBusy | KExecutableFileBusy | KDeadlock | KCrossesDevices | KTooManyLinks
  | KInvalidFilename | KArgumentListTooLong | KNotSeekable | KHostUnreachable
  | KNetworkUnreachable | KNetworkDown | KStaleNetworkFileHandle | KOutOfMemory | KInvalidInput
  | KInvalidData | KTimedOut | KInterrupted | KWriteZero | KUnexpectedEof | KBrokenPipe
  | KConnectionReset | KConnectionAborted | KNotConnected | KAddrInUse | KAddrNotAvailable
  | KConnectionRefused | KUnsupported | KOther

record io_error =
  raw_os_error :: "i32 option"
  kind :: io_error_kind

datatype ffs_error =
    Io io_error
  | RequestRejected i32 string
  | Corruption u64 string
  | Format string
  | Parse string
  | UnsupportedFeature string
  | IncompatibleFeature string
  | UnsupportedBlockSize string
  | InvalidGeometry string
  | MvccConflict u64 u64
  | Cancelled
  | NoSpace
  | NotFound string
  | PermissionDenied
  | ReadOnly
  | NotDirectory
  | IsDirectory
  | NotEmpty
  | NameTooLong
  | Exists
  | RepairFailed string
  | ModeViolation string

type_synonym 'a ffs_result = "ffs_error + 'a"

section \<open>Errno mapping\<close>

fun io_kind_errno :: "io_error_kind \<Rightarrow> i32" where
  "io_kind_errno KNotFound = 2"
| "io_kind_errno KPermissionDenied = 13"
| "io_kind_errno KAlreadyExists = 17"
| "io_kind_errno KWouldBlock = 11"
| "io_kind_errno KNotADirectory = 20"
| "io_kind_errno KIsADirectory = 21"
| "io_kind_errno KDirectoryNotEmpty = 39"
| "io_kind_errno KReadOnlyFilesystem = 30"
| "io_kind_errno KStorageFull = 28"
| "io_kind_errno KQuotaExceeded = 122"
| "io_kind_errno KFileTooLarge = 27"
| "io_kind_errno KResourceBusy = 16"
| "io_kind_errno KExecutableFileBusy = 26"
| "io_kind_errno KDeadlock = 35"
| "io_kind_errno KCrossesDevices = 18"
| "io_kind_errno KTooManyLinks = 31"
| "io_kind_errno KInvalidFilename = 22"
| "io_kind_errno KArgumentListTooLong = 7"
| "io_kind_errno KNotSeekable = 29"
| "io_kind_errno KHostUnreachable = 113"
| "io_kind_errno KNetworkUnreachable = 101"
| "io_kind_errno KNetworkDown = 100"
| "io_kind_errno KStaleNetworkFileHandle = 116"
| "io_kind_errno KOutOfMemory = 12"
| "io_kind_errno KInvalidInput = 22"
| "io_kind_errno KInvalidData = 22"
| "io_kind_errno KTimedOut = 110"
| "io_kind_errno KInterrupted = 4"
| "io_kind_errno _ = 5"

fun to_errno :: "ffs_error \<Rightarrow> i32" where
  "to_errno (RequestRejected errno _) = (if 0 < sint errno then errno else 5)"
| "to_errno (Io err) =
     (case raw_os_error err of
        Some errno \<Rightarrow> (if 0 < sint errno then errno else 5)
      | None \<Rightarrow> io_kind_errno (kind err))"
| "to_errno (Corruption _ _) = 5"
| "to_errno (RepairFailed _) = 5"
| "to_errno (Format _) = 22"
| "to_errno (Parse _) = 22"
| "to_errno (InvalidGeometry _) = 22"
| "to_errno (UnsupportedFeature _) = 95"
| "to_errno (IncompatibleFeature _) = 95"
| "to_errno (UnsupportedBlockSize _) = 95"
| "to_errno (MvccConflict _ _) = 11"
| "to_errno Cancelled = 4"
| "to_errno NoSpace = 28"
| "to_errno (NotFound _) = 2"
| "to_errno PermissionDenied = 13"
| "to_errno ReadOnly = 30"
| "to_errno NotDirectory = 20"
| "to_errno IsDirectory = 21"
| "to_errno NotEmpty = 39"
| "to_errno NameTooLong = 36"
| "to_errno Exists = 17"
| "to_errno (ModeViolation _) = 1"

lemma io_kind_errno_pos: "0 < sint (io_kind_errno k)"
  by (cases k) simp_all

text \<open>
  The errno handed to the FUSE layer is positive for every error value, so no failed
  operation is ever reported to the kernel as success.
\<close>

lemma errno_never_success: "0 < sint (to_errno e)"
proof (cases e)
  case (Io err)
  then show ?thesis by (cases "raw_os_error err") (simp_all add: io_kind_errno_pos)
qed simp_all

end
