(* ===== verification/Ffs_Types.thy ===== *)
theory Ffs_Types
  imports Prelude
begin

text \<open>
  The crate \<open>ffs-types\<close>: the unit-carrying newtypes (block, inode, transaction and commit
  numbers, byte offsets), the parse errors, the bounds-checked little-endian readers and
  writers every on-disk parser is built on, block-size validation, alignment, group arithmetic,
  and the file-mode predicates. Functions that panic in Rust return \<open>None\<close> for the panic.
\<close>

section \<open>Newtypes\<close>

datatype block_number = BlockNumber (bn_val: u64)
datatype inode_number = InodeNumber (ino_val: u64)
datatype txn_id = TxnId (txn_val: u64)
datatype commit_seq = CommitSeq (seq_val: u64)
datatype block_size = BlockSize (bs_val: u32)
datatype group_number = GroupNumber (group_val: u32)
datatype byte_offset = ByteOffset (off_val: u64)
datatype ext4_inode_number = Ext4InodeNumber (ext4_ino_val: u32)
datatype btrfs_object_id = BtrfsObjectId (btrfs_oid_val: u64)
datatype device_id = DeviceId (dev_val: u128)

record snapshot =
  high :: commit_seq

datatype mount_mode = Compat | Native

instantiation block_number :: linorder
begin

definition less_eq_block_number :: "block_number \<Rightarrow> block_number \<Rightarrow> bool" where
  "a \<le> b \<longleftrightarrow> bn_val a \<le> bn_val b"

definition less_block_number :: "block_number \<Rightarrow> block_number \<Rightarrow> bool" where
  "a < b \<longleftrightarrow> bn_val a < bn_val b"

instance
  by standard (auto simp: less_eq_block_number_def less_block_number_def intro: block_number.expand)

end

instantiation commit_seq :: linorder
begin

definition less_eq_commit_seq :: "commit_seq \<Rightarrow> commit_seq \<Rightarrow> bool" where
  "a \<le> b \<longleftrightarrow> seq_val a \<le> seq_val b"

definition less_commit_seq :: "commit_seq \<Rightarrow> commit_seq \<Rightarrow> bool" where
  "a < b \<longleftrightarrow> seq_val a < seq_val b"

instance
  by standard (auto simp: less_eq_commit_seq_def less_commit_seq_def intro: commit_seq.expand)

end

lemma commit_seq_le_iff: "CommitSeq a \<le> CommitSeq b \<longleftrightarrow> a \<le> b"
  by (simp add: less_eq_commit_seq_def)

lemma commit_seq_less_iff: "CommitSeq a < CommitSeq b \<longleftrightarrow> a < b"
  by (simp add: less_commit_seq_def)

lemma block_number_less_iff: "BlockNumber a < BlockNumber b \<longleftrightarrow> a < b"
  by (simp add: less_block_number_def)

lemma block_number_le_iff: "BlockNumber a \<le> BlockNumber b \<longleftrightarrow> a \<le> b"
  by (simp add: less_eq_block_number_def)

lemmas newtype_order [simp] =
  commit_seq_le_iff commit_seq_less_iff block_number_less_iff block_number_le_iff

section \<open>Parse errors and bounds-checked access\<close>

datatype parse_error =
    InsufficientData usize usize usize
  | InvalidMagic u64 u64
  | InvalidField string string
  | IntegerConversion string

definition is_native :: "mount_mode \<Rightarrow> bool" where
  "is_native m = (case m of Native \<Rightarrow> True | Compat \<Rightarrow> False)"

definition is_compat :: "mount_mode \<Rightarrow> bool" where
  "is_compat m = (case m of Compat \<Rightarrow> True | Native \<Rightarrow> False)"

definition ensure_slice :: "bytes \<Rightarrow> usize \<Rightarrow> usize \<Rightarrow> parse_error + bytes" where
  "ensure_slice data offset len =
     (case checked_add_usize offset len of
        None \<Rightarrow> Inl (InvalidField ''offset'' ''overflow'')
      | Some e \<Rightarrow>
          if length data < e then Inl (InsufficientData len offset (length data - offset))
          else Inr (segment data offset e))"

definition read_le_u16 :: "bytes \<Rightarrow> usize \<Rightarrow> parse_error + u16" where
  "read_le_u16 data offset = (case ensure_slice data offset 2 of Inl e \<Rightarrow> Inl e | Inr bs \<Rightarrow> Inr (from_le bs))"

definition read_le_u32 :: "bytes \<Rightarrow> usize \<Rightarrow> parse_error + u32" where
  "read_le_u32 data offset = (case ensure_slice data offset 4 of Inl e \<Rightarrow> Inl e | Inr bs \<Rightarrow> Inr (from_le bs))"

definition read_le_u64 :: "bytes \<Rightarrow> usize \<Rightarrow> parse_error + u64" where
  "read_le_u64 data offset = (case ensure_slice data offset 8 of Inl e \<Rightarrow> Inl e | Inr bs \<Rightarrow> Inr (from_le bs))"

definition write_le_u16 :: "bytes \<Rightarrow> usize \<Rightarrow> u16 \<Rightarrow> bytes option" where
  "write_le_u16 data offset val =
     (if offset + 2 \<le> length data then Some (blit data offset (u16_to_le val)) else None)"

definition write_le_u32 :: "bytes \<Rightarrow> usize \<Rightarrow> u32 \<Rightarrow> bytes option" where
  "write_le_u32 data offset val =
     (if offset + 4 \<le> length data then Some (blit data offset (u32_to_le val)) else None)"

definition read_fixed :: "usize \<Rightarrow> bytes \<Rightarrow> usize \<Rightarrow> parse_error + bytes" where
  "read_fixed n data offset = ensure_slice data offset n"

text \<open>\<open>slice::as_chunks::<N>\<close>: the full chunks of \<open>n\<close> bytes and the remainder.\<close>

fun as_chunks :: "nat \<Rightarrow> 'a list \<Rightarrow> 'a list list \<times> 'a list" where
  "as_chunks n xs =
     (if n = 0 \<or> length xs < n then ([], xs)
      else let (cs, rest) = as_chunks n (drop n xs) in (take n xs # cs, rest))"

declare as_chunks.simps [simp del]

definition cache_line_nonzero :: "bytes \<Rightarrow> bool" where
  "cache_line_nonzero line =
     (let word0 = (from_le (segment line 0 16) :: u128);
          word1 = from_le (segment line 16 32);
          word2 = from_le (segment line 32 48);
          word3 = from_le (segment line 48 64)
      in (word0 OR word1 OR word2 OR word3) \<noteq> 0)"

definition all_zero_bytes :: "bytes \<Rightarrow> bool" where
  "all_zero_bytes bs =
     (let (cache_lines, tail) = as_chunks 64 bs
      in if list_ex cache_line_nonzero cache_lines then False
         else let (lanes, rest) = as_chunks 16 tail
              in if list_ex (\<lambda>lane. (from_le lane :: u128) \<noteq> 0) lanes then False
                 else list_all (\<lambda>b. b = 0) rest)"

section \<open>Powers of two, block sizes, alignment\<close>

definition count_ones :: "'a::len word \<Rightarrow> nat" where
  "count_ones w = length (filter (bit w) [0..<LENGTH('a)])"

definition trailing_zeros :: "'a::len word \<Rightarrow> nat" where
  "trailing_zeros w = length (takeWhile (\<lambda>i. \<not> bit w i) [0..<LENGTH('a)])"

definition is_power_of_two :: "'a::len word \<Rightarrow> bool" where
  "is_power_of_two w \<longleftrightarrow> count_ones w = 1"

definition is_power_of_two_u32 :: "u32 \<Rightarrow> bool" where
  "is_power_of_two_u32 value = is_power_of_two value"

definition block_size_new :: "u32 \<Rightarrow> parse_error + block_size" where
  "block_size_new value =
     (if \<not> is_power_of_two value \<or> \<not> (1024 \<le> value \<and> value \<le> 65536)
      then Inl (InvalidField ''block_size'' ''must be power of two in 1024..=65536'')
      else Inr (BlockSize value))"

definition block_size_shift :: "block_size \<Rightarrow> nat" where
  "block_size_shift bs = trailing_zeros (bs_val bs)"

definition byte_to_block :: "block_size \<Rightarrow> u64 \<Rightarrow> block_number" where
  "byte_to_block bs byte_off = BlockNumber (drop_bit (block_size_shift bs) byte_off)"

definition block_to_byte :: "block_size \<Rightarrow> block_number \<Rightarrow> u64 option" where
  "block_to_byte bs block = checked_mul (bn_val block) (ucast (bs_val bs))"

definition checked_mul_block :: "block_number \<Rightarrow> block_size \<Rightarrow> byte_offset option" where
  "checked_mul_block block bs = map_option ByteOffset (checked_mul (bn_val block) (ucast (bs_val bs)))"

definition ext4_block_size_from_log :: "u32 \<Rightarrow> u32 option" where
  "ext4_block_size_from_log log_block_size =
     (case checked_add 10 log_block_size of
        None \<Rightarrow> None
      | Some shift \<Rightarrow> if unat shift < 32 then Some (push_bit (unat shift) 1) else None)"

definition align_down :: "u64 \<Rightarrow> u64 \<Rightarrow> u64 option" where
  "align_down value alignment =
     (if alignment = 0 \<or> \<not> is_power_of_two alignment then None
      else Some (value AND NOT (alignment - 1)))"

definition align_up :: "u64 \<Rightarrow> u64 \<Rightarrow> u64 option" where
  "align_up value alignment =
     (if alignment = 0 \<or> \<not> is_power_of_two alignment then None
      else let mask = alignment - 1
           in map_option (\<lambda>v. v AND NOT mask) (checked_add value mask))"

section \<open>Numbers and groups\<close>

definition inode_to_ext4 :: "inode_number \<Rightarrow> parse_error + ext4_inode_number" where
  "inode_to_ext4 ino =
     (case (try_from_nat (unat (ino_val ino)) :: u32 option) of
        Some v \<Rightarrow> Inr (Ext4InodeNumber v)
      | None \<Rightarrow> Inl (IntegerConversion ''inode_number''))"

definition ext4_inode_to_canonical :: "ext4_inode_number \<Rightarrow> inode_number" where
  "ext4_inode_to_canonical ino = InodeNumber (ucast (ext4_ino_val ino))"

definition inode_to_btrfs :: "inode_number \<Rightarrow> btrfs_object_id" where
  "inode_to_btrfs ino = BtrfsObjectId (ino_val ino)"

definition btrfs_oid_to_canonical :: "btrfs_object_id \<Rightarrow> inode_number" where
  "btrfs_oid_to_canonical oid = InodeNumber (btrfs_oid_val oid)"

definition device_id_from_uuid_bytes_be :: "bytes \<Rightarrow> device_id" where
  "device_id_from_uuid_bytes_be bs = DeviceId (from_le (rev bs))"

definition device_id_to_uuid_bytes_be :: "device_id \<Rightarrow> bytes" where
  "device_id_to_uuid_bytes_be d = rev (le_enc 16 (unat (dev_val d)))"

definition u64_to_u32 :: "u64 \<Rightarrow> string \<Rightarrow> parse_error + u32" where
  "u64_to_u32 value field =
     (case try_from_nat (unat value) of Some v \<Rightarrow> Inr v | None \<Rightarrow> Inl (IntegerConversion field))"

definition block_to_group :: "block_number \<Rightarrow> u32 \<Rightarrow> u32 \<Rightarrow> group_number" where
  "block_to_group block blocks_per_group first_data_block =
     (if blocks_per_group = 0 then GroupNumber 0
      else let adjusted = saturating_sub (bn_val block) (ucast first_data_block)
           in GroupNumber (ucast (adjusted div ucast blocks_per_group)))"

definition group_first_block :: "group_number \<Rightarrow> u32 \<Rightarrow> u32 \<Rightarrow> block_number option" where
  "group_first_block grp blocks_per_group first_data_block =
     (case checked_mul (ucast (group_val grp) :: u64) (ucast blocks_per_group) of
        None \<Rightarrow> None
      | Some offset \<Rightarrow> map_option BlockNumber (checked_add offset (ucast first_data_block)))"

definition inode_to_group :: "inode_number \<Rightarrow> u32 \<Rightarrow> group_number" where
  "inode_to_group ino inodes_per_group =
     (if inodes_per_group = 0 then GroupNumber 0
      else GroupNumber (ucast (saturating_sub (ino_val ino) 1 div ucast inodes_per_group)))"

definition inode_index_in_group :: "inode_number \<Rightarrow> u32 \<Rightarrow> u32" where
  "inode_index_in_group ino inodes_per_group =
     (if inodes_per_group = 0 then 0
      else ucast (saturating_sub (ino_val ino) 1 mod ucast inodes_per_group))"

section \<open>File modes\<close>

definition S_IFMT :: u16 where "S_IFMT = 0xF000"
definition S_IFIFO :: u16 where "S_IFIFO = 0x1000"
definition S_IFCHR :: u16 where "S_IFCHR = 0x2000"
definition S_IFDIR :: u16 where "S_IFDIR = 0x4000"
definition S_IFBLK :: u16 where "S_IFBLK = 0x6000"
definition S_IFREG :: u16 where "S_IFREG = 0x8000"
definition S_IFLNK :: u16 where "S_IFLNK = 0xA000"
definition S_IFSOCK :: u16 where "S_IFSOCK = 0xC000"

lemmas mode_defs = S_IFMT_def S_IFIFO_def S_IFCHR_def S_IFDIR_def S_IFBLK_def S_IFREG_def
  S_IFLNK_def S_IFSOCK_def

definition is_regular_file :: "u16 \<Rightarrow> bool" where
  "is_regular_file mode \<longleftrightarrow> mode AND S_IFMT = S_IFREG"

definition is_directory :: "u16 \<Rightarrow> bool" where
  "is_directory mode \<longleftrightarrow> mode AND S_IFMT = S_IFDIR"

definition is_symlink :: "u16 \<Rightarrow> bool" where
  "is_symlink mode \<longleftrightarrow> mode AND S_IFMT = S_IFLNK"

definition is_character_device :: "u16 \<Rightarrow> bool" where
  "is_character_device mode \<longleftrightarrow> mode AND S_IFMT = S_IFCHR"

definition is_block_device :: "u16 \<Rightarrow> bool" where
  "is_block_device mode \<longleftrightarrow> mode AND S_IFMT = S_IFBLK"

definition is_fifo :: "u16 \<Rightarrow> bool" where
  "is_fifo mode \<longleftrightarrow> mode AND S_IFMT = S_IFIFO"

definition is_socket :: "u16 \<Rightarrow> bool" where
  "is_socket mode \<longleftrightarrow> mode AND S_IFMT = S_IFSOCK"

section \<open>Powers of two and alignment: lemmas\<close>


section \<open>Lemmas\<close>

lemma word_of_nat_unatI: "unat w = n \<Longrightarrow> w = of_nat n"
  by auto

lemma unat_ucast_wider [simp]:
  "LENGTH('a) \<le> LENGTH('b) \<Longrightarrow> unat (ucast (w :: 'a::len word) :: 'b::len word) = unat w"
proof -
  assume le: "LENGTH('a) \<le> LENGTH('b)"
  have "unat w < 2 ^ LENGTH('a)" by simp
  also have "\<dots> \<le> 2 ^ LENGTH('b)" using le by simp
  finally have "unat w < 2 ^ LENGTH('b)" .
  then show ?thesis by (simp add: unsigned_ucast_eq take_bit_nat_eq_self)
qed

lemma unat_ucast_narrow:
  "unat (ucast (w :: 'a::len word) :: 'b::len word) = unat w mod 2 ^ LENGTH('b)"
  by (simp add: unsigned_ucast_eq take_bit_eq_mod)

lemma filter_singleton_iff:
  assumes "filter P [0..<n] = [k]"
  shows "k < n" "i < n \<Longrightarrow> P i \<longleftrightarrow> i = k"
proof -
  have "set (filter P [0..<n]) = {k}" using assms by simp
  then have *: "{i. i < n \<and> P i} = {k}" by auto
  then show "k < n" by auto
  show "i < n \<Longrightarrow> P i \<longleftrightarrow> i = k" using * by auto
qed

lemma filter_eq_upt: "k < n \<Longrightarrow> filter (\<lambda>i. i = k) [0..<n] = [k]"
  by (induction n) (auto simp: less_Suc_eq)

lemma is_power_of_two_iff:
  "is_power_of_two (w :: 'a::len word) \<longleftrightarrow> (\<exists>k < LENGTH('a). w = 2 ^ k)"
proof
  assume "is_power_of_two w"
  then obtain k where k: "filter (bit w) [0..<LENGTH('a)] = [k]"
    by (auto simp: is_power_of_two_def count_ones_def length_Suc_conv)
  have "w = 2 ^ k"
    by (rule bit_eqI) (use filter_singleton_iff [OF k] in \<open>auto simp: bit_exp_iff\<close>)
  with filter_singleton_iff(1) [OF k] show "\<exists>k < LENGTH('a). w = 2 ^ k" by blast
next
  assume "\<exists>k < LENGTH('a). w = 2 ^ k"
  then obtain k where k: "k < LENGTH('a)" "w = 2 ^ k" by blast
  have "filter (bit w) [0..<LENGTH('a)] = filter (\<lambda>i. i = k) [0..<LENGTH('a)]"
    by (rule filter_cong) (auto simp: k bit_exp_iff)
  with filter_eq_upt [OF k(1)] show "is_power_of_two w"
    by (simp add: is_power_of_two_def count_ones_def)
qed

lemma unat_exp: "k < LENGTH('a) \<Longrightarrow> unat (2 ^ k :: 'a::len word) = 2 ^ k"
proof -
  assume "k < LENGTH('a)"
  moreover have "(2 ^ k :: 'a word) = of_nat (2 ^ k)" by simp
  ultimately show ?thesis by (simp only: unat_of_nat) simp
qed

lemma trailing_zeros_exp: "k < LENGTH('a) \<Longrightarrow> trailing_zeros (2 ^ k :: 'a::len word) = k"
  unfolding trailing_zeros_def
  by (rule takeWhile_length_eqI) (auto simp: bit_exp_iff)

lemma and_not_low_mask:
  assumes "k < LENGTH('a)"
  shows "unat (v AND NOT (2 ^ k - 1 :: 'a::len word)) = unat v - unat v mod 2 ^ k"
proof -
  have "v AND NOT (2 ^ k - 1) = push_bit k (drop_bit k v)"
    by (rule bit_eqI) (auto simp: bit_and_iff bit_not_iff bit_push_bit_iff bit_drop_bit_eq
        bit_mask_iff simp flip: mask_eq_exp_minus_1)
  also have "\<dots> = v - take_bit k v"
    using bits_ident [of k v] by (simp add: algebra_simps)
  finally have eq: "v AND NOT (2 ^ k - 1) = v - take_bit k v" .
  have t: "unat (take_bit k v) = unat v mod 2 ^ k"
    unfolding unsigned_take_bit_eq by (simp add: take_bit_eq_mod)
  then have "take_bit k v \<le> v" by (simp add: word_le_nat_alt)
  then show ?thesis by (simp add: eq t unat_sub_le)
qed

lemma align_downD:
  assumes "align_down v a = Some r"
  shows "\<exists>k < 64. a = 2 ^ k \<and> unat r = unat v div 2 ^ k * 2 ^ k"
proof -
  from assms obtain k where k: "k < 64" "a = 2 ^ k" and r: "r = v AND NOT (a - 1)"
    by (auto simp: align_down_def is_power_of_two_iff split: if_splits)
  then have "unat r = unat v - unat v mod 2 ^ k" by (simp add: and_not_low_mask)
  with k show ?thesis by (auto simp: minus_mod_eq_div_mult)
qed

lemma align_up_pow2:
  assumes "k < 64"
  shows "align_up v (2 ^ k) =
    (if unat v + (2 ^ k - 1) < 2 ^ 64 then Some (of_nat ((unat v + (2 ^ k - 1)) div 2 ^ k * 2 ^ k)) else None)"
proof -
  have "unat (2 ^ k :: u64) \<noteq> 0" using assms by (simp add: unat_exp)
  then have pos: "(2 ^ k :: u64) \<noteq> 0" by (metis unat_0)
  have pow: "is_power_of_two (2 ^ k :: u64)" using assms by (auto simp: is_power_of_two_iff)
  have "(1 :: u64) \<le> 2 ^ k" using assms by (simp add: word_le_nat_alt unat_exp)
  then have mask: "unat (2 ^ k - 1 :: u64) = 2 ^ k - 1"
    using assms by (simp add: unat_sub_le unat_exp)
  show ?thesis
  proof (cases "unat v + (2 ^ k - 1) < 2 ^ 64")
    case True
    then have sum: "unat (v + (2 ^ k - 1)) = unat v + (2 ^ k - 1)"
      using unat_add_no_overflow [of v "2 ^ k - 1"] mask by simp
    let ?r = "(v + (2 ^ k - 1)) AND NOT (2 ^ k - 1)"
    have "unat ?r = (unat v + (2 ^ k - 1)) div 2 ^ k * 2 ^ k"
      using assms by (simp add: and_not_low_mask sum minus_mod_eq_div_mult)
    then have "?r = of_nat ((unat v + (2 ^ k - 1)) div 2 ^ k * 2 ^ k)"
      by (rule word_of_nat_unatI)
    with True pos pow mask show ?thesis by (simp add: align_up_def checked_add_def Let_def)
  next
    case False
    with pos pow mask show ?thesis by (simp add: align_up_def checked_add_def Let_def)
  qed
qed


lemma unat_pow2_align:
  fixes n :: nat
  assumes "(0::nat) < a"
  shows "n \<le> (n + (a - 1)) div a * a" "(n + (a - 1)) div a * a < n + a"
proof -
  have d: "(n + (a - 1)) div a * a + (n + (a - 1)) mod a = n + (a - 1)" by simp
  have m: "(n + (a - 1)) mod a < a" using assms by simp
  from d m show "n \<le> (n + (a - 1)) div a * a" by linarith
  from d assms show "(n + (a - 1)) div a * a < n + a" by linarith
qed

lemma multiple_overflow_iff:
  assumes "k < 64"
  shows "(\<forall>m. 2 ^ k dvd m \<and> n \<le> m \<longrightarrow> (2 ^ 64 :: nat) \<le> m) \<longleftrightarrow> 2 ^ 64 \<le> n + (2 ^ k - 1)"
    (is "?all \<longleftrightarrow> ?ov")
proof
  assume ?all
  then have "2 ^ 64 \<le> (n + (2 ^ k - 1)) div 2 ^ k * 2 ^ k"
    using unat_pow2_align(1) [of "2 ^ k" "n"] by simp
  also have "\<dots> \<le> n + (2 ^ k - 1)" by simp
  finally show ?ov .
next
  assume ov: ?ov
  show ?all
  proof (intro allI impI)
    fix m assume m: "2 ^ k dvd m \<and> n \<le> m"
    show "2 ^ 64 \<le> m"
    proof (rule ccontr)
      assume lt: "\<not> 2 ^ 64 \<le> m"
      from m obtain q where q: "m = 2 ^ k * q" by (auto elim: dvdE)
      have pw: "(2 ^ 64 :: nat) = 2 ^ k * 2 ^ (64 - k)" using assms by (simp flip: power_add)
      have "q + 1 \<le> 2 ^ (64 - k)" using lt unfolding q pw by simp
      then have "2 ^ k * (q + 1) \<le> 2 ^ k * 2 ^ (64 - k)" by (rule mult_le_mono2)
      then have "m + 2 ^ k \<le> 2 ^ 64" by (simp only: q pw) (simp add: algebra_simps)
      moreover have "(1 :: nat) \<le> 2 ^ k" by simp
      ultimately show False using ov m by linarith
    qed
  qed
qed

lemma align_down_bounds:
  assumes "align_down v a = Some r"
  shows "unat a dvd unat r" "unat r \<le> unat v" "unat v < unat r + unat a"
proof -
  from assms obtain k where k: "k < 64" "a = 2 ^ k" "unat r = unat v div 2 ^ k * 2 ^ k"
    by (auto dest: align_downD)
  from k show "unat a dvd unat r" "unat r \<le> unat v" by (simp_all add: unat_exp)
  have "unat a = 2 ^ k" using k by (simp add: unat_exp)
  moreover have "unat v mod 2 ^ k < 2 ^ k" by simp
  ultimately show "unat v < unat r + unat a"
    using k(3) div_mult_mod_eq [of "unat v" "2 ^ k"] by linarith
qed

lemma align_up_bounds:
  assumes "align_up v a = Some r"
  shows "unat a dvd unat r" "unat v \<le> unat r" "unat r < unat v + unat a"
proof -
  note r = assms
  then obtain k where k: "k < 64" "a = 2 ^ k"
    by (auto simp: align_up_def is_power_of_two_iff split: if_splits)
  from r k have b: "unat v + (2 ^ k - 1) < 2 ^ 64"
    and ur: "unat r = (unat v + (2 ^ k - 1)) div 2 ^ k * 2 ^ k mod 2 ^ 64"
    by (auto simp: align_up_pow2 unat_of_nat simp del: of_nat_mult split: if_splits)
  have "(unat v + (2 ^ k - 1)) div 2 ^ k * 2 ^ k \<le> unat v + (2 ^ k - 1)" by simp
  from le_less_trans [OF this b] ur
  have "unat r = (unat v + (2 ^ k - 1)) div 2 ^ k * 2 ^ k" by (simp only: mod_less)
  with k unat_pow2_align [of "2 ^ k" "unat v"]
  show "unat a dvd unat r" "unat v \<le> unat r" "unat r < unat v + unat a"
    by (simp_all add: unat_exp)
qed

lemma align_down_None_iff: "align_down v a = None \<longleftrightarrow> \<not> is_power_of_two a"
  by (auto simp: align_down_def is_power_of_two_def count_ones_def)

lemma align_up_None_iff:
  "align_up v a = None \<longleftrightarrow>
     \<not> is_power_of_two a \<or> (\<forall>m. unat a dvd m \<and> unat v \<le> m \<longrightarrow> 2 ^ 64 \<le> m)"
proof (cases "is_power_of_two a")
  case True
  then obtain k where k: "k < 64" "a = 2 ^ k" by (auto simp: is_power_of_two_iff)
  have "align_up v a = None \<longleftrightarrow> 2 ^ 64 \<le> unat v + (2 ^ k - 1)"
    using k by (auto simp: align_up_pow2)
  with multiple_overflow_iff [OF k(1), of "unat v"] k True show ?thesis by (simp add: unat_exp)
next
  case False
  then show ?thesis by (simp add: align_up_def)
qed

section \<open>Zero detection\<close>

lemma as_chunks_concat: "as_chunks n xs = (cs, rest) \<Longrightarrow> concat cs @ rest = xs"
proof (induction n xs arbitrary: cs rest rule: as_chunks.induct)
  case (1 n xs)
  show ?case
  proof (cases "n = 0 \<or> length xs < n")
    case True
    with "1.prems" show ?thesis by (simp add: as_chunks.simps [of n xs])
  next
    case False
    obtain cs' rest' where c: "as_chunks n (drop n xs) = (cs', rest')" by force
    with False "1.prems" have "cs = take n xs # cs'" "rest = rest'"
      by (simp_all add: as_chunks.simps [of n xs])
    moreover have "concat cs' @ rest' = drop n xs" by (rule "1.IH" [OF False c])
    ultimately show ?thesis by simp
  qed
qed

lemma as_chunks_length: "as_chunks n xs = (cs, rest) \<Longrightarrow> \<forall>c \<in> set cs. length c = n"
proof (induction n xs arbitrary: cs rest rule: as_chunks.induct)
  case (1 n xs)
  show ?case
  proof (cases "n = 0 \<or> length xs < n")
    case True
    with "1.prems" show ?thesis by (simp add: as_chunks.simps [of n xs])
  next
    case False
    obtain cs' rest' where c: "as_chunks n (drop n xs) = (cs', rest')" by force
    with False "1.prems" have "cs = take n xs # cs'"
      by (simp add: as_chunks.simps [of n xs])
    with False "1.IH" [OF False c] show ?thesis by simp
  qed
qed

lemma from_le_eq_0_iff:
  assumes "256 ^ length bs \<le> (2 ^ LENGTH('a) :: nat)"
  shows "(from_le bs :: 'a::len word) = 0 \<longleftrightarrow> (\<forall>b \<in> set bs. b = 0)"
proof -
  have "le_val bs < 2 ^ LENGTH('a)" using le_val_bound [of bs] assms by (rule less_le_trans)
  then have "unat (from_le bs :: 'a word) = le_val bs" by (simp add: from_le_def unat_of_nat)
  then show ?thesis by (metis le_val_eq_0_iff unat_eq_zero)
qed

lemma set_segment_split4:
  assumes "length line = 64"
  shows "set line = set (segment line 0 16) \<union> set (segment line 16 32)
           \<union> set (segment line 32 48) \<union> set (segment line 48 64)"
proof -
  have "segment line 0 16 @ segment line 16 32 @ segment line 32 48 @ segment line 48 64 = line"
    using assms by (simp add: segment_append_adjacent)
  then have "set line = set (segment line 0 16 @ segment line 16 32 @ segment line 32 48 @ segment line 48 64)"
    by simp
  then show ?thesis by auto
qed

lemma cache_line_nonzero_iff:
  assumes "length line = 64"
  shows "cache_line_nonzero line \<longleftrightarrow> (\<exists>b \<in> set line. b \<noteq> 0)"
  using assms
  by (simp add: cache_line_nonzero_def or_eq_0_iff from_le_eq_0_iff set_segment_split4 [OF assms])
    blast

lemma all_zero_bytes_iff: "all_zero_bytes bs \<longleftrightarrow> (\<forall>b \<in> set bs. b = 0)"
proof -
  obtain lines tail where l: "as_chunks 64 bs = (lines, tail)" by force
  obtain lanes rest where r: "as_chunks 16 tail = (lanes, rest)" by force
  have bs: "bs = concat lines @ concat lanes @ rest"
    using as_chunks_concat [OF l] as_chunks_concat [OF r] by simp
  have "list_ex cache_line_nonzero lines \<longleftrightarrow> (\<exists>b \<in> set (concat lines). b \<noteq> 0)"
    using as_chunks_length [OF l] by (auto simp: list_ex_iff cache_line_nonzero_iff)
  moreover have "list_ex (\<lambda>lane. (from_le lane :: u128) \<noteq> 0) lanes \<longleftrightarrow> (\<exists>b \<in> set (concat lanes). b \<noteq> 0)"
    using as_chunks_length [OF r] by (auto simp: list_ex_iff from_le_eq_0_iff)
  moreover have "set bs = set (concat lines) \<union> set (concat lanes) \<union> set rest"
    by (subst bs) auto
  ultimately show ?thesis by (simp add: all_zero_bytes_def l r list_all_iff) blast
qed

section \<open>Group arithmetic\<close>

lemma unat_ucast_u32_u64 [simp]: "unat (ucast (x :: u32) :: u64) = unat x"
  by (rule unat_ucast_wider) simp

lemma group_first_block_SomeD:
  assumes "group_first_block g bpg fdb = Some b"
  shows "unat (bn_val b) = unat (group_val g) * unat bpg + unat fdb"
  using assms by (auto simp: group_first_block_def split: option.splits
      dest!: checked_mul_SomeD checked_add_SomeD)

lemma unat_saturating_sub: "unat (saturating_sub a b) = unat a - unat (b :: 'a::len word)"
  by (auto simp: arith_defs unat_sub word_le_nat_alt)

lemma unat_ucast_u64_u32: "unat (x :: u64) < 2 ^ 32 \<Longrightarrow> unat (ucast x :: u32) = unat x"
  by (simp add: unat_ucast_narrow)

lemma block_to_group_val:
  assumes "bpg \<noteq> 0" and "(unat (bn_val b) - unat fdb) div unat bpg < 2 ^ 32"
  shows "unat (group_val (block_to_group b bpg fdb)) = (unat (bn_val b) - unat fdb) div unat bpg"
  using assms by (simp add: block_to_group_def Let_def unat_ucast_u64_u32 unat_div unat_saturating_sub)

section \<open>Properties\<close>

text \<open>
  C39: the blocks of group \<open>grp\<close> are exactly the \<open>blocks_per_group\<close> blocks from
  \<open>group_first_block grp\<close> on: \<open>block_to_group\<close> inverts \<open>group_first_block\<close> on every block at
  or above the first data block whose group number fits \<open>u32\<close>.
\<close>

theorem block_group_partition:
  assumes "bpg \<noteq> 0" and "group_first_block grp bpg fdb = Some s"
    and "unat fdb \<le> unat (bn_val b)" and "(unat (bn_val b) - unat fdb) div unat bpg < 2 ^ 32"
  shows "block_to_group b bpg fdb = grp \<longleftrightarrow>
           unat (bn_val s) \<le> unat (bn_val b) \<and> unat (bn_val b) < unat (bn_val s) + unat bpg"
proof -
  let ?g = "unat (group_val grp)" and ?p = "unat bpg" and ?d = "unat (bn_val b) - unat fdb"
  have p: "0 < ?p" using assms(1) by (simp add: unat_gt_0)
  have "block_to_group b bpg fdb = grp \<longleftrightarrow> unat (group_val (block_to_group b bpg fdb)) = ?g"
    by (metis group_number.expand word_unat_eq_iff)
  also have "\<dots> \<longleftrightarrow> ?d div ?p = ?g" using assms by (simp add: block_to_group_val)
  also have "\<dots> \<longleftrightarrow> ?g * ?p \<le> ?d \<and> ?d < ?g * ?p + ?p"
    using p by (metis add.commute div_nat_eqI dividend_less_div_times div_times_less_eq_dividend mult.commute mult_Suc)
  also have "\<dots> \<longleftrightarrow> unat (bn_val s) \<le> unat (bn_val b) \<and> unat (bn_val b) < unat (bn_val s) + ?p"
    using assms(3) group_first_block_SomeD [OF assms(2)] by linarith
  finally show ?thesis .
qed

theorem block_group_partition_witness:
  "block_to_group (BlockNumber 8193) 8192 1 = GroupNumber 1 \<longleftrightarrow>
     unat (8193 :: u64) \<le> unat (8193 :: u64) \<and> unat (8193 :: u64) < unat (8193 :: u64) + 8192"
  using block_group_partition [of 8192 "GroupNumber 1" 1 "BlockNumber 8193" "BlockNumber 8193"]
  by (simp add: group_first_block_def arith_defs)

text \<open>
  C40: for a power-of-two alignment \<open>align_down\<close> and \<open>align_up\<close> return the neighbouring
  multiples, within one alignment unit of the value. \<open>align_down\<close> fails exactly when the alignment
  is not a power of two; \<open>align_up\<close> fails exactly when the alignment is not a power of two or no
  multiple at or above the value fits \<open>u64\<close>.
\<close>

theorem align_bounds:
  "(align_down v a = Some r \<longrightarrow> unat a dvd unat r \<and> unat r \<le> unat v \<and> unat v < unat r + unat a) \<and>
   (align_up v a = Some r \<longrightarrow> unat a dvd unat r \<and> unat v \<le> unat r \<and> unat r < unat v + unat a) \<and>
   (align_down v a = None \<longleftrightarrow> \<not> is_power_of_two a) \<and>
   (align_up v a = None \<longleftrightarrow>
      \<not> is_power_of_two a \<or> (\<forall>m. unat a dvd m \<and> unat v \<le> m \<longrightarrow> 2 ^ 64 \<le> m))"
  using align_down_bounds [of v a r] align_up_bounds [of v a r] align_up_None_iff [of v a]
    align_down_None_iff [of v a] by simp

theorem align_bounds_witness:
  "align_down 4097 4096 = Some 4096 \<and> align_up 4097 4096 = Some 8192
   \<and> unat (4096 :: u64) dvd unat (8192 :: u64)"
  using align_bounds [of 4097 4096 8192] by (simp add: align_down_def align_up_def
      is_power_of_two_def count_ones_def arith_defs upt_rec) 

text \<open>
  The chunked zero test, which reads 64-byte cache lines and 16-byte lanes before the
  last bytes, accepts exactly the slices whose bytes are all zero.
\<close>

theorem all_zero_bytes_correct: "all_zero_bytes bs = list_all (\<lambda>b. b = 0) bs"
  by (simp add: all_zero_bytes_iff list_all_iff)

end
