(* ===== verification/Dir_Block.thy ===== *)
theory Dir_Block
  imports Ffs_Error Ffs_Types
begin

text \<open>
  The crate \<open>ffs-dir\<close>: ext4 linear directory blocks and the htree index vector. A function that
  takes \<open>block: &mut [u8]\<close> returns its result together with the block it leaves behind, also on
  the error paths, so that a mutation made before an error is visible. A block is walked by
  loops over the byte offset; each loop is a recursive function with the loop variables as
  arguments.

  The refinement of these functions to maps from names to inodes is in \<open>Dir_Refine\<close>.
\<close>

section \<open>Constants, file types, names\<close>

definition DIR_ENTRY_HEADER_LEN :: usize where
  "DIR_ENTRY_HEADER_LEN = 8"

definition EXT4_FT_DIR_CSUM :: u8 where
  "EXT4_FT_DIR_CSUM = 0xDE"

definition INCREMENTAL_DIR_CSUM_MAX_SPAN :: usize where
  "INCREMENTAL_DIR_CSUM_MAX_SPAN = 256"

datatype ext4_file_type = Unknown | RegFile | Dir | Chrdev | Blkdev | Fifo | Sock | Symlink

fun to_raw :: "ext4_file_type \<Rightarrow> u8" where
  "to_raw Unknown = 0"
| "to_raw RegFile = 1"
| "to_raw Dir = 2"
| "to_raw Chrdev = 3"
| "to_raw Blkdev = 4"
| "to_raw Fifo = 5"
| "to_raw Sock = 6"
| "to_raw Symlink = 7"

definition from_raw :: "u8 \<Rightarrow> ext4_file_type" where
  "from_raw val =
     (if val = 1 then RegFile else if val = 2 then Dir else if val = 3 then Chrdev
      else if val = 4 then Blkdev else if val = 5 then Fifo else if val = 6 then Sock
      else if val = 7 then Symlink else Unknown)"

definition corruption :: "string \<Rightarrow> ffs_error" where
  "corruption detail = Corruption 0 detail"

function names_eq_loop :: "bytes \<Rightarrow> bytes \<Rightarrow> nat \<Rightarrow> bool" where
  "names_eq_loop a b i =
     (if i + 8 < length a
      then if (from_le (segment a i (i + 8)) :: u64) \<noteq> from_le (segment b i (i + 8)) then False
           else names_eq_loop a b (i + 8)
      else (from_le (segment a (length a - 8) (length a)) :: u64)
             = from_le (segment b (length a - 8) (length a)))"
  by pat_completeness auto
termination
  by (relation "measure (\<lambda>(a, b, i). length a - i)") auto

declare names_eq_loop.simps [simp del]

definition names_eq :: "bytes \<Rightarrow> bytes \<Rightarrow> bool" where
  "names_eq a b =
     (if length a \<noteq> length b then False
      else if length a < 8 then a = b
      else names_eq_loop a b 0)"

text \<open>\<open>(n + 3) & !3\<close> clears the two low bits.\<close>

definition align4 :: "usize \<Rightarrow> usize" where
  "align4 n = push_bit 2 (drop_bit 2 (n + 3))"

definition required_rec_len :: "usize \<Rightarrow> usize" where
  "required_rec_len name_len = align4 (DIR_ENTRY_HEADER_LEN + name_len)"

definition read_u16_le :: "bytes \<Rightarrow> usize \<Rightarrow> u16 option" where
  "read_u16_le buf off = map_option from_le (get_range buf off (off + 2))"

definition read_u32_le :: "bytes \<Rightarrow> usize \<Rightarrow> u32 option" where
  "read_u32_le buf off = map_option from_le (get_range buf off (off + 4))"

definition write_u16_le :: "bytes \<Rightarrow> usize \<Rightarrow> u16 \<Rightarrow> unit ffs_result \<times> bytes" where
  "write_u16_le buf off val =
     (if off + 2 \<le> length buf then (Inr (), blit buf off (u16_to_le val))
      else (Inl (corruption ''u16 write out of bounds''), buf))"

definition write_u32_le :: "bytes \<Rightarrow> usize \<Rightarrow> u32 \<Rightarrow> unit ffs_result \<times> bytes" where
  "write_u32_le buf off val =
     (if off + 4 \<le> length buf then (Inr (), blit buf off (u32_to_le val))
      else (Inl (corruption ''u32 write out of bounds''), buf))"

definition haszero :: "u64 \<Rightarrow> u64" where
  "haszero v = (v - 0x0101010101010101) AND NOT v AND 0x8080808080808080"

function slash_or_nul_words :: "bytes \<Rightarrow> nat \<Rightarrow> bool" where
  "slash_or_nul_words name i =
     (if i + 8 \<le> length name
      then let w = from_le (segment name i (i + 8))
           in if haszero w OR haszero (w XOR 0x2F2F2F2F2F2F2F2F) \<noteq> 0 then True
              else slash_or_nul_words name (i + 8)
      else list_ex (\<lambda>b. b = 0x2F \<or> b = 0) (drop i name))"
  by pat_completeness auto
termination
  by (relation "measure (\<lambda>(name, i). length name - i)") auto

declare slash_or_nul_words.simps [simp del]

definition name_has_slash_or_nul :: "bytes \<Rightarrow> bool" where
  "name_has_slash_or_nul name = slash_or_nul_words name 0"

definition validate_name :: "bytes \<Rightarrow> unit ffs_result" where
  "validate_name name =
     (if name = [] then Inl (Format ''directory entry name cannot be empty'')
      else if 255 < length name then Inl (Format ''directory entry name exceeds 255 bytes'')
      else if name_has_slash_or_nul name
        then if 0x2F \<in> set name then Inl (Format (''directory entry name cannot contain '' @ [CHR 0x27, CHR 0x2F, CHR 0x27]))
             else Inl (Format ''directory entry name cannot contain NUL'')
      else Inr ())"

definition validate_reserved_tail :: "usize \<Rightarrow> usize \<Rightarrow> usize ffs_result" where
  "validate_reserved_tail block_len reserved_tail =
     (if reserved_tail \<noteq> 0 \<and> reserved_tail < 12
        then Inl (Format ''directory reserved tail must be 0 or at least 12 bytes'')
      else if reserved_tail \<noteq> 0 \<and> reserved_tail mod 4 \<noteq> 0
        then Inl (Format ''directory reserved tail must be 4-byte aligned'')
      else case checked_sub_usize block_len reserved_tail of
             Some limit \<Rightarrow> Inr limit
           | None \<Rightarrow> Inl (Format ''directory reserved tail exceeds block length''))"

definition is_interior_htree_dx_node_block :: "bytes \<Rightarrow> bool" where
  "is_interior_htree_dx_node_block block =
     (if read_u32_le block 0 \<noteq> Some 0 \<or> map_option unat (read_u16_le block 4) \<noteq> Some (length block)
      then False
      else case read_u16_le block 8 of
             None \<Rightarrow> False
           | Some limit \<Rightarrow>
               (case read_u16_le block 10 of
                  None \<Rightarrow> False
                | Some count \<Rightarrow>
                    if count = 0 \<or> limit < count then False
                    else case checked_add_usize 8 (unat count * 8) of
                           None \<Rightarrow> False
                         | Some e \<Rightarrow> e \<le> length block))"

section \<open>Writing one entry\<close>

definition rec_len_too_small :: ffs_error where
  "rec_len_too_small = Format ''directory entry rec_len smaller than minimum''"

definition write_entry ::
  "bytes \<Rightarrow> usize \<Rightarrow> u32 \<Rightarrow> usize \<Rightarrow> ext4_file_type \<Rightarrow> bytes \<Rightarrow> unit ffs_result \<times> bytes" where
  "write_entry block offset ino rec_len file_type name =
     (case try_from_nat (length name) of
        None \<Rightarrow> (Inl (Format ''directory entry name exceeds 255 bytes''), block)
      | Some name_len_u8 \<Rightarrow>
     (case try_from_nat rec_len of
        None \<Rightarrow> (Inl (Format ''directory entry rec_len exceeds u16''), block)
      | Some rec_len_u16 \<Rightarrow>
     (case checked_add_usize offset rec_len of
        None \<Rightarrow> (Inl (Format ''directory entry offset overflow''), block)
      | Some e \<Rightarrow>
          if length block < e
            then (Inl (corruption ''directory entry exceeds block boundary''), block)
          else if rec_len < required_rec_len (length name) then (Inl rec_len_too_small, block)
          else
            let block = blit block offset
                  (u32_to_le ino @ u16_to_le rec_len_u16 @ [name_len_u8, to_raw file_type]);
                block = blit block (offset + DIR_ENTRY_HEADER_LEN) name;
                used = DIR_ENTRY_HEADER_LEN + length name;
                block = (if used < rec_len
                         then blit block (offset + used) (replicate (rec_len - used) 0) else block)
            in (Inr (), block))))"

record dir_edit =
  region_start :: usize
  old_bytes :: bytes

definition dir_block_edit :: "bytes \<Rightarrow> usize \<Rightarrow> usize \<Rightarrow> dir_edit option" where
  "dir_block_edit block rstart rend =
     (case checked_sub_usize rend rstart of
        None \<Rightarrow> None
      | Some len \<Rightarrow>
          if len = 0 \<or> INCREMENTAL_DIR_CSUM_MAX_SPAN < len then None
          else Some \<lparr>region_start = rstart, old_bytes = segment block rstart rend\<rparr>)"

definition edit_delta :: "dir_edit \<Rightarrow> bytes \<Rightarrow> bytes" where
  "edit_delta ed block =
     map (\<lambda>i. (old_bytes ed ! i) XOR (block ! (region_start ed + i))) [0..<length (old_bytes ed)]"

section \<open>The header walk\<close>

record dir_header =
  h_rec_len :: usize
  h_end :: usize
  h_ino :: u32
  h_name_len :: usize

definition bad_rec_len :: ffs_error where
  "bad_rec_len = corruption ''invalid directory entry rec_len''"

definition name_len_error :: "usize \<Rightarrow> usize \<Rightarrow> usize \<Rightarrow> ffs_error" where
  "name_len_error name_len rec_len off =
     corruption (''directory entry name_len '' @ show_nat name_len @ '' exceeds rec_len ''
       @ show_nat rec_len @ '' at offset '' @ show_nat off)"

text \<open>
  The head of every walking loop: the eight header bytes at \<open>off\<close> are resliced once, and the
  record length is validated against the usable area. The guard of the loops,
  \<open>off + 8 \<le> limit \<le> block.len()\<close>, keeps the reslice in bounds.
\<close>

definition read_header :: "bytes \<Rightarrow> usize \<Rightarrow> usize \<Rightarrow> dir_header ffs_result" where
  "read_header block limit off =
     (let header = segment block off (off + DIR_ENTRY_HEADER_LEN);
          rec_len = unat (from_le (segment header 4 6) :: u16)
      in if rec_len < DIR_ENTRY_HEADER_LEN \<or> rec_len mod 4 \<noteq> 0 then Inl bad_rec_len
         else case checked_add_usize off rec_len of
                None \<Rightarrow> Inl (corruption ''directory entry offset overflow'')
              | Some e \<Rightarrow>
                  if limit < e then Inl (corruption ''directory entry exceeds usable block area'')
                  else Inr \<lparr>h_rec_len = rec_len, h_end = e, h_ino = from_le (segment header 0 4),
                            h_name_len = unat (header ! 6)\<rparr>)"

lemma read_header_progress:
  "read_header block limit off = Inr h \<Longrightarrow> off + 8 \<le> h_end h \<and> h_end h \<le> limit"
  by (auto simp: read_header_def Let_def DIR_ENTRY_HEADER_LEN_def arith_defs
      split: if_splits option.splits)

text \<open>
  \<open>remove_entry_take_inode_tracked\<close> and \<open>update_live_entry_header\<close> also compute the end of the
  name with a checked addition before comparing it with the end of the record.
\<close>

definition read_named_header :: "bytes \<Rightarrow> usize \<Rightarrow> usize \<Rightarrow> (dir_header \<times> usize) ffs_result" where
  "read_named_header block limit off =
     (case read_header block limit off of
        Inl err \<Rightarrow> Inl err
      | Inr h \<Rightarrow>
          (case checked_add_usize off (DIR_ENTRY_HEADER_LEN + h_name_len h) of
             None \<Rightarrow> Inl (corruption ''directory entry name offset overflow'')
           | Some name_end \<Rightarrow>
               if h_end h < name_end then Inl (name_len_error (h_name_len h) (h_rec_len h) off)
               else Inr (h, name_end)))"

lemma read_named_header_progress:
  "read_named_header block limit off = Inr (h, e) \<Longrightarrow> off + 8 \<le> h_end h \<and> h_end h \<le> limit"
  by (auto simp: read_named_header_def split: sum.splits option.splits if_splits
      dest: read_header_progress)

section \<open>Adding an entry\<close>

text \<open>
  A live record is split in place: its \<open>rec_len\<close> shrinks to what its name needs and the new
  entry takes the slack. Shared by the two adding functions.
\<close>

definition split_and_write ::
  "bytes \<Rightarrow> usize \<Rightarrow> usize \<Rightarrow> usize \<Rightarrow> u32 \<Rightarrow> ext4_file_type \<Rightarrow> bytes \<Rightarrow> dir_edit option
   \<Rightarrow> (usize \<times> dir_edit option) ffs_result \<times> bytes" where
  "split_and_write block off actual slack ino file_type name edit =
     (case try_from_nat actual of
        None \<Rightarrow> (Inl (Format ''actual rec_len exceeds u16''), block)
      | Some actual_u16 \<Rightarrow>
          (case write_u16_le block (off + 4) actual_u16 of
             (Inl err, block') \<Rightarrow> (Inl err, block')
           | (Inr _, block') \<Rightarrow>
               (case write_entry block' (off + actual) ino slack file_type name of
                  (Inl err, block'') \<Rightarrow> (Inl err, block'')
                | (Inr _, block'') \<Rightarrow> (Inr (off + actual, edit), block''))))"

definition reuse_and_write ::
  "bytes \<Rightarrow> usize \<Rightarrow> usize \<Rightarrow> u32 \<Rightarrow> ext4_file_type \<Rightarrow> bytes \<Rightarrow> dir_edit option
   \<Rightarrow> (usize \<times> dir_edit option) ffs_result \<times> bytes" where
  "reuse_and_write block off rec_len ino file_type name edit =
     (case write_entry block off ino rec_len file_type name of
        (Inl err, block') \<Rightarrow> (Inl err, block')
      | (Inr _, block') \<Rightarrow> (Inr (off, edit), block'))"

function add_entry_loop ::
  "u32 \<Rightarrow> bytes \<Rightarrow> ext4_file_type \<Rightarrow> usize \<Rightarrow> usize \<Rightarrow> bytes \<Rightarrow> usize
   \<Rightarrow> (usize \<times> dir_edit option) ffs_result \<times> bytes" where
  "add_entry_loop ino name file_type need limit block off =
     (if off + DIR_ENTRY_HEADER_LEN \<le> limit
      then case read_header block limit off of
             Inl err \<Rightarrow> (Inl err, block)
           | Inr h \<Rightarrow>
               if h_rec_len h < DIR_ENTRY_HEADER_LEN + h_name_len h
                 then (Inl (name_len_error (h_name_len h) (h_rec_len h) off), block)
               else if h_ino h = 0
                 then if need \<le> h_rec_len h
                      then reuse_and_write block off (h_rec_len h) ino file_type name
                             (dir_block_edit block off (h_end h))
                      else add_entry_loop ino name file_type need limit block (h_end h)
               else let actual = required_rec_len (h_name_len h)
                    in if h_rec_len h < actual
                         then (Inl (corruption ''directory entry name length exceeds rec_len''), block)
                       else if need \<le> h_rec_len h - actual
                         then split_and_write block off actual (h_rec_len h - actual) ino file_type
                                name (dir_block_edit block (off + 4) (h_end h))
                       else add_entry_loop ino name file_type need limit block (h_end h)
      else (Inl NoSpace, block))"
  by pat_completeness auto
termination
  by (relation "measure (\<lambda>(ino, name, ft, need, limit, block, off). limit - off)")
    (auto simp: DIR_ENTRY_HEADER_LEN_def dest!: read_header_progress)

declare add_entry_loop.simps [simp del]

definition inode_zero :: ffs_error where
  "inode_zero = Format ''directory entry inode cannot be zero''"

definition add_entry_tracked ::
  "bytes \<Rightarrow> u32 \<Rightarrow> bytes \<Rightarrow> ext4_file_type \<Rightarrow> usize \<Rightarrow> (usize \<times> dir_edit option) ffs_result \<times> bytes"
where
  "add_entry_tracked block ino name file_type reserved_tail =
     (if ino = 0 then (Inl inode_zero, block)
      else case validate_name name of
        Inl err \<Rightarrow> (Inl err, block)
      | Inr _ \<Rightarrow>
          let need = required_rec_len (length name)
          in (case validate_reserved_tail (length block) reserved_tail of
                Inl err \<Rightarrow> (Inl err, block)
              | Inr limit \<Rightarrow>
                  if limit < need then (Inl NoSpace, block)
                  else if is_interior_htree_dx_node_block block then (Inl NoSpace, block)
                  else add_entry_loop ino name file_type need limit block 0))"

definition add_entry ::
  "bytes \<Rightarrow> u32 \<Rightarrow> bytes \<Rightarrow> ext4_file_type \<Rightarrow> usize \<Rightarrow> usize ffs_result \<times> bytes" where
  "add_entry block ino name file_type reserved_tail =
     (case add_entry_tracked block ino name file_type reserved_tail of
        (r, block') \<Rightarrow> (map_sum id fst r, block'))"

section \<open>Looking a name up\<close>

function contains_loop :: "bytes \<Rightarrow> bytes \<Rightarrow> usize \<Rightarrow> usize \<Rightarrow> bool ffs_result" where
  "contains_loop block name limit off =
     (if off + DIR_ENTRY_HEADER_LEN \<le> limit
      then case read_u16_le block (off + 4) of
        None \<Rightarrow> Inl (corruption ''unable to read directory entry rec_len'')
      | Some rl \<Rightarrow>
          let rec_len = unat rl
          in if rec_len < DIR_ENTRY_HEADER_LEN \<or> rec_len mod 4 \<noteq> 0 then Inl bad_rec_len
             else case checked_add_usize off rec_len of
               None \<Rightarrow> Inl (corruption ''directory entry offset overflow'')
             | Some e \<Rightarrow>
                 if limit < e then Inl (corruption ''directory entry exceeds usable block area'')
                 else case read_u32_le block off of
                   None \<Rightarrow> Inl (corruption ''unable to read directory entry inode'')
                 | Some cur_ino \<Rightarrow>
                     let cur_name_len = unat (block ! (off + 6))
                     in case checked_add_usize off (DIR_ENTRY_HEADER_LEN + cur_name_len) of
                          None \<Rightarrow> Inl (corruption ''directory entry name offset overflow'')
                        | Some name_end \<Rightarrow>
                            if e < name_end then Inl (name_len_error cur_name_len rec_len off)
                            else if cur_ino \<noteq> 0
                                 \<and> names_eq (segment block (off + DIR_ENTRY_HEADER_LEN) name_end) name
                              then Inr True
                            else contains_loop block name limit e
      else Inr False)"
  by pat_completeness auto
termination
  by (relation "measure (\<lambda>(block, name, limit, off). limit - off)")
    (auto simp: DIR_ENTRY_HEADER_LEN_def arith_defs split: if_splits)

declare contains_loop.simps [simp del]

definition block_contains_live_name :: "bytes \<Rightarrow> bytes \<Rightarrow> usize \<Rightarrow> bool ffs_result" where
  "block_contains_live_name block name reserved_tail =
     (case validate_name name of
        Inl err \<Rightarrow> Inl err
      | Inr _ \<Rightarrow>
          (case validate_reserved_tail (length block) reserved_tail of
             Inl err \<Rightarrow> Inl err
           | Inr limit \<Rightarrow>
               if is_interior_htree_dx_node_block block then Inr False
               else contains_loop block name limit 0))"

section \<open>Adding with a duplicate check\<close>

datatype slot = Tombstone usize usize | Split usize usize usize

function find_slot_loop ::
  "bytes \<Rightarrow> bytes \<Rightarrow> usize \<Rightarrow> usize \<Rightarrow> usize \<Rightarrow> slot option \<Rightarrow> slot option ffs_result" where
  "find_slot_loop block name need limit off sl =
     (if off + DIR_ENTRY_HEADER_LEN \<le> limit
      then case read_header block limit off of
             Inl err \<Rightarrow> Inl err
           | Inr h \<Rightarrow>
               if h_rec_len h < DIR_ENTRY_HEADER_LEN + h_name_len h
                 then Inl (name_len_error (h_name_len h) (h_rec_len h) off)
               else if h_ino h = 0
                 then find_slot_loop block name need limit (h_end h)
                        (if sl = None \<and> need \<le> h_rec_len h
                         then Some (Tombstone off (h_rec_len h)) else sl)
               else if names_eq (segment block (off + DIR_ENTRY_HEADER_LEN)
                                   (off + DIR_ENTRY_HEADER_LEN + h_name_len h)) name
                 then Inl Exists
               else let actual = required_rec_len (h_name_len h)
                    in if h_rec_len h < actual
                         then Inl (corruption ''directory entry name length exceeds rec_len'')
                       else find_slot_loop block name need limit (h_end h)
                              (if sl = None \<and> need \<le> h_rec_len h - actual
                               then Some (Split off actual (h_rec_len h - actual)) else sl)
      else Inr sl)"
  by pat_completeness auto
termination
  by (relation "measure (\<lambda>(block, name, need, limit, off, sl). limit - off)")
    (auto simp: DIR_ENTRY_HEADER_LEN_def dest!: read_header_progress)

declare find_slot_loop.simps [simp del]

definition apply_slot ::
  "bytes \<Rightarrow> u32 \<Rightarrow> bytes \<Rightarrow> ext4_file_type \<Rightarrow> slot option \<Rightarrow> (usize \<times> dir_edit option) ffs_result \<times> bytes"
where
  "apply_slot block ino name file_type sl =
     (case sl of
        Some (Tombstone off rec_len) \<Rightarrow>
          reuse_and_write block off rec_len ino file_type name
            (dir_block_edit block off (off + rec_len))
      | Some (Split off actual slack) \<Rightarrow>
          split_and_write block off actual slack ino file_type name
            (dir_block_edit block (off + 4) (off + actual + slack))
      | None \<Rightarrow> (Inl NoSpace, block))"

definition add_entry_reject_existing_tracked ::
  "bytes \<Rightarrow> u32 \<Rightarrow> bytes \<Rightarrow> ext4_file_type \<Rightarrow> usize \<Rightarrow> (usize \<times> dir_edit option) ffs_result \<times> bytes"
where
  "add_entry_reject_existing_tracked block ino name file_type reserved_tail =
     (if ino = 0 then (Inl inode_zero, block)
      else case validate_name name of
        Inl err \<Rightarrow> (Inl err, block)
      | Inr _ \<Rightarrow>
          let need = required_rec_len (length name)
          in (case validate_reserved_tail (length block) reserved_tail of
                Inl err \<Rightarrow> (Inl err, block)
              | Inr limit \<Rightarrow>
                  if limit < need then (Inl NoSpace, block)
                  else if is_interior_htree_dx_node_block block then (Inl NoSpace, block)
                  else case find_slot_loop block name need limit 0 None of
                         Inl err \<Rightarrow> (Inl err, block)
                       | Inr sl \<Rightarrow> apply_slot block ino name file_type sl))"

definition add_entry_reject_existing ::
  "bytes \<Rightarrow> u32 \<Rightarrow> bytes \<Rightarrow> ext4_file_type \<Rightarrow> usize \<Rightarrow> usize ffs_result \<times> bytes" where
  "add_entry_reject_existing block ino name file_type reserved_tail =
     (case add_entry_reject_existing_tracked block ino name file_type reserved_tail of
        (r, block') \<Rightarrow> (map_sum id fst r, block'))"

section \<open>Removing an entry\<close>

text \<open>The body run on the matching entry: absorb the slot into the live predecessor, clear it.\<close>

definition remove_at ::
  "bytes \<Rightarrow> usize \<Rightarrow> usize option \<Rightarrow> dir_header \<Rightarrow> (u32 \<times> dir_edit) option ffs_result \<times> bytes" where
  "remove_at block off prev_off_opt h =
     (let rstart = (case prev_off_opt of None \<Rightarrow> off | Some prev_off \<Rightarrow> prev_off + 4);
          rend = off + DIR_ENTRY_HEADER_LEN;
          edit = \<lparr>region_start = rstart, old_bytes = segment block rstart rend\<rparr>;
          (absorbed, block) =
            (case prev_off_opt of
               None \<Rightarrow> (Inr (), block)
             | Some prev_off \<Rightarrow>
                 (case checked_sub_usize (off + h_rec_len h) prev_off of
                    None \<Rightarrow> (Inl (Format ''merged rec_len underflow''), block)
                  | Some merged \<Rightarrow>
                      (case try_from_nat merged of
                         None \<Rightarrow> (Inl (Format ''merged rec_len exceeds u16''), block)
                       | Some merged_u16 \<Rightarrow> write_u16_le block (prev_off + 4) merged_u16)))
      in case absorbed of
           Inl err \<Rightarrow> (Inl err, block)
         | Inr _ \<Rightarrow>
             (case write_u32_le block off 0 of
                (Inl err, block) \<Rightarrow> (Inl err, block)
              | (Inr _, block) \<Rightarrow>
                  (Inr (Some (h_ino h, edit)), block[off + 6 := 0, off + 7 := 0])))"

function remove_loop ::
  "bytes \<Rightarrow> bytes \<Rightarrow> usize \<Rightarrow> usize \<Rightarrow> usize option \<Rightarrow> (u32 \<times> dir_edit) option ffs_result \<times> bytes" where
  "remove_loop block name limit off prev_off_opt =
     (if off + DIR_ENTRY_HEADER_LEN \<le> limit
      then case read_named_header block limit off of
             Inl err \<Rightarrow> (Inl err, block)
           | Inr (h, name_end) \<Rightarrow>
               if h_ino h \<noteq> 0 \<and> names_eq (segment block (off + DIR_ENTRY_HEADER_LEN) name_end) name
               then remove_at block off prev_off_opt h
               else remove_loop block name limit (h_end h)
                      (if h_ino h \<noteq> 0 then Some off else prev_off_opt)
      else (Inr None, block))"
  by pat_completeness auto
termination
  by (relation "measure (\<lambda>(block, name, limit, off, p). limit - off)")
    (auto simp: DIR_ENTRY_HEADER_LEN_def dest!: read_named_header_progress)

declare remove_loop.simps [simp del]

definition remove_entry_take_inode_tracked ::
  "bytes \<Rightarrow> bytes \<Rightarrow> usize \<Rightarrow> (u32 \<times> dir_edit) option ffs_result \<times> bytes" where
  "remove_entry_take_inode_tracked block name reserved_tail =
     (case validate_name name of
        Inl err \<Rightarrow> (Inl err, block)
      | Inr _ \<Rightarrow>
          (case validate_reserved_tail (length block) reserved_tail of
             Inl err \<Rightarrow> (Inl err, block)
           | Inr limit \<Rightarrow>
               if is_interior_htree_dx_node_block block then (Inr None, block)
               else remove_loop block name limit 0 None))"

definition remove_entry_take_inode :: "bytes \<Rightarrow> bytes \<Rightarrow> usize \<Rightarrow> u32 option ffs_result \<times> bytes" where
  "remove_entry_take_inode block name reserved_tail =
     (case remove_entry_take_inode_tracked block name reserved_tail of
        (r, block') \<Rightarrow> (map_sum id (map_option fst) r, block'))"

definition remove_entry :: "bytes \<Rightarrow> bytes \<Rightarrow> usize \<Rightarrow> bool ffs_result \<times> bytes" where
  "remove_entry block name reserved_tail =
     (case remove_entry_take_inode block name reserved_tail of
        (r, block') \<Rightarrow> (map_sum id (\<lambda>ino. ino \<noteq> None) r, block'))"

section \<open>Retargeting an entry\<close>

function update_loop ::
  "bytes \<Rightarrow> bytes \<Rightarrow> u32 \<Rightarrow> ext4_file_type option \<Rightarrow> usize \<Rightarrow> usize \<Rightarrow> bool ffs_result \<times> bytes" where
  "update_loop block name new_ino new_file_type limit off =
     (if off + DIR_ENTRY_HEADER_LEN \<le> limit
      then case read_named_header block limit off of
             Inl err \<Rightarrow> (Inl err, block)
           | Inr (h, name_end) \<Rightarrow>
               if h_ino h \<noteq> 0 \<and> names_eq (segment block (off + DIR_ENTRY_HEADER_LEN) name_end) name
               then (case write_u32_le block off new_ino of
                       (Inl err, block') \<Rightarrow> (Inl err, block')
                     | (Inr _, block') \<Rightarrow>
                         (Inr True,
                          case new_file_type of
                            None \<Rightarrow> block'
                          | Some file_type \<Rightarrow> block'[off + 7 := to_raw file_type]))
               else update_loop block name new_ino new_file_type limit (h_end h)
      else (Inr False, block))"
  by pat_completeness auto
termination
  by (relation "measure (\<lambda>(block, name, ino, ft, limit, off). limit - off)")
    (auto simp: DIR_ENTRY_HEADER_LEN_def dest!: read_named_header_progress)

declare update_loop.simps [simp del]

definition update_live_entry_header ::
  "bytes \<Rightarrow> bytes \<Rightarrow> u32 \<Rightarrow> ext4_file_type option \<Rightarrow> usize \<Rightarrow> bool ffs_result \<times> bytes" where
  "update_live_entry_header block name new_ino new_file_type reserved_tail =
     (case validate_name name of
        Inl err \<Rightarrow> (Inl err, block)
      | Inr _ \<Rightarrow>
          if new_ino = 0 then (Inl inode_zero, block)
          else case validate_reserved_tail (length block) reserved_tail of
                 Inl err \<Rightarrow> (Inl err, block)
               | Inr limit \<Rightarrow>
                   if is_interior_htree_dx_node_block block then (Inr False, block)
                   else update_loop block name new_ino new_file_type limit 0)"

definition swap_inode_in_entry :: "bytes \<Rightarrow> bytes \<Rightarrow> u32 \<Rightarrow> usize \<Rightarrow> bool ffs_result \<times> bytes" where
  "swap_inode_in_entry block name new_ino reserved_tail =
     update_live_entry_header block name new_ino None reserved_tail"

definition retarget_entry ::
  "bytes \<Rightarrow> bytes \<Rightarrow> u32 \<Rightarrow> ext4_file_type \<Rightarrow> usize \<Rightarrow> bool ffs_result \<times> bytes" where
  "retarget_entry block name new_ino new_file_type reserved_tail =
     update_live_entry_header block name new_ino (Some new_file_type) reserved_tail"

section \<open>A fresh block\<close>

definition write_csum_tail :: "bytes \<Rightarrow> usize \<Rightarrow> unit ffs_result \<times> bytes" where
  "write_csum_tail block off =
     (case write_u32_le block off 0 of
        (Inl err, block) \<Rightarrow> (Inl err, block)
      | (Inr _, block) \<Rightarrow>
     (case write_u16_le block (off + 4) 12 of
        (Inl err, block) \<Rightarrow> (Inl err, block)
      | (Inr _, block) \<Rightarrow>
          write_u32_le (block[off + 6 := 0, off + 7 := EXT4_FT_DIR_CSUM]) (off + 8) 0))"

definition init_dir_block :: "bytes \<Rightarrow> u32 \<Rightarrow> u32 \<Rightarrow> usize \<Rightarrow> unit ffs_result \<times> bytes" where
  "init_dir_block block self_ino parent_ino reserved_tail =
     (if self_ino = 0 then (Inl (Format ''directory self inode cannot be zero''), block)
      else if parent_ino = 0 then (Inl (Format ''directory parent inode cannot be zero''), block)
      else case validate_reserved_tail (length block) reserved_tail of
        Inl err \<Rightarrow> (Inl err, block)
      | Inr usable_len \<Rightarrow>
     (case checked_add_usize (required_rec_len 1) (required_rec_len 2) of
        None \<Rightarrow> (Inl (Format ''directory minimum entry size overflow''), block)
      | Some min_entries \<Rightarrow>
          if usable_len < min_entries
            then (Inl (Format ''directory block too small for . and .. entries''), block)
          else
            let block = replicate (length block) 0;
                dot_len = required_rec_len 1;
                dotdot_len = usable_len - dot_len
            in (case write_entry block 0 self_ino dot_len Dir [0x2E] of
                  (Inl err, block) \<Rightarrow> (Inl err, block)
                | (Inr _, block) \<Rightarrow>
               (case write_entry block dot_len parent_ino dotdot_len Dir [0x2E, 0x2E] of
                  (Inl err, block) \<Rightarrow> (Inl err, block)
                | (Inr _, block) \<Rightarrow>
                    if 12 \<le> reserved_tail then write_csum_tail block (length block - reserved_tail)
                    else (Inr (), block)))))"

section \<open>The htree index vector\<close>

record htree_entry =
  he_hash :: u32
  he_block :: u32

definition htree_insert :: "htree_entry list \<Rightarrow> u32 \<Rightarrow> u32 \<Rightarrow> usize \<times> htree_entry list" where
  "htree_insert entries hash blk =
     (let idx = partition_point (\<lambda>e. he_hash e \<le> hash) entries
      in (idx, take idx entries @ [\<lparr>he_hash = hash, he_block = blk\<rparr>] @ drop idx entries))"

fun position :: "('a \<Rightarrow> bool) \<Rightarrow> 'a list \<Rightarrow> nat option" where
  "position p [] = None"
| "position p (x # xs) = (if p x then Some 0 else map_option Suc (position p xs))"

definition htree_remove :: "htree_entry list \<Rightarrow> u32 \<Rightarrow> u32 \<Rightarrow> bool \<times> htree_entry list" where
  "htree_remove entries hash blk =
     (case position (\<lambda>e. he_hash e = hash \<and> he_block e = blk) entries of
        None \<Rightarrow> (False, entries)
      | Some pos \<Rightarrow> (True, take pos entries @ drop (Suc pos) entries))"

definition htree_find_leaf_idx :: "htree_entry list \<Rightarrow> u32 \<Rightarrow> usize" where
  "htree_find_leaf_idx entries target_hash =
     (if entries = [] then 0
      else let idx = partition_point (\<lambda>e. he_hash e \<le> target_hash) entries
           in if idx = 0 then 0 else idx - 1)"

definition htree_find_leaf :: "htree_entry list \<Rightarrow> u32 \<Rightarrow> u32 option" where
  "htree_find_leaf entries target_hash =
     (if entries = [] then None
      else let idx = htree_find_leaf_idx entries target_hash
           in if idx < length entries then Some (he_block (entries ! idx)) else None)"

end
