(* ===== verification/Dir_Names.thy ===== *)
theory Dir_Names
  imports Dir_Block
begin

text \<open>
  The word-at-a-time name tests of \<open>ffs-dir\<close> agree with their byte-wise readings: \<open>names_eq\<close>
  is list equality, and the has-zero-byte trick behind \<open>name_has_slash_or_nul\<close> finds exactly
  the bytes it looks for. The trick is verified on integers, byte by byte from the low end, and
  carried to \<open>u64\<close> afterwards.
\<close>

section \<open>Word-at-a-time name tests\<close>

lemma from_le_u64_inj:
  assumes "length xs = 8" "length ys = 8"
  shows "(from_le xs :: u64) = from_le ys \<longleftrightarrow> xs = ys"
  using u64_codec.encode_decode [OF assms(1)] u64_codec.encode_decode [OF assms(2)] by metis

lemma names_eq_loop_iff:
  assumes "8 \<le> length a" "length b = length a" "i \<le> length a"
  shows "names_eq_loop a b i \<longleftrightarrow> (\<forall>k. i \<le> k \<or> length a - 8 \<le> k \<longrightarrow> k < length a \<longrightarrow> a ! k = b ! k)"
  using assms
proof (induction a b i rule: names_eq_loop.induct)
  case (1 a b i)
  have word: "(from_le (segment a j (j + 8)) :: u64) = from_le (segment b j (j + 8))
      \<longleftrightarrow> (\<forall>k. j \<le> k \<and> k < j + 8 \<longrightarrow> a ! k = b ! k)" if "j + 8 \<le> length a" for j
  proof -
    have "(from_le (segment a j (j + 8)) :: u64) = from_le (segment b j (j + 8))
        \<longleftrightarrow> segment a j (j + 8) = segment b j (j + 8)"
      using that "1.prems" by (intro from_le_u64_inj) auto
    also have "\<dots> \<longleftrightarrow> (\<forall>k. j \<le> k \<and> k < j + 8 \<longrightarrow> a ! k = b ! k)"
      using that "1.prems" segment_eqD [of a j "j + 8" b] segment_eqI [of a b j "j + 8"] by auto
    finally show ?thesis .
  qed
  show ?case
  proof (cases "i + 8 < length a")
    case True
    then have "names_eq_loop a b i \<longleftrightarrow>
        (\<forall>k. i \<le> k \<and> k < i + 8 \<longrightarrow> a ! k = b ! k) \<and> names_eq_loop a b (i + 8)"
      by (subst names_eq_loop.simps) (auto simp: word)
    also have "\<dots> \<longleftrightarrow> (\<forall>k. i \<le> k \<and> k < i + 8 \<longrightarrow> a ! k = b ! k) \<and>
        (\<forall>k. i + 8 \<le> k \<or> length a - 8 \<le> k \<longrightarrow> k < length a \<longrightarrow> a ! k = b ! k)"
      using "1.IH" True "1.prems" word [of i] by auto
    also have "\<dots> \<longleftrightarrow> (\<forall>k. i \<le> k \<or> length a - 8 \<le> k \<longrightarrow> k < length a \<longrightarrow> a ! k = b ! k)"
    proof -
      have "i \<le> k \<longleftrightarrow> (i \<le> k \<and> k < i + 8) \<or> i + 8 \<le> k" for k by linarith
      then show ?thesis using True by auto
    qed
    finally show ?thesis .
  next
    case False
    then have "names_eq_loop a b i \<longleftrightarrow> (\<forall>k. length a - 8 \<le> k \<and> k < length a \<longrightarrow> a ! k = b ! k)"
      using word [of "length a - 8"] "1.prems" by (subst names_eq_loop.simps) auto
    with False "1.prems" show ?thesis by auto
  qed
qed

lemma names_eq_iff [simp]: "names_eq a b \<longleftrightarrow> a = b"
proof (cases "length b = length a \<and> 8 \<le> length a")
  case True
  then have "names_eq a b \<longleftrightarrow> (\<forall>k. k < length a \<longrightarrow> a ! k = b ! k)"
    by (auto simp: names_eq_def names_eq_loop_iff)
  with True show ?thesis by (auto simp: list_eq_iff_nth_eq)
next
  case False
  then show ?thesis by (auto simp: names_eq_def)
qed

lemma concat_bit_byte:
  assumes "0 \<le> a" "a < 256"
  shows "a + 256 * x = concat_bit 8 a (x :: int)"
  using assms by (simp add: concat_bit_eq take_bit_int_eq_self push_bit_eq_mult)

lemma and_byte_split:
  assumes "0 \<le> a" "a < 256" "0 \<le> b" "b < (256 :: int)"
  shows "(a + 256 * x) AND (b + 256 * y) = (a AND b) + 256 * (x AND y)"
proof -
  have "0 \<le> a AND b" "a AND b < 256"
    using assms by (simp_all add: AND_lower AND_upper1' )
  then have r: "(a AND b) + 256 * (x AND y) = concat_bit 8 (a AND b) (x AND y)"
    by (rule concat_bit_byte)
  show ?thesis unfolding r concat_bit_byte [OF assms(1,2)] concat_bit_byte [OF assms(3,4)]
    by (rule bit_eqI) (auto simp: bit_concat_bit_iff bit_and_iff)
qed

lemma and3_byte_split:
  assumes "0 \<le> a" "a < 256" "0 \<le> b" "b < 256" "0 \<le> c" "c < (256 :: int)"
  shows "(a + 256 * x) AND (b + 256 * y) AND (c + 256 * z) = (a AND b AND c) + 256 * (x AND y AND z)"
proof -
  have "0 \<le> b AND c" "b AND c < 256" using assms by (simp_all add: AND_lower AND_upper1')
  then show ?thesis
    unfolding and_byte_split [OF assms(3-6)] by (rule and_byte_split [OF assms(1,2)])
qed

lemma not_byte_split: "NOT (b + 256 * x) = (255 - b) + 256 * NOT (x :: int)"
  by (simp add: not_int_def)

fun ones_bytes :: "nat \<Rightarrow> int" where
  "ones_bytes 0 = 0"
| "ones_bytes (Suc n) = 1 + 256 * ones_bytes n"

lemma byte_no_high:
  assumes "1 \<le> b" "b < (256 :: int)"
  shows "(b - 1) AND (255 - b) AND 128 = 0"
proof -
  have low: "x AND 128 = 0" if "0 \<le> x" "x < 128" for x :: int
    using that and_exp_eq_0_iff_not_bit [of x 7] by (simp add: bit_iff_odd)
  show ?thesis
  proof (cases "b \<le> 128")
    case True
    then have "(b - 1) AND 128 = 0" using assms by (intro low) auto
    then show ?thesis by (subst and.left_commute) (simp only: and_zero_eq)
  next
    case False
    then have "(255 - b) AND 128 = 0" using assms by (intro low) auto
    then show ?thesis by simp
  qed
qed


lemma haszero_int:
  "(int (le_val bs) - ones_bytes (length bs)) AND NOT (int (le_val bs)) AND 128 * ones_bytes (length bs) = 0
   \<longleftrightarrow> 0 \<notin> set bs"
proof (induction bs)
  case (Cons b bs)
  define V where "V = int (le_val bs)"
  define U where "U = ones_bytes (length bs)"
  define c where "c = int (unat b)"
  have c: "0 \<le> c" "c < 256" using unat_u8_less [of b] unfolding c_def by linarith+
  have b0: "b = 0 \<longleftrightarrow> c = 0" by (simp only: c_def of_nat_eq_0_iff unat_eq_zero)
  have goal: "?case \<longleftrightarrow> (((c + 256 * V - (1 + 256 * U)) AND NOT (c + 256 * V) AND 128 * (1 + 256 * U)) = 0
      \<longleftrightarrow> 0 \<notin> set (b # bs))"
    by (simp add: c_def V_def U_def)
  have IH: "(V - U) AND NOT V AND 128 * U = 0 \<longleftrightarrow> 0 \<notin> set bs"
    using Cons.IH by (simp add: V_def U_def)
  have h: "128 * (1 + 256 * U) = 128 + 256 * (128 * U)" by simp
  show ?case
  proof (cases "c = 0")
    case True
    let ?X = "(V - U - 1) AND NOT V AND 128 * U"
    have e1: "c + 256 * V - (1 + 256 * U) = 255 + 256 * (V - U - 1)" using True by simp
    have e2: "(255 + 256 * (V - U - 1)) AND ((255 - c) + 256 * NOT V) AND (128 + 256 * (128 * U))
        = 128 + 256 * ?X"
      unfolding True by (subst and3_byte_split) simp_all
    have "128 + 256 * ?X \<noteq> 0" by presburger
    then show ?thesis using True unfolding goal not_byte_split h e1 e2 by (simp add: b0)
  next
    case False
    have e1: "c + 256 * V - (1 + 256 * U) = (c - 1) + 256 * (V - U)" by simp
    have e2: "((c - 1) + 256 * (V - U)) AND ((255 - c) + 256 * NOT V) AND (128 + 256 * (128 * U))
        = ((c - 1) AND (255 - c) AND 128) + 256 * ((V - U) AND NOT V AND 128 * U)"
      using False c by (intro and3_byte_split) simp_all
    have "(c - 1) AND (255 - c) AND 128 = 0" using False c by (intro byte_no_high) simp_all
    then show ?thesis using False IH unfolding goal not_byte_split h e1 e2 by (simp add: b0)
  qed
qed simp

lemma word_of_int_small_eq_0:
  assumes "0 \<le> X" "X < 2 ^ 64"
  shows "(word_of_int X :: u64) = 0 \<longleftrightarrow> X = 0"
  using assms zdvd_imp_le [of "2 ^ 64" X] by (auto simp: word_of_int_eq_0_iff)

lemma haszero_iff:
  assumes "length bs = 8"
  shows "haszero (from_le bs) = 0 \<longleftrightarrow> 0 \<notin> set bs"
proof -
  let ?V = "int (le_val bs)"
  let ?X = "(?V - ones_bytes 8) AND NOT ?V AND 128 * ones_bytes 8"
  have one: "ones_bytes 8 = 0x0101010101010101" by (simp add: numeral_eq_Suc)
  have "haszero (from_le bs) = word_of_int ?X"
    unfolding haszero_def from_le_def one by (simp add: of_int_and_eq of_int_not_eq)
  moreover have "0 \<le> ?X" "?X < 2 ^ 64"
    unfolding one using AND_upper2 by auto
  ultimately have "haszero (from_le bs) = 0 \<longleftrightarrow> ?X = 0"
    by (simp only: word_of_int_small_eq_0)
  then show ?thesis using haszero_int [of bs] assms by simp
qed


lemma xor_byte_split:
  assumes "0 \<le> a" "a < 256" "0 \<le> b" "b < (256 :: int)"
  shows "(a + 256 * x) XOR (b + 256 * y) = (a XOR b) + 256 * (x XOR y)"
proof -
  have "take_bit 8 (a XOR b) = a XOR b"
    using assms by (simp add: take_bit_int_eq_self take_bit_xor)
  then have "0 \<le> a XOR b" "a XOR b < 256"
    using take_bit_int_less_exp [of 8 "a XOR b"] take_bit_nonnegative [of 8 "a XOR b"] by simp_all
  then have r: "(a XOR b) + 256 * (x XOR y) = concat_bit 8 (a XOR b) (x XOR y)"
    by (rule concat_bit_byte)
  show ?thesis unfolding r concat_bit_byte [OF assms(1,2)] concat_bit_byte [OF assms(3,4)]
    by (rule bit_eqI) (auto simp: bit_concat_bit_iff bit_xor_iff)
qed

lemma le_val_xor:
  "int (le_val bs) XOR uint c * ones_bytes (length bs) = int (le_val (map (\<lambda>b. b XOR c) bs))"
proof (induction bs)
  case (Cons b bs)
  have "uint b < 256" "uint c < 256" using unsigned_less [of b, where 'a = int]
      unsigned_less [of c, where 'a = int] by simp_all
  then have "(uint b + 256 * int (le_val bs)) XOR (uint c + 256 * (uint c * ones_bytes (length bs)))
      = (uint b XOR uint c) + 256 * (int (le_val bs) XOR uint c * ones_bytes (length bs))"
    by (intro xor_byte_split) auto
  then show ?case using Cons.IH by (simp add: algebra_simps unsigned_xor_eq of_nat_xor_eq)
qed simp

lemma from_le_xor_slash:
  assumes "length bs = 8"
  shows "(from_le bs :: u64) XOR 0x2F2F2F2F2F2F2F2F = from_le (map (\<lambda>b. b XOR 0x2F) bs)"
proof -
  have one: "ones_bytes 8 = 0x0101010101010101" by (simp add: numeral_eq_Suc)
  have "int (le_val bs) XOR 0x2F2F2F2F2F2F2F2F = int (le_val (map (\<lambda>b. b XOR 0x2F) bs))"
    using le_val_xor [of bs "0x2F"] assms by (simp add: one)
  then have "(word_of_int (int (le_val bs) XOR 0x2F2F2F2F2F2F2F2F) :: u64)
      = word_of_int (int (le_val (map (\<lambda>b. b XOR 0x2F) bs)))" by (simp only:)
  then show ?thesis by (simp add: from_le_def of_int_xor_eq)
qed

lemma swar_word_iff:
  assumes "length bs = 8"
  shows "haszero (from_le bs) OR haszero (from_le bs XOR 0x2F2F2F2F2F2F2F2F) \<noteq> 0
    \<longleftrightarrow> (\<exists>b \<in> set bs. b = 0x2F \<or> b = 0)"
proof -
  have "haszero (from_le bs XOR 0x2F2F2F2F2F2F2F2F) = 0 \<longleftrightarrow> 0 \<notin> set (map (\<lambda>b. b XOR 0x2F) bs)"
    unfolding from_le_xor_slash [OF assms] using assms by (simp only: haszero_iff length_map)
  moreover have "b XOR 0x2F = 0 \<longleftrightarrow> b = (0x2F :: u8)" for b
    by (metis xor.assoc xor.left_neutral xor_self_eq)
  ultimately show ?thesis using haszero_iff [OF assms] by (auto simp: or_eq_0_iff image_iff)
qed

lemma slash_or_nul_words_iff:
  "slash_or_nul_words name i \<longleftrightarrow> (\<exists>b \<in> set (drop i name). b = 0x2F \<or> b = 0)"
proof (induction name i rule: slash_or_nul_words.induct)
  case (1 name i)
  show ?case
  proof (cases "i + 8 \<le> length name")
    case True
    have "set (drop i name) = set (segment name i (i + 8)) \<union> set (drop (i + 8) name)"
      using append_take_drop_id [of 8 "drop i name"] by (metis segment_def add_diff_cancel_left' drop_drop set_append add.commute)
    moreover have "length (segment name i (i + 8)) = 8" using True by simp
    ultimately show ?thesis
      using 1 [OF True refl] True swar_word_iff [of "segment name i (i + 8)"]
      by (subst slash_or_nul_words.simps) (auto simp: Let_def)
  next
    case False
    then show ?thesis by (subst slash_or_nul_words.simps) (simp add: list_ex_iff)
  qed
qed

lemma name_has_slash_or_nul_iff: "name_has_slash_or_nul name \<longleftrightarrow> 0x2F \<in> set name \<or> 0 \<in> set name"
  by (auto simp: name_has_slash_or_nul_def slash_or_nul_words_iff)

end
