(* ===== verification/Dir_Layout.thy ===== *)
theory Dir_Layout
  imports Dir_Names
begin

text \<open>
  The layout of a directory block as a list of slots, and what each walking loop of
  \<open>Dir_Block\<close> computes on it. \<open>slots\<close> parses the usable area of a block into the slots the loops
  visit; \<open>slot_at\<close> and \<open>chain\<close> say the same thing declaratively, slot by slot, which is the form
  the frame arguments need: a slot depends on the bytes of its own record only.
\<close>

record dirent =
  de_off :: usize
  de_len :: usize
  de_ino :: u32
  de_name :: bytes
  de_ftype :: u8

definition live :: "dirent \<Rightarrow> bool" where
  "live e \<longleftrightarrow> de_ino e \<noteq> 0"

definition slot_of :: "bytes \<Rightarrow> usize \<Rightarrow> dir_header \<Rightarrow> dirent" where
  "slot_of block off h =
     \<lparr>de_off = off, de_len = h_rec_len h, de_ino = h_ino h,
      de_name = segment block (off + 8) (off + 8 + h_name_len h), de_ftype = block ! (off + 7)\<rparr>"

function slots :: "bytes \<Rightarrow> usize \<Rightarrow> usize \<Rightarrow> dirent list option" where
  "slots block limit off =
     (if off + 8 \<le> limit
      then case read_header block limit off of
             Inl err \<Rightarrow> None
           | Inr h \<Rightarrow>
               if h_rec_len h < 8 + h_name_len h then None
               else map_option (Cons (slot_of block off h)) (slots block limit (h_end h))
      else Some [])"
  by pat_completeness auto
termination
  by (relation "measure (\<lambda>(block, limit, off). limit - off)") (auto dest!: read_header_progress)

declare slots.simps [simp del]

definition slot_at :: "bytes \<Rightarrow> usize \<Rightarrow> dirent \<Rightarrow> bool" where
  "slot_at block limit e \<longleftrightarrow>
     8 + length (de_name e) \<le> de_len e \<and> de_len e mod 4 = 0 \<and> de_off e + de_len e \<le> limit \<and>
     length (de_name e) < 256 \<and> de_len e < 65536 \<and>
     segment block (de_off e) (de_off e + 4) = u32_to_le (de_ino e) \<and>
     segment block (de_off e + 4) (de_off e + 6) = u16_to_le (of_nat (de_len e)) \<and>
     block ! (de_off e + 6) = of_nat (length (de_name e)) \<and>
     block ! (de_off e + 7) = de_ftype e \<and>
     segment block (de_off e + 8) (de_off e + 8 + length (de_name e)) = de_name e"

fun chain :: "usize \<Rightarrow> dirent list \<Rightarrow> usize \<Rightarrow> bool" where
  "chain off [] stop \<longleftrightarrow> off = stop"
| "chain off (e # es) stop \<longleftrightarrow> de_off e = off \<and> chain (off + de_len e) es stop"

definition laid_out :: "bytes \<Rightarrow> usize \<Rightarrow> usize \<Rightarrow> dirent list \<Rightarrow> bool" where
  "laid_out block limit off es \<longleftrightarrow>
     (\<exists>stop. chain off es stop \<and> limit < stop + 8) \<and> (\<forall>e \<in> set es. slot_at block limit e)"

definition header_of :: "dirent \<Rightarrow> dir_header" where
  "header_of e = \<lparr>h_rec_len = de_len e, h_end = de_off e + de_len e, h_ino = de_ino e,
                  h_name_len = length (de_name e)\<rparr>"

definition dir_block_ok :: "bytes \<Rightarrow> usize \<Rightarrow> bool" where
  "dir_block_ok block limit \<longleftrightarrow> limit \<le> length block \<and> length block \<le> usize_max"

section \<open>Parsing\<close>

lemma segment_segment:
  assumes "b \<le> j - i"
  shows "segment (segment xs i j) a b = segment xs (i + a) (i + b)"
proof -
  have "take (b - a) (drop a (take (j - i) (drop i xs))) = take (b - a) (take (j - i - a) (drop (i + a) xs))"
    by (simp add: drop_take add.commute)
  moreover have "min (b - a) (j - i - a) = b - a" using assms by simp
  ultimately show ?thesis by (simp add: segment_def)
qed

lemma read_header_slot_at:
  assumes "slot_at block limit e" "dir_block_ok block limit"
  shows "read_header block limit (de_off e) = Inr (header_of e)"
proof -
  let ?o = "de_off e"
  have len: "?o + 8 \<le> length block" "?o + de_len e \<le> usize_max"
    using assms by (auto simp: slot_at_def dir_block_ok_def)
  have "segment (segment block ?o (?o + 8)) 4 6 = u16_to_le (of_nat (de_len e))"
    "segment (segment block ?o (?o + 8)) 0 4 = u32_to_le (de_ino e)"
    using assms by (simp_all add: segment_segment slot_at_def)
  moreover have "segment block ?o (?o + 8) ! 6 = of_nat (length (de_name e))"
    using assms len by (simp add: slot_at_def)
  moreover have "unat (of_nat (de_len e) :: u16) = de_len e" "unat (of_nat (length (de_name e)) :: u8) = length (de_name e)"
    using assms by (simp_all add: slot_at_def unat_of_nat)
  ultimately show ?thesis
    using assms len
    by (simp add: read_header_def DIR_ENTRY_HEADER_LEN_def Let_def arith_defs header_of_def slot_at_def)
qed

lemma slot_at_slot_of:
  assumes "read_header block limit off = Inr h" "8 + h_name_len h \<le> h_rec_len h" "dir_block_ok block limit"
  shows "slot_at block limit (slot_of block off h) \<and> h = header_of (slot_of block off h)"
proof -
  from assms(1) have h: "h_rec_len h = unat (from_le (segment (segment block off (off + 8)) 4 6) :: u16)"
    "h_ino h = from_le (segment (segment block off (off + 8)) 0 4)"
    "h_name_len h = unat (segment block off (off + 8) ! 6)"
    "8 \<le> h_rec_len h" "h_rec_len h mod 4 = 0" "h_end h = off + h_rec_len h" "h_end h \<le> limit"
    by (auto simp: read_header_def Let_def DIR_ENTRY_HEADER_LEN_def arith_defs split: if_splits)
  have len: "off + h_rec_len h \<le> length block" using h assms(3) by (simp add: dir_block_ok_def)
  have nl: "h_name_len h = unat (block ! (off + 6))" using h(3) len h(4) by simp
  have "segment block (off + 4) (off + 6) = u16_to_le (of_nat (h_rec_len h))"
    using len h(1,4) by (simp add: segment_segment to_le_from_le)
  moreover have "segment block off (off + 4) = u32_to_le (h_ino h)"
    using len h(2,4) by (simp add: segment_segment to_le_from_le)
  moreover have "h_rec_len h < 65536"
    using h(1) unsigned_less [of "from_le (segment (segment block off (off + 8)) 4 6) :: u16", where 'a = nat]
    by simp
  moreover have "h_name_len h < 256" by (simp add: nl)
  moreover have "length (segment block (off + 8) (off + 8 + h_name_len h)) = h_name_len h"
    using len assms(2) by simp
  moreover have "block ! (off + 6) = of_nat (h_name_len h)" by (simp add: nl)
  ultimately show ?thesis
    using h assms(2) by (simp add: slot_of_def slot_at_def header_of_def)
qed

lemma laid_out_Nil [simp]: "laid_out block limit off [] \<longleftrightarrow> limit < off + 8"
  by (simp add: laid_out_def)

lemma laid_out_Cons [simp]:
  "laid_out block limit off (e # es) \<longleftrightarrow>
     de_off e = off \<and> slot_at block limit e \<and> laid_out block limit (off + de_len e) es"
  by (auto simp: laid_out_def)

lemma slots_iff_laid_out:
  assumes "dir_block_ok block limit"
  shows "slots block limit off = Some es \<longleftrightarrow> laid_out block limit off es"
  using assms
proof (induction block limit off arbitrary: es rule: slots.induct)
  case (1 block limit off)
  show ?case
  proof (cases "off + 8 \<le> limit")
    case False
    then show ?thesis
      by (cases es) (auto simp: slots.simps [of block limit off] slot_at_def)
  next
    case True
    show ?thesis
    proof
      assume s: "slots block limit off = Some es"
      then obtain h es' where h: "read_header block limit off = Inr h" "8 + h_name_len h \<le> h_rec_len h"
        "slots block limit (h_end h) = Some es'" "es = slot_of block off h # es'"
        using True by (auto simp: slots.simps [of block limit off] split: sum.splits if_splits)
      with "1.IH" [OF True h(1), of es'] "1.prems" have "laid_out block limit (h_end h) es'"
        by simp
      moreover have sl: "slot_at block limit (slot_of block off h)" and "h = header_of (slot_of block off h)"
        using slot_at_slot_of [OF h(1,2) "1.prems"] by auto
      then have "h_end h = off + de_len (slot_of block off h)"
        by (metis header_of_def dir_header.select_convs(2) slot_of_def dirent.select_convs(1))
      ultimately show "laid_out block limit off es" using h(4) sl by (simp add: slot_of_def)
    next
      assume l: "laid_out block limit off es"
      with True obtain e es' where e: "es = e # es'" by (cases es) auto
      with l have s: "slot_at block limit e" "de_off e = off" and t: "laid_out block limit (off + de_len e) es'"
        by auto
      have h: "read_header block limit off = Inr (header_of e)"
        using read_header_slot_at [OF s(1) "1.prems"] s(2) by simp
      have n: "8 + h_name_len (header_of e) \<le> h_rec_len (header_of e)"
        using s(1) by (simp add: header_of_def slot_at_def)
      have "slots block limit (h_end (header_of e)) = Some es'"
        using "1.IH" [OF True h, of es'] n t "1.prems" s(2) by (simp add: header_of_def)
      moreover have "slot_of block off (header_of e) = e"
        using s by (cases e) (simp add: slot_of_def header_of_def slot_at_def)
      ultimately show "slots block limit off = Some es"
        using True h n e by (simp add: slots.simps [of block limit off])
    qed
  qed
qed

section \<open>Chains and frames\<close>

lemma chain_append: "chain off (xs @ ys) stop \<longleftrightarrow> (\<exists>mid. chain off xs mid \<and> chain mid ys stop)"
  by (induction xs arbitrary: off) auto

lemma chain_le: "chain off es stop \<Longrightarrow> off \<le> stop"
proof (induction es arbitrary: off)
  case (Cons e es)
  then have "off + de_len e \<le> stop" by simp
  then show ?case by simp
qed simp

lemma chain_functional: "chain off es a \<Longrightarrow> chain off es b \<Longrightarrow> a = b"
  by (induction es arbitrary: off) auto

lemma chain_bounds:
  "chain off es stop \<Longrightarrow> e \<in> set es \<Longrightarrow> off \<le> de_off e \<and> de_off e + de_len e \<le> stop"
proof (induction es arbitrary: off)
  case (Cons a es)
  then have ch: "de_off a = off" "chain (off + de_len a) es stop" by simp_all
  show ?case
  proof (cases "e = a")
    case True
    with ch chain_le [OF ch(2)] show ?thesis by simp
  next
    case False
    with Cons.prems(2) Cons.IH [OF ch(2)] show ?thesis by simp
  qed
qed simp

lemma laid_out_append:
  "laid_out block limit off (xs @ ys) \<longleftrightarrow>
     (\<exists>mid. chain off xs mid \<and> (\<forall>e \<in> set xs. slot_at block limit e) \<and> laid_out block limit mid ys)"
  by (auto simp: laid_out_def chain_append)

lemma slot_at_frame:
  assumes "slot_at block limit e" "length block' = length block" "limit \<le> length block"
    and "\<And>k. de_off e \<le> k \<Longrightarrow> k < de_off e + 8 + length (de_name e) \<Longrightarrow> block' ! k = block ! k"
  shows "slot_at block' limit e"
proof -
  have seg: "segment block' i j = segment block i j"
    if "de_off e \<le> i" "j \<le> de_off e + 8 + length (de_name e)" for i j
    using that assms by (intro segment_eqI) auto
  have "segment block' (de_off e) (de_off e + 4) = segment block (de_off e) (de_off e + 4)"
    "segment block' (de_off e + 4) (de_off e + 6) = segment block (de_off e + 4) (de_off e + 6)"
    "segment block' (de_off e + 8) (de_off e + 8 + length (de_name e))
       = segment block (de_off e + 8) (de_off e + 8 + length (de_name e))"
    by (rule seg; simp)+
  moreover have "block' ! (de_off e + 6) = block ! (de_off e + 6)"
    "block' ! (de_off e + 7) = block ! (de_off e + 7)"
    by (rule assms(4); simp)+
  ultimately show ?thesis using assms(1) unfolding slot_at_def by (simp only: simp_thms)
qed

lemma slots_outside_frame:
  assumes "\<forall>e \<in> set es. slot_at block limit e" "length block' = length block" "limit \<le> length block"
    and "\<And>e k. e \<in> set es \<Longrightarrow> de_off e \<le> k \<Longrightarrow> k < de_off e + de_len e \<Longrightarrow> block' ! k = block ! k"
  shows "\<forall>e \<in> set es. slot_at block' limit e"
proof
  fix e assume e: "e \<in> set es"
  with assms(1) have s: "slot_at block limit e" by blast
  then show "slot_at block' limit e"
    by (rule slot_at_frame) (use assms e s in \<open>auto simp: slot_at_def\<close>)
qed

text \<open>
  Replacing the slots \<open>mid\<close> by \<open>mid'\<close> covering the same byte range, with a block that changes
  only inside that range, keeps the layout around them.
\<close>

lemma laid_out_replace:
  assumes "laid_out block limit off (pre @ mid @ post)" "limit \<le> length block"
    and "chain a mid b" "mid \<noteq> []" "chain a mid' b"
    and "\<forall>e \<in> set mid'. slot_at block' limit e"
    and "length block' = length block"
    and "\<And>k. k < a \<or> b \<le> k \<Longrightarrow> block' ! k = block ! k"
  shows "laid_out block' limit off (pre @ mid' @ post)"
proof -
  from assms(1) obtain m n stop where pre: "chain off pre m" and mid: "chain m mid n"
    and post: "chain n post stop" "limit < stop + 8"
    and ok: "\<forall>e \<in> set (pre @ mid @ post). slot_at block limit e"
    by (auto simp: laid_out_def chain_append)
  have "m = a" using mid assms(3,4) by (cases mid) auto
  have "n = b" using mid assms(3) chain_functional unfolding \<open>m = a\<close> by blast
  have "\<forall>e \<in> set pre. slot_at block' limit e"
  proof (rule slots_outside_frame [where block = block])
    show "block' ! k = block ! k" if "e \<in> set pre" "de_off e \<le> k" "k < de_off e + de_len e" for e k
      using chain_bounds [OF pre that(1)] that \<open>m = a\<close> by (intro assms(8)) simp
  qed (use ok assms(2,7) in simp_all)
  moreover have "\<forall>e \<in> set post. slot_at block' limit e"
  proof (rule slots_outside_frame [where block = block])
    show "block' ! k = block ! k" if "e \<in> set post" "de_off e \<le> k" "k < de_off e + de_len e" for e k
      using chain_bounds [OF post(1) that(1)] that \<open>n = b\<close> by (intro assms(8)) simp
  qed (use ok assms(2,7) in simp_all)
  ultimately show ?thesis
    using pre post assms(5,6) unfolding \<open>m = a\<close> \<open>n = b\<close>
    by (auto simp: laid_out_def chain_append)
qed

section \<open>The name map of a block\<close>

definition live_entries :: "dirent list \<Rightarrow> (bytes \<times> u32 \<times> u8) list" where
  "live_entries es = map (\<lambda>e. (de_name e, de_ino e, de_ftype e)) (filter live es)"

definition name_map :: "dirent list \<Rightarrow> bytes \<Rightarrow> (u32 \<times> u8) option" where
  "name_map es = map_of (live_entries es)"

definition unique_names :: "dirent list \<Rightarrow> bool" where
  "unique_names es \<longleftrightarrow> distinct (map fst (live_entries es))"

lemma live_entries_append [simp]: "live_entries (xs @ ys) = live_entries xs @ live_entries ys"
  by (simp add: live_entries_def)

lemma live_entries_simps [simp]:
  "live_entries [] = []"
  "live e \<Longrightarrow> live_entries (e # es) = (de_name e, de_ino e, de_ftype e) # live_entries es"
  "\<not> live e \<Longrightarrow> live_entries (e # es) = live_entries es"
  by (simp_all add: live_entries_def)

lemma live_entries_dead: "\<forall>e \<in> set es. \<not> live e \<Longrightarrow> live_entries es = []"
  by (induction es) auto

lemma name_map_Some_iff:
  "name_map es name \<noteq> None \<longleftrightarrow> (\<exists>e \<in> set es. live e \<and> de_name e = name)"
  by (force simp: name_map_def live_entries_def map_of_eq_None_iff)

lemma first_match_split:
  assumes "\<exists>e \<in> set es. live e \<and> de_name e = name"
  obtains pre t post where "es = pre @ t # post" "live t" "de_name t = name"
    "\<forall>e \<in> set pre. \<not> (live e \<and> de_name e = name)"
  using split_list_first_prop [OF assms] by auto

lemma map_of_middle:
  "k \<notin> fst ` set xs \<Longrightarrow> map_of (xs @ (k, v) # ys) = (map_of (xs @ ys))(k \<mapsto> v)"
  by (induction xs) (auto simp: fun_upd_twist)

lemma map_of_without:
  "k \<notin> fst ` set xs \<Longrightarrow> k \<notin> fst ` set ys \<Longrightarrow> (map_of (xs @ ys))(k := None) = map_of (xs @ ys)"
  by (rule fun_upd_idem) (simp add: map_of_eq_None_iff image_Un del: map_of_append)

lemma unique_middle:
  "unique_names (pre @ t # post) \<Longrightarrow> live t \<Longrightarrow>
     de_name t \<notin> fst ` set (live_entries pre) \<and> de_name t \<notin> fst ` set (live_entries post)"
  by (auto simp: unique_names_def)

lemma name_map_update_at:
  assumes "unique_names (pre @ t # post)" "live t" "live t'" "de_name t' = de_name t"
  shows "name_map (pre @ t' # post) = (name_map (pre @ t # post))(de_name t \<mapsto> (de_ino t', de_ftype t'))"
    and "unique_names (pre @ t' # post)"
  using assms unique_middle [OF assms(1,2)]
  by (simp_all add: name_map_def map_of_middle unique_names_def del: map_of_append)

lemma name_map_delete_at:
  assumes "unique_names (pre @ t # post)" "live t"
    and "live_entries es' = live_entries pre @ live_entries post"
  shows "name_map es' = (name_map (pre @ t # post))(de_name t := None)" "unique_names es'"
  using assms unique_middle [OF assms(1,2)]
  by (simp_all add: name_map_def map_of_middle map_of_without unique_names_def del: map_of_append)

lemma name_map_insert_at:
  assumes "unique_names es" "name_map es (de_name t) = None" "live t"
    and "live_entries es = xs @ ys" "live_entries es' = xs @ (de_name t, de_ino t, de_ftype t) # ys"
  shows "name_map es' = (name_map es)(de_name t \<mapsto> (de_ino t, de_ftype t))" "unique_names es'"
proof -
  have "de_name t \<notin> fst ` set xs" "de_name t \<notin> fst ` set ys"
    using assms(2,4) unfolding name_map_def map_of_eq_None_iff by auto
  then show "name_map es' = (name_map es)(de_name t \<mapsto> (de_ino t, de_ftype t))" "unique_names es'"
    using assms by (simp_all add: name_map_def map_of_middle unique_names_def del: map_of_append)
qed

end
