(* ===== verification/Dir_Refine.thy ===== *)
theory Dir_Refine
  imports Dir_Layout
begin

text \<open>
  Refinement of the directory-block operations to maps from names to inodes and file types.
  On a laid-out block every loop of \<open>Dir_Block\<close> is a function of the slot list, and every
  mutation yields a laid-out block again whose name map is the expected update.
\<close>

section \<open>Reading a slot\<close>

lemma required_rec_len_alt: "required_rec_len n = (n + 11) div 4 * 4"
  by (simp add: required_rec_len_def align4_def DIR_ENTRY_HEADER_LEN_def push_bit_eq_mult drop_bit_eq_div
      add.commute)

lemma required_rec_len_bounds:
  "8 + n \<le> required_rec_len n" "required_rec_len n < 12 + n" "required_rec_len n mod 4 = 0"
proof -
  show "required_rec_len n mod 4 = 0" by (simp add: required_rec_len_alt)
  have d: "(n + 11) div 4 * 4 + (n + 11) mod 4 = n + 11" by (rule div_mult_mod_eq)
  have "(n + 11) mod 4 < 4" by simp
  with d show "8 + n \<le> required_rec_len n" "required_rec_len n < 12 + n"
    by (simp_all add: required_rec_len_alt del: mod_less_divisor)
qed

lemma required_rec_len_least:
  assumes "8 + n \<le> m" "m mod 4 = 0"
  shows "required_rec_len n \<le> m"
proof -
  from assms(2) obtain q where q: "m = 4 * q" by auto
  have "(n + 11) div 4 \<le> q" using assms(1) q by simp
  then show ?thesis by (simp add: required_rec_len_alt q)
qed

lemma slot_required:
  "slot_at block limit e \<Longrightarrow> required_rec_len (length (de_name e)) \<le> de_len e"
  by (intro required_rec_len_least) (simp_all add: slot_at_def)

lemma read_named_header_slot:
  assumes "slot_at block limit e" "dir_block_ok block limit"
  shows "read_named_header block limit (de_off e)
    = Inr (header_of e, de_off e + 8 + length (de_name e))"
proof -
  have "de_off e + (8 + length (de_name e)) \<le> usize_max"
    using assms by (auto simp: slot_at_def dir_block_ok_def)
  then show ?thesis using assms
    by (simp add: read_named_header_def read_header_slot_at arith_defs DIR_ENTRY_HEADER_LEN_def
        header_of_def slot_at_def add.assoc)
qed

lemma slot_name: "slot_at block limit e \<Longrightarrow>
   segment block (de_off e + 8) (de_off e + 8 + length (de_name e)) = de_name e"
  by (simp add: slot_at_def)

lemma slot_guard: "slot_at block limit e \<Longrightarrow> de_off e + DIR_ENTRY_HEADER_LEN \<le> limit"
  by (auto simp: slot_at_def DIR_ENTRY_HEADER_LEN_def)

section \<open>The loops on a slot list\<close>

lemma name_map_Cons:
  "name_map (e # es) name =
     (if live e \<and> de_name e = name then Some (de_ino e, de_ftype e) else name_map es name)"
  by (cases "live e") (auto simp: name_map_def)

lemma contains_loop_step:
  assumes "slot_at block limit e" "dir_block_ok block limit"
  shows "contains_loop block name limit (de_off e) =
    (if live e \<and> de_name e = name then Inr True
     else contains_loop block name limit (de_off e + de_len e))"
proof -
  let ?o = "de_off e"
  have len: "?o + de_len e \<le> length block" "?o + de_len e \<le> usize_max"
    "?o + (8 + length (de_name e)) \<le> usize_max" "?o + 8 \<le> length block"
    using assms by (auto simp: slot_at_def dir_block_ok_def)
  have rl: "read_u16_le block (?o + 4) = Some (of_nat (de_len e))"
  proof -
    have g: "get_range block (?o + 4) (?o + 6) = Some (u16_to_le (of_nat (de_len e)))"
      using assms len by (simp add: get_range_def slot_at_def)
    have s: "?o + 4 + 2 = ?o + 6" by simp
    show ?thesis unfolding read_u16_le_def s g by simp
  qed
  have ri: "read_u32_le block ?o = Some (de_ino e)"
    using assms len by (simp add: read_u32_le_def get_range_def slot_at_def)
  have u: "unat (of_nat (de_len e) :: u16) = de_len e" "unat (block ! (?o + 6)) = length (de_name e)"
    using assms by (simp_all add: slot_at_def unat_of_nat)
  show ?thesis
    using assms len u slot_name [OF assms(1)] slot_guard [OF assms(1)]
    by (subst contains_loop.simps)
      (simp add: rl ri Let_def arith_defs DIR_ENTRY_HEADER_LEN_def slot_at_def live_def add.assoc)
qed

lemma contains_loop_end: "limit < off + 8 \<Longrightarrow> contains_loop block name limit off = Inr False"
  by (subst contains_loop.simps) (simp add: DIR_ENTRY_HEADER_LEN_def)

lemma contains_loop_laid_out:
  assumes "laid_out block limit off es" "dir_block_ok block limit"
  shows "contains_loop block name limit off = Inr (name_map es name \<noteq> None)"
  using assms(1)
proof (induction es arbitrary: off)
  case Nil
  then show ?case by (simp add: contains_loop_end name_map_def)
next
  case (Cons e es)
  then have e: "slot_at block limit e" "de_off e = off" and l: "laid_out block limit (off + de_len e) es"
    by simp_all
  have "contains_loop block name limit off = (if live e \<and> de_name e = name then Inr True
     else Inr (name_map es name \<noteq> None))"
    using contains_loop_step [OF e(1) assms(2)] Cons.IH [OF l] e(2) by simp
  then show ?case by (simp add: name_map_Cons)
qed

definition last_live :: "usize option \<Rightarrow> dirent list \<Rightarrow> usize option" where
  "last_live prev es = fold (\<lambda>e p. if live e then Some (de_off e) else p) es prev"

lemma remove_loop_step:
  assumes "slot_at block limit e" "dir_block_ok block limit"
  shows "remove_loop block name limit (de_off e) prev =
    (if live e \<and> de_name e = name then remove_at block (de_off e) prev (header_of e)
     else remove_loop block name limit (de_off e + de_len e) (if live e then Some (de_off e) else prev))"
  using slot_name [OF assms(1)] slot_guard [OF assms(1)] read_named_header_slot [OF assms]
  by (subst remove_loop.simps) (simp add: header_of_def live_def DIR_ENTRY_HEADER_LEN_def)

lemma remove_loop_end: "limit < off + 8 \<Longrightarrow> remove_loop block name limit off prev = (Inr None, block)"
  by (subst remove_loop.simps) (simp add: DIR_ENTRY_HEADER_LEN_def)

lemma remove_loop_absent:
  assumes "laid_out block limit off es" "dir_block_ok block limit"
    and "\<forall>e \<in> set es. \<not> (live e \<and> de_name e = name)"
  shows "remove_loop block name limit off prev = (Inr None, block)"
  using assms(1,3)
proof (induction es arbitrary: off prev)
  case (Cons e es)
  then show ?case using remove_loop_step [of block limit e name prev] assms(2) by auto
qed (simp add: remove_loop_end)

lemma remove_loop_found:
  assumes "laid_out block limit off (pre @ t # post)" "dir_block_ok block limit"
    and "\<forall>e \<in> set pre. \<not> (live e \<and> de_name e = name)" "live t" "de_name t = name"
  shows "remove_loop block name limit off prev
    = remove_at block (de_off t) (last_live prev pre) (header_of t)"
  using assms(1,3)
proof (induction pre arbitrary: off prev)
  case Nil
  then show ?case using remove_loop_step [of block limit t name prev] assms(2,4,5)
    by (auto simp: last_live_def)
next
  case (Cons e pre)
  then show ?case using remove_loop_step [of block limit e name prev] assms(2)
    by (auto simp: last_live_def)
qed

lemma update_loop_step:
  assumes "slot_at block limit e" "dir_block_ok block limit"
  shows "update_loop block name ino ft limit (de_off e) =
    (if live e \<and> de_name e = name
     then (Inr True, case ft of None \<Rightarrow> blit block (de_off e) (u32_to_le ino)
           | Some f \<Rightarrow> (blit block (de_off e) (u32_to_le ino))[de_off e + 7 := to_raw f])
     else update_loop block name ino ft limit (de_off e + de_len e))"
proof -
  have "de_off e + 4 \<le> length block"
    using assms slot_guard [OF assms(1)] by (simp add: dir_block_ok_def DIR_ENTRY_HEADER_LEN_def)
  then show ?thesis
    using slot_name [OF assms(1)] slot_guard [OF assms(1)] read_named_header_slot [OF assms]
    by (subst update_loop.simps)
      (simp add: header_of_def live_def DIR_ENTRY_HEADER_LEN_def write_u32_le_def)
qed

lemma update_loop_end: "limit < off + 8 \<Longrightarrow> update_loop block name ino ft limit off = (Inr False, block)"
  by (subst update_loop.simps) (simp add: DIR_ENTRY_HEADER_LEN_def)


lemma update_loop_absent:
  assumes "laid_out block limit off es" "dir_block_ok block limit"
    and "\<forall>e \<in> set es. \<not> (live e \<and> de_name e = name)"
  shows "update_loop block name ino ft limit off = (Inr False, block)"
  using assms(1,3)
proof (induction es arbitrary: off)
  case (Cons e es)
  then show ?case using update_loop_step [of block limit e name ino ft] assms(2) by auto
qed (simp add: update_loop_end)

lemma update_loop_found:
  assumes "laid_out block limit off (pre @ t # post)" "dir_block_ok block limit"
    and "\<forall>e \<in> set pre. \<not> (live e \<and> de_name e = name)" "live t" "de_name t = name"
  shows "update_loop block name ino ft limit off =
    (Inr True, case ft of None \<Rightarrow> blit block (de_off t) (u32_to_le ino)
       | Some f \<Rightarrow> (blit block (de_off t) (u32_to_le ino))[de_off t + 7 := to_raw f])"
  using assms(1,3)
proof (induction pre arbitrary: off)
  case Nil
  then show ?case using update_loop_step [of block limit t name ino ft] assms(2,4,5) by auto
next
  case (Cons e pre)
  then show ?case using update_loop_step [of block limit e name ino ft] assms(2) by auto
qed

text \<open>The slot that the adding loops choose: the first one in which the new entry fits.\<close>

fun pick_slot :: "usize \<Rightarrow> dirent list \<Rightarrow> slot option" where
  "pick_slot need [] = None"
| "pick_slot need (e # es) =
     (if \<not> live e
      then if need \<le> de_len e then Some (Tombstone (de_off e) (de_len e)) else pick_slot need es
      else let actual = required_rec_len (length (de_name e))
           in if need \<le> de_len e - actual then Some (Split (de_off e) actual (de_len e - actual))
              else pick_slot need es)"

lemma find_slot_step:
  assumes "slot_at block limit e" "dir_block_ok block limit"
  shows "find_slot_loop block name need limit (de_off e) sl =
    (if live e \<and> de_name e = name then Inl Exists
     else find_slot_loop block name need limit (de_off e + de_len e)
            (if sl = None then pick_slot need [e] else sl))"
proof -
  note facts = slot_name [OF assms(1)] slot_guard [OF assms(1)] read_header_slot_at [OF assms]
    slot_required [OF assms(1)]
  have len: "8 + length (de_name e) \<le> de_len e" using assms by (simp add: slot_at_def)
  have nm: "segment block (de_off e + DIR_ENTRY_HEADER_LEN)
      (de_off e + DIR_ENTRY_HEADER_LEN + length (de_name e)) = de_name e"
    using facts(1) by (simp add: DIR_ENTRY_HEADER_LEN_def)
  show ?thesis
  proof (cases "live e")
    case True
    with facts(2-) len nm show ?thesis
      by (subst find_slot_loop.simps) (simp add: header_of_def live_def DIR_ENTRY_HEADER_LEN_def Let_def)
  next
    case False
    with facts(2-) len show ?thesis
      by (subst find_slot_loop.simps) (simp add: header_of_def live_def DIR_ENTRY_HEADER_LEN_def)
  qed
qed

lemma find_slot_end: "limit < off + 8 \<Longrightarrow> find_slot_loop block name need limit off sl = Inr sl"
  by (subst find_slot_loop.simps) (simp add: DIR_ENTRY_HEADER_LEN_def)

lemma find_slot_laid_out:
  assumes "laid_out block limit off es" "dir_block_ok block limit"
  shows "find_slot_loop block name need limit off sl =
    (if name_map es name \<noteq> None then Inl Exists
     else Inr (if sl = None then pick_slot need es else sl))"
  using assms(1)
proof (induction es arbitrary: off sl)
  case (Cons e es)
  then have e: "slot_at block limit e" "de_off e = off" and l: "laid_out block limit (off + de_len e) es"
    by simp_all
  show ?case
    using find_slot_step [OF e(1) assms(2), of name need sl] Cons.IH [OF l] e(2)
    by (cases sl; cases "live e") (simp_all add: name_map_Cons Let_def)
qed (simp add: find_slot_end name_map_def)

lemma add_entry_step:
  assumes "slot_at block limit e" "dir_block_ok block limit"
  shows "add_entry_loop ino name ft need limit block (de_off e) =
    (case pick_slot need [e] of
       Some sl \<Rightarrow> apply_slot block ino name ft (Some sl)
     | None \<Rightarrow> add_entry_loop ino name ft need limit block (de_off e + de_len e))"
proof -
  have "8 + length (de_name e) \<le> de_len e" using assms by (simp add: slot_at_def)
  then show ?thesis
    using slot_guard [OF assms(1)] read_header_slot_at [OF assms] slot_required [OF assms(1)]
    by (subst add_entry_loop.simps)
      (simp add: header_of_def live_def DIR_ENTRY_HEADER_LEN_def Let_def apply_slot_def)
qed

lemma add_entry_end: "limit < off + 8 \<Longrightarrow> add_entry_loop ino name ft need limit block off = (Inl NoSpace, block)"
  by (subst add_entry_loop.simps) (simp add: DIR_ENTRY_HEADER_LEN_def)

lemma add_entry_laid_out:
  assumes "laid_out block limit off es" "dir_block_ok block limit"
  shows "add_entry_loop ino name ft need limit block off = apply_slot block ino name ft (pick_slot need es)"
  using assms(1)
proof (induction es arbitrary: off)
  case (Cons e es)
  then have e: "slot_at block limit e" "de_off e = off" and l: "laid_out block limit (off + de_len e) es"
    by simp_all
  show ?case
    using add_entry_step [OF e(1) assms(2), of ino name ft need] Cons.IH [OF l] e(2)
    by (auto simp: Let_def)
qed (simp add: add_entry_end apply_slot_def)

section \<open>Mutations on the bytes\<close>

lemma segment_blit_inside:
  assumes "off + length ys \<le> length xs" "j \<le> length ys"
  shows "segment (blit xs off ys) (off + i) (off + j) = segment ys i j"
  using assms by (intro nth_equalityI) (auto simp: nth_blit)

definition entry_bytes :: "u32 \<Rightarrow> usize \<Rightarrow> ext4_file_type \<Rightarrow> bytes \<Rightarrow> bytes" where
  "entry_bytes ino rec_len ft name =
     u32_to_le ino @ u16_to_le (of_nat rec_len) @ [of_nat (length name), to_raw ft] @ name
       @ replicate (rec_len - (8 + length name)) 0"

lemma length_entry_bytes [simp]:
  "8 + length name \<le> rec_len \<Longrightarrow> length (entry_bytes ino rec_len ft name) = rec_len"
  by (simp add: entry_bytes_def)

lemma write_entry_effect:
  assumes "off + rec_len \<le> length block" "length block \<le> usize_max" "rec_len < 65536"
    and "required_rec_len (length name) \<le> rec_len" "length name < 256"
  shows "write_entry block off ino rec_len ft name
    = (Inr (), blit block off (entry_bytes ino rec_len ft name))"
proof -
  let ?h = "u32_to_le ino @ u16_to_le (of_nat rec_len) @ [of_nat (length name), to_raw ft]"
  let ?z = "replicate (rec_len - (8 + length name)) (0 :: u8)"
  have n: "8 + length name \<le> rec_len" using assms(4) required_rec_len_bounds(1) [of "length name"] by simp
  have h: "length ?h = 8" by simp
  have "blit (blit block off ?h) (off + 8) name = blit block off (?h @ name)"
    using blit_append [of off ?h name block] n assms(1) h by simp
  moreover have "blit (blit block off (?h @ name)) (off + (8 + length name)) ?z = blit block off ((?h @ name) @ ?z)"
    using blit_append [of off "?h @ name" ?z block] n assms(1) h by simp
  ultimately show ?thesis
    using assms n by (simp add: write_entry_def arith_defs Let_def DIR_ENTRY_HEADER_LEN_def entry_bytes_def)
qed


definition new_slot :: "usize \<Rightarrow> usize \<Rightarrow> u32 \<Rightarrow> ext4_file_type \<Rightarrow> bytes \<Rightarrow> dirent" where
  "new_slot off rec_len ino ft name =
     \<lparr>de_off = off, de_len = rec_len, de_ino = ino, de_name = name, de_ftype = to_raw ft\<rparr>"

lemma segment_append_mid:
  "length xs = i \<Longrightarrow> i + length ys = j \<Longrightarrow> segment (xs @ ys @ zs) i j = ys"
  by (auto simp: segment_def)

lemma slot_at_written:
  assumes "off + rec_len \<le> limit" "limit \<le> length block" "rec_len < 65536" "rec_len mod 4 = 0"
    and "8 + length name \<le> rec_len" "length name < 256"
  shows "slot_at (blit block off (entry_bytes ino rec_len ft name)) limit (new_slot off rec_len ino ft name)"
proof -
  let ?e = "entry_bytes ino rec_len ft name"
  have len: "off + length ?e \<le> length block" using assms by simp
  have seg: "segment (blit block off ?e) (off + i) (off + j) = segment ?e i j" if "j \<le> rec_len" for i j
    using segment_blit_inside [OF len] that assms(5) by simp
  have "segment ?e 0 4 = u32_to_le ino"
    using segment_append_mid [of "[]" 0 "u32_to_le ino" 4] by (simp add: entry_bytes_def)
  moreover have "segment ?e 4 6 = u16_to_le (of_nat rec_len)"
    using segment_append_mid [of "u32_to_le ino" 4 "u16_to_le (of_nat rec_len)" 6] by (simp add: entry_bytes_def)
  moreover have "segment ?e 8 (8 + length name) = name"
    using segment_append_mid [of "u32_to_le ino @ u16_to_le (of_nat rec_len) @ [of_nat (length name), to_raw ft]"
        8 name "8 + length name"] by (simp add: entry_bytes_def)
  moreover have "blit block off ?e ! (off + 6) = of_nat (length name)" "blit block off ?e ! (off + 7) = to_raw ft"
    using len assms by (simp_all add: nth_blit) (simp_all add: entry_bytes_def nth_append)
  ultimately show ?thesis
    using assms seg [of 4 0] seg [of 6 4] seg [of "8 + length name" 8]
    by (simp add: slot_at_def new_slot_def add.assoc)
qed

lemma slot_at_shorten:
  assumes "slot_at block limit e" "limit \<le> length block" "length block' = length block"
    and "8 + length (de_name e) \<le> len" "len mod 4 = 0" "de_off e + len \<le> limit" "len < 65536"
    and "segment block' (de_off e + 4) (de_off e + 6) = u16_to_le (of_nat len)"
    and "\<And>k. de_off e \<le> k \<Longrightarrow> k < de_off e + 4 \<Longrightarrow> block' ! k = block ! k"
    and "\<And>k. de_off e + 6 \<le> k \<Longrightarrow> k < de_off e + 8 + length (de_name e) \<Longrightarrow> block' ! k = block ! k"
  shows "slot_at block' limit (e\<lparr>de_len := len\<rparr>)"
proof -
  have "segment block' (de_off e) (de_off e + 4) = segment block (de_off e) (de_off e + 4)"
    using assms(3,9) by (intro segment_eqI) auto
  moreover have "segment block' (de_off e + 8) (de_off e + 8 + length (de_name e))
      = segment block (de_off e + 8) (de_off e + 8 + length (de_name e))"
    using assms(3,10) by (intro segment_eqI) auto
  moreover have "block' ! (de_off e + 6) = block ! (de_off e + 6)"
    "block' ! (de_off e + 7) = block ! (de_off e + 7)"
    by (rule assms(10); simp)+
  ultimately show ?thesis using assms(1,4-8) by (simp add: slot_at_def)
qed

section \<open>Applying the chosen slot\<close>

lemma pick_slot_SomeD:
  assumes "pick_slot need es = Some sl"
  obtains (tomb) pre t post where "es = pre @ t # post" "\<not> live t" "need \<le> de_len t"
      "sl = Tombstone (de_off t) (de_len t)"
    | (split) pre t post where "es = pre @ t # post" "live t"
      "need \<le> de_len t - required_rec_len (length (de_name t))"
      "sl = Split (de_off t) (required_rec_len (length (de_name t)))
              (de_len t - required_rec_len (length (de_name t)))"
  using assms
proof (induction es arbitrary: thesis)
  case (Cons e es)
  show ?case
  proof (cases "pick_slot need [e] = Some sl")
    case True
    then show ?thesis
      using Cons.prems(1) [of "[]" e es] Cons.prems(2) [of "[]" e es]
      by (auto simp: Let_def split: if_splits)
  next
    case False
    with Cons.prems(3) have "pick_slot need es = Some sl" by (auto simp: Let_def split: if_splits)
    then show ?thesis
      using Cons.IH Cons.prems(1,2) by (metis append_Cons)
  qed
qed simp


definition edit_covers :: "bytes \<Rightarrow> bytes \<Rightarrow> dir_edit \<Rightarrow> bool" where
  "edit_covers block block' ed \<longleftrightarrow>
     length block' = length block \<and> region_start ed + length (old_bytes ed) \<le> length block \<and>
     old_bytes ed = segment block (region_start ed) (region_start ed + length (old_bytes ed)) \<and>
     (\<forall>k < length block. block' ! k \<noteq> block ! k \<longrightarrow>
        region_start ed \<le> k \<and> k < region_start ed + length (old_bytes ed))"

lemma edit_covers_span:
  assumes "a \<le> b" "b \<le> length block" "length block' = length block"
    and "\<And>k. k < a \<or> b \<le> k \<Longrightarrow> block' ! k = block ! k"
  shows "edit_covers block block' \<lparr>region_start = a, old_bytes = segment block a b\<rparr>"
proof -
  have "length (segment block a b) = b - a" using assms(2) by simp
  moreover have "a \<le> k \<and> k < b" if "block' ! k \<noteq> block ! k" for k
    using that assms(4) [of k] by linarith
  ultimately show ?thesis using assms(1-3) by (auto simp: edit_covers_def)
qed

lemma edit_covers_dir_block_edit:
  assumes "dir_block_edit block a b = Some ed" "b \<le> length block" "length block' = length block"
    and "\<And>k. k < a \<or> b \<le> k \<Longrightarrow> block' ! k = block ! k"
  shows "edit_covers block block' ed"
proof -
  from assms(1) have "ed = \<lparr>region_start = a, old_bytes = segment block a b\<rparr>" "a \<le> b"
    by (auto simp: dir_block_edit_def arith_defs split: if_splits)
  with edit_covers_span [OF _ assms(2-4)] show ?thesis by simp
qed

text \<open>What adding an entry into a laid-out block with slots \<open>es\<close> achieves.\<close>

definition added ::
  "bytes \<Rightarrow> usize \<Rightarrow> dirent list \<Rightarrow> bytes \<Rightarrow> u32 \<Rightarrow> ext4_file_type
   \<Rightarrow> (usize \<times> dir_edit option) ffs_result \<times> bytes \<Rightarrow> bool" where
  "added block limit es name ino ft res \<longleftrightarrow>
     (\<exists>off edit block' es' xs ys.
        res = (Inr (off, edit), block') \<and> length block' = length block \<and> laid_out block' limit 0 es' \<and>
        live_entries es = xs @ ys \<and> live_entries es' = xs @ (name, ino, to_raw ft) # ys \<and>
        (\<exists>e \<in> set es'. de_off e = off \<and> live e \<and> de_name e = name) \<and>
        (\<forall>k. limit \<le> k \<longrightarrow> block' ! k = block ! k) \<and>
        (\<forall>ed. edit = Some ed \<longrightarrow> edit_covers block block' ed))"

lemma laid_out_middle:
  assumes "laid_out block limit off (pre @ t # post)"
  shows "slot_at block limit t" "chain (de_off t) [t] (de_off t + de_len t)"
  using assms by (auto simp: laid_out_def)

lemma addedI:
  assumes "length block' = length block" "laid_out block' limit 0 es'"
    and "live_entries es = xs @ ys" "live_entries es' = xs @ (name, ino, to_raw ft) # ys"
    and "n \<in> set es'" "de_off n = off" "live n" "de_name n = name"
    and "\<And>k. limit \<le> k \<Longrightarrow> block' ! k = block ! k"
    and "\<And>ed. edit = Some ed \<Longrightarrow> edit_covers block block' ed"
  shows "added block limit es name ino ft (Inr (off, edit), block')"
  unfolding added_def
  by (rule exI [of _ off], rule exI [of _ edit], rule exI [of _ block'], rule exI [of _ es'],
      rule exI [of _ xs], rule exI [of _ ys]) (use assms in blast)

lemma reuse_effect:
  assumes lay: "laid_out block limit 0 (pre @ t # post)" and ok: "dir_block_ok block limit"
    and dead: "\<not> live t" and need: "required_rec_len (length name) \<le> de_len t"
    and name: "length name < 256" and ino: "ino \<noteq> 0"
  shows "added block limit (pre @ t # post) name ino ft
    (apply_slot block ino name ft (Some (Tombstone (de_off t) (de_len t))))"
proof -
  let ?b = "blit block (de_off t) (entry_bytes ino (de_len t) ft name)"
  let ?n = "new_slot (de_off t) (de_len t) ino ft name"
  have t: "slot_at block limit t" using laid_out_middle [OF lay] by simp
  then have b: "de_off t + de_len t \<le> limit" "de_len t < 65536" "de_len t mod 4 = 0"
    "limit \<le> length block" "length block \<le> usize_max"
    using ok by (simp_all add: slot_at_def dir_block_ok_def)
  have n8: "8 + length name \<le> de_len t" using need required_rec_len_bounds(1) [of "length name"] by simp
  have w: "write_entry block (de_off t) ino (de_len t) ft name = (Inr (), ?b)"
    using b need name by (intro write_entry_effect) simp_all
  have same: "?b ! k = block ! k" if "k < de_off t \<or> de_off t + de_len t \<le> k" for k
    using that b n8 by (auto simp: blit_def nth_append)
  have len: "length ?b = length block" using b n8 by simp
  have "laid_out ?b limit 0 (pre @ [?n] @ post)"
  proof (rule laid_out_replace [where mid = "[t]"])
    show "\<forall>e \<in> set [?n]. slot_at ?b limit e" using b n8 name by (simp add: slot_at_written)
    show "chain (de_off t) [?n] (de_off t + de_len t)" by (simp add: new_slot_def)
  qed (use lay b len same in auto)
  then have "added block limit (pre @ t # post) name ino ft
      (Inr (de_off t, dir_block_edit block (de_off t) (de_off t + de_len t)), ?b)"
  proof (rule addedI [OF len, where xs = "live_entries pre" and ys = "live_entries post" and n = ?n])
    show "edit_covers block ?b ed"
      if "dir_block_edit block (de_off t) (de_off t + de_len t) = Some ed" for ed
      using b len same by (intro edit_covers_dir_block_edit [OF that]) simp_all
  qed (use dead ino same b in \<open>simp_all add: live_entries_def new_slot_def live_def\<close>)
  then show ?thesis by (simp add: apply_slot_def reuse_and_write_def w)
qed

definition split_block :: "bytes \<Rightarrow> dirent \<Rightarrow> usize \<Rightarrow> u32 \<Rightarrow> ext4_file_type \<Rightarrow> bytes \<Rightarrow> bytes" where
  "split_block block t actual ino ft name =
     blit (blit block (de_off t + 4) (u16_to_le (of_nat actual))) (de_off t + actual)
       (entry_bytes ino (de_len t - actual) ft name)"

lemma split_block_facts:
  assumes t: "slot_at block limit t" and ok: "dir_block_ok block limit"
    and act: "actual = required_rec_len (length (de_name t))"
    and need: "required_rec_len (length name) \<le> de_len t - actual" and name: "length name < 256"
  shows "split_and_write block (de_off t) actual (de_len t - actual) ino ft name edit
      = (Inr (de_off t + actual, edit), split_block block t actual ino ft name)" (is ?written)
    and "length (split_block block t actual ino ft name) = length block" (is ?len)
    and "k < de_off t + 4 \<or> de_off t + de_len t \<le> k \<Longrightarrow>
      split_block block t actual ino ft name ! k = block ! k" (is "_ \<Longrightarrow> ?same")
    and "slot_at (split_block block t actual ino ft name) limit (t\<lparr>de_len := actual\<rparr>)" (is ?old)
    and "slot_at (split_block block t actual ino ft name) limit
      (new_slot (de_off t + actual) (de_len t - actual) ino ft name)" (is ?new)
    and "actual \<le> de_len t"
proof -
  let ?o = "de_off t" and ?s = "de_len t - actual"
  let ?b1 = "blit block (?o + 4) (u16_to_le (of_nat actual))"
  let ?b = "split_block block t actual ino ft name"
  have b: "?o + de_len t \<le> limit" "de_len t < 65536" "de_len t mod 4 = 0"
    "limit \<le> length block" "length block \<le> usize_max" "length (de_name t) < 256"
    using t ok by (simp_all add: slot_at_def dir_block_ok_def)
  show a1: "actual \<le> de_len t" using slot_required [OF t] by (simp add: act)
  have a: "actual mod 4 = 0" "8 + length (de_name t) \<le> actual"
    using required_rec_len_bounds [of "length (de_name t)"] by (simp_all add: act)
  have s: "?s mod 4 = 0" using a1 a(1) b(3) by (simp add: mod_eq_0_iff_dvd dvd_diff_nat)
  have n8: "8 + length name \<le> ?s" using need required_rec_len_bounds(1) [of "length name"] by simp
  have len1: "length ?b1 = length block" using b a a1 by simp
  have "write_entry ?b1 (?o + actual) ino ?s ft name = (Inr (), ?b)"
    unfolding split_block_def using b a1 need name len1 by (intro write_entry_effect) simp_all
  then show ?written using b a a1 by (simp add: split_and_write_def write_u16_le_def arith_defs)
  show len: ?len using b a1 n8 len1 by (simp add: split_block_def)
  have low: "?b ! k = ?b1 ! k" if "k < ?o + actual \<or> ?o + de_len t \<le> k" for k
    using that b a1 n8 len1 unfolding split_block_def by (auto simp: blit_def [of ?b1] nth_append)
  have b1: "?b1 ! k = block ! k" if "k < ?o + 4 \<or> ?o + 6 \<le> k" for k
    using that b a a1 by (auto simp: blit_def nth_append)
  show ?same if "k < ?o + 4 \<or> ?o + de_len t \<le> k"
    using that low [of k] b1 [of k] a a1 by auto
  have "segment ?b (?o + 4) (?o + 6) = segment ?b1 (?o + 4) (?o + 6)"
    using len len1 a low by (intro segment_eqI) auto
  also have "\<dots> = u16_to_le (of_nat actual)"
    using segment_blit_same [of "?o + 4" "u16_to_le (of_nat actual)" block] b a a1 by (simp add: add.commute)
  finally show ?old by (intro slot_at_shorten [OF t b(4) len]) (use a a1 b low b1 in auto)
  show ?new unfolding split_block_def using b a1 s n8 name len1 by (intro slot_at_written) simp_all
qed

lemma split_effect:
  assumes lay: "laid_out block limit 0 (pre @ t # post)" and ok: "dir_block_ok block limit"
    and live: "live t" and act: "actual = required_rec_len (length (de_name t))"
    and need: "required_rec_len (length name) \<le> de_len t - actual"
    and name: "length name < 256" and ino: "ino \<noteq> 0"
  shows "added block limit (pre @ t # post) name ino ft
    (apply_slot block ino name ft (Some (Split (de_off t) actual (de_len t - actual))))"
proof -
  let ?b = "split_block block t actual ino ft name" and ?o = "de_off t"
  let ?t = "t\<lparr>de_len := actual\<rparr>" and ?n = "new_slot (?o + actual) (de_len t - actual) ino ft name"
  have t: "slot_at block limit t" using laid_out_middle [OF lay] by simp
  note f = split_block_facts(1-5) [OF t ok act need name, where ino = ino and ft = ft]
  have fit: "actual \<le> de_len t" by (rule split_block_facts(6) [OF t ok act need name])
  have b: "?o + de_len t \<le> limit" "limit \<le> length block"
    using t ok by (simp_all add: slot_at_def dir_block_ok_def)
  have same: "?b ! k = block ! k" if "k < ?o + 4 \<or> ?o + de_len t \<le> k" for k by (rule f(3) [OF that])
  have "laid_out ?b limit 0 (pre @ [?t, ?n] @ post)"
  proof (rule laid_out_replace [where mid = "[t]", OF _ b(2)])
    show "chain ?o [?t, ?n] (?o + de_len t)" using fit by (simp add: new_slot_def)
    show "\<forall>e \<in> set [?t, ?n]. slot_at ?b limit e" using f(4,5) by simp
  qed (use lay f(2) same in auto)
  then have "added block limit (pre @ t # post) name ino ft
      (Inr (?o + actual, dir_block_edit block (?o + 4) (?o + de_len t)), ?b)"
  proof (rule addedI [OF f(2), where xs = "live_entries pre @ [(de_name t, de_ino t, de_ftype t)]"
        and ys = "live_entries post" and n = ?n])
    show "edit_covers block ?b ed" if "dir_block_edit block (?o + 4) (?o + de_len t) = Some ed" for ed
      using b f(2) same by (intro edit_covers_dir_block_edit [OF that]) simp_all
  qed (use live ino same b in \<open>simp_all add: live_entries_def new_slot_def live_def\<close>)
  then show ?thesis using fit by (simp add: apply_slot_def f(1) add.assoc)
qed

section \<open>Removing and retargeting a slot\<close>

definition removed ::
  "bytes \<Rightarrow> usize \<Rightarrow> (bytes \<times> u32 \<times> u8) list \<Rightarrow> u32 \<Rightarrow> (u32 \<times> dir_edit) option ffs_result \<times> bytes \<Rightarrow> bool" where
  "removed block limit rest ino res \<longleftrightarrow>
     (\<exists>ed block' es'. res = (Inr (Some (ino, ed)), block') \<and> length block' = length block \<and>
        laid_out block' limit 0 es' \<and> live_entries es' = rest \<and>
        (\<forall>k. limit \<le> k \<longrightarrow> block' ! k = block ! k) \<and> edit_covers block block' ed)"

lemma last_live_None: "last_live None es = None \<Longrightarrow> \<forall>e \<in> set es. \<not> live e"
  by (induction es rule: rev_induct) (auto simp: last_live_def split: if_splits)

lemma last_live_Some:
  assumes "last_live None es = Some po"
  obtains pre p dead where "es = pre @ p # dead" "live p" "de_off p = po" "\<forall>e \<in> set dead. \<not> live e"
  using assms
proof (induction es arbitrary: thesis rule: rev_induct)
  case (snoc e es)
  show ?case
  proof (cases "live e")
    case True
    with snoc.prems(2) have "de_off e = po" by (simp add: last_live_def)
    with True snoc.prems(1) [of es e "[]"] show ?thesis by simp
  next
    case False
    with snoc.prems(2) have "last_live None es = Some po" by (simp add: last_live_def)
    then obtain pre p dead where "es = pre @ p # dead" "live p" "de_off p = po" "\<forall>e \<in> set dead. \<not> live e"
      by (rule snoc.IH [rotated])
    with False snoc.prems(1) [of pre p "dead @ [e]"] show ?thesis by auto
  qed
qed (simp add: last_live_def)

definition clear_header :: "bytes \<Rightarrow> usize \<Rightarrow> bytes" where
  "clear_header block off = (blit block off (u32_to_le 0))[off + 6 := 0, off + 7 := 0]"

lemma clear_header_facts:
  assumes "off + 8 \<le> length block"
  shows "length (clear_header block off) = length block"
    and "k < off \<or> off + 8 \<le> k \<or> k = off + 4 \<or> k = off + 5 \<Longrightarrow> clear_header block off ! k = block ! k"
    and "segment (clear_header block off) off (off + 4) = u32_to_le 0"
    and "clear_header block off ! (off + 6) = 0" "clear_header block off ! (off + 7) = 0"
proof -
  show len: "length (clear_header block off) = length block" using assms by (simp add: clear_header_def)
  show "clear_header block off ! k = block ! k" if "k < off \<or> off + 8 \<le> k \<or> k = off + 4 \<or> k = off + 5"
    using that assms by (auto simp: clear_header_def nth_list_update blit_def nth_append)
  have "segment (clear_header block off) off (off + 4) = segment (blit block off (u32_to_le 0)) off (off + 4)"
    using assms by (intro segment_eqI) (auto simp: clear_header_def)
  also have "\<dots> = u32_to_le 0"
    using segment_blit_same [of off "u32_to_le 0" block] assms by simp
  finally show "segment (clear_header block off) off (off + 4) = u32_to_le 0" .
  show "clear_header block off ! (off + 6) = 0" "clear_header block off ! (off + 7) = 0"
    using assms by (simp_all add: clear_header_def)
qed

lemma slot_at_cleared:
  assumes "slot_at block limit t" "limit \<le> length block"
  shows "slot_at (clear_header block (de_off t)) limit (t\<lparr>de_ino := 0, de_name := [], de_ftype := 0\<rparr>)"
proof -
  let ?b = "clear_header block (de_off t)"
  have o: "de_off t + 8 \<le> length block" using assms by (auto simp: slot_at_def)
  note f = clear_header_facts [OF o]
  have "segment ?b (de_off t + 4) (de_off t + 6) = segment block (de_off t + 4) (de_off t + 6)"
    using f(1) by (intro segment_eqI) (auto intro!: f(2) simp: less_Suc_eq)
  with f assms show ?thesis by (simp add: slot_at_def)
qed

lemma remove_head_effect:
  assumes lay: "laid_out block limit 0 (pre @ t # post)" and ok: "dir_block_ok block limit"
    and dead: "\<forall>e \<in> set pre. \<not> live e"
  shows "removed block limit (live_entries pre @ live_entries post) (de_ino t)
    (remove_at block (de_off t) None (header_of t))"
proof -
  let ?b = "clear_header block (de_off t)" and ?o = "de_off t"
  let ?t = "t\<lparr>de_ino := 0, de_name := [], de_ftype := 0\<rparr>"
  let ?ed = "\<lparr>region_start = ?o, old_bytes = segment block ?o (?o + 8)\<rparr>"
  have t: "slot_at block limit t" using laid_out_middle [OF lay] by simp
  have o: "?o + 8 \<le> limit" "?o + 8 \<le> length block" "limit \<le> length block" "8 \<le> de_len t"
    using t ok by (auto simp: slot_at_def dir_block_ok_def)
  note f = clear_header_facts [OF o(2)]
  have "laid_out ?b limit 0 (pre @ [?t] @ post)"
  proof (rule laid_out_replace [where mid = "[t]" and a = ?o and b = "?o + de_len t"])
    show "\<forall>e \<in> set [?t]. slot_at ?b limit e" using slot_at_cleared [OF t o(3)] by simp
    show "?b ! k = block ! k" if "k < ?o \<or> ?o + de_len t \<le> k" for k
      using that o by (intro f(2)) auto
  qed (use lay o f(1) in auto)
  moreover have "live_entries (pre @ [?t] @ post) = live_entries pre @ live_entries post"
    by (simp add: live_entries_def live_def)
  moreover have "edit_covers block ?b ?ed"
    by (rule edit_covers_span) (use o f(1) in \<open>auto intro: f(2)\<close>)
  moreover have "remove_at block ?o None (header_of t) = (Inr (Some (de_ino t, ?ed)), ?b)"
    using o by (simp add: remove_at_def write_u32_le_def clear_header_def header_of_def DIR_ENTRY_HEADER_LEN_def Let_def)
  moreover have "\<forall>k. limit \<le> k \<longrightarrow> ?b ! k = block ! k" using o by (auto intro: f(2))
  ultimately show ?thesis using f(1) unfolding removed_def by blast
qed


lemma chain_aligned:
  assumes "chain off es stop" "off mod 4 = 0" "\<forall>e \<in> set es. slot_at block limit e"
  shows "\<forall>e \<in> set es. de_off e mod 4 = 0"
  using assms
proof (induction es arbitrary: off)
  case (Cons e es)
  then have "(off + de_len e) mod 4 = 0" by (simp add: slot_at_def mod_eq_0_iff_dvd)
  with Cons.prems have "\<forall>e \<in> set es. de_off e mod 4 = 0" by (intro Cons.IH [of "off + de_len e"]) simp_all
  with Cons.prems show ?case by simp
qed simp

lemma merged_slot_facts:
  assumes p: "slot_at block limit p" and t: "slot_at block limit t" and ok: "dir_block_ok block limit"
    and ord: "de_off p + de_len p \<le> de_off t" and small: "limit < 65536"
    and al: "de_off p mod 4 = 0" "de_off t mod 4 = 0"
  defines "m \<equiv> de_off t + de_len t - de_off p"
  defines "b1 \<equiv> blit block (de_off p + 4) (u16_to_le (of_nat m))"
  shows "remove_at block (de_off t) (Some (de_off p)) (header_of t) =
      (Inr (Some (de_ino t, \<lparr>region_start = de_off p + 4,
         old_bytes = segment block (de_off p + 4) (de_off t + 8)\<rparr>)), clear_header b1 (de_off t))" (is ?run)
    and "length (clear_header b1 (de_off t)) = length block" (is ?len)
    and "k < de_off p + 4 \<or> de_off t + 8 \<le> k \<Longrightarrow> clear_header b1 (de_off t) ! k = block ! k" (is "_ \<Longrightarrow> ?same")
    and "slot_at (clear_header b1 (de_off t)) limit (p\<lparr>de_len := m\<rparr>)" (is ?slot)
proof -
  let ?b = "clear_header b1 (de_off t)" and ?o = "de_off p"
  have b: "?o + 8 + length (de_name p) \<le> de_off t" "8 \<le> de_len p" "de_off t + de_len t \<le> limit"
    "limit \<le> length block" "8 \<le> de_len t"
    using p t ok ord by (auto simp: slot_at_def dir_block_ok_def)
  have len1: "length b1 = length block" using b by (simp add: b1_def)
  have m: "?o + m = de_off t + de_len t" using b by (simp add: m_def)
  show ?run
    using b small len1
    by (simp add: remove_at_def Let_def arith_defs write_u16_le_def write_u32_le_def header_of_def
        DIR_ENTRY_HEADER_LEN_def clear_header_def b1_def m_def)
  have "de_off t + 8 \<le> length b1" using b len1 by simp
  note f = clear_header_facts [OF this]
  show len: ?len using f(1) len1 by simp
  have b1: "b1 ! k = block ! k" if "k < ?o + 4 \<or> ?o + 6 \<le> k" for k
    using that b by (auto simp: b1_def blit_def nth_append)
  have low: "?b ! k = b1 ! k" if "k < de_off t" for k using that by (intro f(2)) simp
  show ?same if "k < ?o + 4 \<or> de_off t + 8 \<le> k"
    using that f(2) [of k] b1 [of k] b by auto
  show ?slot
  proof (rule slot_at_shorten [OF p b(4) len])
    have "segment ?b (?o + 4) (?o + 6) = segment b1 (?o + 4) (?o + 6)"
      using len len1 low b by (intro segment_eqI) auto
    also have "\<dots> = u16_to_le (of_nat m)"
      using segment_blit_same [of "?o + 4" "u16_to_le (of_nat m)" block] b
      by (simp add: b1_def add.commute)
    finally show "segment ?b (?o + 4) (?o + 6) = u16_to_le (of_nat m)" .
    show "m mod 4 = 0" using al t unfolding m_def slot_at_def mod_eq_0_iff_dvd
      by (intro dvd_diff_nat dvd_add) auto
  qed (use b m small low b1 in auto)
qed


lemma remove_merge_effect:
  assumes lay: "laid_out block limit 0 ((pre @ p # dead) @ t # post)" and ok: "dir_block_ok block limit"
    and live: "live p" and dead: "\<forall>e \<in> set dead. \<not> live e" and small: "limit < 65536"
  shows "removed block limit (live_entries (pre @ p # dead) @ live_entries post) (de_ino t)
    (remove_at block (de_off t) (Some (de_off p)) (header_of t))"
proof -
  let ?m = "de_off t + de_len t - de_off p"
  let ?b = "clear_header (blit block (de_off p + 4) (u16_to_le (of_nat ?m))) (de_off t)"
  let ?p = "p\<lparr>de_len := ?m\<rparr>"
  from lay obtain a m stop where pre: "chain 0 pre a" "de_off p = a" and dd: "chain (a + de_len p) dead m"
    and t: "de_off t = m" and post: "chain (m + de_len t) post stop"
    and ok': "\<forall>e \<in> set (pre @ p # dead @ t # post). slot_at block limit e"
    and whole: "\<exists>stop. chain 0 (pre @ p # dead @ t # post) stop"
    by (auto simp: laid_out_def chain_append)
  have ord: "de_off p + de_len p \<le> de_off t" using chain_le [OF dd] pre t by simp
  have "\<forall>e \<in> set (pre @ p # dead @ t # post). de_off e mod 4 = 0"
    using whole ok' chain_aligned by (metis mod_0)
  then have al: "de_off p mod 4 = 0" "de_off t mod 4 = 0" by simp_all
  have sl: "slot_at block limit p" "slot_at block limit t" using ok' by simp_all
  note f = merged_slot_facts [OF sl ok ord small al]
  have b: "de_off t + de_len t \<le> limit" "limit \<le> length block" "8 \<le> de_len t"
    using sl(2) ok by (simp_all add: slot_at_def dir_block_ok_def)
  have "laid_out ?b limit 0 (pre @ [?p] @ post)"
  proof (rule laid_out_replace [where mid = "p # dead @ [t]" and a = "de_off p" and b = "de_off t + de_len t"])
    show "chain (de_off p) (p # dead @ [t]) (de_off t + de_len t)"
      using pre dd t by (simp add: chain_append)
    show "chain (de_off p) [?p] (de_off t + de_len t)" using ord by simp
    show "\<forall>e \<in> set [?p]. slot_at ?b limit e" using f(4) by simp
    show "?b ! k = block ! k" if "k < de_off p \<or> de_off t + de_len t \<le> k" for k
      using that b by (intro f(3)) auto
  qed (use lay b f(2) in auto)
  moreover have "live_entries (pre @ [?p] @ post) = live_entries (pre @ p # dead) @ live_entries post"
    using live dead by (simp add: live_entries_def live_def)
  moreover have "edit_covers block ?b \<lparr>region_start = de_off p + 4,
      old_bytes = segment block (de_off p + 4) (de_off t + 8)\<rparr>"
  proof (rule edit_covers_span)
    show "?b ! k = block ! k" if "k < de_off p + 4 \<or> de_off t + 8 \<le> k" for k by (rule f(3) [OF that])
  qed (use b ord sl(1) f(2) in \<open>simp_all add: slot_at_def\<close>)
  moreover have "\<forall>k. limit \<le> k \<longrightarrow> ?b ! k = block ! k" using b by (auto intro: f(3))
  ultimately show ?thesis using f(1,2) unfolding removed_def by blast
qed

lemma remove_effect:
  assumes "laid_out block limit 0 (pre @ t # post)" "dir_block_ok block limit" "limit < 65536"
  shows "removed block limit (live_entries pre @ live_entries post) (de_ino t)
    (remove_at block (de_off t) (last_live None pre) (header_of t))"
proof (cases "last_live None pre")
  case None
  with assms remove_head_effect show ?thesis by (metis last_live_None)
next
  case (Some po)
  then obtain pre' p dead where "pre = pre' @ p # dead" "live p" "de_off p = po" "\<forall>e \<in> set dead. \<not> live e"
    by (rule last_live_Some)
  with Some assms remove_merge_effect show ?thesis by metis
qed

definition retarget_bytes :: "bytes \<Rightarrow> dirent \<Rightarrow> u32 \<Rightarrow> ext4_file_type option \<Rightarrow> bytes" where
  "retarget_bytes block t ino ft =
     (case ft of None \<Rightarrow> blit block (de_off t) (u32_to_le ino)
      | Some f \<Rightarrow> (blit block (de_off t) (u32_to_le ino))[de_off t + 7 := to_raw f])"

definition retyped :: "dirent \<Rightarrow> u32 \<Rightarrow> ext4_file_type option \<Rightarrow> dirent" where
  "retyped t ino ft = t\<lparr>de_ino := ino, de_ftype := (case ft of None \<Rightarrow> de_ftype t | Some f \<Rightarrow> to_raw f)\<rparr>"

lemma retarget_facts:
  assumes t: "slot_at block limit t" and "limit \<le> length block"
  shows "length (retarget_bytes block t ino ft) = length block"
    and "k < de_off t \<or> de_off t + 8 \<le> k \<Longrightarrow> retarget_bytes block t ino ft ! k = block ! k"
    and "slot_at (retarget_bytes block t ino ft) limit (retyped t ino ft)"
proof -
  let ?b = "retarget_bytes block t ino ft"
  have o: "de_off t + 8 + length (de_name t) \<le> length block" using assms by (auto simp: slot_at_def)
  show len: "length ?b = length block" using o by (simp add: retarget_bytes_def split: option.splits)
  have same: "?b ! k = block ! k" if "k < de_off t \<or> de_off t + 4 \<le> k" "k \<noteq> de_off t + 7" for k
    using that o by (auto simp: retarget_bytes_def blit_def nth_append split: option.splits)
  then show "?b ! k = block ! k" if "k < de_off t \<or> de_off t + 8 \<le> k" using that by auto
  have "segment ?b (de_off t + 4) (de_off t + 6) = segment block (de_off t + 4) (de_off t + 6)"
    "segment ?b (de_off t + 8) (de_off t + 8 + length (de_name t))
       = segment block (de_off t + 8) (de_off t + 8 + length (de_name t))"
    using len by (auto intro!: segment_eqI same)
  moreover have "?b ! (de_off t + 6) = block ! (de_off t + 6)" by (rule same) auto
  moreover have "segment ?b (de_off t) (de_off t + 4)
      = segment (blit block (de_off t) (u32_to_le ino)) (de_off t) (de_off t + 4)"
    using len o by (intro segment_eqI) (auto simp: retarget_bytes_def split: option.splits)
  then have "segment ?b (de_off t) (de_off t + 4) = u32_to_le ino"
    using segment_blit_same [of "de_off t" "u32_to_le ino" block] o by simp
  moreover have "?b ! (de_off t + 7) = (case ft of None \<Rightarrow> de_ftype t | Some f \<Rightarrow> to_raw f)"
    using o t by (auto simp: retarget_bytes_def slot_at_def blit_def nth_append add.commute [of 7]
        split: option.splits)
  ultimately show "slot_at ?b limit (retyped t ino ft)"
    using t by (simp add: slot_at_def retyped_def)
qed

lemma retarget_laid_out:
  assumes "laid_out block limit 0 (pre @ t # post)" "limit \<le> length block"
  shows "laid_out (retarget_bytes block t ino ft) limit 0 (pre @ [retyped t ino ft] @ post)"
proof -
  have t: "slot_at block limit t" using laid_out_middle [OF assms(1)] by simp
  note f = retarget_facts [OF t assms(2), where ino = ino and ft = ft]
  have "8 \<le> de_len t" using t by (simp add: slot_at_def)
  show ?thesis
  proof (rule laid_out_replace [where mid = "[t]" and a = "de_off t" and b = "de_off t + de_len t"])
    show "retarget_bytes block t ino ft ! k = block ! k" if "k < de_off t \<or> de_off t + de_len t \<le> k" for k
      using that \<open>8 \<le> de_len t\<close> by (intro f(2)) auto
  qed (use assms f(1,3) in \<open>simp_all add: retyped_def\<close>)
qed

end
