(* ===== verification/Dir_Map.thy ===== *)
theory Dir_Map
  imports Dir_Refine
begin

text \<open>
  The contract of a directory block, as its callers see it: a finite map from names to inode and
  file type. \<open>dir_inv\<close> is the invariant of a well-formed block, \<open>dir_map\<close> its abstraction, and the
  theorems say that every operation of \<open>ffs-dir\<close> keeps the invariant and is the corresponding
  update of the map. The locale \<open>name_directory\<close> states this contract once, and derives what
  clients rely on: renames, and whole sequences of operations.
\<close>

section \<open>Invariant and abstraction\<close>

definition dir_slots :: "usize \<Rightarrow> bytes \<Rightarrow> dirent list option" where
  "dir_slots rt block =
     (case validate_reserved_tail (length block) rt of
        Inl err \<Rightarrow> None
      | Inr limit \<Rightarrow>
          if is_interior_htree_dx_node_block block then Some [] else slots block limit 0)"

definition dir_inv :: "usize \<Rightarrow> bytes \<Rightarrow> bool" where
  "dir_inv rt block \<longleftrightarrow> length block < 65536 \<and>
     (case dir_slots rt block of None \<Rightarrow> False | Some es \<Rightarrow> unique_names es)"

definition dir_map :: "usize \<Rightarrow> bytes \<Rightarrow> bytes \<Rightarrow> (u32 \<times> u8) option" where
  "dir_map rt block = (case dir_slots rt block of None \<Rightarrow> (\<lambda>_. None) | Some es \<Rightarrow> name_map es)"

definition valid_name :: "bytes \<Rightarrow> bool" where
  "valid_name name \<longleftrightarrow> name \<noteq> [] \<and> length name \<le> 255 \<and> 0x2F \<notin> set name \<and> 0 \<notin> set name"

lemma validate_name_iff: "validate_name name = Inr () \<longleftrightarrow> valid_name name"
  by (simp add: validate_name_def valid_name_def name_has_slash_or_nul_iff)

lemma usable_limit:
  assumes "validate_reserved_tail (length block) rt = Inr limit" "length block < 65536"
  shows "limit = length block - rt" "rt \<le> length block" "dir_block_ok block limit" "limit < 65536"
  using assms by (auto simp: validate_reserved_tail_def arith_defs dir_block_ok_def usize_max_def
      split: if_splits)

lemma interior_header:
  assumes "is_interior_htree_dx_node_block block"
  shows "read_u32_le block 0 = Some 0" "map_option unat (read_u16_le block 4) = Some (length block)"
  using assms by (auto simp: is_interior_htree_dx_node_block_def split: if_splits)

text \<open>
  A block that passes the interior-node test has a single record over the whole block, without
  an inode: whatever its slots are, none is live.
\<close>

lemma interior_no_live:
  assumes "is_interior_htree_dx_node_block block" "laid_out block limit 0 es" "limit \<le> length block"
  shows "live_entries es = []"
proof (cases es)
  case (Cons e rest)
  with assms(2) have e: "de_off e = 0" "slot_at block limit e" and r: "laid_out block limit (de_len e) rest"
    by auto
  have "read_u32_le block 0 = Some (from_le (segment block 0 4))"
    "read_u16_le block 4 = Some (from_le (segment block 4 6))"
    using e assms(3) by (auto simp: read_u32_le_def read_u16_le_def get_range_def slot_at_def)
  with interior_header [OF assms(1)] e have "de_ino e = 0"
    "unat (of_nat (de_len e) :: u16) = length block"
    by (simp_all add: slot_at_def)
  moreover have "unat (of_nat (de_len e) :: u16) = de_len e"
    using e by (simp add: slot_at_def unat_of_nat)
  ultimately have "\<not> live e" "de_len e = length block" by (simp_all add: live_def)
  with r assms(3) have "rest = []" by (cases rest) (auto simp: slot_at_def)
  with \<open>\<not> live e\<close> Cons show ?thesis by simp
qed simp

lemma dir_inv_cases:
  assumes "dir_inv rt block"
  obtains (interior) limit where "validate_reserved_tail (length block) rt = Inr limit"
      "is_interior_htree_dx_node_block block" "dir_map rt block = (\<lambda>_. None)"
    | (leaf) limit es where "validate_reserved_tail (length block) rt = Inr limit"
      "\<not> is_interior_htree_dx_node_block block" "dir_block_ok block limit" "limit < 65536"
      "laid_out block limit 0 es" "unique_names es" "dir_map rt block = name_map es"
proof -
  from assms obtain limit es where v: "validate_reserved_tail (length block) rt = Inr limit"
    and len: "length block < 65536" and es: "dir_slots rt block = Some es" "unique_names es"
    by (auto simp: dir_inv_def dir_slots_def split: option.splits sum.splits)
  note u = usable_limit [OF v len]
  show thesis
  proof (cases "is_interior_htree_dx_node_block block")
    case True
    with v es have "dir_map rt block = (\<lambda>_. None)" by (auto simp: dir_slots_def dir_map_def name_map_def)
    with True v interior show thesis by blast
  next
    case False
    with v es have "laid_out block limit 0 es" by (simp add: dir_slots_def slots_iff_laid_out [OF u(3)])
    with False v u es leaf show thesis by (simp add: dir_map_def)
  qed
qed

lemma dir_inv_intro:
  assumes "validate_reserved_tail (length block) rt = Inr limit" "length block < 65536"
    and "laid_out block limit 0 es" "unique_names es"
  shows "dir_inv rt block" "dir_map rt block = name_map es"
proof -
  note u = usable_limit [OF assms(1,2)]
  have "dir_inv rt block \<and> dir_map rt block = name_map es"
  proof (cases "is_interior_htree_dx_node_block block")
    case True
    have "live_entries es = []"
      by (rule interior_no_live [OF True assms(3)]) (use u in simp)
    with True assms show ?thesis
      by (simp add: dir_inv_def dir_map_def dir_slots_def name_map_def unique_names_def)
  next
    case False
    have "slots block limit 0 = Some es" using assms(3) by (simp add: slots_iff_laid_out [OF u(3)])
    with False assms show ?thesis by (simp add: dir_inv_def dir_map_def dir_slots_def)
  qed
  then show "dir_inv rt block" "dir_map rt block = name_map es" by auto
qed

section \<open>The operations on the map\<close>

lemma pick_slot_added:
  assumes "laid_out block limit 0 es" "dir_block_ok block limit"
    and "pick_slot (required_rec_len (length name)) es = Some sl" "length name < 256" "ino \<noteq> 0"
  shows "added block limit es name ino ft (apply_slot block ino name ft (Some sl))"
  using assms(3)
proof (cases rule: pick_slot_SomeD)
  case (tomb pre t post)
  then show ?thesis using assms reuse_effect by simp
next
  case (split pre t post)
  then show ?thesis using assms split_effect by simp
qed

lemma need_fits:
  assumes "laid_out block limit 0 es" "dir_block_ok block limit"
  shows "name_map es name \<noteq> None \<Longrightarrow> required_rec_len (length name) \<le> limit"
    and "pick_slot (required_rec_len (length name)) es \<noteq> None \<Longrightarrow> required_rec_len (length name) \<le> limit"
proof -
  have len: "de_len e \<le> limit" if "e \<in> set es" for e
    using that assms(1) by (auto simp: laid_out_def slot_at_def)
  show "required_rec_len (length name) \<le> limit" if n: "name_map es name \<noteq> None"
  proof -
    from n obtain e where "e \<in> set es" "de_name e = name" unfolding name_map_Some_iff by blast
    moreover from this assms(1) have "slot_at block limit e" by (auto simp: laid_out_def)
    ultimately show ?thesis using slot_required len by (metis le_trans)
  qed
  show "required_rec_len (length name) \<le> limit" if "pick_slot (required_rec_len (length name)) es \<noteq> None"
  proof -
    from that obtain sl where "pick_slot (required_rec_len (length name)) es = Some sl" by auto
    then show ?thesis
      by (cases rule: pick_slot_SomeD) (use len in \<open>force+\<close>)
  qed
qed

lemma add_tracked_leaf:
  assumes "validate_reserved_tail (length block) rt = Inr limit" "\<not> is_interior_htree_dx_node_block block"
    and "dir_block_ok block limit" "laid_out block limit 0 es" "valid_name name" "ino \<noteq> 0"
  shows "add_entry_tracked block ino name ft rt
    = apply_slot block ino name ft (pick_slot (required_rec_len (length name)) es)"
    and "add_entry_reject_existing_tracked block ino name ft rt =
      (if name_map es name \<noteq> None then (Inl Exists, block)
       else apply_slot block ino name ft (pick_slot (required_rec_len (length name)) es))"
proof -
  have v: "validate_name name = Inr ()" using assms(5) by (simp add: validate_name_iff)
  have none: "apply_slot block ino name ft None = (Inl NoSpace, block)" by (simp add: apply_slot_def)
  show "add_entry_tracked block ino name ft rt
      = apply_slot block ino name ft (pick_slot (required_rec_len (length name)) es)"
    using assms v need_fits(2) [OF assms(4,3), of name] none
    by (cases "pick_slot (required_rec_len (length name)) es")
      (auto simp: add_entry_tracked_def Let_def add_entry_laid_out [OF assms(4,3)])
  show "add_entry_reject_existing_tracked block ino name ft rt =
      (if name_map es name \<noteq> None then (Inl Exists, block)
       else apply_slot block ino name ft (pick_slot (required_rec_len (length name)) es))"
    using assms v need_fits [OF assms(4,3), of name] none
    by (cases "pick_slot (required_rec_len (length name)) es"; cases "name_map es name")
      (auto simp: add_entry_reject_existing_tracked_def Let_def find_slot_laid_out [OF assms(4,3)])
qed

lemma add_tracked_interior:
  assumes "validate_reserved_tail (length block) rt = Inr limit" "is_interior_htree_dx_node_block block"
    and "valid_name name" "ino \<noteq> 0"
  shows "add_entry_tracked block ino name ft rt = (Inl NoSpace, block)"
    and "add_entry_reject_existing_tracked block ino name ft rt = (Inl NoSpace, block)"
  using assms validate_name_iff [of name]
  by (simp_all add: add_entry_tracked_def add_entry_reject_existing_tracked_def Let_def)

text \<open>A mutation leaves the reserved tail of a block alone.\<close>

definition keeps_tail :: "usize \<Rightarrow> bytes \<Rightarrow> bytes \<Rightarrow> bool" where
  "keeps_tail rt block block' \<longleftrightarrow> (\<forall>k. length block - rt \<le> k \<longrightarrow> block' ! k = block ! k)"

lemma reserved_limit: "validate_reserved_tail n rt = Inr limit \<Longrightarrow> limit = n - rt"
  by (auto simp: validate_reserved_tail_def arith_defs split: if_splits)

lemma added_dir_map:
  assumes "added block limit es name ino ft res" "unique_names es" "name_map es name = None" "ino \<noteq> 0"
    and "validate_reserved_tail (length block) rt = Inr limit" "length block < 65536"
  obtains off edit block' where "res = (Inr (off, edit), block')" "dir_inv rt block'"
    "dir_map rt block' = (name_map es)(name \<mapsto> (ino, to_raw ft))" "length block' = length block"
    "\<And>ed. edit = Some ed \<Longrightarrow> edit_covers block block' ed" "keeps_tail rt block block'"
proof -
  from assms(1) obtain off edit block' es' xs ys where r: "res = (Inr (off, edit), block')"
    "length block' = length block" "laid_out block' limit 0 es'" "live_entries es = xs @ ys"
    "live_entries es' = xs @ (name, ino, to_raw ft) # ys" "\<And>ed. edit = Some ed \<Longrightarrow> edit_covers block block' ed"
    "\<forall>k. limit \<le> k \<longrightarrow> block' ! k = block ! k"
    by (auto simp: added_def)
  let ?t = "new_slot 0 0 ino ft name"
  have "live ?t" using assms(4) by (simp add: new_slot_def live_def)
  with assms(2,3) r(4,5) have m: "name_map es' = (name_map es)(name \<mapsto> (ino, to_raw ft))" "unique_names es'"
    using name_map_insert_at [of es ?t xs ys es'] by (simp_all add: new_slot_def)
  have "dir_inv rt block'" "dir_map rt block' = name_map es'"
    by (rule dir_inv_intro [OF _ _ r(3) m(2)]; use assms r(2) in simp)+
  moreover have "keeps_tail rt block block'" using r(7) by (simp add: keeps_tail_def reserved_limit [OF assms(5)])
  ultimately show thesis using m r(1,2,6) that by metis
qed

lemma add_reject_spec:
  assumes "dir_inv rt block" "valid_name name" "ino \<noteq> 0"
  shows "add_entry_reject_existing_tracked block ino name ft rt =
           (if dir_map rt block name \<noteq> None then (Inl Exists, block)
            else add_entry_tracked block ino name ft rt)"
    and "dir_map rt block name = None \<Longrightarrow>
      add_entry_tracked block ino name ft rt = (Inl NoSpace, block) \<or>
      (\<exists>off edit block'. add_entry_tracked block ino name ft rt = (Inr (off, edit), block') \<and>
         dir_inv rt block' \<and> dir_map rt block' = (dir_map rt block)(name \<mapsto> (ino, to_raw ft)) \<and>
         length block' = length block \<and> (\<forall>ed. edit = Some ed \<longrightarrow> edit_covers block block' ed)
         \<and> keeps_tail rt block block')"
proof -
  have len: "length block < 65536" using assms(1) by (simp add: dir_inv_def)
  show "add_entry_reject_existing_tracked block ino name ft rt =
           (if dir_map rt block name \<noteq> None then (Inl Exists, block)
            else add_entry_tracked block ino name ft rt)"
    using assms(1)
  proof (cases rule: dir_inv_cases)
    case (interior limit)
    with add_tracked_interior [OF interior(1,2) assms(2,3)] show ?thesis by simp
  next
    case (leaf limit es)
    with add_tracked_leaf [OF leaf(1,2,3,5) assms(2,3)] show ?thesis by simp
  qed
  assume none: "dir_map rt block name = None"
  show "add_entry_tracked block ino name ft rt = (Inl NoSpace, block) \<or>
      (\<exists>off edit block'. add_entry_tracked block ino name ft rt = (Inr (off, edit), block') \<and>
         dir_inv rt block' \<and> dir_map rt block' = (dir_map rt block)(name \<mapsto> (ino, to_raw ft)) \<and>
         length block' = length block \<and> (\<forall>ed. edit = Some ed \<longrightarrow> edit_covers block block' ed)
         \<and> keeps_tail rt block block')"
    using assms(1)
  proof (cases rule: dir_inv_cases)
    case (interior limit)
    with add_tracked_interior [OF interior(1,2) assms(2,3)] show ?thesis by simp
  next
    case (leaf limit es)
    show ?thesis
    proof (cases "pick_slot (required_rec_len (length name)) es")
      case None
      then show ?thesis using add_tracked_leaf(1) [OF leaf(1,2,3,5) assms(2,3)] by (simp add: apply_slot_def)
    next
      case (Some sl)
      have "length name < 256" using assms(2) by (simp add: valid_name_def)
      note ad = pick_slot_added [OF leaf(5,3) Some this assms(3), where ft = ft]
      have "name_map es name = None" using none leaf by simp
      from added_dir_map [OF ad leaf(6) this assms(3) leaf(1) len]
      obtain off edit block' where "apply_slot block ino name ft (Some sl) = (Inr (off, edit), block')"
        "dir_inv rt block'" "dir_map rt block' = (name_map es)(name \<mapsto> (ino, to_raw ft))"
        "length block' = length block" "\<And>ed. edit = Some ed \<Longrightarrow> edit_covers block block' ed"
        "keeps_tail rt block block'" by metis
      then show ?thesis using add_tracked_leaf(1) [OF leaf(1,2,3,5) assms(2,3)] Some leaf(7) by auto
    qed
  qed
qed


text \<open>Where a name that the map binds is found in the block.\<close>

lemma dir_find:
  assumes "dir_inv rt block" "dir_map rt block name = Some v"
  obtains limit pre t post where "validate_reserved_tail (length block) rt = Inr limit"
    "\<not> is_interior_htree_dx_node_block block" "dir_block_ok block limit" "limit < 65536"
    "laid_out block limit 0 (pre @ t # post)" "unique_names (pre @ t # post)"
    "dir_map rt block = name_map (pre @ t # post)" "live t" "de_name t = name"
    "\<forall>e \<in> set pre. \<not> (live e \<and> de_name e = name)" "v = (de_ino t, de_ftype t)"
  using assms(1)
proof (cases rule: dir_inv_cases)
  case (interior limit)
  with assms(2) show thesis by simp
next
  case (leaf limit es)
  then have "\<exists>e \<in> set es. live e \<and> de_name e = name" using assms(2) name_map_Some_iff [of es name] by auto
  then obtain pre t post where es: "es = pre @ t # post" and t: "live t" "de_name t = name"
    and pre: "\<forall>e \<in> set pre. \<not> (live e \<and> de_name e = name)" by (rule first_match_split)
  have "name_map es name = Some (de_ino t, de_ftype t)"
    using unique_middle [of pre t post] leaf(6) t unfolding es
    by (simp add: name_map_def map_of_middle del: map_of_append)
  then have "v = (de_ino t, de_ftype t)" using assms(2) leaf(7) by auto
  with leaf es t pre that show thesis by blast
qed

lemma remove_absent:
  assumes "dir_inv rt block" "valid_name name" "dir_map rt block name = None"
  shows "remove_entry_take_inode_tracked block name rt = (Inr None, block)"
  using assms(1)
proof (cases rule: dir_inv_cases)
  case (interior limit)
  then show ?thesis using assms(2) validate_name_iff [of name] by (simp add: remove_entry_take_inode_tracked_def)
next
  case (leaf limit es)
  with assms(3) have "\<forall>e \<in> set es. \<not> (live e \<and> de_name e = name)" using name_map_Some_iff [of es name] by auto
  then show ?thesis using assms(2) validate_name_iff [of name] leaf
      remove_loop_absent [OF leaf(5,3), of name None] by (simp add: remove_entry_take_inode_tracked_def)
qed

lemma remove_present:
  assumes "dir_inv rt block" "valid_name name" "dir_map rt block name = Some v"
  obtains ed block' where "remove_entry_take_inode_tracked block name rt = (Inr (Some (fst v, ed)), block')"
    "dir_inv rt block'" "dir_map rt block' = (dir_map rt block)(name := None)"
    "length block' = length block" "edit_covers block block' ed" "keeps_tail rt block block'"
proof (rule dir_find [OF assms(1,3)])
  fix limit pre t post
  assume leaf: "validate_reserved_tail (length block) rt = Inr limit"
    "\<not> is_interior_htree_dx_node_block block" "dir_block_ok block limit" "limit < 65536"
    "laid_out block limit 0 (pre @ t # post)" "unique_names (pre @ t # post)"
    "dir_map rt block = name_map (pre @ t # post)" and t: "live t" "de_name t = name"
    and pre: "\<forall>e \<in> set pre. \<not> (live e \<and> de_name e = name)" and v: "v = (de_ino t, de_ftype t)"
  have run: "remove_entry_take_inode_tracked block name rt
      = remove_at block (de_off t) (last_live None pre) (header_of t)"
    using assms(2) validate_name_iff [of name] leaf remove_loop_found [OF leaf(5,3) pre t, of None]
    by (simp add: remove_entry_take_inode_tracked_def)
  from remove_effect [OF leaf(5,3,4)] v
  obtain ed block' es' where r: "remove_at block (de_off t) (last_live None pre) (header_of t)
      = (Inr (Some (fst v, ed)), block')" "length block' = length block" "laid_out block' limit 0 es'"
    "live_entries es' = live_entries pre @ live_entries post" "edit_covers block block' ed"
    "\<forall>k. limit \<le> k \<longrightarrow> block' ! k = block ! k"
    unfolding removed_def by auto
  have m: "name_map es' = (name_map (pre @ t # post))(name := None)" "unique_names es'"
    using name_map_delete_at [OF leaf(6) t(1) r(4)] t by simp_all
  have "length block < 65536" using assms(1) by (simp add: dir_inv_def)
  then have "dir_inv rt block'" "dir_map rt block' = name_map es'"
    by (intro dir_inv_intro [OF _ _ r(3) m(2)]; use leaf(1) r(2) in simp)+
  moreover have "keeps_tail rt block block'" using r(6) by (simp add: keeps_tail_def reserved_limit [OF leaf(1)])
  ultimately show thesis using that run r(1,2,5) m leaf(7) by metis
qed

lemma update_absent:
  assumes "dir_inv rt block" "valid_name name" "ino \<noteq> 0" "dir_map rt block name = None"
  shows "update_live_entry_header block name ino ft rt = (Inr False, block)"
  using assms(1)
proof (cases rule: dir_inv_cases)
  case (interior limit)
  then show ?thesis using assms validate_name_iff [of name] by (simp add: update_live_entry_header_def)
next
  case (leaf limit es)
  with assms(4) have "\<forall>e \<in> set es. \<not> (live e \<and> de_name e = name)" using name_map_Some_iff [of es name] by auto
  then show ?thesis using assms validate_name_iff [of name] leaf
      update_loop_absent [OF leaf(5,3), of name ino ft] by (simp add: update_live_entry_header_def)
qed

lemma update_present:
  assumes "dir_inv rt block" "valid_name name" "ino \<noteq> 0" "dir_map rt block name = Some v"
  obtains block' where "update_live_entry_header block name ino ft rt = (Inr True, block')" "dir_inv rt block'"
    "dir_map rt block' = (dir_map rt block)(name \<mapsto> (ino, case ft of None \<Rightarrow> snd v | Some f \<Rightarrow> to_raw f))"
    "length block' = length block"
proof (rule dir_find [OF assms(1,4)])
  fix limit pre t post
  assume leaf: "validate_reserved_tail (length block) rt = Inr limit"
    "\<not> is_interior_htree_dx_node_block block" "dir_block_ok block limit" "limit < 65536"
    "laid_out block limit 0 (pre @ t # post)" "unique_names (pre @ t # post)"
    "dir_map rt block = name_map (pre @ t # post)" and t: "live t" "de_name t = name"
    and pre: "\<forall>e \<in> set pre. \<not> (live e \<and> de_name e = name)" and v: "v = (de_ino t, de_ftype t)"
  let ?b = "retarget_bytes block t ino ft" and ?t = "retyped t ino ft"
  have run: "update_live_entry_header block name ino ft rt = (Inr True, ?b)"
    using assms(2,3) validate_name_iff [of name] leaf update_loop_found [OF leaf(5,3) pre t, of ino ft]
    by (simp add: update_live_entry_header_def retarget_bytes_def)
  have lim: "limit \<le> length block" using leaf(3) by (simp add: dir_block_ok_def)
  have l: "laid_out ?b limit 0 (pre @ [?t] @ post)" by (rule retarget_laid_out [OF leaf(5) lim])
  have lb: "length ?b = length block" by (rule retarget_facts(1) [OF laid_out_middle(1) [OF leaf(5)] lim])
  have "live ?t" "de_name ?t = de_name t" using assms(3) by (simp_all add: retyped_def live_def)
  then have m: "name_map (pre @ [?t] @ post) = (name_map (pre @ t # post))
      (name \<mapsto> (ino, case ft of None \<Rightarrow> snd v | Some f \<Rightarrow> to_raw f))" "unique_names (pre @ [?t] @ post)"
    using name_map_update_at [OF leaf(6) t(1), of ?t] t v by (simp_all add: retyped_def cong: option.case_cong)
  have "length block < 65536" using assms(1) by (simp add: dir_inv_def)
  then have "dir_inv rt ?b" "dir_map rt ?b = name_map (pre @ [?t] @ post)"
    by (intro dir_inv_intro [OF _ _ l m(2)]; use leaf(1) lb in simp)+
  then show thesis using that run m leaf(7) lb by metis
qed

lemma contains_spec:
  assumes "dir_inv rt block" "valid_name name"
  shows "block_contains_live_name block name rt = Inr (dir_map rt block name \<noteq> None)"
  using assms(1)
proof (cases rule: dir_inv_cases)
  case (interior limit)
  then show ?thesis using assms(2) validate_name_iff [of name] by (simp add: block_contains_live_name_def)
next
  case (leaf limit es)
  then show ?thesis using assms(2) validate_name_iff [of name] contains_loop_laid_out [OF leaf(5,3), of name]
    by (simp add: block_contains_live_name_def)
qed

section \<open>A fresh block\<close>

definition dot_slots :: "usize \<Rightarrow> u32 \<Rightarrow> u32 \<Rightarrow> dirent list" where
  "dot_slots limit self parent =
     [new_slot 0 12 self Dir [0x2E], new_slot 12 (limit - 12) parent Dir [0x2E, 0x2E]]"

lemma write_csum_tail_effect:
  assumes "off + 12 \<le> length block"
  obtains block' where "write_csum_tail block off = (Inr (), block')" "length block' = length block"
    "\<forall>k < off. block' ! k = block ! k"
proof -
  let ?b1 = "(blit (blit block off (u32_to_le 0)) (off + 4) (u16_to_le 12))[off + 6 := 0, off + 7 := EXT4_FT_DIR_CSUM]"
  let ?b2 = "blit ?b1 (off + 8) (u32_to_le 0)"
  have "write_csum_tail block off = (Inr (), ?b2)"
    using assms by (simp add: write_csum_tail_def write_u32_le_def write_u16_le_def)
  moreover have "length ?b2 = length block" using assms by simp
  moreover have "\<forall>k < off. ?b2 ! k = block ! k" using assms by (simp add: nth_blit)
  ultimately show thesis using that by blast
qed

lemma init_slots_laid_out:
  assumes "24 \<le> limit" "limit mod 4 = 0" "limit \<le> length block" "length block < 65536"
  obtains block1 block2 where "write_entry block 0 self 12 Dir [0x2E] = (Inr (), block1)"
    "write_entry block1 12 parent (limit - 12) Dir [0x2E, 0x2E] = (Inr (), block2)"
    "length block2 = length block" "laid_out block2 limit 0 (dot_slots limit self parent)"
proof -
  let ?b1 = "blit block 0 (entry_bytes self 12 Dir [0x2E])"
  let ?b2 = "blit ?b1 12 (entry_bytes parent (limit - 12) Dir [0x2E, 0x2E])"
  have r: "required_rec_len 1 = 12" "required_rec_len 2 = 12"
    by (simp_all add: required_rec_len_alt)
  have len: "length block \<le> usize_max" using assms by (simp add: usize_max_def)
  have w1: "write_entry block 0 self 12 Dir [0x2E] = (Inr (), ?b1)"
    using assms len r by (intro write_entry_effect) simp_all
  have len1: "length ?b1 = length block" using assms by simp
  have w2: "write_entry ?b1 12 parent (limit - 12) Dir [0x2E, 0x2E] = (Inr (), ?b2)"
    using assms len len1 r by (intro write_entry_effect) (simp_all add: numeral_2_eq_2 [symmetric])
  have len2: "length ?b2 = length block" using assms len1 by simp
  have s1: "slot_at ?b1 limit (new_slot 0 12 self Dir [0x2E])"
    using assms by (intro slot_at_written) simp_all
  have "slot_at ?b2 limit (new_slot 0 12 self Dir [0x2E])"
    by (rule slot_at_frame [OF s1]) (use assms len1 len2 in \<open>simp_all add: new_slot_def nth_blit\<close>)
  moreover have "slot_at ?b2 limit (new_slot 12 (limit - 12) parent Dir [0x2E, 0x2E])"
    using assms len1 by (intro slot_at_written) (simp_all add: mod_eq_0_iff_dvd dvd_diff_nat)
  ultimately have "laid_out ?b2 limit 0 (dot_slots limit self parent)"
    using assms by (simp add: dot_slots_def) (simp add: new_slot_def)
  with w1 w2 len2 that show thesis by blast
qed

lemma init_spec:
  assumes "self \<noteq> 0" "parent \<noteq> 0" "validate_reserved_tail (length block) rt = Inr limit"
    and "24 \<le> limit" "length block mod 4 = 0" "length block < 65536"
  obtains block' where "init_dir_block block self parent rt = (Inr (), block')" "dir_inv rt block'"
    "dir_map rt block' = [[0x2E] \<mapsto> (self, 2), [0x2E, 0x2E] \<mapsto> (parent, 2)]" "length block' = length block"
proof -
  note u = usable_limit [OF assms(3,6)]
  have rt: "rt mod 4 = 0" "rt = 0 \<or> 12 \<le> rt" using assms(3)
    by (auto simp: validate_reserved_tail_def split: if_splits)
  have lim: "limit mod 4 = 0" "limit \<le> length block" using u rt assms(5)
    by (simp_all add: mod_eq_0_iff_dvd dvd_diff_nat)
  have r: "required_rec_len (Suc 0) = 12" "required_rec_len 2 = 12" by (simp_all add: required_rec_len_alt)
  let ?z = "replicate (length block) (0 :: u8)"
  obtain b1 b2 where w: "write_entry ?z 0 self 12 Dir [0x2E] = (Inr (), b1)"
    "write_entry b1 12 parent (limit - 12) Dir [0x2E, 0x2E] = (Inr (), b2)"
    "length b2 = length block" "laid_out b2 limit 0 (dot_slots limit self parent)"
    using init_slots_laid_out [of limit ?z self parent] assms(4,6) lim by auto
  obtain b3 where b3: "init_dir_block block self parent rt = (Inr (), b3)" "length b3 = length block"
    "\<And>k. k < limit \<Longrightarrow> b3 ! k = b2 ! k"
  proof (cases "12 \<le> rt")
    case True
    have off: "length b2 - rt = limit" "limit + 12 \<le> length b2" using True u w(3) by simp_all
    obtain b3 where t: "write_csum_tail b2 limit = (Inr (), b3)" "length b3 = length b2"
      "\<forall>k < limit. b3 ! k = b2 ! k" by (rule write_csum_tail_effect [OF off(2)])
    have "init_dir_block block self parent rt = (Inr (), b3)"
      using assms w t off True by (simp add: init_dir_block_def r arith_defs usize_max_def Let_def)
    with t w(3) that show thesis by simp
  next
    case False
    have "init_dir_block block self parent rt = (Inr (), b2)"
      using assms w False by (simp add: init_dir_block_def r arith_defs usize_max_def Let_def)
    with w(3) that show thesis by simp
  qed
  let ?es = "dot_slots limit self parent"
  have "\<forall>e \<in> set ?es. slot_at b3 limit e"
    by (rule slots_outside_frame [of ?es b2])
      (use w(3,4) b3 lim in \<open>auto simp: laid_out_def slot_at_def\<close>)
  then have l: "laid_out b3 limit 0 ?es" using w(4) by (simp add: laid_out_def)
  have m: "name_map ?es = [[0x2E] \<mapsto> (self, 2), [0x2E, 0x2E] \<mapsto> (parent, 2)]" "unique_names ?es"
    using assms(1,2) by (auto simp: dot_slots_def new_slot_def name_map_def unique_names_def live_entries_def
        live_def fun_eq_iff)
  have "dir_inv rt b3" "dir_map rt b3 = name_map ?es"
    by (rule dir_inv_intro [OF _ _ l m(2)]; use assms(3,6) b3(2) in simp)+
  with m b3 that show thesis by metis
qed

section \<open>The directory contract\<close>

text \<open>
  A directory that clients use by name: \<open>ins\<close> may refuse (no room), but what it accepts was
  unbound and is bound afterwards; \<open>del\<close> succeeds exactly on bound names.
\<close>

locale name_directory =
  fixes inv :: "'d \<Rightarrow> bool" and look :: "'d \<Rightarrow> 'n \<Rightarrow> 'v option"
    and good :: "'n \<Rightarrow> bool" and storable :: "'a \<Rightarrow> bool" and enc :: "'a \<Rightarrow> 'v"
    and ins :: "'d \<Rightarrow> 'n \<Rightarrow> 'a \<Rightarrow> 'd option" and del :: "'d \<Rightarrow> 'n \<Rightarrow> 'd option"
  assumes ins_fresh: "inv d \<Longrightarrow> good n \<Longrightarrow> storable a \<Longrightarrow> ins d n a = Some d' \<Longrightarrow>
      look d n = None \<and> inv d' \<and> look d' = (look d)(n \<mapsto> enc a)"
    and del_bound: "inv d \<Longrightarrow> good n \<Longrightarrow> look d n \<noteq> None \<Longrightarrow>
      \<exists>d'. del d n = Some d' \<and> inv d' \<and> look d' = (look d)(n := None)"
    and del_unbound: "inv d \<Longrightarrow> good n \<Longrightarrow> look d n = None \<Longrightarrow> del d n = None"
begin

lemma del_SomeD:
  assumes "inv d" "good n" "del d n = Some d'"
  shows "look d n \<noteq> None" "inv d'" "look d' = (look d)(n := None)"
  using del_bound [OF assms(1,2)] del_unbound [OF assms(1,2)] assms(3)
  by (cases "look d n"; auto)+

lemma ins_del_restores:
  assumes "inv d" "good n" "storable a" "ins d n a = Some d'"
  shows "\<exists>d''. del d' n = Some d'' \<and> inv d'' \<and> look d'' = look d"
proof -
  note i = ins_fresh [OF assms]
  then have "look d' n \<noteq> None" by simp
  with del_bound [of d' n] i assms(2) obtain d'' where "del d' n = Some d''" "inv d''"
    "look d'' = (look d')(n := None)" by blast
  with i show ?thesis by (auto simp: fun_upd_idem)
qed

end

datatype ('n, 'a) dir_op = Create 'n 'a | Unlink 'n

fun run_ops ::
  "('d \<Rightarrow> 'n \<Rightarrow> 'a \<Rightarrow> 'd option) \<Rightarrow> ('d \<Rightarrow> 'n \<Rightarrow> 'd option) \<Rightarrow> ('n, 'a) dir_op list \<Rightarrow> 'd \<Rightarrow> 'd" where
  "run_ops ins del [] d = d"
| "run_ops ins del (Create n a # ops) d =
     run_ops ins del ops (case ins d n a of None \<Rightarrow> d | Some d' \<Rightarrow> d')"
| "run_ops ins del (Unlink n # ops) d =
     run_ops ins del ops (case del d n of None \<Rightarrow> d | Some d' \<Rightarrow> d')"

fun op_ok :: "('n \<Rightarrow> bool) \<Rightarrow> ('a \<Rightarrow> bool) \<Rightarrow> ('n, 'a) dir_op \<Rightarrow> bool" where
  "op_ok good storable (Create n a) \<longleftrightarrow> good n \<and> storable a"
| "op_ok good storable (Unlink n) \<longleftrightarrow> good n"

text \<open>The histories a name map may go through: a creation is refused, or binds an unbound name.\<close>

inductive dir_trace :: "('a \<Rightarrow> 'v) \<Rightarrow> ('n, 'a) dir_op list \<Rightarrow> ('n \<Rightarrow> 'v option) \<Rightarrow> ('n \<Rightarrow> 'v option) \<Rightarrow> bool"
  for enc where
  finished: "dir_trace enc [] m m"
| created: "m n = None \<Longrightarrow> dir_trace enc ops (m(n \<mapsto> enc a)) m' \<Longrightarrow> dir_trace enc (Create n a # ops) m m'"
| refused: "dir_trace enc ops m m' \<Longrightarrow> dir_trace enc (Create n a # ops) m m'"
| unlinked: "dir_trace enc ops (m(n := None)) m' \<Longrightarrow> dir_trace enc (Unlink n # ops) m m'"

inductive_cases dir_trace_NilE: "dir_trace enc [] m m'"
inductive_cases dir_trace_UnlinkE: "dir_trace enc (Unlink n # ops) m m'"

context name_directory
begin

lemma run_ops_simulates:
  assumes "inv d" "\<forall>opn \<in> set ops. op_ok good storable opn"
  shows "inv (run_ops ins del ops d) \<and> dir_trace enc ops (look d) (look (run_ops ins del ops d))"
  using assms
proof (induction ops arbitrary: d)
  case (Cons opn ops)
  then have rest: "\<forall>opn \<in> set ops. op_ok good storable opn" and ok: "op_ok good storable opn" by simp_all
  show ?case
  proof (cases opn)
    case (Create n a)
    show ?thesis
    proof (cases "ins d n a")
      case None
      with Cons.IH [OF Cons.prems(1) rest] Create show ?thesis by (simp add: dir_trace.refused)
    next
      case (Some d')
      with ins_fresh [OF Cons.prems(1)] ok Create
      have f: "look d n = None" "inv d'" "look d' = (look d)(n \<mapsto> enc a)" by auto
      note IH = Cons.IH [OF f(2) rest, unfolded f(3)]
      from dir_trace.created [OF f(1) conjunct2 [OF IH]] IH show ?thesis using Create Some by simp
    qed
  next
    case (Unlink n)
    show ?thesis
    proof (cases "del d n")
      case None
      with Cons.prems(1) ok Unlink del_bound [of d n] have "look d n = None" by force
      then have "(look d)(n := None) = look d" by (simp add: fun_upd_idem)
      with Cons.IH [OF Cons.prems(1) rest] Unlink None show ?thesis by (simp add: dir_trace.unlinked)
    next
      case (Some d')
      with Cons.prems(1) ok Unlink del_SomeD [of d n d']
      have f: "inv d'" "look d' = (look d)(n := None)" by simp_all
      note IH = Cons.IH [OF f(1) rest, unfolded f(2)]
      from dir_trace.unlinked [OF conjunct2 [OF IH]] IH show ?thesis using Unlink Some by simp
    qed
  qed
qed (auto intro: dir_trace.finished)

end

definition block_create :: "usize \<Rightarrow> bytes \<Rightarrow> bytes \<Rightarrow> u32 \<times> ext4_file_type \<Rightarrow> bytes option" where
  "block_create rt block name a =
     (case add_entry_reject_existing block (fst a) name (snd a) rt of
        (Inr _, block') \<Rightarrow> Some block' | (Inl _, _) \<Rightarrow> None)"

definition block_unlink :: "usize \<Rightarrow> bytes \<Rightarrow> bytes \<Rightarrow> bytes option" where
  "block_unlink rt block name =
     (case remove_entry block name rt of
        (Inr found, block') \<Rightarrow> if found then Some block' else None | (Inl _, _) \<Rightarrow> None)"

definition stored :: "u32 \<times> ext4_file_type \<Rightarrow> u32 \<times> u8" where
  "stored a = (fst a, to_raw (snd a))"

lemma add_reject_untracked:
  assumes "dir_inv rt block" "valid_name name" "ino \<noteq> 0"
  obtains (exists) "dir_map rt block name \<noteq> None"
      "add_entry_reject_existing block ino name ft rt = (Inl Exists, block)"
    | (full) "dir_map rt block name = None"
      "add_entry_reject_existing block ino name ft rt = (Inl NoSpace, block)"
    | (stored) off block' where "dir_map rt block name = None"
      "add_entry_reject_existing block ino name ft rt = (Inr off, block')" "dir_inv rt block'"
      "dir_map rt block' = (dir_map rt block)(name \<mapsto> (ino, to_raw ft))"
  using add_reject_spec [OF assms, where ft = ft]
  by (cases "dir_map rt block name = None") (auto simp: add_entry_reject_existing_def)

interpretation blk: name_directory "dir_inv rt" "dir_map rt" valid_name "\<lambda>a. fst a \<noteq> 0" stored
  "block_create rt" "block_unlink rt" for rt
proof (unfold_locales, goal_cases)
  case (1 d n a d')
  from add_reject_untracked [OF 1(1-3), of "snd a"] 1(4) show ?case
    by cases (auto simp: block_create_def stored_def)
next
  case (2 d n)
  then obtain v where v: "dir_map rt d n = Some v" by auto
  from remove_present [OF 2(1,2) v] obtain ed d' where
    "remove_entry_take_inode_tracked d n rt = (Inr (Some (fst v, ed)), d')"
    "dir_inv rt d'" "dir_map rt d' = (dir_map rt d)(n := None)" by metis
  then show ?case by (simp add: block_unlink_def remove_entry_def remove_entry_take_inode_def)
next
  case (3 d n)
  from remove_absent [OF this] show ?case
    by (simp add: block_unlink_def remove_entry_def remove_entry_take_inode_def)
qed

end
