(* ===== verification/Dir_Props.thy ===== *)
theory Dir_Props
  imports Dir_Map
begin

text \<open>
  The properties of directory blocks that callers rely on, each stated over the functions of
  \<open>Dir_Block\<close>, with witnesses on a freshly initialised 64-byte block.
\<close>

section \<open>Room, deltas, index order\<close>

definition free_room :: "dirent \<Rightarrow> usize" where
  "free_room e = (if live e then de_len e - required_rec_len (length (de_name e)) else de_len e)"

lemma pick_slot_None_iff: "pick_slot need es = None \<longleftrightarrow> (\<forall>e \<in> set es. free_room e < need)"
  by (induction es) (auto simp: Let_def free_room_def not_le)

lemma apply_slot_Some_not_NoSpace:
  "added block limit es name ino ft res \<Longrightarrow> fst res \<noteq> Inl NoSpace"
  by (auto simp: added_def)

lemma add_NoSpace_full:
  assumes "dir_inv rt block" "valid_name name" "ino \<noteq> 0"
    and "fst (add_entry_tracked block ino name ft rt) = Inl NoSpace" "dir_slots rt block = Some es"
  shows "\<forall>e \<in> set es. free_room e < required_rec_len (length name)"
  using assms(1)
proof (cases rule: dir_inv_cases)
  case (interior limit)
  with assms(5) show ?thesis by (simp add: dir_slots_def)
next
  case (leaf limit es')
  then have es: "es' = es" using assms(5) by (simp add: dir_slots_def slots_iff_laid_out [symmetric])
  have "length name < 256" using assms(2) by (simp add: valid_name_def)
  then have "pick_slot (required_rec_len (length name)) es' = None"
    using assms(4) add_tracked_leaf(1) [OF leaf(1,2,3,5) assms(2,3), of ft]
      pick_slot_added [OF leaf(5,3) _ _ assms(3), of name _ ft] apply_slot_Some_not_NoSpace
    by (metis not_Some_eq)
  with es show ?thesis by (simp add: pick_slot_None_iff)
qed

lemma xor_cancel: "a XOR (a XOR b) = (b :: u8)"
  by (metis xor.assoc xor.left_neutral xor_self_eq)

lemma edit_delta_exact:
  assumes "edit_covers block block' ed" "k < length block"
  shows "block' ! k = block ! k XOR
    (if region_start ed \<le> k \<and> k < region_start ed + length (old_bytes ed)
     then edit_delta ed block' ! (k - region_start ed) else 0)"
proof (cases "region_start ed \<le> k \<and> k < region_start ed + length (old_bytes ed)")
  case True
  then have i: "k - region_start ed < length (old_bytes ed)" by auto
  have le: "region_start ed + length (old_bytes ed) \<le> length block"
    using assms(1) unfolding edit_covers_def by blast
  have "segment block (region_start ed) (region_start ed + length (old_bytes ed)) ! (k - region_start ed)
      = block ! k"
    using True le nth_segment [of "region_start ed" "k - region_start ed" _ block] by simp
  then have "old_bytes ed ! (k - region_start ed) = block ! k"
    using assms(1) unfolding edit_covers_def by argo
  then have "edit_delta ed block' ! (k - region_start ed) = block ! k XOR block' ! k"
    using True i by (simp add: edit_delta_def)
  then show ?thesis using True by (simp add: xor_cancel)
next
  case False
  then show ?thesis using assms by (auto simp: edit_covers_def)
qed

lemma dot_block:
  "dir_inv 0 (snd (init_dir_block (replicate 64 0) 2 2 0))"
  "dir_map 0 (snd (init_dir_block (replicate 64 0) 2 2 0)) = [[0x2E] \<mapsto> (2, 2), [0x2E, 0x2E] \<mapsto> (2, 2)]"
proof -
  have v: "validate_reserved_tail (length (replicate 64 (0 :: u8))) 0 = Inr 64"
    by (simp add: validate_reserved_tail_def arith_defs)
  have "dir_inv 0 (snd (init_dir_block (replicate 64 0) 2 2 0)) \<and>
    dir_map 0 (snd (init_dir_block (replicate 64 0) 2 2 0)) = [[0x2E] \<mapsto> (2, 2), [0x2E, 0x2E] \<mapsto> (2, 2)]"
    by (rule init_spec [of 2 2 "replicate 64 0" 0 64]) (use v in auto)
  then show "dir_inv 0 (snd (init_dir_block (replicate 64 0) 2 2 0))"
    "dir_map 0 (snd (init_dir_block (replicate 64 0) 2 2 0)) = [[0x2E] \<mapsto> (2, 2), [0x2E, 0x2E] \<mapsto> (2, 2)]"
    by auto
qed

lemma valid_name_a: "valid_name [0x61]"
  by (simp add: valid_name_def)

section \<open>Properties\<close>

text \<open>
  C13: adding an entry with the duplicate check refines insertion into the name map. On a
  well-formed block it either stores the entry, keeping the block well-formed and binding
  exactly the new name; or reports \<open>Exists\<close> exactly when the name is bound; or reports
  \<open>NoSpace\<close>, and then no slot of the block has room for the entry. On both errors the block is
  unchanged.
\<close>

theorem add_entry_refines_insert:
  assumes "dir_inv rt block" "valid_name name" "ino \<noteq> 0"
  shows "case add_entry_reject_existing block ino name ft rt of
      (Inr off, block') \<Rightarrow> dir_map rt block name = None \<and> dir_inv rt block' \<and>
        dir_map rt block' = (dir_map rt block)(name \<mapsto> (ino, to_raw ft))
    | (Inl err, block') \<Rightarrow> block' = block \<and>
        (if dir_map rt block name \<noteq> None then err = Exists
         else err = NoSpace \<and> (\<forall>es. dir_slots rt block = Some es \<longrightarrow>
                (\<forall>e \<in> set es. free_room e < required_rec_len (length name))))"
  using assms(1-3)
proof (cases rule: add_reject_untracked [where ft = ft])
  case full
  then have "fst (add_entry_tracked block ino name ft rt) = Inl NoSpace"
    using add_reject_spec(1) [OF assms, of ft]
    by (auto simp: add_entry_reject_existing_def split: prod.splits sum.splits)
      (metis Inl_Inr_False Inl_inject fst_conv id_apply map_sum.simps old.sum.exhaust)
  with full add_NoSpace_full [OF assms] show ?thesis by simp
qed (use assms in auto)

theorem add_entry_refines_insert_witness:
  "case add_entry_reject_existing (snd (init_dir_block (replicate 64 0) 2 2 0)) 11 [0x61] RegFile 0 of
      (Inr off, block') \<Rightarrow> dir_inv 0 block' \<and> dir_map 0 block' [0x61] = Some (11, 1)
    | (Inl err, block') \<Rightarrow> err = NoSpace"
  using add_entry_refines_insert [OF dot_block(1) valid_name_a, of 11 RegFile]
  by (simp add: dot_block(2) split: prod.splits sum.splits)

text \<open>
  C14: removal refines deletion from the name map. It never fails on a well-formed block:
  \<open>remove_entry_take_inode\<close> returns \<open>None\<close> and leaves the block alone when the name is unbound, and
  otherwise returns the inode that was bound and unbinds exactly this name, coalescing the slot
  into its live predecessor. \<open>remove_entry\<close> leaves the same block and reports whether the name was
  bound.
\<close>

theorem remove_entry_refines_delete:
  assumes "dir_inv rt block" "valid_name name"
  shows "\<exists>block'. remove_entry_take_inode block name rt = (Inr (map_option fst (dir_map rt block name)), block') \<and>
    dir_inv rt block' \<and> dir_map rt block' = (dir_map rt block)(name := None) \<and>
    (dir_map rt block name = None \<longrightarrow> block' = block) \<and>
    remove_entry block name rt = (Inr (dir_map rt block name \<noteq> None), block')"
proof (cases "dir_map rt block name")
  case None
  with remove_absent [OF assms None] assms(1) show ?thesis
    by (simp add: remove_entry_def remove_entry_take_inode_def fun_upd_idem)
next
  case (Some v)
  obtain ed block' where "remove_entry_take_inode_tracked block name rt = (Inr (Some (fst v, ed)), block')"
    "dir_inv rt block'" "dir_map rt block' = (dir_map rt block)(name := None)"
    by (rule remove_present [OF assms Some])
  then show ?thesis using Some by (simp add: remove_entry_def remove_entry_take_inode_def)
qed

theorem remove_entry_refines_delete_witness:
  "\<exists>block'. remove_entry_take_inode (snd (init_dir_block (replicate 64 0) 2 2 0)) [0x2E, 0x2E] 0
      = (Inr (Some 2), block') \<and>
     remove_entry (snd (init_dir_block (replicate 64 0) 2 2 0)) [0x2E, 0x2E] 0 = (Inr True, block') \<and> dir_map 0 block' = [[0x2E] \<mapsto> (2, 2)]"
  using remove_entry_refines_delete [OF dot_block(1), of "[0x2E, 0x2E]"]
  by (auto simp: dot_block(2) valid_name_def)


text \<open>
  C32: retargeting refines overwriting a bound name: \<open>retarget_entry\<close> rebinds the name to the new
  inode and type, \<open>swap_inode_in_entry\<close> to the new inode with the type it had; both report
  whether the name was bound and touch no other name.
\<close>

theorem retarget_refines_update:
  assumes "dir_inv rt block" "valid_name name" "ino \<noteq> 0"
  shows "\<exists>b1 b2. retarget_entry block name ino ft rt = (Inr (dir_map rt block name \<noteq> None), b1) \<and>
      swap_inode_in_entry block name ino rt = (Inr (dir_map rt block name \<noteq> None), b2) \<and>
      dir_inv rt b1 \<and> dir_inv rt b2 \<and>
      dir_map rt b1 = (dir_map rt block)(name := map_option (\<lambda>_. (ino, to_raw ft)) (dir_map rt block name)) \<and>
      dir_map rt b2 = (dir_map rt block)(name := map_option (\<lambda>v. (ino, snd v)) (dir_map rt block name))"
proof (cases "dir_map rt block name")
  case None
  with update_absent [OF assms None] assms(1) show ?thesis
    by (simp add: retarget_entry_def swap_inode_in_entry_def fun_upd_idem)
next
  case (Some v)
  obtain b1 where "update_live_entry_header block name ino (Some ft) rt = (Inr True, b1)" "dir_inv rt b1"
    "dir_map rt b1 = (dir_map rt block)(name \<mapsto> (ino, to_raw ft))"
    by (rule update_present [OF assms Some, of "Some ft"]) auto
  moreover obtain b2 where "update_live_entry_header block name ino None rt = (Inr True, b2)" "dir_inv rt b2"
    "dir_map rt b2 = (dir_map rt block)(name \<mapsto> (ino, snd v))"
    by (rule update_present [OF assms Some, of None]) auto
  ultimately show ?thesis using Some by (simp add: retarget_entry_def swap_inode_in_entry_def)
qed

theorem retarget_refines_update_witness:
  "\<exists>b1. retarget_entry (snd (init_dir_block (replicate 64 0) 2 2 0)) [0x2E, 0x2E] 7 RegFile 0 = (Inr True, b1) \<and>
     dir_map 0 b1 = [[0x2E] \<mapsto> (2, 2), [0x2E, 0x2E] \<mapsto> (7, 1)]"
  using retarget_refines_update [OF dot_block(1), of "[0x2E, 0x2E]" 7 RegFile]
  by (auto simp: dot_block(2) valid_name_def)

text \<open>
  C34: \<open>init_dir_block\<close> on any block whose usable area holds the two dot entries and whose length
  is a multiple of four below 64 KiB produces a well-formed block that binds exactly \<open>.\<close> to the
  directory and \<open>..\<close> to its parent.
\<close>

theorem init_dir_block_fresh:
  assumes "self \<noteq> 0" "parent \<noteq> 0" "validate_reserved_tail (length block) rt = Inr limit"
    and "24 \<le> limit" "length block mod 4 = 0" "length block < 65536"
  shows "\<exists>block'. init_dir_block block self parent rt = (Inr (), block') \<and> dir_inv rt block' \<and>
    dir_map rt block' = [[0x2E] \<mapsto> (self, 2), [0x2E, 0x2E] \<mapsto> (parent, 2)]"
  by (rule init_spec [OF assms]) blast

theorem init_dir_block_fresh_witness:
  "\<exists>block'. init_dir_block (replicate 1024 7) 12 2 12 = (Inr (), block') \<and> dir_inv 12 block' \<and>
    dir_map 12 block' = [[0x2E] \<mapsto> (12, 2), [0x2E, 0x2E] \<mapsto> (2, 2)]"
  by (rule init_dir_block_fresh [of 12 2 "replicate 1024 7" 12 1012])
    (simp_all add: validate_reserved_tail_def arith_defs)

text \<open>
  C33: the single scan of \<open>add_entry_reject_existing_tracked\<close> is equivalent to the two-pass form
  it replaces: first \<open>block_contains_live_name\<close>, then \<open>add_entry_tracked\<close>.
\<close>

theorem one_pass_add_equals_two_pass:
  assumes "dir_inv rt block" "valid_name name" "ino \<noteq> 0"
  shows "add_entry_reject_existing_tracked block ino name ft rt =
    (case block_contains_live_name block name rt of
       Inl err \<Rightarrow> (Inl err, block)
     | Inr found \<Rightarrow> if found then (Inl Exists, block) else add_entry_tracked block ino name ft rt)"
  using add_reject_spec(1) [OF assms] contains_spec [OF assms(1,2)] by simp

theorem one_pass_add_equals_two_pass_witness:
  "add_entry_reject_existing_tracked (snd (init_dir_block (replicate 64 0) 2 2 0)) 11 [0x61] RegFile 0
    = add_entry_tracked (snd (init_dir_block (replicate 64 0) 2 2 0)) 11 [0x61] RegFile 0"
  using one_pass_add_equals_two_pass [OF dot_block(1) valid_name_a, of 11 RegFile]
    contains_spec [OF dot_block(1) valid_name_a] by (simp add: dot_block(2))

text \<open>A mutation of a block that succeeds, with the edit it reports.\<close>

definition mutates :: "usize \<Rightarrow> bytes \<Rightarrow> bytes \<Rightarrow> dir_edit option \<Rightarrow> bytes \<Rightarrow> bool" where
  "mutates rt name block edit block' \<longleftrightarrow>
     (\<exists>ino ft off. ino \<noteq> 0 \<and> add_entry_reject_existing_tracked block ino name ft rt = (Inr (off, edit), block'))
   \<or> (\<exists>ino ed. edit = Some ed \<and> remove_entry_take_inode_tracked block name rt = (Inr (Some (ino, ed)), block'))"

lemma mutates_effect:
  assumes "dir_inv rt block" "valid_name name" "mutates rt name block edit block'"
  shows "length block' = length block \<and> keeps_tail rt block block' \<and> dir_inv rt block'
    \<and> (\<forall>ed. edit = Some ed \<longrightarrow> edit_covers block block' ed)"
  using assms(3) unfolding mutates_def
proof
  assume "\<exists>ino ft off. ino \<noteq> 0 \<and> add_entry_reject_existing_tracked block ino name ft rt = (Inr (off, edit), block')"
  then obtain ino ft off where a: "ino \<noteq> 0" "add_entry_reject_existing_tracked block ino name ft rt = (Inr (off, edit), block')" by blast
  note spec = add_reject_spec [OF assms(1,2) a(1), of ft]
  have none: "dir_map rt block name = None" using spec(1) a(2) by (cases "dir_map rt block name") simp_all
  with spec(1) a(2) have "add_entry_tracked block ino name ft rt = (Inr (off, edit), block')" by simp
  with spec(2) [OF none] show ?thesis by auto
next
  assume "\<exists>ino ed. edit = Some ed \<and> remove_entry_take_inode_tracked block name rt = (Inr (Some (ino, ed)), block')"
  then obtain ino ed where r: "edit = Some ed" "remove_entry_take_inode_tracked block name rt = (Inr (Some (ino, ed)), block')" by blast
  with remove_absent [OF assms(1,2)] obtain v where "dir_map rt block name = Some v" by force
  from remove_present [OF assms(1,2) this] r show ?thesis by (metis Inr_inject Pair_inject option.inject)
qed

text \<open>
  The edit a mutation reports is exact. XORing its delta, placed at \<open>region_start\<close> and zero
  elsewhere, onto the old block gives the new block; the incremental checksum update is fed
  every changed byte.
\<close>

theorem reported_edit_exact:
  assumes "dir_inv rt block" "valid_name name" "k < length block" "mutates rt name block (Some ed) block'"
  shows "block' ! k = block ! k XOR
    (if region_start ed \<le> k \<and> k < region_start ed + length (old_bytes ed)
     then edit_delta ed block' ! (k - region_start ed) else 0)"
  using mutates_effect [OF assms(1,2,4)] by (blast intro: edit_delta_exact [OF _ assms(3)])

theorem reported_edit_exact_witness:
  "\<exists>ino ed block'. remove_entry_take_inode_tracked (snd (init_dir_block (replicate 64 0) 2 2 0)) [0x2E, 0x2E] 0
      = (Inr (Some (ino, ed)), block') \<and>
    block' ! 12 = snd (init_dir_block (replicate 64 0) 2 2 0) ! 12 XOR
      (if region_start ed \<le> 12 \<and> 12 < region_start ed + length (old_bytes ed)
       then edit_delta ed block' ! (12 - region_start ed) else 0)"
proof -
  let ?b = "snd (init_dir_block (replicate 64 0) 2 2 0)"
  have n: "valid_name [0x2E, 0x2E]" "dir_map 0 ?b [0x2E, 0x2E] = Some (2, 2)"
    by (simp_all add: valid_name_def dot_block(2))
  obtain ed block' where r: "remove_entry_take_inode_tracked ?b [0x2E, 0x2E] 0 = (Inr (Some (2, ed)), block')"
    "edit_covers ?b block' ed" by (rule remove_present [OF dot_block(1) n]) simp
  have len: "12 < length ?b"
    by (rule init_spec [of 2 2 "replicate 64 0" 0 64]) (simp_all add: validate_reserved_tail_def arith_defs)
  from reported_edit_exact [OF dot_block(1) n(1) len, of ed block'] r show ?thesis unfolding mutates_def by blast
qed

text \<open>
  C12: whole histories. From a freshly initialised block, any sequence of creations and unlinks
  of valid names leaves a well-formed block whose name map is the one an ideal directory reaches
  by the same history, in which creations may only be refused.
\<close>

theorem directory_history_simulates:
  assumes "self \<noteq> 0" "parent \<noteq> 0" "validate_reserved_tail (length block) rt = Inr limit"
    and "24 \<le> limit" "length block mod 4 = 0" "length block < 65536"
    and "\<forall>opn \<in> set ops. op_ok valid_name (\<lambda>a. fst a \<noteq> 0) opn"
  shows "\<exists>block' final. init_dir_block block self parent rt = (Inr (), block') \<and>
    final = run_ops (block_create rt) (block_unlink rt) ops block' \<and> dir_inv rt final \<and>
    dir_trace stored ops [[0x2E] \<mapsto> (self, 2), [0x2E, 0x2E] \<mapsto> (parent, 2)] (dir_map rt final)"
proof -
  obtain block' where b: "init_dir_block block self parent rt = (Inr (), block')" "dir_inv rt block'"
    "dir_map rt block' = [[0x2E] \<mapsto> (self, 2), [0x2E, 0x2E] \<mapsto> (parent, 2)]"
    by (rule init_spec [OF assms(1-6)])
  from blk.run_ops_simulates [OF b(2) assms(7)] b show ?thesis by auto
qed

theorem directory_history_simulates_witness:
  "\<exists>block' final. init_dir_block (replicate 64 0) 2 2 0 = (Inr (), block') \<and>
    final = run_ops (block_create 0) (block_unlink 0)
      [Create [0x61] (11, RegFile), Create [0x62] (12, Dir), Unlink [0x61]] block' \<and> dir_inv 0 final \<and>
    dir_trace stored [Create [0x61] (11, RegFile), Create [0x62] (12, Dir), Unlink [0x61]]
      [[0x2E] \<mapsto> (2, 2), [0x2E, 0x2E] \<mapsto> (2, 2)] (dir_map 0 final)"
  by (rule directory_history_simulates [of 2 2 "replicate 64 0" 0 64])
    (simp_all add: validate_reserved_tail_def arith_defs valid_name_def)

text \<open>
  C36: the word-at-a-time tests agree with the byte-wise ones they replace: \<open>names_eq\<close> is
  equality, \<open>name_has_slash_or_nul\<close> finds a slash or a NUL exactly when there is one, and so
  \<open>validate_name\<close> accepts exactly the non-empty names of at most 255 bytes without either.
\<close>

theorem swar_name_tests:
  "names_eq a b = (a = b) \<and> name_has_slash_or_nul a = (0x2F \<in> set a \<or> 0 \<in> set a) \<and>
   (validate_name a = Inr ()) = (a \<noteq> [] \<and> length a \<le> 255 \<and> 0x2F \<notin> set a \<and> 0 \<notin> set a)"
  by (simp add: name_has_slash_or_nul_iff validate_name_iff valid_name_def)


text \<open>
  The header bytes that survive a removal: a cleared first record still carries its \<open>rec_len\<close>
  and, behind the header, the bytes of the removed name.
\<close>

lemma cleared_looks_interior:
  assumes "slot_at block (length block) e" "de_off e = 0" "de_len e = length block"
    and "de_name e = [ca, cb, cc]" "block ! 11 = 0" "cc \<noteq> 0" "unat cc \<le> unat ca + 256 * unat cb"
    and "8 + unat cc * 8 \<le> length block"
  shows "is_interior_htree_dx_node_block (clear_header block 0)"
proof -
  have len: "11 \<le> length block" "length block < 65536" "length block mod 4 = 0"
    using assms by (auto simp: slot_at_def)
  then have len12: "12 \<le> length block" by presburger
  have "0 + 8 \<le> length block" using len by simp
  note f = clear_header_facts [OF this]
  have keep: "segment (clear_header block 0) i j = segment block i j" if "i = 4 \<and> j = 6 \<or> 8 \<le> i" for i j
    using that f(1) by (intro segment_eqI) (auto intro!: f(2) simp: less_Suc_eq numeral_eq_Suc)
  have nm: "segment block 8 11 = [ca, cb, cc]" using assms(1,2,4) by (simp add: slot_at_def)
  have c: "block ! 8 = ca" "block ! 9 = cb" "block ! 10 = cc"
    using nth_segment [of 8 0 11 block] nth_segment [of 8 1 11 block] nth_segment [of 8 2 11 block] nm len
    by simp_all
  have two: "segment block i (i + 2) = [block ! i, block ! (i + 1)]" if "i + 2 \<le> length block" for i
    using that by (intro nth_equalityI) (auto simp: less_2_cases_iff numeral_2_eq_2 [symmetric])
  have r0: "read_u32_le (clear_header block 0) 0 = Some 0"
    using f(1,3) len by (simp add: read_u32_le_def get_range_def)
  have r4: "read_u16_le (clear_header block 0) 4 = Some (of_nat (length block))"
    using f(1) len keep [of 4 6] assms(1-3) by (simp add: read_u16_le_def get_range_def slot_at_def)
  have r8: "read_u16_le (clear_header block 0) 8 = Some (from_le [ca, cb])"
    using f(1) len12 keep [of 8 10] two [of 8] c by (simp add: read_u16_le_def get_range_def)
  have r10: "read_u16_le (clear_header block 0) 10 = Some (from_le [cc, 0])"
    using f(1) len12 keep [of 10 12] two [of 10] c assms(5) by (simp add: read_u16_le_def get_range_def)
  have "unat ca + 256 * unat cb < 65536" using unat_u8_less [of ca] unat_u8_less [of cb] by linarith
  then have lim: "unat (from_le [ca, cb] :: u16) = unat ca + 256 * unat cb"
    by (simp add: from_le_def unat_of_nat del: of_nat_add of_nat_mult)
  have cnt: "unat (from_le [cc, 0] :: u16) = unat cc"
    using unat_u8_less [of cc] by (simp add: from_le_def unat_of_nat del: unat_u8_less)
  have "(from_le [cc, 0] :: u16) \<noteq> 0" using cnt assms(6) by (metis unat_0 unat_eq_zero)
  moreover have "\<not> (from_le [ca, cb] :: u16) < from_le [cc, 0]"
    using lim cnt assms(7) by (simp add: word_less_nat_alt)
  moreover have "unat (of_nat (length block) :: u16) = length block" using len by (simp add: unat_of_nat)
  ultimately show ?thesis
    using assms(8) cnt f(1) len
    by (simp add: is_interior_htree_dx_node_block_def r0 r4 r8 r10 arith_defs usize_max_def)
qed

text \<open>
  C37: a defect of the interior-node test. When the only entry of a block without checksum tail
  covers the whole block and has a three-byte name such as \<open>zza\<close> with a zero padding byte, removing
  it leaves an empty block in which the stale name bytes read as \<open>dx_node\<close> limit (first two bytes)
  and count (third byte and padding). If the count is at most the limit and the counted entries fit
  the block, the block is then taken
  for an interior htree node: it holds no name, yet every later insertion is refused with
  \<open>NoSpace\<close>.
\<close>

theorem removed_name_misread_as_dx_node:
  assumes "dir_inv 0 block" "dir_slots 0 block = Some [e]" "live e" "de_len e = length block"
    and "de_name e = [ca, cb, cc]" "valid_name [ca, cb, cc]" "block ! 11 = 0"
    and "unat cc \<le> unat ca + 256 * unat cb" "8 + unat cc * 8 \<le> length block"
    and "valid_name name" "ino \<noteq> 0"
  shows "\<exists>block'. remove_entry block [ca, cb, cc] 0 = (Inr True, block') \<and>
    dir_map 0 block' = (\<lambda>_. None) \<and> add_entry block' ino name ft 0 = (Inl NoSpace, block')"
proof -
  have lim: "validate_reserved_tail (length block) 0 = Inr (length block)"
    by (simp add: validate_reserved_tail_def arith_defs)
  have ok: "dir_block_ok block (length block)"
    using assms(1) usable_limit(3) [OF lim] by (simp add: dir_inv_def)
  have int: "\<not> is_interior_htree_dx_node_block block" "slots block (length block) 0 = Some [e]"
    using assms(2) lim by (auto simp: dir_slots_def split: if_splits)
  then have lay: "laid_out block (length block) 0 ([] @ e # [])" by (simp add: slots_iff_laid_out [OF ok])
  then have e: "slot_at block (length block) e" "de_off e = 0" by auto
  have cc: "cc \<noteq> 0" using assms(6) by (auto simp: valid_name_def)
  let ?b = "clear_header block 0"
  have int': "is_interior_htree_dx_node_block ?b"
    by (rule cleared_looks_interior [OF e assms(4,5,7) cc assms(8,9)])
  have o: "8 \<le> length block" using e assms(4) by (simp add: slot_at_def)
  then have lenb: "length ?b = length block" using clear_header_facts(1) [of 0 block] by simp
  have "remove_loop block [ca, cb, cc] (length block) 0 None = remove_at block 0 None (header_of e)"
    using remove_loop_found [OF lay ok _ assms(3,5), of None] e(2) by (simp add: last_live_def)
  moreover have "\<exists>ed. remove_at block 0 None (header_of e) = (Inr (Some (de_ino e, ed)), ?b)"
    using o by (simp add: remove_at_def write_u32_le_def clear_header_def header_of_def
        DIR_ENTRY_HEADER_LEN_def Let_def)
  ultimately have "remove_entry block [ca, cb, cc] 0 = (Inr True, ?b)"
    using assms(6) [folded validate_name_iff] lim int
    by (auto simp: remove_entry_def remove_entry_take_inode_def remove_entry_take_inode_tracked_def)
  moreover have "dir_map 0 ?b = (\<lambda>_. None)"
    using int' lenb lim by (simp add: dir_map_def dir_slots_def name_map_def)
  moreover have "add_entry ?b ino name ft 0 = (Inl NoSpace, ?b)"
    using add_tracked_interior(1) [OF _ int' assms(10,11), of 0 "length block" ft] lim lenb
    by (simp add: add_entry_def)
  ultimately show ?thesis by blast
qed


lemma full_block_entry:
  fixes ft :: ext4_file_type
  assumes "12 + length name \<le> n" "n mod 4 = 0" "n < 65536" "length name < 256" "ino \<noteq> 0"
  defines "b \<equiv> entry_bytes ino n ft name"
  shows "dir_inv 0 b" "dir_slots 0 b = Some [new_slot 0 n ino ft name]" "length b = n"
proof -
  show len: "length b = n" using assms(1) by (simp add: b_def)
  have "b = blit (replicate n 0) 0 b" using len by (simp add: blit_def)
  moreover have "slot_at (blit (replicate n 0) 0 b) n (new_slot 0 n ino ft name)"
    unfolding b_def using assms(1-4) by (intro slot_at_written) simp_all
  ultimately have s: "slot_at b n (new_slot 0 n ino ft name)" by simp
  then have lay: "laid_out b n 0 [new_slot 0 n ino ft name]" by (simp add: new_slot_def)
  have ok: "dir_block_ok b n" using len assms(3) by (simp add: dir_block_ok_def usize_max_def)
  have v: "validate_reserved_tail (length b) 0 = Inr n"
    using len by (simp add: validate_reserved_tail_def arith_defs)
  have "read_u32_le b 0 = Some ino"
    using s len assms(1) by (simp add: read_u32_le_def get_range_def slot_at_def new_slot_def)
  then have "\<not> is_interior_htree_dx_node_block b" using interior_header(1) assms(5) by fastforce
  with lay ok v show d: "dir_slots 0 b = Some [new_slot 0 n ino ft name]"
    by (simp add: dir_slots_def slots_iff_laid_out)
  show "dir_inv 0 b" using d len assms(3)
    by (simp add: dir_inv_def unique_names_def live_entries_def)
qed

theorem removed_name_misread_as_dx_node_witness:
  "\<exists>block'. remove_entry (entry_bytes 11 1024 RegFile [0x7A, 0x7A, 0x61]) [0x7A, 0x7A, 0x61] 0
      = (Inr True, block') \<and> dir_map 0 block' = (\<lambda>_. None) \<and>
    add_entry block' 12 [0x62] RegFile 0 = (Inl NoSpace, block')"
proof -
  let ?n = "[0x7A, 0x7A, 0x61] :: bytes" and ?b = "entry_bytes 11 1024 RegFile [0x7A, 0x7A, 0x61]"
  have f: "dir_inv 0 ?b" "dir_slots 0 ?b = Some [new_slot 0 1024 11 RegFile ?n]" "length ?b = 1024"
    by (rule full_block_entry; simp)+
  have "?b ! 11 = 0" by (simp add: entry_bytes_def nth_append)
  with removed_name_misread_as_dx_node [OF f(1,2), where ca = "0x7A" and cb = "0x7A" and cc = "0x61"
      and name = "[0x62]" and ino = 12 and ft = RegFile] f(3)
  show ?thesis by (simp add: new_slot_def live_def valid_name_def)
qed

lemma sorted_takeWhile_filter:
  "sorted (map f xs) \<Longrightarrow> takeWhile (\<lambda>e. f e \<le> h) xs = filter (\<lambda>e. f e \<le> h) xs"
proof (induction xs)
  case (Cons x xs)
  show ?case
  proof (cases "f x \<le> h")
    case False
    with Cons.prems have "\<forall>y \<in> set xs. \<not> f y \<le> h" by (auto simp: not_le intro: order.strict_trans2)
    with False show ?thesis by simp
  qed (use Cons in auto)
qed simp

lemma sorted_dropWhile_filter:
  "sorted (map f xs) \<Longrightarrow> dropWhile (\<lambda>e. f e \<le> h) xs = filter (\<lambda>e. h < f e) xs"
proof (induction xs)
  case (Cons x xs)
  show ?case
  proof (cases "f x \<le> h")
    case False
    with Cons.prems have "\<forall>y \<in> set xs. h < f y" by (auto simp: not_le intro: order.strict_trans2)
    with False show ?thesis by (simp add: not_le)
  qed (use Cons in auto)
qed simp

lemma htree_find_leaf_alt:
  assumes "sorted (map he_hash entries)"
  defines "t \<equiv> \<lambda>target. filter (\<lambda>e. he_hash e \<le> target) entries"
  shows "htree_find_leaf entries target =
    (if entries = [] then None else Some (he_block (if t target = [] then hd entries else last (t target))))"
proof -
  let ?w = "takeWhile (\<lambda>e. he_hash e \<le> target) entries"
  have t: "t target = ?w" unfolding t_def by (simp add: sorted_takeWhile_filter [OF assms(1)])
  have pp: "partition_point (\<lambda>e. he_hash e \<le> target) entries = length ?w"
    by (rule partition_point_takeWhile [OF sorted_partitioned [OF assms(1)]])
  have le: "length ?w \<le> length entries" by (rule length_takeWhile_le)
  have "entries ! (length ?w - 1) = last ?w" if "?w \<noteq> []"
    using that by (metis One_nat_def diff_less last_conv_nth length_greater_0_conv lessI takeWhile_nth)
  moreover have "length ?w - 1 < length entries" if "entries \<noteq> []"
    using le that by (cases "length ?w"; cases entries) auto
  ultimately show ?thesis unfolding t
    by (cases "entries = []"; cases "?w = []")
      (auto simp: htree_find_leaf_def htree_find_leaf_idx_def pp Let_def hd_conv_nth)
qed

lemma htree_remove_alt:
  "htree_remove entries hash blk =
     (\<lparr>he_hash = hash, he_block = blk\<rparr> \<in> set entries, remove1 \<lparr>he_hash = hash, he_block = blk\<rparr> entries)"
proof -
  have eq: "he_hash e = hash \<and> he_block e = blk \<longleftrightarrow> \<lparr>he_hash = hash, he_block = blk\<rparr> = e" for e by (cases e) auto
  show ?thesis unfolding htree_remove_def eq by (induction entries) (auto split: option.splits)
qed

text \<open>
  C35: the htree index. Inserting keeps the hashes sorted and the entries of a hash in insertion
  order; removing takes out the first entry with the given hash and block, keeps the rest in order
  and reports whether there was one; on a sorted index \<open>htree_find_leaf\<close> returns the block of the last entry whose hash does
  not exceed the target, or of the first entry when there is none.
\<close>

theorem htree_sorted_search:
  assumes "sorted (map he_hash entries)"
  shows "sorted (map he_hash (snd (htree_insert entries hash blk))) \<and>
    snd (htree_insert entries hash blk) =
      filter (\<lambda>e. he_hash e \<le> hash) entries @ [\<lparr>he_hash = hash, he_block = blk\<rparr>]
        @ filter (\<lambda>e. hash < he_hash e) entries \<and>
    htree_remove entries hash blk =
      (\<lparr>he_hash = hash, he_block = blk\<rparr> \<in> set entries, remove1 \<lparr>he_hash = hash, he_block = blk\<rparr> entries) \<and>
    sorted (map he_hash (snd (htree_remove entries hash blk))) \<and>
    htree_find_leaf entries target =
      (case filter (\<lambda>e. he_hash e \<le> target) entries of
         [] \<Rightarrow> map_option he_block (case entries of [] \<Rightarrow> None | e # _ \<Rightarrow> Some e)
       | es \<Rightarrow> Some (he_block (last es)))"
proof -
  note tw = sorted_takeWhile_filter [OF assms] sorted_dropWhile_filter [OF assms]
  have pp: "partition_point (\<lambda>e. he_hash e \<le> h) entries = length (takeWhile (\<lambda>e. he_hash e \<le> h) entries)" for h
    by (rule partition_point_takeWhile [OF sorted_partitioned [OF assms]])
  have ins: "snd (htree_insert entries hash blk) = filter (\<lambda>e. he_hash e \<le> hash) entries
      @ [\<lparr>he_hash = hash, he_block = blk\<rparr>] @ filter (\<lambda>e. hash < he_hash e) entries"
    using takeWhile_eq_take [of "\<lambda>e. he_hash e \<le> hash" entries]
      dropWhile_eq_drop [of "\<lambda>e. he_hash e \<le> hash" entries]
    by (simp add: htree_insert_def pp Let_def tw)
  moreover have "sorted (map he_hash (snd (htree_insert entries hash blk)))"
    unfolding ins using assms by (auto simp: sorted_append sorted_filter)
  moreover have rem: "htree_remove entries hash blk =
      (\<lparr>he_hash = hash, he_block = blk\<rparr> \<in> set entries, remove1 \<lparr>he_hash = hash, he_block = blk\<rparr> entries)"
    by (rule htree_remove_alt)
  moreover have "sorted (map he_hash (snd (htree_remove entries hash blk)))"
    unfolding rem by (simp add: sorted_map_remove1 [OF assms])
  moreover have "htree_find_leaf entries target =
      (case filter (\<lambda>e. he_hash e \<le> target) entries of
         [] \<Rightarrow> map_option he_block (case entries of [] \<Rightarrow> None | e # _ \<Rightarrow> Some e)
       | es \<Rightarrow> Some (he_block (last es)))"
    using htree_find_leaf_alt [OF assms, of target]
    by (cases entries; cases "filter (\<lambda>e. he_hash e \<le> target) entries") simp_all
  ultimately show ?thesis by blast
qed

theorem htree_sorted_search_witness:
  "htree_find_leaf [\<lparr>he_hash = 0, he_block = 1\<rparr>, \<lparr>he_hash = 10, he_block = 2\<rparr>, \<lparr>he_hash = 20, he_block = 3\<rparr>] 15 = Some 2"
  using htree_sorted_search [of "[\<lparr>he_hash = 0, he_block = 1\<rparr>, \<lparr>he_hash = 10, he_block = 2\<rparr>, \<lparr>he_hash = 20, he_block = 3\<rparr>]" 5 9 15]
  by simp

end
