(* ===== verification/Crc_Incremental.thy ===== *)
theory Crc_Incremental
  imports Prelude
begin

text \<open>
  Incremental CRC-32C (\<open>ffs-ondisk/src/crc_incremental.rs\<close>): the table of bytes, matrices over
  GF(2), the operators that advance a checksum over zero bits, their constant-time form over
  zero bytes, and the update of a checksum after a change in place. The checksum function of the
  \<open>crc32c\<close> crate is a parameter; what it computes is the predicate \<open>crc32c_crate\<close>. Indexing the
  operators past the end is the value \<open>None\<close>, a panic.
\<close>

section \<open>The checksum one bit at a time\<close>

definition POLY :: u32 where
  "POLY = 0x82F63B78"

definition crc_bit :: "u32 \<Rightarrow> u32" where
  "crc_bit c = (if c AND 1 \<noteq> 0 then drop_bit 1 c XOR POLY else drop_bit 1 c)"

text \<open>
  CRC-32C as it is specified, apart from the constant of the code: the register holds a
  polynomial of degree below 32, bit \<open>31 - e\<close> the coefficient of \<open>x\<^sup>e\<close>. A step multiplies by \<open>x\<close> and
  reduces by the Castagnoli polynomial, given here by its exponents below 32. Each byte is added to
  the low bits of the register, which then advances by eight bits. The crate starts from the
  complement of the checksum so far and complements the result.
\<close>

definition castagnoli :: u32 where
  "castagnoli = foldr (\<lambda>e p. push_bit (31 - e) 1 OR p) [28, 27, 26, 25, 23, 22, 20, 19, 18, 14, 13, 11, 10, 9, 8, 6, 0] 0"

definition times_x :: "u32 \<Rightarrow> u32" where
  "times_x c = (if bit c 0 then drop_bit 1 c XOR castagnoli else drop_bit 1 c)"

definition crc_byte :: "u8 \<Rightarrow> u32 \<Rightarrow> u32" where
  "crc_byte b c = (times_x ^^ 8) (c XOR ucast b)"

definition crc32c_crate :: "(u32 \<Rightarrow> bytes \<Rightarrow> u32) \<Rightarrow> bool" where
  "crc32c_crate crc32c_append \<longleftrightarrow>
     (\<forall>crc data. crc32c_append crc data = NOT (fold crc_byte data (NOT crc)))"

section \<open>Tables\<close>

definition crc32c_byte_table :: "u32 list" where
  "crc32c_byte_table = map (\<lambda>i. (crc_bit ^^ 8) (of_nat i)) [0..<256]"

definition HW_RAW_CRC_MIN_LEN :: usize where
  "HW_RAW_CRC_MIN_LEN = 16"

type_synonym gf2_matrix = "u32 list"

fun gf2_sum :: "u32 \<Rightarrow> nat \<Rightarrow> gf2_matrix \<Rightarrow> u32 \<Rightarrow> u32" where
  "gf2_sum v i [] acc = acc"
| "gf2_sum v i (row # rows) acc = gf2_sum v (Suc i) rows (acc XOR (row AND (0 - (drop_bit i v AND 1))))"

definition gf2_matrix_times :: "gf2_matrix \<Rightarrow> u32 \<Rightarrow> u32" where
  "gf2_matrix_times mat v = gf2_sum v 0 mat 0"

definition gf2_matrix_square :: "gf2_matrix \<Rightarrow> gf2_matrix" where
  "gf2_matrix_square mat = map (gf2_matrix_times mat) mat"

definition one_zero_bit :: gf2_matrix where
  "one_zero_bit = POLY # map (\<lambda>i. push_bit i 1) [0..<31]"

definition shift_operators :: "gf2_matrix list" where
  "shift_operators = map (\<lambda>k. (gf2_matrix_square ^^ k) one_zero_bit) [0..<40]"

fun shift_loop :: "nat \<Rightarrow> nat \<Rightarrow> u32 \<Rightarrow> u32 option" where
  "shift_loop zero_bits k c =
     (if zero_bits = 0 then Some c
      else if odd zero_bits
        then if k < length shift_operators
             then shift_loop (zero_bits div 2) (Suc k) (gf2_matrix_times (shift_operators ! k) c) else None
      else shift_loop (zero_bits div 2) (Suc k) c)"

declare shift_loop.simps [simp del]

definition crc32c_shift_bits :: "u32 \<Rightarrow> u64 \<Rightarrow> u32 option" where
  "crc32c_shift_bits crc zero_bits = shift_loop (unat zero_bits) 0 crc"

definition gf2_identity :: gf2_matrix where
  "gf2_identity = map (\<lambda>n. push_bit n 1) [0..<32]"

definition gf2_matrix_mul :: "gf2_matrix \<Rightarrow> gf2_matrix \<Rightarrow> gf2_matrix" where
  "gf2_matrix_mul a b = map (gf2_matrix_times a) b"

definition byte_shift_operators :: "gf2_matrix list \<times> gf2_matrix list" where
  "byte_shift_operators =
     (map (\<lambda>j. (gf2_matrix_mul (shift_operators ! 3) ^^ j) gf2_identity) [0..<256],
      map (\<lambda>j. (gf2_matrix_mul (shift_operators ! 11) ^^ j) gf2_identity) [0..<256])"

definition zero_bits_of :: "usize \<Rightarrow> u64" where
  "zero_bits_of n = (let w = (case try_from_nat n of Some w \<Rightarrow> w | None \<Rightarrow> - 1)
                     in case checked_mul w 8 of Some bits \<Rightarrow> bits | None \<Rightarrow> - 1)"

definition crc32c_shift_bytes :: "u32 \<Rightarrow> usize \<Rightarrow> u32 option" where
  "crc32c_shift_bytes crc zero_bytes =
     (if 65536 \<le> zero_bytes then crc32c_shift_bits crc (zero_bits_of zero_bytes)
      else case byte_shift_operators of
        (lo, hi) \<Rightarrow> Some (gf2_matrix_times (hi ! (zero_bytes div 256)) (gf2_matrix_times (lo ! (zero_bytes mod 256)) crc)))"

definition table_step :: "u8 \<Rightarrow> u32 \<Rightarrow> u32" where
  "table_step b crc = crc32c_byte_table ! unat ((crc XOR ucast b) AND 0xFF) XOR drop_bit 8 crc"

definition raw_crc32c :: "(u32 \<Rightarrow> bytes \<Rightarrow> u32) \<Rightarrow> bytes \<Rightarrow> u32 option" where
  "raw_crc32c crc32c_append data =
     (if length data \<le> HW_RAW_CRC_MIN_LEN then Some (fold table_step data 0)
      else map_option (\<lambda>shifted. crc32c_append 0 data XOR 0xFFFFFFFF XOR shifted)
             (crc32c_shift_bits 0xFFFFFFFF (zero_bits_of (length data))))"

definition crc32c_update_region :: "(u32 \<Rightarrow> bytes \<Rightarrow> u32) \<Rightarrow> u32 \<Rightarrow> bytes \<Rightarrow> usize \<Rightarrow> u32 option" where
  "crc32c_update_region crc32c_append old_crc delta suffix_bytes =
     (case raw_crc32c crc32c_append delta of
        None \<Rightarrow> None
      | Some raw \<Rightarrow> map_option (\<lambda>shifted. old_crc XOR shifted) (crc32c_shift_bytes raw suffix_bytes))"

section \<open>Linear maps and their matrices\<close>

text \<open>A map is linear when it respects exclusive or; its matrix lists the images of the unit vectors.\<close>

definition linear :: "(u32 \<Rightarrow> u32) \<Rightarrow> bool" where
  "linear f \<longleftrightarrow> (\<forall>a b. f (a XOR b) = f a XOR f b)"

definition unit_bit :: "nat \<Rightarrow> u32" where
  "unit_bit i = push_bit i 1"

definition matrix_of :: "(u32 \<Rightarrow> u32) \<Rightarrow> gf2_matrix" where
  "matrix_of f = map (\<lambda>i. f (unit_bit i)) [0..<32]"

definition high_bits :: "nat \<Rightarrow> u32 \<Rightarrow> u32" where
  "high_bits i v = push_bit i (drop_bit i v)"

lemma linearD: "linear f \<Longrightarrow> f (a XOR b) = f a XOR f b"
  by (simp add: linear_def)

lemma linear_0: "linear f \<Longrightarrow> f 0 = 0"
  using linearD [of f 0 0] by simp

lemma linear_id: "linear id"
  by (simp add: linear_def)

lemma linear_comp: "linear f \<Longrightarrow> linear g \<Longrightarrow> linear (f \<circ> g)"
  by (simp add: linear_def)

lemma linear_funpow: "linear f \<Longrightarrow> linear (f ^^ n)"
  by (induction n) (simp_all add: linear_id linear_comp flip: id_def)

lemma and_one_bit: "(a AND 1 \<noteq> 0) = bit a 0" for a :: u32
  by (simp add: and_one_eq bit_0 odd_iff_mod_2_eq_one)

text \<open>The constant of the code is the Castagnoli polynomial and its bit step the step of the specification.\<close>

lemma POLY_castagnoli: "POLY = castagnoli"
  by (simp add: POLY_def castagnoli_def)

lemma crc_bit_times_x: "crc_bit = times_x"
  by (rule ext) (simp add: crc_bit_def times_x_def POLY_castagnoli and_one_bit)

lemma crc_byte_bits: "crc_byte b c = (crc_bit ^^ 8) (c XOR ucast b)"
  by (simp add: crc_byte_def crc_bit_times_x)

lemma linear_crc_bit: "linear crc_bit"
  unfolding linear_def crc_bit_def and_one_bit
  by (auto intro!: bit_word_eqI simp: bit_xor_iff bit_drop_bit_eq)

lemma mask_of_bit: "0 - (drop_bit i v AND 1) = (if bit v i then - 1 else 0)" for v :: u32
  by (simp add: and_one_eq bit_iff_odd_drop_bit odd_iff_mod_2_eq_one)

lemma bit_high_bits: "bit (high_bits i v) n \<longleftrightarrow> i \<le> n \<and> bit v n"
  by (auto simp: high_bits_def bit_push_bit_iff bit_drop_bit_eq dest: bit_imp_le_length)

lemma bit_unit_bit: "bit (unit_bit i) n \<longleftrightarrow> n = i \<and> i < 32"
  by (auto simp: unit_bit_def bit_simps)

lemma split_low_bit: "high_bits i v = (if bit v i then unit_bit i else 0) XOR high_bits (Suc i) v"
  by (rule bit_word_eqI) (auto simp: bit_xor_iff bit_high_bits bit_unit_bit Suc_le_eq le_less)

lemma gf2_sum_matrix_of:
  assumes "linear f"
  shows "i \<le> 32 \<Longrightarrow> gf2_sum v i (map (\<lambda>j. f (unit_bit j)) [i..<32]) acc = acc XOR f (high_bits i v)"
proof (induction i arbitrary: acc rule: inc_induct)
  case base
  have "high_bits 32 v = 0" by (rule bit_word_eqI) (simp add: bit_high_bits)
  then show ?case by (simp add: linear_0 [OF assms])
next
  case (step i)
  have "gf2_sum v i (map (\<lambda>j. f (unit_bit j)) [i..<32]) acc
      = acc XOR (f (unit_bit i) AND (if bit v i then - 1 else 0)) XOR f (high_bits (Suc i) v)"
    using step by (simp add: upt_conv_Cons mask_of_bit xor.assoc del: diff_0)
  then show ?case by (simp add: split_low_bit [of i] linearD [OF assms] linear_0 [OF assms] xor.assoc)
qed

lemma matrix_times: "linear f \<Longrightarrow> gf2_matrix_times (matrix_of f) v = f v"
proof -
  have "high_bits 0 v = v" by (simp add: high_bits_def)
  then show "linear f \<Longrightarrow> gf2_matrix_times (matrix_of f) v = f v"
    using gf2_sum_matrix_of [of f 0 v 0] by (simp add: gf2_matrix_times_def matrix_of_def)
qed

lemma matrix_mul: "linear f \<Longrightarrow> gf2_matrix_mul (matrix_of f) (matrix_of g) = matrix_of (f \<circ> g)"
  by (simp add: gf2_matrix_mul_def matrix_of_def [of g] matrix_times comp_def) (simp add: matrix_of_def)

lemma matrix_square: "linear f \<Longrightarrow> gf2_matrix_square (matrix_of f) = matrix_of (f \<circ> f)"
  using matrix_mul [of f f] by (simp add: gf2_matrix_square_def gf2_matrix_mul_def)

lemma gf2_identity_matrix: "gf2_identity = matrix_of id"
  by (simp add: gf2_identity_def matrix_of_def unit_bit_def)

lemma mul_funpow:
  assumes "linear f"
  shows "(gf2_matrix_mul (matrix_of f) ^^ j) gf2_identity = matrix_of (f ^^ j)"
  by (induction j) (simp_all add: gf2_identity_matrix matrix_mul assms comp_def id_def)

section \<open>Advancing over zeros\<close>

definition advance :: "nat \<Rightarrow> u32 \<Rightarrow> u32" where
  "advance n = crc_bit ^^ n"

lemma linear_advance: "linear (advance n)"
  by (simp add: advance_def linear_funpow linear_crc_bit)

lemma advance_add: "advance (m + n) = advance m \<circ> advance n"
  by (simp add: advance_def funpow_add)

lemma advance_funpow: "advance m ^^ n = advance (m * n)"
  by (simp add: advance_def funpow_mult)

lemma one_zero_bit_matrix: "one_zero_bit = matrix_of crc_bit"
proof -
  have "crc_bit (unit_bit (Suc i)) = push_bit i 1" if "i < 31" for i
    using that by (auto simp: crc_bit_def and_one_bit bit_unit_bit intro!: bit_word_eqI)
      (auto simp: bit_drop_bit_eq bit_unit_bit bit_simps)
  then have "map (\<lambda>i. crc_bit (unit_bit i)) (map Suc [0..<31]) = map (\<lambda>i. push_bit i 1) [0..<31]" by simp
  moreover have "crc_bit (unit_bit 0) = POLY" by (simp add: crc_bit_def unit_bit_def)
  ultimately show ?thesis
    by (simp add: one_zero_bit_def matrix_of_def upt_conv_Cons map_Suc_upt del: upt_Suc)
qed

lemma square_funpow: "(gf2_matrix_square ^^ k) one_zero_bit = matrix_of (advance (2 ^ k))"
proof (induction k)
  case 0
  then show ?case by (simp add: one_zero_bit_matrix advance_def)
next
  case (Suc k)
  then show ?case by (simp add: matrix_square linear_advance advance_add [symmetric] mult_2)
qed

lemma shift_operators_nth: "k < 40 \<Longrightarrow> shift_operators ! k = matrix_of (advance (2 ^ k))"
  by (simp add: shift_operators_def square_funpow)

lemma shift_loop_advance: "n * 2 ^ k < 2 ^ 40 \<Longrightarrow> shift_loop n k c = Some (advance (n * 2 ^ k) c)"
proof (induction n k c rule: shift_loop.induct)
  case (1 n k c)
  show ?case
  proof (cases "n = 0")
    case False
    then have "2 ^ k \<le> n * 2 ^ k" by simp
    with "1.prems" have k: "k < 40" by (meson le_less_trans power_less_imp_less_exp one_less_numeral_iff semiring_norm(76))
    have n: "n * 2 ^ k = n div 2 * 2 ^ Suc k + n mod 2 * 2 ^ k"
      by (metis (no_types, lifting) add.commute distrib_right mod_div_mult_eq mult.assoc power_Suc)
    have less: "n div 2 * 2 ^ Suc k < 2 ^ 40" using n "1.prems" by linarith
    show ?thesis
    proof (cases "odd n")
      case True
      have len: "k < length shift_operators" using k by (simp add: shift_operators_def)
      have "shift_loop n k c = shift_loop (n div 2) (Suc k) (advance (2 ^ k) c)"
        by (subst shift_loop.simps) (simp add: True len \<open>n \<noteq> 0\<close> shift_operators_nth [OF k] matrix_times linear_advance)
      also have "\<dots> = Some (advance (n div 2 * 2 ^ Suc k) (advance (2 ^ k) c))"
        using "1.IH"(1) [OF False True len less] by (simp only: shift_operators_nth [OF k] matrix_times linear_advance)
      also have "n * 2 ^ k = n div 2 * 2 ^ Suc k + 2 ^ k" using n True by (simp only: odd_iff_mod_2_eq_one mult_1)
      ultimately show ?thesis by (simp only: advance_add comp_apply)
    next
      case even: False
      have "shift_loop n k c = shift_loop (n div 2) (Suc k) c" by (subst shift_loop.simps) (simp add: even \<open>n \<noteq> 0\<close>)
      then show ?thesis using "1.IH"(2) [OF False even less] n even by (simp only: even_iff_mod_2_eq_zero not_not mult_0 add_0_right)
    qed
  qed (subst shift_loop.simps, simp add: advance_def)
qed

lemma shift_bits_advance: "unat n < 2 ^ 40 \<Longrightarrow> crc32c_shift_bits c n = Some (advance (unat n) c)"
  using shift_loop_advance [of "unat n" 0 c] by (simp add: crc32c_shift_bits_def)

lemma unat_zero_bits_of: "8 * n < 2 ^ 64 \<Longrightarrow> unat (zero_bits_of n) = 8 * n"
  by (simp add: zero_bits_of_def try_from_nat_def checked_mul_def unat_of_nat unat_word_ariths)

lemma shift_bytes_advance:
  assumes "n < 2 ^ 37"
  shows "crc32c_shift_bytes c n = Some (advance (8 * n) c)"
proof (cases "65536 \<le> n")
  case True
  then show ?thesis using assms by (simp add: crc32c_shift_bytes_def shift_bits_advance unat_zero_bits_of)
next
  case False
  have n: "8 * n = 2048 * (n div 256) + 8 * (n mod 256)" using div_mult_mod_eq [of n 256] by linarith
  have "n div 256 < 256" using False by (simp add: less_mult_imp_div_less)
  with False have "crc32c_shift_bytes c n = Some (advance (2048 * (n div 256)) (advance (8 * (n mod 256)) c))"
    by (simp add: crc32c_shift_bytes_def byte_shift_operators_def shift_operators_nth mul_funpow linear_advance
        advance_funpow matrix_times)
  then show ?thesis unfolding n by (simp add: advance_add)
qed

section \<open>Checksums of bytes\<close>

lemma advance_low_zero: "(\<And>i. i < n \<Longrightarrow> \<not> bit v i) \<Longrightarrow> advance n v = drop_bit n v"
proof (induction n arbitrary: v)
  case (Suc n)
  have "crc_bit v = drop_bit 1 v" using Suc.prems [of 0] by (simp add: crc_bit_def and_one_bit)
  moreover have "advance n (drop_bit 1 v) = drop_bit n (drop_bit 1 v)"
    by (rule Suc.IH) (use Suc.prems in \<open>simp add: bit_drop_bit_eq\<close>)
  ultimately show ?case by (simp add: advance_def funpow_swap1 [symmetric] del: drop_bit_Suc) (simp add: funpow_swap1)
qed (simp add: advance_def)

lemma table_step_crc_byte: "table_step b c = crc_byte b c"
proof -
  let ?x = "c XOR ucast b"
  have mask: "(0xFF :: u32) = mask 8" by (simp add: mask_eq_exp_minus_1)
  have low: "unat (?x AND 0xFF) < 256"
    using word_and_le1 [of ?x "0xFF"] by (simp add: word_le_nat_alt and.commute)
  have "advance 8 ?x = advance 8 (?x AND 0xFF) XOR advance 8 (?x AND NOT 0xFF)"
    by (subst linearD [OF linear_advance, symmetric], rule arg_cong [where f = "advance 8"], rule bit_word_eqI) (auto simp: bit_simps)
  also have "advance 8 (?x AND NOT 0xFF) = drop_bit 8 (?x AND NOT 0xFF)"
    unfolding mask by (rule advance_low_zero) (auto simp: bit_simps)
  also have "\<dots> = drop_bit 8 c" unfolding mask by (rule bit_word_eqI) (auto simp: bit_simps dest: bit_imp_le_length)
  also have "advance 8 (?x AND 0xFF) = crc32c_byte_table ! unat (?x AND 0xFF)"
    using low by (simp add: crc32c_byte_table_def advance_def)
  finally show ?thesis by (simp add: table_step_def crc_byte_bits advance_def)
qed

lemma crc_byte_xor: "crc_byte (x XOR y) (a XOR b) = crc_byte x a XOR crc_byte y b"
proof -
  have "(a XOR b) XOR ucast (x XOR y) = (a XOR ucast x) XOR (b XOR ucast y)"
    by (rule bit_word_eqI) (auto simp: bit_simps)
  then show ?thesis by (simp add: crc_byte_bits linearD [OF linear_advance, unfolded advance_def])
qed

abbreviation xor_bytes :: "bytes \<Rightarrow> bytes \<Rightarrow> bytes" where
  "xor_bytes \<equiv> map2 (XOR)"

lemma fold_crc_xor:
  "length xs = length ys \<Longrightarrow> fold crc_byte (xor_bytes xs ys) (a XOR b) = fold crc_byte xs a XOR fold crc_byte ys b"
  by (induction xs ys arbitrary: a b rule: list_induct2) (simp_all add: crc_byte_xor)

lemma crc_zeros: "crc_byte 0 ^^ n = advance (8 * n)"
proof -
  have "crc_byte 0 = advance 8" by (rule ext) (simp add: crc_byte_bits advance_def)
  then show ?thesis by (simp add: advance_funpow)
qed

lemma xor_bytes_zeros: "xor_bytes xs (replicate (length xs) 0) = xs"
  by (induction xs) auto

lemma xor_bytes_self: "xor_bytes xs xs = replicate (length xs) 0"
  by (induction xs) auto

lemma fold_crc_start: "fold crc_byte xs c = fold crc_byte xs 0 XOR advance (8 * length xs) c"
  using fold_crc_xor [of xs "replicate (length xs) 0" 0 c] by (simp add: xor_bytes_zeros crc_zeros)

lemma raw_crc:
  assumes "crc32c_crate app" "length xs < 2 ^ 37"
  shows "raw_crc32c app xs = Some (fold crc_byte xs 0)"
proof (cases "length xs \<le> HW_RAW_CRC_MIN_LEN")
  case True
  have "table_step = crc_byte" by (intro ext table_step_crc_byte)
  with True show ?thesis by (simp add: raw_crc32c_def)
next
  case False
  have ones: "(0xFFFFFFFF :: u32) = - 1" by simp
  have "app 0 xs = fold crc_byte xs 0 XOR advance (8 * length xs) (- 1) XOR - 1"
    using assms(1) fold_crc_start [of xs "- 1"] by (simp add: crc32c_crate_def)
  then show ?thesis using False assms(2)
    by (simp add: raw_crc32c_def shift_bits_advance unat_zero_bits_of ones xor.assoc)
qed

lemma update_region:
  assumes "crc32c_crate app" "length delta < 2 ^ 37" "n < 2 ^ 37"
  shows "crc32c_update_region app c delta n = Some (c XOR advance (8 * n) (fold crc_byte delta 0))"
  using assms by (simp add: crc32c_update_region_def raw_crc shift_bytes_advance)

text \<open>The change of a register over a changed region.\<close>

lemma fold_crc_change:
  assumes "length old = length new"
  shows "fold crc_byte (pre @ new @ post) c
    = fold crc_byte (pre @ old @ post) c XOR advance (8 * length post) (fold crc_byte (xor_bytes old new) 0)"
proof -
  let ?d = "xor_bytes (replicate (length pre) 0 @ xor_bytes old new @ replicate (length post) 0) (pre @ old @ post)"
  have "xor_bytes (xor_bytes old new) old = new"
    using assms by (induction old new rule: list_induct2) (auto simp: xor.commute xor.left_commute)
  moreover have "xor_bytes (replicate (length xs) 0) xs = xs" for xs :: bytes by (induction xs) auto
  ultimately have "?d = pre @ new @ post" using assms by (simp add: zip_append)
  then show ?thesis
    using fold_crc_xor [of "replicate (length pre) 0 @ xor_bytes old new @ replicate (length post) 0" "pre @ old @ post" 0 c] assms
    by (simp add: crc_zeros linear_0 [OF linear_advance] xor.commute)
qed

end
