(* ===== verification/Ext4_Checksum.thy ===== *)
theory Ext4_Checksum
  imports Crc_Incremental Ffs_Types
begin

text \<open>
  Checksums of ext4 metadata (\<open>ffs-ondisk/src/ext4.rs\<close>): bitmaps, group descriptors, inodes,
  directory blocks, hash-tree index blocks, extent blocks and extended-attribute blocks, each
  with its computation, its stamping into the structure and its verification, and the
  incremental updates. A panic is \<open>None\<close>; the outer option of a function that itself returns an
  option is the panic. The checksum of the \<open>crc32c\<close> crate is the parameter \<open>app\<close>.
\<close>

section \<open>The checksum of a buffer\<close>

definition ext4_chksum :: "(u32 \<Rightarrow> bytes \<Rightarrow> u32) \<Rightarrow> u32 \<Rightarrow> bytes \<Rightarrow> u32" where
  "ext4_chksum app raw_crc data = NOT (app (NOT raw_crc) data)"

text \<open>The per-inode seed, which each function below computes first.\<close>

definition inode_seed :: "(u32 \<Rightarrow> bytes \<Rightarrow> u32) \<Rightarrow> u32 \<Rightarrow> u32 \<Rightarrow> u32 \<Rightarrow> u32" where
  "inode_seed app csum_seed ino generation =
     ext4_chksum app (ext4_chksum app csum_seed (u32_to_le ino)) (u32_to_le generation)"

fun zero_blocks_end :: "bytes \<Rightarrow> nat \<Rightarrow> nat" where
  "zero_blocks_end buf n =
     (if 32 \<le> n
      then let word = (\<lambda>at. from_le (segment buf (n - 32 + at) (n - 32 + at + 8)) :: u64)
           in if (word 0 OR word 8 OR word 16 OR word 24) \<noteq> 0 then n else zero_blocks_end buf (n - 32)
      else n)"

declare zero_blocks_end.simps [simp del]

fun zero_bytes_end :: "bytes \<Rightarrow> nat \<Rightarrow> nat" where
  "zero_bytes_end buf 0 = 0"
| "zero_bytes_end buf (Suc n) = (if buf ! n = 0 then zero_bytes_end buf n else Suc n)"

definition last_nonzero_len :: "bytes \<Rightarrow> usize" where
  "last_nonzero_len buf = zero_bytes_end buf (zero_blocks_end buf (length buf))"

definition ext4_chksum_skip_zero_tail :: "(u32 \<Rightarrow> bytes \<Rightarrow> u32) \<Rightarrow> u32 \<Rightarrow> bytes \<Rightarrow> u32 option" where
  "ext4_chksum_skip_zero_tail app seed data =
     (let content_end = last_nonzero_len data; zero_run = length data - content_end
      in if 256 \<le> zero_run then crc32c_shift_bytes (ext4_chksum app seed (take content_end data)) zero_run
         else Some (ext4_chksum app seed data))"

section \<open>Bitmaps\<close>

definition ext4_bitmap_checksum :: "(u32 \<Rightarrow> bytes \<Rightarrow> u32) \<Rightarrow> bytes \<Rightarrow> u32 \<Rightarrow> usize \<Rightarrow> u32 option" where
  "ext4_bitmap_checksum app raw_bitmap csum_seed checksum_len =
     ext4_chksum_skip_zero_tail app csum_seed (take (min checksum_len (length raw_bitmap)) raw_bitmap)"

definition block_bitmap_checksum_value ::
  "(u32 \<Rightarrow> bytes \<Rightarrow> u32) \<Rightarrow> bytes \<Rightarrow> u32 \<Rightarrow> u32 \<Rightarrow> u16 \<Rightarrow> u32 option" where
  "block_bitmap_checksum_value app raw_bitmap csum_seed clusters_per_group desc_size =
     map_option (\<lambda>csum. if 64 \<le> desc_size then csum else csum AND 0xFFFF)
       (ext4_bitmap_checksum app raw_bitmap csum_seed (unat (clusters_per_group div 8)))"

definition inode_bitmap_checksum_value ::
  "(u32 \<Rightarrow> bytes \<Rightarrow> u32) \<Rightarrow> bytes \<Rightarrow> u32 \<Rightarrow> u32 \<Rightarrow> u16 \<Rightarrow> u32 option" where
  "inode_bitmap_checksum_value app raw_bitmap csum_seed inodes_per_group desc_size =
     map_option (\<lambda>csum. if 64 \<le> desc_size then csum else csum AND 0xFFFF)
       (ext4_bitmap_checksum app raw_bitmap csum_seed (unat (inodes_per_group div 8)))"

text \<open>The bits \<open>[from, from + count)\<close> set, one after the other, in a buffer of zeros.\<close>

definition flipped_bits :: "usize \<Rightarrow> nat \<Rightarrow> nat \<Rightarrow> bytes" where
  "flipped_bits span local_start count_bits =
     fold (\<lambda>b delta. delta[b div 8 := delta ! (b div 8) OR push_bit (b mod 8) 1])
       [local_start..<local_start + count_bits] (replicate span 0)"

definition bitmap_checksum_incremental ::
  "(u32 \<Rightarrow> bytes \<Rightarrow> u32) \<Rightarrow> u32 \<Rightarrow> u32 \<Rightarrow> u32 \<Rightarrow> u32 \<Rightarrow> u16 \<Rightarrow> u32 option option" where
  "bitmap_checksum_incremental app old_csum start_bit count_bits units_per_group desc_size =
     (if desc_size < 64 \<or> count_bits = 0 then Some None
      else let checksum_len = unat (units_per_group div 8)
           in case checked_add start_bit count_bits of
                None \<Rightarrow> Some None
              | Some end_bit \<Rightarrow>
                  let byte_start = unat (start_bit div 8); byte_end = (unat end_bit + 7) div 8
                  in if checksum_len < byte_end then Some None
                     else let span = byte_end - byte_start
                          in if checksum_len div 32 < span then Some None
                             else map_option Some (crc32c_update_region app old_csum
                                    (flipped_bits span (unat start_bit - byte_start * 8) (unat count_bits))
                                    (checksum_len - byte_end)))"

section \<open>Group descriptors\<close>

record ext4_group_desc =
  gd_block_bitmap :: u64
  gd_inode_bitmap :: u64
  gd_inode_table :: u64
  gd_free_blocks_count :: u32
  gd_free_inodes_count :: u32
  gd_used_dirs_count :: u32
  gd_itable_unused :: u32
  gd_flags :: u16
  gd_checksum :: u16
  gd_block_bitmap_csum :: u32
  gd_inode_bitmap_csum :: u32

definition verify_block_bitmap_checksum ::
  "(u32 \<Rightarrow> bytes \<Rightarrow> u32) \<Rightarrow> bytes \<Rightarrow> u32 \<Rightarrow> u32 \<Rightarrow> ext4_group_desc \<Rightarrow> u16 \<Rightarrow> (parse_error + unit) option" where
  "verify_block_bitmap_checksum app raw_bitmap csum_seed clusters_per_group gd desc_size =
     map_option (\<lambda>expected. if expected \<noteq> gd_block_bitmap_csum gd
                 then Inl (InvalidField ''bg_block_bitmap_csum'' ''block bitmap CRC32C mismatch'') else Inr ())
       (block_bitmap_checksum_value app raw_bitmap csum_seed clusters_per_group desc_size)"

definition verify_inode_bitmap_checksum ::
  "(u32 \<Rightarrow> bytes \<Rightarrow> u32) \<Rightarrow> bytes \<Rightarrow> u32 \<Rightarrow> u32 \<Rightarrow> ext4_group_desc \<Rightarrow> u16 \<Rightarrow> (parse_error + unit) option" where
  "verify_inode_bitmap_checksum app raw_bitmap csum_seed inodes_per_group gd desc_size =
     map_option (\<lambda>expected. if expected \<noteq> gd_inode_bitmap_csum gd
                 then Inl (InvalidField ''bg_inode_bitmap_csum'' ''inode bitmap CRC32C mismatch'') else Inr ())
       (inode_bitmap_checksum_value app raw_bitmap csum_seed inodes_per_group desc_size)"

definition stamp_block_bitmap_checksum ::
  "(u32 \<Rightarrow> bytes \<Rightarrow> u32) \<Rightarrow> bytes \<Rightarrow> u32 \<Rightarrow> u32 \<Rightarrow> ext4_group_desc \<Rightarrow> u16 \<Rightarrow> ext4_group_desc option" where
  "stamp_block_bitmap_checksum app raw_bitmap csum_seed clusters_per_group gd desc_size =
     map_option (\<lambda>csum. gd\<lparr>gd_block_bitmap_csum := csum\<rparr>)
       (block_bitmap_checksum_value app raw_bitmap csum_seed clusters_per_group desc_size)"

definition stamp_inode_bitmap_checksum ::
  "(u32 \<Rightarrow> bytes \<Rightarrow> u32) \<Rightarrow> bytes \<Rightarrow> u32 \<Rightarrow> u32 \<Rightarrow> ext4_group_desc \<Rightarrow> u16 \<Rightarrow> ext4_group_desc option" where
  "stamp_inode_bitmap_checksum app raw_bitmap csum_seed inodes_per_group gd desc_size =
     map_option (\<lambda>csum. gd\<lparr>gd_inode_bitmap_csum := csum\<rparr>)
       (inode_bitmap_checksum_value app raw_bitmap csum_seed inodes_per_group desc_size)"

definition parse_bind :: "parse_error + 'a \<Rightarrow> ('a \<Rightarrow> parse_error + 'b) \<Rightarrow> parse_error + 'b" where
  "parse_bind r k = (case r of Inl e \<Rightarrow> Inl e | Inr x \<Rightarrow> k x)"

definition parse_group_desc_hi :: "bytes \<Rightarrow> ext4_group_desc \<Rightarrow> parse_error + ext4_group_desc" where
  "parse_group_desc_hi bs lo =
     parse_bind (read_le_u32 bs 0x20) (\<lambda>block_bitmap_hi.
     parse_bind (read_le_u32 bs 0x24) (\<lambda>inode_bitmap_hi.
     parse_bind (read_le_u32 bs 0x28) (\<lambda>inode_table_hi.
     parse_bind (read_le_u16 bs 0x2C) (\<lambda>free_blocks_hi.
     parse_bind (read_le_u16 bs 0x2E) (\<lambda>free_inodes_hi.
     parse_bind (read_le_u16 bs 0x30) (\<lambda>used_dirs_hi.
     parse_bind (read_le_u16 bs 0x32) (\<lambda>itable_unused_hi.
     parse_bind (read_le_u16 bs 0x38) (\<lambda>block_bitmap_csum_hi.
     parse_bind (read_le_u16 bs 0x3A) (\<lambda>inode_bitmap_csum_hi.
       Inr \<lparr>gd_block_bitmap = gd_block_bitmap lo OR push_bit 32 (ucast block_bitmap_hi),
            gd_inode_bitmap = gd_inode_bitmap lo OR push_bit 32 (ucast inode_bitmap_hi),
            gd_inode_table = gd_inode_table lo OR push_bit 32 (ucast inode_table_hi),
            gd_free_blocks_count = gd_free_blocks_count lo OR push_bit 16 (ucast free_blocks_hi),
            gd_free_inodes_count = gd_free_inodes_count lo OR push_bit 16 (ucast free_inodes_hi),
            gd_used_dirs_count = gd_used_dirs_count lo OR push_bit 16 (ucast used_dirs_hi),
            gd_itable_unused = gd_itable_unused lo OR push_bit 16 (ucast itable_unused_hi),
            gd_flags = gd_flags lo, gd_checksum = gd_checksum lo,
            gd_block_bitmap_csum = gd_block_bitmap_csum lo OR push_bit 16 (ucast block_bitmap_csum_hi),
            gd_inode_bitmap_csum = gd_inode_bitmap_csum lo OR push_bit 16 (ucast inode_bitmap_csum_hi)\<rparr>)))))))))"

definition parse_group_desc :: "bytes \<Rightarrow> u16 \<Rightarrow> parse_error + ext4_group_desc" where
  "parse_group_desc bs desc_size =
     (if desc_size < 32 then Inl (InvalidField ''s_desc_size'' ''descriptor size must be >= 32'')
      else if length bs < unat desc_size then Inl (InsufficientData (unat desc_size) 0 (length bs))
      else
        parse_bind (read_le_u32 bs 0x00) (\<lambda>block_bitmap_lo.
        parse_bind (read_le_u32 bs 0x04) (\<lambda>inode_bitmap_lo.
        parse_bind (read_le_u32 bs 0x08) (\<lambda>inode_table_lo.
        parse_bind (read_le_u16 bs 0x0C) (\<lambda>free_blocks_lo.
        parse_bind (read_le_u16 bs 0x0E) (\<lambda>free_inodes_lo.
        parse_bind (read_le_u16 bs 0x10) (\<lambda>used_dirs_lo.
        parse_bind (read_le_u16 bs 0x12) (\<lambda>flags.
        parse_bind (read_le_u16 bs 0x18) (\<lambda>block_bitmap_csum_lo.
        parse_bind (read_le_u16 bs 0x1A) (\<lambda>inode_bitmap_csum_lo.
        parse_bind (read_le_u16 bs 0x1C) (\<lambda>itable_unused_lo.
        parse_bind (read_le_u16 bs 0x1E) (\<lambda>checksum.
          let lo = \<lparr>gd_block_bitmap = ucast block_bitmap_lo, gd_inode_bitmap = ucast inode_bitmap_lo,
                    gd_inode_table = ucast inode_table_lo, gd_free_blocks_count = ucast free_blocks_lo,
                    gd_free_inodes_count = ucast free_inodes_lo, gd_used_dirs_count = ucast used_dirs_lo,
                    gd_itable_unused = ucast itable_unused_lo, gd_flags = flags, gd_checksum = checksum,
                    gd_block_bitmap_csum = ucast block_bitmap_csum_lo, gd_inode_bitmap_csum = ucast inode_bitmap_csum_lo\<rparr>
          in if 64 \<le> desc_size then parse_group_desc_hi bs lo else Inr lo))))))))))))"

text \<open>Writes of consecutive fields; a field outside the buffer is a panic.\<close>

fun put_fields :: "bytes \<Rightarrow> (usize \<times> bytes) list \<Rightarrow> bytes option" where
  "put_fields buf [] = Some buf"
| "put_fields buf ((off, bs) # rest) =
     (if off + length bs \<le> length buf then put_fields (blit buf off bs) rest else None)"

definition group_desc_low :: "ext4_group_desc \<Rightarrow> (usize \<times> bytes) list" where
  "group_desc_low gd =
     [(0x00, u32_to_le (ucast (gd_block_bitmap gd))), (0x04, u32_to_le (ucast (gd_inode_bitmap gd))),
      (0x08, u32_to_le (ucast (gd_inode_table gd))), (0x0C, u16_to_le (ucast (gd_free_blocks_count gd))),
      (0x0E, u16_to_le (ucast (gd_free_inodes_count gd))), (0x10, u16_to_le (ucast (gd_used_dirs_count gd))),
      (0x12, u16_to_le (gd_flags gd)), (0x18, u16_to_le (ucast (gd_block_bitmap_csum gd))),
      (0x1A, u16_to_le (ucast (gd_inode_bitmap_csum gd))), (0x1C, u16_to_le (ucast (gd_itable_unused gd))),
      (0x1E, u16_to_le (gd_checksum gd))]"

definition group_desc_high :: "ext4_group_desc \<Rightarrow> (usize \<times> bytes) list" where
  "group_desc_high gd =
     [(0x20, u32_to_le (ucast (drop_bit 32 (gd_block_bitmap gd)))), (0x24, u32_to_le (ucast (drop_bit 32 (gd_inode_bitmap gd)))),
      (0x28, u32_to_le (ucast (drop_bit 32 (gd_inode_table gd)))), (0x2C, u16_to_le (ucast (drop_bit 16 (gd_free_blocks_count gd)))),
      (0x2E, u16_to_le (ucast (drop_bit 16 (gd_free_inodes_count gd)))), (0x30, u16_to_le (ucast (drop_bit 16 (gd_used_dirs_count gd)))),
      (0x32, u16_to_le (ucast (drop_bit 16 (gd_itable_unused gd)))), (0x38, u16_to_le (ucast (drop_bit 16 (gd_block_bitmap_csum gd)))),
      (0x3A, u16_to_le (ucast (drop_bit 16 (gd_inode_bitmap_csum gd))))]"

definition write_group_desc :: "ext4_group_desc \<Rightarrow> bytes \<Rightarrow> u16 \<Rightarrow> (parse_error + bytes) option" where
  "write_group_desc gd buf desc_size =
     (if length buf < unat desc_size then Some (Inl (InsufficientData (unat desc_size) 0 (length buf)))
      else map_option Inr (put_fields buf (group_desc_low gd @ (if 64 \<le> desc_size then group_desc_high gd else []))))"

datatype ext4_group_desc_checksum_kind = NoCsum | MetadataCsum | GdtCsum

definition GD_CHECKSUM_OFFSET :: usize where
  "GD_CHECKSUM_OFFSET = 0x1E"

definition EXT4_GDT_CRC16_TABLE :: "u16 list" where
  "EXT4_GDT_CRC16_TABLE =
     [0x0000, 0xC0C1, 0xC181, 0x0140, 0xC301, 0x03C0, 0x0280, 0xC241, 0xC601, 0x06C0, 0x0780, 0xC741,
      0x0500, 0xC5C1, 0xC481, 0x0440, 0xCC01, 0x0CC0, 0x0D80, 0xCD41, 0x0F00, 0xCFC1, 0xCE81, 0x0E40,
      0x0A00, 0xCAC1, 0xCB81, 0x0B40, 0xC901, 0x09C0, 0x0880, 0xC841, 0xD801, 0x18C0, 0x1980, 0xD941,
      0x1B00, 0xDBC1, 0xDA81, 0x1A40, 0x1E00, 0xDEC1, 0xDF81, 0x1F40, 0xDD01, 0x1DC0, 0x1C80, 0xDC41,
      0x1400, 0xD4C1, 0xD581, 0x1540, 0xD701, 0x17C0, 0x1680, 0xD641, 0xD201, 0x12C0, 0x1380, 0xD341,
      0x1100, 0xD1C1, 0xD081, 0x1040, 0xF001, 0x30C0, 0x3180, 0xF141, 0x3300, 0xF3C1, 0xF281, 0x3240,
      0x3600, 0xF6C1, 0xF781, 0x3740, 0xF501, 0x35C0, 0x3480, 0xF441, 0x3C00, 0xFCC1, 0xFD81, 0x3D40,
      0xFF01, 0x3FC0, 0x3E80, 0xFE41, 0xFA01, 0x3AC0, 0x3B80, 0xFB41, 0x3900, 0xF9C1, 0xF881, 0x3840,
      0x2800, 0xE8C1, 0xE981, 0x2940, 0xEB01, 0x2BC0, 0x2A80, 0xEA41, 0xEE01, 0x2EC0, 0x2F80, 0xEF41,
      0x2D00, 0xEDC1, 0xEC81, 0x2C40, 0xE401, 0x24C0, 0x2580, 0xE541, 0x2700, 0xE7C1, 0xE681, 0x2640,
      0x2200, 0xE2C1, 0xE381, 0x2340, 0xE101, 0x21C0, 0x2080, 0xE041, 0xA001, 0x60C0, 0x6180, 0xA141,
      0x6300, 0xA3C1, 0xA281, 0x6240, 0x6600, 0xA6C1, 0xA781, 0x6740, 0xA501, 0x65C0, 0x6480, 0xA441,
      0x6C00, 0xACC1, 0xAD81, 0x6D40, 0xAF01, 0x6FC0, 0x6E80, 0xAE41, 0xAA01, 0x6AC0, 0x6B80, 0xAB41,
      0x6900, 0xA9C1, 0xA881, 0x6840, 0x7800, 0xB8C1, 0xB981, 0x7940, 0xBB01, 0x7BC0, 0x7A80, 0xBA41,
      0xBE01, 0x7EC0, 0x7F80, 0xBF41, 0x7D00, 0xBDC1, 0xBC81, 0x7C40, 0xB401, 0x74C0, 0x7580, 0xB541,
      0x7700, 0xB7C1, 0xB681, 0x7640, 0x7200, 0xB2C1, 0xB381, 0x7340, 0xB101, 0x71C0, 0x7080, 0xB041,
      0x5000, 0x90C1, 0x9181, 0x5140, 0x9301, 0x53C0, 0x5280, 0x9241, 0x9601, 0x56C0, 0x5780, 0x9741,
      0x5500, 0x95C1, 0x9481, 0x5440, 0x9C01, 0x5CC0, 0x5D80, 0x9D41, 0x5F00, 0x9FC1, 0x9E81, 0x5E40,
      0x5A00, 0x9AC1, 0x9B81, 0x5B40, 0x9901, 0x59C0, 0x5880, 0x9841, 0x8801, 0x48C0, 0x4980, 0x8941,
      0x4B00, 0x8BC1, 0x8A81, 0x4A40, 0x4E00, 0x8EC1, 0x8F81, 0x4F40, 0x8D01, 0x4DC0, 0x4C80, 0x8C41,
      0x4400, 0x84C1, 0x8581, 0x4540, 0x8701, 0x47C0, 0x4680, 0x8641, 0x8201, 0x42C0, 0x4380, 0x8341,
      0x4100, 0x81C1, 0x8081, 0x4040]"

definition ext4_gdt_crc16 :: "u16 \<Rightarrow> bytes \<Rightarrow> u16" where
  "ext4_gdt_crc16 crc buffer =
     fold (\<lambda>byte crc. drop_bit 8 crc XOR EXT4_GDT_CRC16_TABLE ! unat ((crc XOR ucast byte) AND 0x00FF)) buffer crc"

definition group_desc_checksum_value ::
  "(u32 \<Rightarrow> bytes \<Rightarrow> u32) \<Rightarrow> bytes \<Rightarrow> bytes \<Rightarrow> u32 \<Rightarrow> u32 \<Rightarrow> u16 \<Rightarrow> ext4_group_desc_checksum_kind \<Rightarrow> (parse_error + u16) option"
where
  "group_desc_checksum_value app raw_gd uuid csum_seed group_number desc_size kind =
     (let ds = unat desc_size; after_csum = GD_CHECKSUM_OFFSET + 2; le_group = u32_to_le group_number
      in if length raw_gd < ds then Some (Inl (InsufficientData ds 0 (length raw_gd)))
         else case kind of
           NoCsum \<Rightarrow> Some (Inr 0)
         | MetadataCsum \<Rightarrow>
             if length raw_gd < GD_CHECKSUM_OFFSET then None
             else let csum = ext4_chksum app (ext4_chksum app (ext4_chksum app csum_seed le_group)
                               (take GD_CHECKSUM_OFFSET raw_gd)) [0, 0];
                      csum = (if after_csum < ds then ext4_chksum app csum (segment raw_gd after_csum ds) else csum)
                  in Some (Inr (ucast (csum AND 0xFFFF)))
         | GdtCsum \<Rightarrow>
             if length raw_gd < GD_CHECKSUM_OFFSET then None
             else let crc = ext4_gdt_crc16 (ext4_gdt_crc16 (ext4_gdt_crc16 (NOT 0) uuid) le_group)
                              (take GD_CHECKSUM_OFFSET raw_gd)
                  in Some (Inr (if after_csum < ds then ext4_gdt_crc16 crc (segment raw_gd after_csum ds) else crc)))"

definition verify_group_desc_checksum ::
  "(u32 \<Rightarrow> bytes \<Rightarrow> u32) \<Rightarrow> bytes \<Rightarrow> bytes \<Rightarrow> u32 \<Rightarrow> u32 \<Rightarrow> u16 \<Rightarrow> ext4_group_desc_checksum_kind \<Rightarrow> (parse_error + unit) option"
where
  "verify_group_desc_checksum app raw_gd uuid csum_seed group_number desc_size kind =
     (if kind = NoCsum then Some (Inr ())
      else case group_desc_checksum_value app raw_gd uuid csum_seed group_number desc_size kind of
        None \<Rightarrow> None
      | Some r \<Rightarrow>
          Some (parse_bind r (\<lambda>expected.
                parse_bind (read_le_u16 raw_gd GD_CHECKSUM_OFFSET) (\<lambda>stored.
                if expected \<noteq> stored then Inl (InvalidField ''bg_checksum'' ''group descriptor checksum mismatch'')
                else Inr ()))))"

definition stamp_group_desc_checksum ::
  "(u32 \<Rightarrow> bytes \<Rightarrow> u32) \<Rightarrow> bytes \<Rightarrow> bytes \<Rightarrow> u32 \<Rightarrow> u32 \<Rightarrow> u16 \<Rightarrow> ext4_group_desc_checksum_kind \<Rightarrow> bytes option" where
  "stamp_group_desc_checksum app raw_gd uuid csum_seed group_number desc_size kind =
     (if kind = NoCsum \<or> length raw_gd < unat desc_size \<or> unat desc_size < GD_CHECKSUM_OFFSET + 2 then Some raw_gd
      else case group_desc_checksum_value app raw_gd uuid csum_seed group_number desc_size kind of
        None \<Rightarrow> None
      | Some (Inl _) \<Rightarrow> Some raw_gd
      | Some (Inr csum) \<Rightarrow> write_le_u16 raw_gd GD_CHECKSUM_OFFSET csum)"

section \<open>Inodes\<close>

definition INODE_CHECKSUM_LO_OFFSET :: usize where
  "INODE_CHECKSUM_LO_OFFSET = 0x7C"

definition INODE_CHECKSUM_HI_OFFSET :: usize where
  "INODE_CHECKSUM_HI_OFFSET = 0x82"

definition extended_inode_checksum ::
  "(u32 \<Rightarrow> bytes \<Rightarrow> u32) \<Rightarrow> bytes \<Rightarrow> usize \<Rightarrow> u32 \<Rightarrow> parse_error + u32" where
  "extended_inode_checksum app raw_inode is csum =
     (let hi_bound = min INODE_CHECKSUM_HI_OFFSET is;
          csum = ext4_chksum app csum (segment raw_inode 128 hi_bound)
      in if INODE_CHECKSUM_HI_OFFSET + 2 \<le> is
         then parse_bind (read_le_u16 raw_inode 0x80) (\<lambda>extra_isize.
                if INODE_CHECKSUM_HI_OFFSET + 2 \<le> 128 + unat extra_isize
                then let csum = ext4_chksum app csum [0, 0]; after_csum_hi = INODE_CHECKSUM_HI_OFFSET + 2
                     in Inr (if after_csum_hi < is then ext4_chksum app csum (segment raw_inode after_csum_hi is) else csum)
                else Inr (ext4_chksum app csum (segment raw_inode INODE_CHECKSUM_HI_OFFSET is)))
         else if hi_bound < is then Inr (ext4_chksum app csum (segment raw_inode hi_bound is))
         else Inr csum)"

definition compute_inode_checksum ::
  "(u32 \<Rightarrow> bytes \<Rightarrow> u32) \<Rightarrow> bytes \<Rightarrow> u32 \<Rightarrow> u32 \<Rightarrow> u16 \<Rightarrow> parse_error + u32" where
  "compute_inode_checksum app raw_inode csum_seed ino inode_size =
     (let is = unat inode_size
      in if length raw_inode < is \<or> is < 128 then Inl (InsufficientData (max is 128) 0 (length raw_inode))
         else parse_bind (read_le_u32 raw_inode 0x64) (\<lambda>generation.
           let csum = ext4_chksum app (inode_seed app csum_seed ino generation)
                        (take INODE_CHECKSUM_LO_OFFSET raw_inode);
               csum = ext4_chksum app csum [0, 0];
               csum = ext4_chksum app csum (segment raw_inode (INODE_CHECKSUM_LO_OFFSET + 2) 128)
           in if 128 < is then extended_inode_checksum app raw_inode is csum else Inr csum))"

definition inode_has_checksum_hi :: "bytes \<Rightarrow> u16 \<Rightarrow> parse_error + bool" where
  "inode_has_checksum_hi raw_inode inode_size =
     (if unat inode_size < INODE_CHECKSUM_HI_OFFSET + 2 then Inr False
      else parse_bind (read_le_u16 raw_inode 0x80) (\<lambda>extra. Inr (INODE_CHECKSUM_HI_OFFSET + 2 \<le> 128 + unat extra)))"

definition stamp_inode_checksum ::
  "(u32 \<Rightarrow> bytes \<Rightarrow> u32) \<Rightarrow> bytes \<Rightarrow> u32 \<Rightarrow> u32 \<Rightarrow> u16 \<Rightarrow> parse_error + bytes" where
  "stamp_inode_checksum app raw_inode csum_seed ino inode_size =
     parse_bind (compute_inode_checksum app raw_inode csum_seed ino inode_size) (\<lambda>csum.
       let raw = blit raw_inode INODE_CHECKSUM_LO_OFFSET (u16_to_le (ucast csum))
       in parse_bind (inode_has_checksum_hi raw inode_size) (\<lambda>hi.
            Inr (if hi then blit raw INODE_CHECKSUM_HI_OFFSET (u16_to_le (ucast (drop_bit 16 csum))) else raw)))"

definition verify_inode_checksum ::
  "(u32 \<Rightarrow> bytes \<Rightarrow> u32) \<Rightarrow> bytes \<Rightarrow> u32 \<Rightarrow> u32 \<Rightarrow> u16 \<Rightarrow> parse_error + unit" where
  "verify_inode_checksum app raw_inode csum_seed ino inode_size =
     parse_bind (compute_inode_checksum app raw_inode csum_seed ino inode_size) (\<lambda>csum.
     parse_bind (read_le_u16 raw_inode INODE_CHECKSUM_LO_OFFSET) (\<lambda>lo.
     parse_bind (inode_has_checksum_hi raw_inode inode_size) (\<lambda>hi.
     parse_bind (if hi then parse_bind (read_le_u16 raw_inode INODE_CHECKSUM_HI_OFFSET)
                              (\<lambda>stored_hi. Inr (ucast lo OR push_bit 16 (ucast stored_hi), csum))
                 else Inr (ucast lo, csum AND 0xFFFF)) (\<lambda>(stored, calculated).
       if calculated \<noteq> stored then Inl (InvalidField ''i_checksum'' ''inode CRC32C mismatch'') else Inr ()))))"

section \<open>Directory blocks\<close>

definition EXT4_FT_DIR_CSUM_TAIL :: u8 where
  "EXT4_FT_DIR_CSUM_TAIL = 0xDE"

definition verify_dir_block_checksum ::
  "(u32 \<Rightarrow> bytes \<Rightarrow> u32) \<Rightarrow> bytes \<Rightarrow> u32 \<Rightarrow> u32 \<Rightarrow> u32 \<Rightarrow> parse_error + unit" where
  "verify_dir_block_checksum app dir_block csum_seed ino generation =
     (let bs = length dir_block; tail_off = bs - 12
      in if bs < 12 then Inl (InsufficientData 12 0 bs)
         else
           parse_bind (read_le_u32 dir_block tail_off) (\<lambda>tail_inode.
           parse_bind (read_le_u16 dir_block (tail_off + 4)) (\<lambda>tail_rec_len.
           if tail_inode \<noteq> 0 \<or> tail_rec_len \<noteq> 12 \<or> dir_block ! (tail_off + 6) \<noteq> 0
              \<or> dir_block ! (tail_off + 7) \<noteq> EXT4_FT_DIR_CSUM_TAIL
           then Inl (InvalidField ''dir_block_tail'' ''missing or malformed checksum tail'')
           else
             parse_bind (read_le_u32 dir_block (bs - 4)) (\<lambda>stored.
             if ext4_chksum app (inode_seed app csum_seed ino generation) (take tail_off dir_block) \<noteq> stored
             then Inl (InvalidField ''dir_checksum'' ''directory block CRC32C mismatch'')
             else Inr ()))))"

definition stamp_dir_block_checksum ::
  "(u32 \<Rightarrow> bytes \<Rightarrow> u32) \<Rightarrow> bytes \<Rightarrow> u32 \<Rightarrow> u32 \<Rightarrow> u32 \<Rightarrow> bytes option" where
  "stamp_dir_block_checksum app dir_block csum_seed ino generation =
     (let bs = length dir_block
      in if bs < 12 then Some dir_block
         else map_option (\<lambda>computed. blit dir_block (bs - 4) (u32_to_le computed))
                (ext4_chksum_skip_zero_tail app (inode_seed app csum_seed ino generation) (take (bs - 12) dir_block)))"

definition stamp_dir_block_checksum_incremental ::
  "(u32 \<Rightarrow> bytes \<Rightarrow> u32) \<Rightarrow> bytes \<Rightarrow> usize \<Rightarrow> bytes \<Rightarrow> (bool \<times> bytes) option" where
  "stamp_dir_block_checksum_incremental app dir_block region_start delta =
     (let bs = length dir_block; coverage_end = bs - 12
      in if bs < 12 then Some (False, dir_block)
         else case checked_add_usize region_start (length delta) of
           None \<Rightarrow> Some (False, dir_block)
         | Some region_end \<Rightarrow>
             if coverage_end < region_end then Some (False, dir_block)
             else map_option (\<lambda>new_tail. (True, blit dir_block (bs - 4) (u32_to_le new_tail)))
                    (crc32c_update_region app (from_le (segment dir_block (bs - 4) bs)) delta (coverage_end - region_end)))"

section \<open>Hash-tree index blocks\<close>

definition DX_ROOT_COUNT_OFFSET :: usize where
  "DX_ROOT_COUNT_OFFSET = 0x20"

definition DX_NODE_COUNT_OFFSET :: usize where
  "DX_NODE_COUNT_OFFSET = 0x08"

text \<open>Two bytes fetched with \<open>slice::get\<close>.\<close>

definition get_u16 :: "bytes \<Rightarrow> usize \<Rightarrow> usize option" where
  "get_u16 block at = (if at + 1 < length block then Some (unat (from_le (segment block at (at + 2)) :: u16)) else None)"

definition ext4_dx_block_csum ::
  "(u32 \<Rightarrow> bytes \<Rightarrow> u32) \<Rightarrow> bytes \<Rightarrow> u32 \<Rightarrow> u32 \<Rightarrow> u32 \<Rightarrow> usize \<Rightarrow> u32 option" where
  "ext4_dx_block_csum app block csum_seed ino generation count_offset =
     (case get_u16 block count_offset of
        None \<Rightarrow> None
      | Some limit \<Rightarrow>
          (case get_u16 block (count_offset + 2) of
             None \<Rightarrow> None
           | Some cnt \<Rightarrow>
               let dx_tail = count_offset + limit * 8; coverage_end = count_offset + cnt * 8
               in if length block < dx_tail + 8 then None
                  else if dx_tail < coverage_end then None
                  else let csum = ext4_chksum app (inode_seed app csum_seed ino generation) (take coverage_end block);
                           csum = ext4_chksum app csum (segment block dx_tail (dx_tail + 4))
                       in Some (ext4_chksum app csum (u32_to_le 0))))"

definition stamp_dx_block_checksum ::
  "(u32 \<Rightarrow> bytes \<Rightarrow> u32) \<Rightarrow> bytes \<Rightarrow> u32 \<Rightarrow> u32 \<Rightarrow> u32 \<Rightarrow> usize \<Rightarrow> bytes" where
  "stamp_dx_block_checksum app block csum_seed ino generation count_offset =
     (case ext4_dx_block_csum app block csum_seed ino generation count_offset of
        None \<Rightarrow> block
      | Some csum \<Rightarrow>
          let limit = unat (from_le (segment block count_offset (count_offset + 2)) :: u16); dx_tail = count_offset + limit * 8
          in blit block (dx_tail + 4) (u32_to_le csum))"

definition verify_dx_block_checksum ::
  "(u32 \<Rightarrow> bytes \<Rightarrow> u32) \<Rightarrow> bytes \<Rightarrow> u32 \<Rightarrow> u32 \<Rightarrow> u32 \<Rightarrow> usize \<Rightarrow> bool" where
  "verify_dx_block_checksum app block csum_seed ino generation count_offset =
     (case ext4_dx_block_csum app block csum_seed ino generation count_offset of
        None \<Rightarrow> False
      | Some computed \<Rightarrow>
          let limit = unat (from_le (segment block count_offset (count_offset + 2)) :: u16); dx_tail = count_offset + limit * 8
          in computed = from_le (segment block (dx_tail + 4) (dx_tail + 8)))"

section \<open>Extent blocks\<close>

definition verify_extent_block_checksum ::
  "(u32 \<Rightarrow> bytes \<Rightarrow> u32) \<Rightarrow> bytes \<Rightarrow> u32 \<Rightarrow> u32 \<Rightarrow> u32 \<Rightarrow> parse_error + unit" where
  "verify_extent_block_checksum app extent_block csum_seed ino generation =
     (let bs = length extent_block
      in if bs < 16 then Inl (InsufficientData 16 0 bs)
         else parse_bind (read_le_u16 extent_block 4) (\<lambda>eh_max.
           let tail_off = 12 * unat eh_max + 12
           in if bs < tail_off + 4 then Inl (InsufficientData (tail_off + 4) 0 bs)
              else parse_bind (read_le_u32 extent_block tail_off) (\<lambda>stored.
                if ext4_chksum app (inode_seed app csum_seed ino generation) (take tail_off extent_block) \<noteq> stored
                then Inl (InvalidField ''extent_checksum'' ''extent block CRC32C mismatch'')
                else Inr ())))"

definition stamp_extent_block_checksum ::
  "(u32 \<Rightarrow> bytes \<Rightarrow> u32) \<Rightarrow> bytes \<Rightarrow> u32 \<Rightarrow> u32 \<Rightarrow> u32 \<Rightarrow> bytes option" where
  "stamp_extent_block_checksum app extent_block csum_seed ino generation =
     (let bs = length extent_block; tail_off = 12 * unat (from_le (segment extent_block 4 6) :: u16) + 12
      in if bs < 16 \<or> bs < tail_off + 4 then Some extent_block
         else map_option (\<lambda>computed. blit extent_block tail_off (u32_to_le computed))
                (ext4_chksum_skip_zero_tail app (inode_seed app csum_seed ino generation) (take tail_off extent_block)))"

section \<open>Extended-attribute blocks\<close>

definition XATTR_HEADER_CHECKSUM_OFFSET :: usize where
  "XATTR_HEADER_CHECKSUM_OFFSET = 16"

definition ext4_xattr_block_csum :: "(u32 \<Rightarrow> bytes \<Rightarrow> u32) \<Rightarrow> u32 \<Rightarrow> u64 \<Rightarrow> bytes \<Rightarrow> u32 option" where
  "ext4_xattr_block_csum app csum_seed block_nr block =
     (let off = XATTR_HEADER_CHECKSUM_OFFSET
      in if length block < off + 4 then None
         else let seed = ext4_chksum app csum_seed (u64_to_le block_nr);
                  seed = ext4_chksum app seed (take off block);
                  seed = ext4_chksum app seed (u32_to_le 0)
              in Some (ext4_chksum app seed (drop (off + 4) block)))"

definition stamp_xattr_block_checksum :: "(u32 \<Rightarrow> bytes \<Rightarrow> u32) \<Rightarrow> bytes \<Rightarrow> u32 \<Rightarrow> u64 \<Rightarrow> bytes option" where
  "stamp_xattr_block_checksum app block csum_seed block_nr =
     (let off = XATTR_HEADER_CHECKSUM_OFFSET
      in if length block < off + 4 then Some block
         else map_option (\<lambda>computed. blit block off (u32_to_le computed)) (ext4_xattr_block_csum app csum_seed block_nr block))"

definition verify_xattr_block_checksum :: "(u32 \<Rightarrow> bytes \<Rightarrow> u32) \<Rightarrow> bytes \<Rightarrow> u32 \<Rightarrow> u64 \<Rightarrow> bool option" where
  "verify_xattr_block_checksum app block csum_seed block_nr =
     (let off = XATTR_HEADER_CHECKSUM_OFFSET
      in if length block < off + 4 then Some False
         else map_option (\<lambda>computed. computed = from_le (segment block off (off + 4)))
                (ext4_xattr_block_csum app csum_seed block_nr block))"

end
