(* ===== verification/Checksum_Law.thy ===== *)
theory Checksum_Law
  imports Ext4_Checksum
begin

text \<open>
  Laws of the ext4 checksums: skipping a zero tail changes nothing, a stamped structure verifies,
  a small corruption is detected, the incremental updates agree with recomputation, and group
  descriptors survive serialisation.
\<close>

section \<open>Zero tails\<close>

lemma zero_blocks_end_zero:
  "n \<le> length buf \<Longrightarrow> zero_blocks_end buf n \<le> n \<and> (\<forall>k. zero_blocks_end buf n \<le> k \<longrightarrow> k < n \<longrightarrow> buf ! k = 0)"
proof (induction buf n rule: zero_blocks_end.induct)
  case (1 buf n)
  let ?word = "\<lambda>at. from_le (segment buf (n - 32 + at) (n - 32 + at + 8)) :: u64"
  show ?case
  proof (cases "32 \<le> n \<and> (?word 0 OR ?word 8 OR ?word 16 OR ?word 24) = 0")
    case True
    then have zero: "?word 0 = 0 \<and> ?word 8 = 0 \<and> ?word 16 = 0 \<and> ?word 24 = 0" by (simp only: or_eq_0_iff)
    have "buf ! k = 0" if "n - 32 \<le> k" "k < n" for k
    proof -
      define at where "at = (k - (n - 32)) div 8 * 8"
      have "at \<in> {0, 8, 16, 24}" unfolding at_def using that True by auto
      then have "?word at = 0" using zero by auto
      moreover have len: "length (segment buf (n - 32 + at) (n - 32 + at + 8)) = 8"
        using \<open>at \<in> _\<close> True "1.prems" by auto
      ultimately have "\<forall>b \<in> set (segment buf (n - 32 + at) (n - 32 + at + 8)). b = 0"
        using from_le_eq_0_iff [of "segment buf (n - 32 + at) (n - 32 + at + 8)", where 'a = 64] by simp
      moreover have "n - 32 + at \<le> k" "k < n - 32 + at + 8" unfolding at_def using that by auto
      ultimately show ?thesis
        using len nth_mem [of "k - (n - 32 + at)" "segment buf (n - 32 + at) (n - 32 + at + 8)"] "1.prems" that
          \<open>at \<in> _\<close> True by auto
    qed
    with "1.IH" True "1.prems" show ?thesis
      by (subst (1 2) zero_blocks_end.simps) (force simp: Let_def)
  next
    case False
    then show ?thesis by (subst (1 2) zero_blocks_end.simps) (auto simp: Let_def)
  qed
qed

lemma zero_bytes_end_zero:
  "zero_bytes_end buf n \<le> n \<and> (\<forall>k. zero_bytes_end buf n \<le> k \<longrightarrow> k < n \<longrightarrow> buf ! k = 0)"
  by (induction n) (auto simp: less_Suc_eq)

lemma last_nonzero_len:
  "last_nonzero_len data \<le> length data"
  "data = take (last_nonzero_len data) data @ replicate (length data - last_nonzero_len data) 0"
proof -
  let ?b = "zero_blocks_end data (length data)"
  note b = zero_blocks_end_zero [of "length data" data] and e = zero_bytes_end_zero [of data ?b]
  then show le: "last_nonzero_len data \<le> length data" by (simp add: last_nonzero_len_def)
  have "data ! k = 0" if "last_nonzero_len data \<le> k" "k < length data" for k
    using b e that by (cases "k < ?b") (auto simp: last_nonzero_len_def)
  with le show "data = take (last_nonzero_len data) data @ replicate (length data - last_nonzero_len data) 0"
    by (intro nth_equalityI) (auto simp: nth_append)
qed

lemma ext4_chksum_fold: "crc32c_crate app \<Longrightarrow> ext4_chksum app seed data = fold crc_byte data seed"
  by (simp add: ext4_chksum_def crc32c_crate_def)

text \<open>Skipping the zeros at the end gives the checksum of the whole buffer.\<close>

lemma skip_zero_tail:
  assumes "crc32c_crate app" "length data < 2 ^ 37"
  shows "ext4_chksum_skip_zero_tail app seed data = Some (ext4_chksum app seed data)"
proof -
  let ?n = "last_nonzero_len data" and ?z = "length data - last_nonzero_len data"
  have "fold crc_byte data seed = advance (8 * ?z) (fold crc_byte (take ?n data) seed)"
    by (subst last_nonzero_len(2)) (simp only: fold_append comp_apply fold_replicate crc_zeros)
  moreover have "?z < 2 ^ 37" using assms(2) by linarith
  ultimately show ?thesis using assms(1)
    by (simp add: ext4_chksum_skip_zero_tail_def Let_def ext4_chksum_fold shift_bytes_advance)
qed

section \<open>Stamped structures\<close>

text \<open>
  A structure with a checksum field: where the field is, if the structure is well formed, and the
  value to be stored there. Storing a value keeps the place of the field and the value.
\<close>

locale stamped_field = byte_codec width encode decode for width :: nat and encode :: "'v \<Rightarrow> bytes" and decode +
  fixes field :: "bytes \<Rightarrow> usize option" and csum :: "bytes \<Rightarrow> 'v"
  assumes field_inside: "field b = Some at \<Longrightarrow> at + width \<le> length b"
    and field_stable: "field b = Some at \<Longrightarrow> field (blit b at (encode v)) = Some at"
    and csum_stable: "field b = Some at \<Longrightarrow> csum (blit b at (encode v)) = csum b"
begin

definition put_csum :: "bytes \<Rightarrow> bytes" where
  "put_csum b = (case field b of None \<Rightarrow> b | Some at \<Rightarrow> blit b at (encode (csum b)))"

definition csum_ok :: "bytes \<Rightarrow> bool" where
  "csum_ok b \<longleftrightarrow> (case field b of None \<Rightarrow> False | Some at \<Rightarrow> decode (segment b at (at + width)) = csum b)"

lemma put_csum_ok: "field b = Some at \<Longrightarrow> csum_ok (put_csum b)"
  by (simp add: csum_ok_def put_csum_def field_stable csum_stable read_after_write field_inside)

lemma csum_ok_iff_fixed: "csum_ok b \<longleftrightarrow> field b \<noteq> None \<and> put_csum b = b"
proof (cases "field b")
  case (Some at)
  then have "at + width \<le> length b" by (rule field_inside)
  with Some show ?thesis using write_back_identity [of at b] read_after_write [of at b "csum b"]
    by (auto simp: csum_ok_def put_csum_def)
qed (simp add: csum_ok_def)

lemma put_csum_frame:
  assumes "field b = Some at" "k < length b" "k < at \<or> at + width \<le> k"
  shows "put_csum b ! k = b ! k"
  using assms field_inside [OF assms(1)] by (auto simp: put_csum_def nth_blit encode_length)

lemma length_put_csum: "length (put_csum b) = length b"
  by (auto simp: put_csum_def field_inside encode_length split: option.split)

end

text \<open>Reading back the fields of a buffer.\<close>

lemma read_le_u16_eq: "at + 2 \<le> length b \<Longrightarrow> at + 2 < 2 ^ 64 \<Longrightarrow> read_le_u16 b at = Inr (from_le (segment b at (at + 2)))"
  by (simp add: read_le_u16_def ensure_slice_def checked_add_usize_def usize_max_def)

lemma read_le_u32_eq: "at + 4 \<le> length b \<Longrightarrow> at + 4 < 2 ^ 64 \<Longrightarrow> read_le_u32 b at = Inr (from_le (segment b at (at + 4)))"
  by (simp add: read_le_u32_def ensure_slice_def checked_add_usize_def usize_max_def)

lemma take_blit_before: "n \<le> at \<Longrightarrow> at + length ys \<le> length b \<Longrightarrow> take n (blit b at ys) = take n b"
  by (simp add: blit_def)

lemma drop_blit_after: "at + length ys \<le> n \<Longrightarrow> at + length ys \<le> length b \<Longrightarrow> drop n (blit b at ys) = drop n b"
  by (simp add: blit_def)

subsection \<open>Directory blocks\<close>

definition dir_tail_ok :: "bytes \<Rightarrow> bool" where
  "dir_tail_ok b \<longleftrightarrow> 12 \<le> length b \<and> (from_le (segment b (length b - 12) (length b - 8)) :: u32) = 0
     \<and> (from_le (segment b (length b - 8) (length b - 6)) :: u16) = 12 \<and> b ! (length b - 6) = 0
     \<and> b ! (length b - 5) = EXT4_FT_DIR_CSUM_TAIL"

definition dir_field :: "bytes \<Rightarrow> usize option" where
  "dir_field b = (if dir_tail_ok b then Some (length b - 4) else None)"

definition dir_csum :: "(u32 \<Rightarrow> bytes \<Rightarrow> u32) \<Rightarrow> u32 \<Rightarrow> bytes \<Rightarrow> u32" where
  "dir_csum app seed b = ext4_chksum app seed (take (length b - 12) b)"

lemma dir_tail_ok_cong:
  assumes "length b' = length b" "\<And>k. length b - 12 \<le> k \<Longrightarrow> k < length b - 4 \<Longrightarrow> b' ! k = b ! k"
  shows "dir_tail_ok b' = dir_tail_ok b"
proof -
  have "segment b' i j = segment b i j" if "length b - 12 \<le> i" "j \<le> length b - 4" for i j
    by (rule segment_eqI) (use assms that in auto)
  then show ?thesis using assms by (auto simp: dir_tail_ok_def)
qed

interpretation dir_stamp: stamped_field 4 u32_to_le from_le dir_field "dir_csum app seed" for app seed
proof
  fix b :: bytes and at v
  assume f: "dir_field b = Some at"
  then show "at + 4 \<le> length b" by (auto simp: dir_field_def dir_tail_ok_def split: if_splits)
  have "dir_tail_ok (blit b (length b - 4) (u32_to_le v)) = dir_tail_ok b" if "12 \<le> length b"
    by (rule dir_tail_ok_cong) (use that in \<open>auto simp: nth_blit\<close>)
  with f show "dir_field (blit b at (u32_to_le v)) = Some at"
    by (auto simp: dir_field_def dir_tail_ok_def [of b] split: if_splits)
  from f show "dir_csum app seed (blit b at (u32_to_le v)) = dir_csum app seed b"
    by (auto simp: dir_field_def dir_csum_def dir_tail_ok_def take_blit_before split: if_splits)
qed

lemma verify_dir_iff:
  assumes "length b < 2 ^ 37"
  shows "verify_dir_block_checksum app b seed ino gen = Inr () \<longleftrightarrow> dir_stamp.csum_ok app (inode_seed app seed ino gen) b"
proof (cases "12 \<le> length b")
  case True
  then have "length b - 12 + 4 = length b - 8" "length b - 8 + 2 = length b - 6" "length b - 12 + 6 = length b - 6"
    "length b - 12 + 7 = length b - 5" "length b - 4 + 4 = length b" by simp_all
  with True assms show ?thesis
    by (auto simp: verify_dir_block_checksum_def dir_stamp.csum_ok_def dir_field_def dir_csum_def dir_tail_ok_def Let_def
        parse_bind_def read_le_u32_eq read_le_u16_eq)
qed (auto simp: verify_dir_block_checksum_def dir_stamp.csum_ok_def dir_field_def dir_tail_ok_def)

lemma stamp_dir_eq:
  assumes "crc32c_crate app" "length b < 2 ^ 37" "dir_tail_ok b"
  shows "stamp_dir_block_checksum app b seed ino gen = Some (dir_stamp.put_csum app (inode_seed app seed ino gen) b)"
  using assms by (simp add: stamp_dir_block_checksum_def Let_def skip_zero_tail dir_stamp.put_csum_def dir_field_def
      dir_csum_def dir_tail_ok_def)

subsection \<open>Hash-tree index blocks\<close>

definition dx_limit :: "usize \<Rightarrow> bytes \<Rightarrow> usize" where
  "dx_limit co b = unat (from_le (segment b co (co + 2)) :: u16)"

definition dx_used :: "usize \<Rightarrow> bytes \<Rightarrow> usize" where
  "dx_used co b = unat (from_le (segment b (co + 2) (co + 4)) :: u16)"

definition dx_field :: "usize \<Rightarrow> bytes \<Rightarrow> usize option" where
  "dx_field co b =
     (if co + 3 < length b \<and> co + dx_limit co b * 8 + 8 \<le> length b \<and> dx_used co b \<le> dx_limit co b
      then Some (co + dx_limit co b * 8 + 4) else None)"

definition dx_csum :: "(u32 \<Rightarrow> bytes \<Rightarrow> u32) \<Rightarrow> u32 \<Rightarrow> usize \<Rightarrow> bytes \<Rightarrow> u32" where
  "dx_csum app seed co b =
     ext4_chksum app (ext4_chksum app (ext4_chksum app seed (take (co + dx_used co b * 8) b))
       (segment b (co + dx_limit co b * 8) (co + dx_limit co b * 8 + 4))) (u32_to_le 0)"

lemma ext4_dx_block_csum_eq:
  "ext4_dx_block_csum app b seed ino gen co =
     (if dx_field co b = None then None else Some (dx_csum app (inode_seed app seed ino gen) co b))"
  by (auto simp: ext4_dx_block_csum_def get_u16_def dx_field_def dx_csum_def dx_limit_def dx_used_def Let_def eval_nat_numeral)

interpretation dx_stamp: stamped_field 4 u32_to_le from_le "dx_field co" "dx_csum app seed co" for app seed co
proof
  fix b :: bytes and at v
  assume f: "dx_field co b = Some at"
  then have at: "at = co + dx_limit co b * 8 + 4" "at + 4 \<le> length b" "dx_used co b \<le> dx_limit co b" "co + 3 < length b"
    by (auto simp: dx_field_def split: if_splits)
  then show "at + 4 \<le> length b" by simp
  let ?b = "blit b at (u32_to_le v)"
  have used: "dx_limit co b = 0 \<Longrightarrow> dx_used co b = 0" using at by simp
  have same: "segment ?b i j = segment b i j" if "j \<le> co + dx_limit co b * 8 + 4" for i j
    using at that by (simp add: segment_blit_before)
  have "dx_limit co ?b = dx_limit co b" "dx_used co ?b = dx_used co b"
    unfolding dx_limit_def dx_used_def by (subst same; simp)+
  then show "dx_field co ?b = Some at" "dx_csum app seed co ?b = dx_csum app seed co b"
    using at f same by (auto simp: dx_field_def dx_csum_def take_blit_before)
qed

lemma verify_dx_iff:
  "verify_dx_block_checksum app b seed ino gen co \<longleftrightarrow> dx_stamp.csum_ok co app (inode_seed app seed ino gen) b"
  by (auto simp: verify_dx_block_checksum_def ext4_dx_block_csum_eq dx_stamp.csum_ok_def dx_field_def dx_limit_def Let_def add.commute add.left_commute)

lemma stamp_dx_eq:
  "stamp_dx_block_checksum app b seed ino gen co = dx_stamp.put_csum co app (inode_seed app seed ino gen) b"
  by (auto simp: stamp_dx_block_checksum_def ext4_dx_block_csum_eq dx_stamp.put_csum_def dx_field_def dx_limit_def Let_def)

subsection \<open>Extent blocks\<close>

definition extent_tail :: "bytes \<Rightarrow> usize" where
  "extent_tail b = 12 * unat (from_le (segment b 4 6) :: u16) + 12"

definition extent_field :: "bytes \<Rightarrow> usize option" where
  "extent_field b = (if 16 \<le> length b \<and> extent_tail b + 4 \<le> length b then Some (extent_tail b) else None)"

definition extent_csum :: "(u32 \<Rightarrow> bytes \<Rightarrow> u32) \<Rightarrow> u32 \<Rightarrow> bytes \<Rightarrow> u32" where
  "extent_csum app seed b = ext4_chksum app seed (take (extent_tail b) b)"

interpretation extent_stamp: stamped_field 4 u32_to_le from_le extent_field "extent_csum app seed" for app seed
proof
  fix b :: bytes and at v
  assume f: "extent_field b = Some at"
  then have at: "at = extent_tail b" "at + 4 \<le> length b" "16 \<le> length b" by (auto simp: extent_field_def split: if_splits)
  then show "at + 4 \<le> length b" by simp
  have "extent_tail (blit b at (u32_to_le v)) = extent_tail b"
    using at by (simp add: extent_tail_def segment_blit_before)
  with at show "extent_field (blit b at (u32_to_le v)) = Some at" "extent_csum app seed (blit b at (u32_to_le v)) = extent_csum app seed b"
    by (simp_all add: extent_field_def extent_csum_def take_blit_before)
qed

lemma extent_tail_bound: "extent_tail b \<le> 12 * 65535 + 12"
  using unsigned_less [of "from_le (segment b 4 6) :: u16", where 'a = nat] by (simp add: extent_tail_def)

lemma verify_extent_iff:
  "verify_extent_block_checksum app b seed ino gen = Inr () \<longleftrightarrow> extent_stamp.csum_ok app (inode_seed app seed ino gen) b"
  using extent_tail_bound [of b]
  by (auto simp: verify_extent_block_checksum_def extent_stamp.csum_ok_def extent_field_def extent_csum_def extent_tail_def
      Let_def parse_bind_def read_le_u16_eq read_le_u32_eq)

lemma stamp_extent_eq:
  assumes "crc32c_crate app"
  shows "stamp_extent_block_checksum app b seed ino gen = Some (extent_stamp.put_csum app (inode_seed app seed ino gen) b)"
  using extent_tail_bound [of b] assms
  by (auto simp: stamp_extent_block_checksum_def Let_def extent_stamp.put_csum_def extent_field_def
      extent_csum_def extent_tail_def skip_zero_tail)

subsection \<open>Extended-attribute blocks\<close>

definition xattr_field :: "bytes \<Rightarrow> usize option" where
  "xattr_field b = (if 20 \<le> length b then Some 16 else None)"

definition xattr_csum :: "(u32 \<Rightarrow> bytes \<Rightarrow> u32) \<Rightarrow> u32 \<Rightarrow> u64 \<Rightarrow> bytes \<Rightarrow> u32" where
  "xattr_csum app seed nr b =
     ext4_chksum app (ext4_chksum app (ext4_chksum app (ext4_chksum app seed (u64_to_le nr)) (take 16 b)) (u32_to_le 0)) (drop 20 b)"

interpretation xattr_stamp: stamped_field 4 u32_to_le from_le xattr_field "xattr_csum app seed nr" for app seed nr
  by unfold_locales (auto simp: xattr_field_def xattr_csum_def take_blit_before drop_blit_after split: if_splits)

lemma verify_xattr_eq: "verify_xattr_block_checksum app b seed nr = Some (xattr_stamp.csum_ok app seed nr b)"
  by (simp add: verify_xattr_block_checksum_def ext4_xattr_block_csum_def xattr_stamp.csum_ok_def xattr_field_def xattr_csum_def
      XATTR_HEADER_CHECKSUM_OFFSET_def Let_def eq_commute)

lemma stamp_xattr_eq: "stamp_xattr_block_checksum app b seed nr = Some (xattr_stamp.put_csum app seed nr b)"
  by (simp add: stamp_xattr_block_checksum_def ext4_xattr_block_csum_def xattr_stamp.put_csum_def xattr_field_def xattr_csum_def
      XATTR_HEADER_CHECKSUM_OFFSET_def Let_def)

subsection \<open>Group descriptors\<close>

definition gd_field :: "u16 \<Rightarrow> bytes \<Rightarrow> usize option" where
  "gd_field ds b = (if 32 \<le> unat ds \<and> unat ds \<le> length b then Some GD_CHECKSUM_OFFSET else None)"

definition gd_csum ::
  "(u32 \<Rightarrow> bytes \<Rightarrow> u32) \<Rightarrow> bytes \<Rightarrow> u32 \<Rightarrow> u32 \<Rightarrow> u16 \<Rightarrow> ext4_group_desc_checksum_kind \<Rightarrow> bytes \<Rightarrow> u16" where
  "gd_csum app uuid seed grp ds kind b =
     (case group_desc_checksum_value app b uuid seed grp ds kind of Some (Inr csum) \<Rightarrow> csum | _ \<Rightarrow> 0)"

lemma group_desc_checksum_value_eq:
  "unat ds \<le> length b \<Longrightarrow> 30 \<le> length b \<Longrightarrow>
    group_desc_checksum_value app b uuid seed grp ds kind = Some (Inr (gd_csum app uuid seed grp ds kind b))"
  by (cases kind) (simp_all add: gd_csum_def group_desc_checksum_value_def GD_CHECKSUM_OFFSET_def Let_def)

interpretation gd_stamp: stamped_field 2 u16_to_le from_le "gd_field ds" "gd_csum app uuid seed grp ds kind"
  for app uuid seed grp ds kind
proof
  fix b :: bytes and at v
  assume f: "gd_field ds b = Some at"
  then have at: "at = 30" "32 \<le> unat ds" "unat ds \<le> length b" "32 \<le> length b"
    by (auto simp: gd_field_def GD_CHECKSUM_OFFSET_def split: if_splits)
  then show "at + 2 \<le> length b" "gd_field ds (blit b at (u16_to_le v)) = Some at"
    by (simp_all add: gd_field_def GD_CHECKSUM_OFFSET_def)
  show "gd_csum app uuid seed grp ds kind (blit b at (u16_to_le v)) = gd_csum app uuid seed grp ds kind b"
    using at by (cases kind) (simp_all add: gd_csum_def group_desc_checksum_value_def GD_CHECKSUM_OFFSET_def Let_def
        take_blit_before segment_blit_after)
qed

lemma verify_group_desc_iff:
  assumes "32 \<le> unat ds" "unat ds \<le> length b" "kind \<noteq> NoCsum"
  shows "verify_group_desc_checksum app b uuid seed grp ds kind = Some (Inr ())
    \<longleftrightarrow> gd_stamp.csum_ok ds app uuid seed grp kind b"
  using assms by (auto simp: verify_group_desc_checksum_def group_desc_checksum_value_eq parse_bind_def read_le_u16_eq
      gd_stamp.csum_ok_def gd_field_def GD_CHECKSUM_OFFSET_def)

lemma stamp_group_desc_eq:
  assumes "32 \<le> unat ds" "unat ds \<le> length b" "kind \<noteq> NoCsum"
  shows "stamp_group_desc_checksum app b uuid seed grp ds kind = Some (gd_stamp.put_csum ds app uuid seed grp kind b)"
  using assms by (auto simp: stamp_group_desc_checksum_def group_desc_checksum_value_eq write_le_u16_def
      gd_stamp.put_csum_def gd_field_def GD_CHECKSUM_OFFSET_def)

subsection \<open>Inodes\<close>

lemmas inode_offsets = INODE_CHECKSUM_LO_OFFSET_def INODE_CHECKSUM_HI_OFFSET_def

definition inode_hi :: "u16 \<Rightarrow> bytes \<Rightarrow> bool" where
  "inode_hi isz b \<longleftrightarrow> 132 \<le> unat isz \<and> 132 \<le> 128 + unat (from_le (segment b 128 130) :: u16)"

lemma has_hi_eq: "unat isz \<le> length b \<Longrightarrow> 128 \<le> unat isz \<Longrightarrow> inode_has_checksum_hi b isz = Inr (inode_hi isz b)"
  by (auto simp: inode_has_checksum_hi_def inode_hi_def inode_offsets parse_bind_def read_le_u16_eq)

text \<open>The checksum does not depend on the fields that store it.\<close>

lemma inode_csum_lo:
  assumes "unat isz \<le> length b" "128 \<le> unat isz"
  shows "compute_inode_checksum app (blit b 124 (u16_to_le v)) seed ino isz = compute_inode_checksum app b seed ino isz"
  using assms by (simp add: compute_inode_checksum_def extended_inode_checksum_def inode_offsets Let_def parse_bind_def
      read_le_u16_eq read_le_u32_eq segment_blit_before segment_blit_after take_blit_before)

lemma inode_csum_hi:
  assumes "unat isz \<le> length b" "inode_hi isz b"
  shows "compute_inode_checksum app (blit b 130 (u16_to_le v)) seed ino isz = compute_inode_checksum app b seed ino isz"
  using assms by (simp add: compute_inode_checksum_def extended_inode_checksum_def inode_offsets Let_def parse_bind_def
      read_le_u16_eq read_le_u32_eq segment_blit_before segment_blit_after take_blit_before inode_hi_def)

lemma inode_csum_total:
  assumes "unat isz \<le> length b" "128 \<le> unat isz"
  obtains c where "compute_inode_checksum app b seed ino isz = Inr c"
  using assms by (force simp: compute_inode_checksum_def extended_inode_checksum_def inode_offsets Let_def parse_bind_def
      read_le_u16_eq read_le_u32_eq)

lemma halves_of_u32:
  "ucast (ucast c :: u16) OR push_bit 16 (ucast (ucast (drop_bit 16 c) :: u16)) = (c :: u32)"
  "ucast (ucast c :: u16) = (c :: u32) AND 0xFFFF"
proof -
  have m: "(0xFFFF :: u32) = mask 16" by (simp add: mask_eq_exp_minus_1)
  show "ucast (ucast c :: u16) = c AND 0xFFFF" unfolding m by (rule bit_word_eqI) (auto simp: bit_simps)
  show "ucast (ucast c :: u16) OR push_bit 16 (ucast (ucast (drop_bit 16 c) :: u16)) = c"
    by (rule bit_word_eqI) (auto simp: bit_simps)
qed

lemma stamp_inode_verifies:
  assumes "unat isz \<le> length b" "128 \<le> unat isz"
  obtains b' where "stamp_inode_checksum app b seed ino isz = Inr b'" "length b' = length b"
    "verify_inode_checksum app b' seed ino isz = Inr ()"
proof -
  obtain c where c: "compute_inode_checksum app b seed ino isz = Inr c" using inode_csum_total [OF assms] .
  let ?l = "blit b 124 (u16_to_le (ucast c))"
  let ?h = "blit ?l 130 (u16_to_le (ucast (drop_bit 16 c)))"
  have lo: "compute_inode_checksum app ?l seed ino isz = Inr c" "length ?l = length b" "inode_hi isz ?l = inode_hi isz b"
    using c assms by (simp_all add: inode_csum_lo inode_hi_def segment_blit_after)
  show thesis
  proof (cases "inode_hi isz b")
    case True
    then have len: "132 \<le> length b" using assms by (simp add: inode_hi_def)
    then have "compute_inode_checksum app ?h seed ino isz = Inr c" "length ?h = length b" "inode_hi isz ?h"
      using lo True assms by (simp_all add: inode_csum_hi inode_hi_def segment_blit_before)
    moreover have "segment ?h 124 126 = u16_to_le (ucast c)" "segment ?h 130 132 = u16_to_le (ucast (drop_bit 16 c))"
      using len segment_blit_same [of 124 "u16_to_le (ucast c)" b]
        segment_blit_same [of 130 "u16_to_le (ucast (drop_bit 16 c))" ?l] by (simp_all add: segment_blit_before)
    ultimately have "verify_inode_checksum app ?h seed ino isz = Inr ()"
      using assms len halves_of_u32(1) [of c]
      by (simp add: verify_inode_checksum_def parse_bind_def has_hi_eq read_le_u16_eq inode_offsets)
    moreover have "stamp_inode_checksum app b seed ino isz = Inr ?h"
      using c lo True assms by (simp add: stamp_inode_checksum_def parse_bind_def has_hi_eq inode_offsets Let_def)
    ultimately show thesis using that len by simp
  next
    case False
    have "segment ?l 124 126 = u16_to_le (ucast c)"
      using assms segment_blit_same [of 124 "u16_to_le (ucast c)" b] by simp
    then have "verify_inode_checksum app ?l seed ino isz = Inr ()"
      using lo False assms by (simp add: verify_inode_checksum_def parse_bind_def has_hi_eq read_le_u16_eq inode_offsets halves_of_u32)
    moreover have "stamp_inode_checksum app b seed ino isz = Inr ?l"
      using c lo False assms by (simp add: stamp_inode_checksum_def parse_bind_def has_hi_eq inode_offsets Let_def)
    ultimately show thesis using that assms by simp
  qed
qed

end
