(* ===== verification/Checksum_Props.thy ===== *)
theory Checksum_Props
  imports Checksum_Law
begin

text \<open>
  Properties of the ext4 checksums: the incremental CRC, detection of small corruptions, the
  round trips of stamping and of serialisation, and the incremental checksum of bitmaps.
\<close>

section \<open>Detection\<close>

lemma not_xor_word: "NOT (a XOR b) = NOT a XOR b" for a b :: "'a::len word"
  by (rule bit_word_eqI) (simp add: bit_simps)

lemma xor_eq_self_iff: "a = a XOR b \<longleftrightarrow> b = 0" for a b :: "'a::len word"
  by (metis xor.right_neutral xor_self_eq xor.assoc xor.left_neutral)

lemma xor_eq_0_word: "a XOR b = 0 \<longleftrightarrow> a = b" for a b :: "'a::len word"
  by (metis xor.right_neutral xor_self_eq xor.assoc)

lemma crc_bit_eq_0: "crc_bit v = 0 \<Longrightarrow> v = 0"
proof (cases "bit v 0")
  case True
  have "bit POLY 31" by (simp add: POLY_def)
  moreover have "\<not> bit (drop_bit 1 v) 31" using bit_imp_le_length [of v 32] by (auto simp: bit_drop_bit_eq)
  moreover assume "crc_bit v = 0"
  with True have "bit (drop_bit 1 v XOR POLY) 31 = bit (0 :: u32) 31" by (simp only: crc_bit_def and_one_bit if_True)
  ultimately show ?thesis by (simp add: bit_xor_iff)
next
  case False
  moreover assume "crc_bit v = 0"
  ultimately have drop: "drop_bit 1 v = 0" by (simp add: crc_bit_def and_one_bit)
  show ?thesis
  proof (rule bit_word_eqI)
    fix n
    show "bit v n = bit 0 n"
      using False arg_cong [OF drop, of "\<lambda>w. bit w (n - 1)"] by (cases n) (simp_all add: bit_drop_bit_eq)
  qed
qed

lemma advance_eq_0: "advance n v = 0 \<Longrightarrow> v = 0"
  by (induction n arbitrary: v) (auto simp: advance_def dest: crc_bit_eq_0)

text \<open>Up to four bytes as a register.\<close>

fun pack :: "bytes \<Rightarrow> u32" where
  "pack [] = 0"
| "pack (b # bs) = ucast b XOR push_bit 8 (pack bs)"

lemma bit_pack: "bit (pack bs) n \<Longrightarrow> n < 8 * length bs"
proof (induction bs arbitrary: n)
  case (Cons b bs)
  have "bit b n \<Longrightarrow> n < 8" using bit_imp_le_length [of b n] by simp
  then show ?case using Cons.prems Cons.IH [of "n - 8"] by (cases "n < 8") (auto simp: bit_simps)
qed simp

lemma advance_push: "length bs \<le> 3 \<Longrightarrow> advance 8 (push_bit 8 (pack bs)) = pack bs"
proof -
  assume "length bs \<le> 3"
  then have "drop_bit 8 (push_bit 8 (pack bs)) = pack bs"
    by (intro bit_word_eqI) (auto simp: bit_simps dest: bit_pack)
  then show ?thesis by (subst advance_low_zero) (auto simp: bit_simps)
qed

lemma crc_byte_advance: "crc_byte b c = advance 8 (c XOR ucast b)"
  by (simp add: crc_byte_bits advance_def)

lemma fold_crc_pack: "length bs \<le> 4 \<Longrightarrow> fold crc_byte bs c = advance (8 * length bs) (c XOR pack bs)"
proof (induction bs arbitrary: c)
  case (Cons b bs)
  have "advance 8 (c XOR ucast b) XOR pack bs = advance 8 (c XOR ucast b XOR push_bit 8 (pack bs))"
    using advance_push [of bs] Cons.prems by (simp add: linearD [OF linear_advance] xor.assoc)
  then have "fold crc_byte (b # bs) c = (advance (8 * length bs) \<circ> advance 8) (c XOR pack (b # bs))"
    using Cons by (simp add: crc_byte_advance [of b c] xor.assoc)
  then show ?case by (simp flip: advance_add add: add.commute)
qed (simp add: advance_def)

lemma pack_eq_0: "length bs \<le> 4 \<Longrightarrow> pack bs = 0 \<Longrightarrow> \<forall>b \<in> set bs. b = 0"
proof (induction bs)
  case (Cons b bs)
  have eq: "ucast b = push_bit 8 (pack bs)" using Cons.prems(2) by (simp add: xor_eq_0_word)
  have b: "b = 0"
  proof (rule bit_word_eqI)
    fix n
    assume "n < LENGTH(8)"
    then show "bit b n = bit 0 n" using arg_cong [OF eq, of "\<lambda>w. bit w n"] by (simp add: bit_simps)
  qed
  have "pack bs = drop_bit 8 (push_bit 8 (pack bs))"
    using Cons.prems(1) by (intro bit_word_eqI) (auto simp: bit_simps dest: bit_pack)
  with eq b have "pack bs = 0" by simp
  with b Cons show ?case by simp
qed simp

lemma xor_bytes_eq_0: "length xs = length ys \<Longrightarrow> \<forall>b \<in> set (xor_bytes xs ys). b = 0 \<Longrightarrow> xs = ys"
  by (induction xs ys rule: list_induct2) (auto simp: xor_eq_0_word)

lemma crc_detects_change:
  assumes "length old = length new" "length old \<le> 4" "old \<noteq> new"
  shows "fold crc_byte (pre @ new @ post) c \<noteq> fold crc_byte (pre @ old @ post) c"
proof
  assume "fold crc_byte (pre @ new @ post) c = fold crc_byte (pre @ old @ post) c"
  then have "advance (8 * length post) (fold crc_byte (xor_bytes old new) 0) = 0"
    using fold_crc_change [OF assms(1), of pre post c] by (simp add: xor_eq_self_iff)
  then have "pack (xor_bytes old new) = 0"
    using assms advance_eq_0 [of _ "pack (xor_bytes old new)"] by (auto simp: fold_crc_pack dest!: advance_eq_0)
  then have "\<forall>b \<in> set (xor_bytes old new). b = 0" using assms by (intro pack_eq_0) simp_all
  with xor_bytes_eq_0 [OF assms(1)] assms(3) show False by simp
qed

section \<open>Flipped bits of a bitmap\<close>

definition bitmap_bit :: "bytes \<Rightarrow> nat \<Rightarrow> bool" where
  "bitmap_bit bm k = bit (bm ! (k div 8)) (k mod 8)"

lemma flipped_bits:
  assumes "local_start + n \<le> 8 * span"
  shows "length (flipped_bits span local_start n) = span"
    and "k < 8 * span \<Longrightarrow> bitmap_bit (flipped_bits span local_start n) k \<longleftrightarrow> local_start \<le> k \<and> k < local_start + n"
proof -
  have "length (flipped_bits span local_start n) = span
    \<and> (\<forall>k < 8 * span. bitmap_bit (flipped_bits span local_start n) k \<longleftrightarrow> local_start \<le> k \<and> k < local_start + n)"
    using assms
  proof (induction n)
    case 0
    then show ?case by (simp add: flipped_bits_def bitmap_bit_def)
  next
    case (Suc n)
    let ?d = "flipped_bits span local_start n" and ?b = "local_start + n"
    have d: "flipped_bits span local_start (Suc n) = ?d[?b div 8 := ?d ! (?b div 8) OR push_bit (?b mod 8) 1]"
      by (simp add: flipped_bits_def)
    have "bitmap_bit (flipped_bits span local_start (Suc n)) k \<longleftrightarrow> bitmap_bit ?d k \<or> k = ?b" if "k < 8 * span" for k
    proof (cases "k div 8 = ?b div 8")
      case True
      then have "k = ?b \<longleftrightarrow> k mod 8 = ?b mod 8" by (metis div_mult_mod_eq)
      with True that Suc show ?thesis unfolding d bitmap_bit_def by (auto simp: bit_simps less_mult_imp_div_less)
    next
      case False
      then show ?thesis unfolding d bitmap_bit_def by auto
    qed
    with Suc show ?case unfolding d by auto
  qed
  then show "length (flipped_bits span local_start n) = span"
    and "k < 8 * span \<Longrightarrow> bitmap_bit (flipped_bits span local_start n) k \<longleftrightarrow> local_start \<le> k \<and> k < local_start + n"
    by auto
qed

lemma bytes_eq_by_bits:
  assumes "length xs = length ys" "\<And>k. k < 8 * length xs \<Longrightarrow> bitmap_bit xs k = bitmap_bit ys k"
  shows "xs = ys"
proof (rule nth_equalityI)
  fix i
  assume i: "i < length xs"
  show "xs ! i = ys ! i"
  proof (rule bit_word_eqI)
    fix n
    assume "n < LENGTH(8)"
    with i assms(2) [of "8 * i + n"] show "bit (xs ! i) n = bit (ys ! i) n" by (simp add: bitmap_bit_def)
  qed
qed (rule assms)

lemma bitmap_bit_xor:
  "k < 8 * length xs \<Longrightarrow> length xs = length ys \<Longrightarrow> bitmap_bit (xor_bytes xs ys) k \<longleftrightarrow> bitmap_bit xs k \<noteq> bitmap_bit ys k"
  by (simp add: bitmap_bit_def bit_xor_iff less_mult_imp_div_less mult.commute)

lemma bitmap_bit_segment:
  "k < 8 * (j - i) \<Longrightarrow> j \<le> length xs \<Longrightarrow> bitmap_bit (segment xs i j) k = bitmap_bit xs (8 * i + k)"
  by (simp add: bitmap_bit_def less_mult_imp_div_less mult.commute)

text \<open>The buffer of flipped bits is the difference of the two bitmaps over the touched bytes.\<close>

lemma flipped_delta:
  assumes "length new = length old" "byte_end \<le> length old" "byte_start * 8 \<le> start" "byte_start \<le> byte_end"
    and "start + n \<le> byte_end * 8"
    and "\<And>k. k < 8 * length old \<Longrightarrow> bitmap_bit new k \<longleftrightarrow> bitmap_bit old k \<noteq> (start \<le> k \<and> k < start + n)"
  shows "flipped_bits (byte_end - byte_start) (start - byte_start * 8) n
    = xor_bytes (segment old byte_start byte_end) (segment new byte_start byte_end)"
proof (rule bytes_eq_by_bits)
  have fits: "start - byte_start * 8 + n \<le> 8 * (byte_end - byte_start)" using assms(3-5) by (simp add: diff_mult_distrib2)
  note f = flipped_bits [OF fits]
  show "length (flipped_bits (byte_end - byte_start) (start - byte_start * 8) n)
      = length (xor_bytes (segment old byte_start byte_end) (segment new byte_start byte_end))"
    using f(1) assms(1,2) by simp
  fix k
  assume "k < 8 * length (flipped_bits (byte_end - byte_start) (start - byte_start * 8) n)"
  then have k: "k < 8 * (byte_end - byte_start)" by (simp add: f(1))
  then have "8 * byte_start + k < 8 * length old" using assms(2) by linarith
  then show "bitmap_bit (flipped_bits (byte_end - byte_start) (start - byte_start * 8) n) k
      = bitmap_bit (xor_bytes (segment old byte_start byte_end) (segment new byte_start byte_end)) k"
    using f(2) [OF k] k assms by (auto simp: bitmap_bit_xor bitmap_bit_segment)
qed

lemma bitmap_fold_change:
  assumes "length new = length old" "s \<le> e" "e \<le> len" "len \<le> length old" "s * 8 \<le> start" "start + n \<le> e * 8"
    and "\<And>k. k < 8 * length old \<Longrightarrow> bitmap_bit new k \<longleftrightarrow> bitmap_bit old k \<noteq> (start \<le> k \<and> k < start + n)"
  shows "fold crc_byte (take len new) seed
    = fold crc_byte (take len old) seed XOR advance (8 * (len - e)) (fold crc_byte (flipped_bits (e - s) (start - s * 8) n) 0)"
proof -
  have d: "flipped_bits (e - s) (start - s * 8) n = xor_bytes (segment old s e) (segment new s e)"
    by (rule flipped_delta) (use assms in auto)
  have parts: "take len bm = take s bm @ segment bm s e @ segment bm e len" for bm :: bytes
    using assms(2,3) segment_append_adjacent [of s e len bm] segment_append_adjacent [of 0 s len bm]
    by (simp add: segment_def)
  have frame: "segment new i j = segment old i j" if "j \<le> length old" "8 * j \<le> start \<or> start + n \<le> 8 * i" for i j
    by (rule bytes_eq_by_bits) (use assms(1,7) that in \<open>auto simp: bitmap_bit_segment\<close>)
  have "take s new = take s old" "segment new e len = segment old e len"
    using frame [of s 0] frame [of len e] assms by (auto simp: segment_def)
  moreover have suffix: "length (segment old e len) = len - e" using assms(4) by simp
  ultimately show ?thesis
    using fold_crc_change [of "segment old s e" "segment new s e" "take s old" "segment old e len" seed] assms(1)
    by (simp only: parts suffix d) (simp add: min_def)
qed

section \<open>Serialised fields\<close>

definition apart :: "usize \<times> bytes \<Rightarrow> usize \<times> bytes \<Rightarrow> bool" where
  "apart f g \<longleftrightarrow> fst f + length (snd f) \<le> fst g"

lemma put_fields_frame:
  assumes "put_fields buf fs = Some buf'" "list_all (\<lambda>f. j \<le> fst f) fs"
  shows "length buf' = length buf \<and> segment buf' i j = segment buf i j"
  using assms by (induction buf fs rule: put_fields.induct) (auto simp: segment_blit_before split: if_splits)

lemma put_fields_read:
  assumes "sorted_wrt apart fs" "\<And>f. f \<in> set fs \<Longrightarrow> fst f + length (snd f) \<le> length buf"
  shows "\<exists>buf'. put_fields buf fs = Some buf' \<and> length buf' = length buf
    \<and> (\<forall>f \<in> set fs. segment buf' (fst f) (fst f + length (snd f)) = snd f)"
  using assms
proof (induction buf fs rule: put_fields.induct)
  case (2 buf off bs rest)
  from "2.prems"(2) [of "(off, bs)"] have fit: "off + length bs \<le> length buf" by simp
  from "2.prems" fit have "\<exists>buf'. put_fields (blit buf off bs) rest = Some buf' \<and> length buf' = length (blit buf off bs)
    \<and> (\<forall>f \<in> set rest. segment buf' (fst f) (fst f + length (snd f)) = snd f)"
    by (intro "2.IH") auto
  then obtain buf' where b: "put_fields (blit buf off bs) rest = Some buf'" "length buf' = length buf"
    "\<And>f. f \<in> set rest \<Longrightarrow> segment buf' (fst f) (fst f + length (snd f)) = snd f" using fit by auto
  have "segment buf' off (off + length bs) = segment (blit buf off bs) off (off + length bs)"
    using put_fields_frame [OF b(1), of "off + length bs" off] "2.prems"(1) by (auto simp: apart_def list_all_iff)
  with b fit show ?case by (auto simp: segment_blit_same)
qed simp

section \<open>Properties\<close>

text \<open>The checksum of the crate, as it is specified.\<close>

definition reference_crc :: "u32 \<Rightarrow> bytes \<Rightarrow> u32" where
  "reference_crc crc data = NOT (fold crc_byte data (NOT crc))"

lemma reference_crate: "crc32c_crate reference_crc"
  by (simp add: crc32c_crate_def reference_crc_def)

text \<open>
  C10: the incremental update of a checksum equals its recomputation. Whatever the bytes before
  and after the changed region, the seed, and the path taken (byte table or hardware checksum,
  two table operators or the bit decomposition), updating the checksum of the old buffer with the
  difference of the region gives the checksum of the new buffer, without a panic, for regions
  and suffixes below 128 GiB.
\<close>

theorem crc32c_update_region_exact:
  assumes "crc32c_crate app" "length old = length new" "length old < 2 ^ 37" "length post < 2 ^ 37"
  shows "crc32c_update_region app (app seed (pre @ old @ post)) (map2 (XOR) old new) (length post)
    = Some (app seed (pre @ new @ post))"
proof -
  have "app seed (pre @ new @ post)
      = app seed (pre @ old @ post) XOR advance (8 * length post) (fold crc_byte (xor_bytes old new) 0)"
    by (simp only: assms(1) [unfolded crc32c_crate_def] fold_crc_change [OF assms(2)] not_xor_word)
  with update_region [OF assms(1)] assms(2-4) show ?thesis by simp
qed

theorem crc32c_update_region_exact_witness:
  "crc32c_update_region reference_crc (reference_crc 7 ([1, 2] @ [3, 4] @ [5])) (map2 (XOR) [3, 4] [9, 9]) (length [5 :: u8])
    = Some (reference_crc 7 ([1, 2] @ [9, 9] @ [5]))"
  by (rule crc32c_update_region_exact [OF reference_crate]) simp_all

text \<open>
  C20: a corrupted directory block is detected. When the checksum of a directory block verifies, a
  block that differs from it only within four consecutive bytes before the checksum tail fails to
  verify.
\<close>

theorem dir_checksum_detects_corruption:
  assumes "crc32c_crate app" "length b < 2 ^ 37" "verify_dir_block_checksum app b seed ino gen = Inr ()"
    and "length b' = length b" "b' \<noteq> b" "i + 16 \<le> length b" "\<And>k. k < length b \<Longrightarrow> k < i \<or> i + 4 \<le> k \<Longrightarrow> b' ! k = b ! k"
  shows "verify_dir_block_checksum app b' seed ino gen \<noteq> Inr ()"
proof -
  let ?n = "length b - 12" and ?s = "inode_seed app seed ino gen"
  have parts: "take ?n x = take i x @ segment x i (i + 4) @ segment x (i + 4) ?n" for x :: bytes
    using assms(6) segment_append_adjacent [of i "i + 4" ?n x] segment_append_adjacent [of 0 i ?n x]
    by (simp add: segment_def)
  have same: "take i b' = take i b" "segment b' (i + 4) ?n = segment b (i + 4) ?n"
    using assms(4,6) by (auto intro!: nth_equalityI segment_eqI assms(7))
  have diff: "segment b i (i + 4) \<noteq> segment b' i (i + 4)"
  proof
    assume "segment b i (i + 4) = segment b' i (i + 4)"
    then have "b' ! k = b ! k" if "k < length b" for k
      using assms(4,6) assms(7) [OF that] segment_eqD [of b i "i + 4" b' k] by (cases "k < i \<or> i + 4 \<le> k") auto
    then have "b' = b" using assms(4) by (intro nth_equalityI) simp_all
    with assms(5) show False ..
  qed
  have "dir_csum app ?s b' \<noteq> dir_csum app ?s b"
    using crc_detects_change [OF _ _ diff, of "take i b" "segment b (i + 4) ?n" ?s] assms(1,4,6)
    by (simp add: dir_csum_def ext4_chksum_fold parts same)
  moreover have "segment b' (length b - 4) (length b) = segment b (length b - 4) (length b)"
    using assms(4,6) by (intro segment_eqI assms(7)) auto
  moreover have "dir_tail_ok b' = dir_tail_ok b" by (rule dir_tail_ok_cong) (use assms(4,6) in \<open>auto intro!: assms(7)\<close>)
  ultimately show ?thesis using assms(2-4,6) by (auto simp: verify_dir_iff dir_stamp.csum_ok_def dir_field_def split: if_splits)
qed

definition sample_dir :: bytes where
  "sample_dir = [0, 0, 0, 0, 0, 0, 0, 0, 12, 0, 0, 0xDE, 0, 0, 0, 0]"

lemma sample_dir_tail: "dir_tail_ok sample_dir" "length sample_dir = 16"
  by (simp_all add: dir_tail_ok_def sample_dir_def segment_def from_le_def EXT4_FT_DIR_CSUM_TAIL_def)

theorem dir_checksum_detects_corruption_witness:
  "\<exists>b. verify_dir_block_checksum reference_crc b 1 2 3 = Inr () \<and> verify_dir_block_checksum reference_crc (b[1 := b ! 1 XOR 1]) 1 2 3 \<noteq> Inr ()"
proof -
  define b where "b = dir_stamp.put_csum reference_crc (inode_seed reference_crc 1 2 3) sample_dir"
  have len: "length b = 16" by (simp add: b_def dir_stamp.length_put_csum sample_dir_tail)
  have ok: "verify_dir_block_checksum reference_crc b 1 2 3 = Inr ()"
    using dir_stamp.put_csum_ok [of sample_dir 12] sample_dir_tail len
    by (simp add: verify_dir_iff b_def dir_field_def)
  have "b ! 1 XOR 1 \<noteq> b ! 1" using xor_eq_self_iff [of "b ! 1" 1] by auto
  then have ne: "b[1 := b ! 1 XOR 1] \<noteq> b" using len by (metis nth_list_update_eq one_less_numeral_iff semiring_norm(76))
  from dir_checksum_detects_corruption [OF reference_crate _ ok _ ne, of 0] ok len show ?thesis by auto
qed

text \<open>
  C11: what is stamped verifies. A directory block with a checksum tail, a hash-tree index block, an
  extent block and an extended-attribute block that are large enough for their checksum, a group
  descriptor of at least 32 bytes under either kind of checksum, and an inode of at least 128
  bytes, with or without room for the upper half of the checksum: each verifies after it was
  stamped, with the same seed and numbers.
\<close>

theorem stamped_metadata_verifies:
  assumes "crc32c_crate app"
  shows "(dir_tail_ok b \<and> length b < 2 ^ 37 \<longrightarrow>
      (\<exists>b'. stamp_dir_block_checksum app b seed ino gen = Some b' \<and> verify_dir_block_checksum app b' seed ino gen = Inr ()))
    \<and> (dx_field co b \<noteq> None \<longrightarrow>
      verify_dx_block_checksum app (stamp_dx_block_checksum app b seed ino gen co) seed ino gen co)
    \<and> (extent_field b \<noteq> None \<longrightarrow>
      (\<exists>b'. stamp_extent_block_checksum app b seed ino gen = Some b' \<and> verify_extent_block_checksum app b' seed ino gen = Inr ()))
    \<and> (20 \<le> length b \<longrightarrow>
      (\<exists>b'. stamp_xattr_block_checksum app b seed nr = Some b' \<and> verify_xattr_block_checksum app b' seed nr = Some True))
    \<and> (32 \<le> unat ds \<and> unat ds \<le> length b \<longrightarrow>
      (\<exists>b'. stamp_group_desc_checksum app b uuid seed grp ds kind = Some b'
          \<and> verify_group_desc_checksum app b' uuid seed grp ds kind = Some (Inr ())))
    \<and> (128 \<le> unat isz \<and> unat isz \<le> length b \<longrightarrow>
      (\<exists>b'. stamp_inode_checksum app b seed ino isz = Inr b' \<and> verify_inode_checksum app b' seed ino isz = Inr ()))"
proof (intro conjI impI)
  assume "dir_tail_ok b \<and> length b < 2 ^ 37"
  with assms show "\<exists>b'. stamp_dir_block_checksum app b seed ino gen = Some b' \<and> verify_dir_block_checksum app b' seed ino gen = Inr ()"
    by (simp add: stamp_dir_eq verify_dir_iff dir_stamp.length_put_csum dir_stamp.put_csum_ok [of b "length b - 4"] dir_field_def)
next
  assume "dx_field co b \<noteq> None"
  then show "verify_dx_block_checksum app (stamp_dx_block_checksum app b seed ino gen co) seed ino gen co"
    by (auto simp: verify_dx_iff stamp_dx_eq dx_stamp.put_csum_ok)
next
  assume "extent_field b \<noteq> None"
  with assms show "\<exists>b'. stamp_extent_block_checksum app b seed ino gen = Some b' \<and> verify_extent_block_checksum app b' seed ino gen = Inr ()"
    by (auto simp: verify_extent_iff stamp_extent_eq extent_stamp.put_csum_ok)
next
  assume "20 \<le> length b"
  then show "\<exists>b'. stamp_xattr_block_checksum app b seed nr = Some b' \<and> verify_xattr_block_checksum app b' seed nr = Some True"
    by (simp add: stamp_xattr_eq verify_xattr_eq xattr_stamp.put_csum_ok [of b 16] xattr_field_def)
next
  assume ds: "32 \<le> unat ds \<and> unat ds \<le> length b"
  then have "gd_field ds b = Some GD_CHECKSUM_OFFSET" by (simp add: gd_field_def)
  then show "\<exists>b'. stamp_group_desc_checksum app b uuid seed grp ds kind = Some b'
      \<and> verify_group_desc_checksum app b' uuid seed grp ds kind = Some (Inr ())"
    using ds by (cases "kind = NoCsum")
      (auto simp: stamp_group_desc_eq verify_group_desc_iff gd_stamp.length_put_csum gd_stamp.put_csum_ok
        stamp_group_desc_checksum_def [where kind = NoCsum] verify_group_desc_checksum_def [where kind = NoCsum])
next
  assume "128 \<le> unat isz \<and> unat isz \<le> length b"
  then show "\<exists>b'. stamp_inode_checksum app b seed ino isz = Inr b' \<and> verify_inode_checksum app b' seed ino isz = Inr ()"
    using stamp_inode_verifies [of isz b app seed ino] by metis
qed

theorem stamped_metadata_verifies_witness:
  "(\<exists>b'. stamp_dir_block_checksum reference_crc sample_dir 1 2 3 = Some b' \<and> verify_dir_block_checksum reference_crc b' 1 2 3 = Inr ())
   \<and> (\<exists>b'. stamp_inode_checksum reference_crc (replicate 256 7) 1 2 256 = Inr b' \<and> verify_inode_checksum reference_crc b' 1 2 256 = Inr ())
   \<and> (\<exists>b'. stamp_group_desc_checksum reference_crc (replicate 64 7) (replicate 16 9) 1 2 64 GdtCsum = Some b'
        \<and> verify_group_desc_checksum reference_crc b' (replicate 16 9) 1 2 64 GdtCsum = Some (Inr ()))"
  using stamped_metadata_verifies [OF reference_crate, of sample_dir 1 2 3] sample_dir_tail
    stamped_metadata_verifies [OF reference_crate, of "replicate 256 7" 1 2, where isz = 256]
    stamped_metadata_verifies [OF reference_crate, of "replicate 64 7" 1, where ds = 64 and grp = 2 and kind = GdtCsum
      and uuid = "replicate 16 9"] by simp

text \<open>
  C21: the incremental bitmap checksum is the checksum of the changed bitmap. When a contiguous range of
  bits of a bitmap that covers the group is flipped, the update never panics, and whenever it
  yields a value, that value is the full checksum of the new bitmap.
\<close>

theorem bitmap_checksum_incremental_exact:
  assumes "crc32c_crate app" "length new = length old" "unat (units div 8) \<le> length old"
    and "\<And>k. k < 8 * length old \<Longrightarrow> bitmap_bit new k \<longleftrightarrow> bitmap_bit old k \<noteq> (unat start \<le> k \<and> k < unat start + unat n)"
    and "block_bitmap_checksum_value app old seed units ds = Some old_csum"
  shows "case bitmap_checksum_incremental app old_csum start n units ds of
      None \<Rightarrow> False
    | Some None \<Rightarrow> True
    | Some (Some csum) \<Rightarrow> block_bitmap_checksum_value app new seed units ds = Some csum"
proof (cases "64 \<le> ds \<and> n \<noteq> 0 \<and> unat start + unat n < 2 ^ 32 \<and> (unat start + unat n + 7) div 8 \<le> unat (units div 8)
    \<and> (unat start + unat n + 7) div 8 - unat start div 8 \<le> unat (units div 8) div 32")
  case False
  then show ?thesis
    by (auto simp: bitmap_checksum_incremental_def checked_add_def Let_def not_le not_less unat_div unat_word_ariths)
next
  case True
  let ?len = "unat (units div 8)" and ?e = "(unat start + unat n + 7) div 8" and ?s = "unat start div 8"
  let ?delta = "flipped_bits (?e - ?s) (unat start - ?s * 8) (unat n)"
  have small: "?len < 2 ^ 37" using unsigned_less [of "units div 8", where 'a = nat] by simp
  have val: "block_bitmap_checksum_value app bm seed units ds = Some (fold crc_byte (take ?len bm) seed)"
    if "length bm = length old" for bm
    using that True assms(1,3) small
    by (simp add: block_bitmap_checksum_value_def ext4_bitmap_checksum_def skip_zero_tail ext4_chksum_fold min_def)
  have e: "?s \<le> ?e" "unat start + unat n \<le> ?e * 8" "?s * 8 \<le> unat start" "?e \<le> ?len" using True by auto
  then have "unat start - ?s * 8 + unat n \<le> 8 * (?e - ?s)" by (simp add: diff_mult_distrib2)
  then have "length ?delta < 2 ^ 37" "?len - ?e < 2 ^ 37" using small e(4) by (simp_all add: flipped_bits(1))
  moreover have "bitmap_checksum_incremental app old_csum start n units ds
      = map_option Some (crc32c_update_region app old_csum ?delta (?len - ?e))"
    using True leD [of 64 ds] by (simp add: bitmap_checksum_incremental_def checked_add_def Let_def unat_div unat_word_ariths)
  moreover have "fold crc_byte (take ?len new) seed
      = fold crc_byte (take ?len old) seed XOR advance (8 * (?len - ?e)) (fold crc_byte ?delta 0)"
    by (rule bitmap_fold_change [OF assms(2) e(1,4) assms(3) e(3,2) assms(4)])
  ultimately show ?thesis
    using val [OF refl] val [OF assms(2)] assms(5) by (simp add: update_region [OF assms(1)])
qed

theorem bitmap_checksum_incremental_exact_witness:
  "\<exists>old_csum csum. block_bitmap_checksum_value reference_crc (replicate 64 0) 7 512 64 = Some old_csum
     \<and> bitmap_checksum_incremental reference_crc old_csum 3 1 512 64 = Some (Some csum)
     \<and> block_bitmap_checksum_value reference_crc ((replicate 64 0)[0 := 8]) 7 512 64 = Some csum"
proof -
  obtain old_csum where old: "block_bitmap_checksum_value reference_crc (replicate 64 0) 7 512 64 = Some old_csum"
    by (simp add: block_bitmap_checksum_value_def ext4_bitmap_checksum_def skip_zero_tail [OF reference_crate])
  have eight: "(8 :: u8) = push_bit 3 1" by simp
  have bits: "bitmap_bit ((replicate 64 0)[0 := 8]) k \<longleftrightarrow> bitmap_bit (replicate 64 0) k \<noteq> (3 \<le> k \<and> k < 3 + 1)"
    if "k < 512" for k
    using that by (cases "k div 8 = 0")
      (auto simp: bitmap_bit_def nth_list_update less_mult_imp_div_less bit_push_bit_iff bit_1_iff eight simp del: push_bit_of_1 push_bit_numeral)
  obtain csum where inc: "bitmap_checksum_incremental reference_crc old_csum 3 1 512 64 = Some (Some csum)"
    by (simp add: bitmap_checksum_incremental_def checked_add_def Let_def update_region [OF reference_crate] flipped_bits_def)
  from bitmap_checksum_incremental_exact [OF reference_crate _ _ _ old, of "(replicate 64 0)[0 := 8]" 3 1] old inc bits
  show ?thesis by simp
qed

text \<open>The part of a group descriptor that its 32-byte form holds.\<close>

definition low_group_desc :: "ext4_group_desc \<Rightarrow> ext4_group_desc" where
  "low_group_desc gd =
     gd\<lparr>gd_block_bitmap := gd_block_bitmap gd AND mask 32, gd_inode_bitmap := gd_inode_bitmap gd AND mask 32,
        gd_inode_table := gd_inode_table gd AND mask 32, gd_free_blocks_count := gd_free_blocks_count gd AND mask 16,
        gd_free_inodes_count := gd_free_inodes_count gd AND mask 16, gd_used_dirs_count := gd_used_dirs_count gd AND mask 16,
        gd_itable_unused := gd_itable_unused gd AND mask 16, gd_block_bitmap_csum := gd_block_bitmap_csum gd AND mask 16,
        gd_inode_bitmap_csum := gd_inode_bitmap_csum gd AND mask 16\<rparr>"

lemma halves:
  "ucast (ucast x :: u32) = (x :: u64) AND mask 32" "ucast (ucast y :: u16) = (y :: u32) AND mask 16"
  "(x AND mask 32) OR (push_bit 32 (drop_bit 32 x) AND push_bit 32 (mask 32)) = x"
  "(y AND mask 16) OR (push_bit 16 (drop_bit 16 y) AND push_bit 16 (mask 16)) = y"
  by (rule bit_word_eqI; auto simp: bit_simps)+

text \<open>
  C22: a group descriptor survives serialisation. Written into a buffer of at least the descriptor size and
  parsed back, a descriptor is unchanged when the descriptor size is at least 64, and is reduced
  to the low halves of its fields when it is between 32 and 63; the write never panics.
\<close>

theorem group_desc_round_trip:
  assumes "32 \<le> ds" "unat ds \<le> length buf"
  shows "\<exists>buf'. write_group_desc gd buf ds = Some (Inr buf')
    \<and> parse_group_desc buf' ds = Inr (if 64 \<le> ds then gd else low_group_desc gd)"
proof -
  let ?fs = "group_desc_low gd @ (if 64 \<le> ds then group_desc_high gd else [])"
  have ds: "32 \<le> unat ds" "64 \<le> ds \<longleftrightarrow> 64 \<le> unat ds" "\<not> ds < 32" using assms(1) by (auto simp: word_le_nat_alt word_less_nat_alt)
  have "sorted_wrt apart ?fs" by (auto simp: group_desc_low_def group_desc_high_def apart_def)
  moreover have "fst f + length (snd f) \<le> length buf" if "f \<in> set ?fs" for f
    using that assms(2) ds by (auto simp: group_desc_low_def group_desc_high_def split: if_splits)
  ultimately obtain buf' where b: "put_fields buf ?fs = Some buf'" "length buf' = length buf"
    "list_all (\<lambda>f. segment buf' (fst f) (fst f + length (snd f)) = snd f) ?fs"
    using put_fields_read [of ?fs buf] unfolding list_all_iff by blast
  from b(3) have "parse_group_desc buf' ds = Inr (if 64 \<le> ds then gd else low_group_desc gd)"
    using ds assms(2) b(2)
    by (cases "64 \<le> ds") (simp_all add: parse_group_desc_def parse_group_desc_hi_def parse_bind_def read_le_u32_eq read_le_u16_eq
        group_desc_low_def group_desc_high_def low_group_desc_def Let_def halves)
  then show ?thesis using b(1) assms(2) by (simp add: write_group_desc_def)
qed

theorem group_desc_round_trip_witness:
  "\<exists>buf'. write_group_desc \<lparr>gd_block_bitmap = 0x100000002, gd_inode_bitmap = 3, gd_inode_table = 4, gd_free_blocks_count = 0x50005,
        gd_free_inodes_count = 6, gd_used_dirs_count = 7, gd_itable_unused = 8, gd_flags = 9, gd_checksum = 10,
        gd_block_bitmap_csum = 11, gd_inode_bitmap_csum = 12\<rparr> (replicate 32 0) 32 = Some (Inr buf')
    \<and> parse_group_desc buf' 32 = Inr \<lparr>gd_block_bitmap = 2, gd_inode_bitmap = 3, gd_inode_table = 4, gd_free_blocks_count = 5,
        gd_free_inodes_count = 6, gd_used_dirs_count = 7, gd_itable_unused = 8, gd_flags = 9, gd_checksum = 10,
        gd_block_bitmap_csum = 11, gd_inode_bitmap_csum = 12\<rparr>"
  using group_desc_round_trip [of 32 "replicate 32 0" "\<lparr>gd_block_bitmap = 0x100000002, gd_inode_bitmap = 3, gd_inode_table = 4,
        gd_free_blocks_count = 0x50005, gd_free_inodes_count = 6, gd_used_dirs_count = 7, gd_itable_unused = 8, gd_flags = 9,
        gd_checksum = 10, gd_block_bitmap_csum = 11, gd_inode_bitmap_csum = 12\<rparr>"]
  by (simp add: low_group_desc_def mask_eq_exp_minus_1 word_le_nat_alt)

end
