(* ===== verification/Dir_Stamp.thy ===== *)
theory Dir_Stamp
  imports Dir_Props Checksum_Props
begin

text \<open>
  Stamping a directory block after a mutation (\<open>ffs-core/src/lib.rs\<close>): the edit reported by
  \<open>ffs-dir\<close> is handed to the incremental checksum of \<open>ffs-ondisk\<close>, with the full computation as
  the fallback. The superblock enters only through its checksum seed, present when the file system
  has \<open>metadata_csum\<close>.
\<close>

definition ext4_dir_reserved_tail :: "u32 option \<Rightarrow> usize" where
  "ext4_dir_reserved_tail metadata_csum = (if metadata_csum \<noteq> None then 12 else 0)"

definition stamp_ext4_dir_block ::
  "(u32 \<Rightarrow> bytes \<Rightarrow> u32) \<Rightarrow> u32 option \<Rightarrow> bytes \<Rightarrow> u32 \<Rightarrow> u32 \<Rightarrow> bytes option" where
  "stamp_ext4_dir_block app metadata_csum block dir_ino generation =
     (case metadata_csum of
        None \<Rightarrow> Some block
      | Some csum_seed \<Rightarrow> stamp_dir_block_checksum app block csum_seed dir_ino generation)"

definition stamp_ext4_dir_block_after_edit ::
  "(u32 \<Rightarrow> bytes \<Rightarrow> u32) \<Rightarrow> u32 option \<Rightarrow> bytes \<Rightarrow> u32 \<Rightarrow> u32 \<Rightarrow> dir_edit \<Rightarrow> bytes option" where
  "stamp_ext4_dir_block_after_edit app metadata_csum block dir_ino generation edit =
     (case metadata_csum of
        None \<Rightarrow> Some block
      | Some csum_seed \<Rightarrow>
          (case stamp_dir_block_checksum_incremental app block (region_start edit) (edit_delta edit block) of
             None \<Rightarrow> None
           | Some (True, block) \<Rightarrow> Some block
           | Some (False, block) \<Rightarrow> stamp_dir_block_checksum app block csum_seed dir_ino generation))"

definition stamp_ext4_dir_block_maybe_incremental ::
  "(u32 \<Rightarrow> bytes \<Rightarrow> u32) \<Rightarrow> u32 option \<Rightarrow> bytes \<Rightarrow> u32 \<Rightarrow> u32 \<Rightarrow> dir_edit option \<Rightarrow> bytes option" where
  "stamp_ext4_dir_block_maybe_incremental app metadata_csum block dir_ino generation edit =
     (case edit of
        Some edit \<Rightarrow> stamp_ext4_dir_block_after_edit app metadata_csum block dir_ino generation edit
      | None \<Rightarrow> stamp_ext4_dir_block app metadata_csum block dir_ino generation)"

section \<open>The incremental stamp is the full stamp\<close>

lemma edit_delta_xor:
  assumes "edit_covers block block' ed"
  shows "edit_delta ed block' = xor_bytes (old_bytes ed) (segment block' (region_start ed) (region_start ed + length (old_bytes ed)))"
    and "old_bytes ed = segment block (region_start ed) (region_start ed + length (old_bytes ed))"
  using assms by (auto simp: edit_covers_def edit_delta_def intro!: nth_equalityI)

text \<open>Over the covered bytes, the change is confined to the region of the edit.\<close>

lemma dir_csum_change:
  assumes "crc32c_crate app" "edit_covers block block' ed" "region_start ed + length (old_bytes ed) \<le> length block - 12"
  shows "dir_csum app seed block' = dir_csum app seed block
    XOR advance (8 * (length block - 12 - (region_start ed + length (old_bytes ed)))) (fold crc_byte (edit_delta ed block') 0)"
proof -
  let ?s = "region_start ed" and ?e = "region_start ed + length (old_bytes ed)" and ?n = "length block - 12"
  have len: "length block' = length block" "?e \<le> length block" using assms(2) by (auto simp: edit_covers_def)
  have parts: "take ?n b = take ?s b @ segment b ?s ?e @ segment b ?e ?n" for b :: bytes
    using assms(3) segment_append_adjacent [of ?s ?e ?n b] segment_append_adjacent [of 0 ?s ?n b] by (simp add: segment_def)
  have same: "block' ! k = block ! k" if "k < length block" "k < ?s \<or> ?e \<le> k" for k
    using assms(2) that unfolding edit_covers_def by (metis leD)
  have "take ?s block' = take ?s block" "segment block' ?e ?n = segment block ?e ?n"
    using len by (auto intro!: nth_equalityI segment_eqI same)
  moreover have "length (segment block ?e ?n) = ?n - ?e" using len by simp
  moreover have new: "length (old_bytes ed) = length (segment block' ?s ?e)" using len by simp
  ultimately show ?thesis
    using fold_crc_change [OF new, of "take ?s block" "segment block ?e ?n" seed] assms(1) edit_delta_xor [OF assms(2)]
    by (simp only: dir_csum_def ext4_chksum_fold parts len)
qed

lemma stamp_after_edit:
  assumes "crc32c_crate app" "length block < 2 ^ 37" "dir_stamp.csum_ok app (inode_seed app seed ino gen) block"
    and "edit_covers block block' ed" "keeps_tail 12 block block'"
  shows "stamp_ext4_dir_block_after_edit app (Some seed) block' ino gen ed = stamp_dir_block_checksum app block' seed ino gen"
proof -
  let ?e = "region_start ed + length (old_bytes ed)" and ?n = "length block - 12" and ?seed = "inode_seed app seed ino gen"
  have len: "length block' = length block" "?e \<le> length block" using assms(4) by (auto simp: edit_covers_def)
  have tail: "dir_tail_ok block" "from_le (segment block (length block - 4) (length block)) = dir_csum app ?seed block"
    using assms(3) by (auto simp: dir_stamp.csum_ok_def dir_field_def dir_tail_ok_def split: if_splits)
  then have bs: "12 \<le> length block" by (simp add: dir_tail_ok_def)
  have kept: "segment block' (length block - 4) (length block) = segment block (length block - 4) (length block)"
    using assms(5) len by (intro segment_eqI) (auto simp: keeps_tail_def)
  have "dir_tail_ok block'" using tail(1) dir_tail_ok_cong [of block' block] assms(5) len by (simp add: keeps_tail_def)
  note full = stamp_dir_eq [OF assms(1) _ this, of seed ino gen]
  show ?thesis
  proof (cases "?e \<le> ?n")
    case True
    have "crc32c_update_region app (dir_csum app ?seed block) (edit_delta ed block') (?n - ?e) = Some (dir_csum app ?seed block')"
      using dir_csum_change [OF assms(1,4) True, of ?seed] assms(1,2) len
      by (simp add: update_region edit_delta_def)
    then show ?thesis
      using True bs len tail(2) kept assms(2) full \<open>dir_tail_ok block'\<close>
      by (simp add: stamp_ext4_dir_block_after_edit_def stamp_dir_block_checksum_incremental_def Let_def arith_defs usize_max_def
          edit_delta_def [of ed block', THEN arg_cong [where f = length]] dir_stamp.put_csum_def dir_field_def)
  next
    case False
    then show ?thesis using bs len
      by (simp add: stamp_ext4_dir_block_after_edit_def stamp_dir_block_checksum_incremental_def Let_def arith_defs edit_delta_def)
  qed
qed

section \<open>The stamp keeps the directory\<close>

lemma slot_at_cong:
  assumes "slot_at block limit e" "limit \<le> length block" "length b = length block" "\<And>k. k < limit \<Longrightarrow> b ! k = block ! k"
  shows "slot_at b limit e"
proof -
  have s: "8 + length (de_name e) \<le> de_len e" "de_off e + de_len e \<le> limit" using assms(1) by (auto simp: slot_at_def)
  have "segment b i j = segment block i j" if "j \<le> limit" for i j by (rule segment_eqI) (use assms(3,4) that in auto)
  then show ?thesis using assms(1,4) s by (simp add: slot_at_def)
qed

lemma interior_cong:
  assumes "length b = length block" "16 \<le> length block" "\<And>k. k < length block - 4 \<Longrightarrow> b ! k = block ! k"
  shows "is_interior_htree_dx_node_block b = is_interior_htree_dx_node_block block"
proof -
  have "segment b i j = segment block i j" if "j \<le> 12" for i j by (rule segment_eqI) (use assms that in auto)
  then have eqs: "read_u32_le b 0 = read_u32_le block 0" "read_u16_le b 4 = read_u16_le block 4"
    "read_u16_le b 8 = read_u16_le block 8" "read_u16_le b 10 = read_u16_le block 10"
    using assms(1) by (auto simp: read_u32_le_def read_u16_le_def get_range_def arith_defs split: option.split)
  show ?thesis unfolding is_interior_htree_dx_node_block_def eqs assms(1) ..
qed

lemma stamp_keeps_dir:
  assumes "dir_inv 12 block" "length b = length block" "16 \<le> length block" "\<And>k. k < length block - 4 \<Longrightarrow> b ! k = block ! k"
  shows "dir_inv 12 b \<and> dir_map 12 b = dir_map 12 block"
  using assms(1)
proof (cases rule: dir_inv_cases)
  case (interior limit)
  then show ?thesis using assms interior_cong [OF assms(2,3,4)] by (simp add: dir_inv_def dir_map_def dir_slots_def)
next
  case (leaf limit es)
  have lim: "limit \<le> length block" "limit \<le> length block - 4" using leaf(3) reserved_limit [OF leaf(1)] by (auto simp: dir_block_ok_def)
  have "laid_out b limit 0 es" using leaf(5) lim assms(2,4) by (auto simp: laid_out_def intro: slot_at_cong)
  from dir_inv_intro [OF _ _ this leaf(6)] leaf(1,7) assms(1,2) show ?thesis by (simp add: dir_inv_def)
qed

section \<open>Property\<close>

text \<open>
  C9: a directory stays verifiable across creations and unlinks. On a file system with
  \<open>metadata_csum\<close>, let the checksum of a well-formed directory block verify and let an insertion or
  a removal of a valid name succeed on it. The stamp chosen by the edit that \<open>ffs-dir\<close> reports
  does not panic, equals the full recomputation byte for byte, makes the block verify, and keeps
  the names that the mutation left in it.
\<close>

theorem mutated_directory_verifies:
  assumes "crc32c_crate app" "dir_inv 12 block" "16 \<le> length block" "valid_name name"
    and "verify_dir_block_checksum app block seed ino gen = Inr ()" "mutates 12 name block edit block'"
  shows "\<exists>b. stamp_ext4_dir_block_maybe_incremental app (Some seed) block' ino gen edit = Some b
    \<and> stamp_dir_block_checksum app block' seed ino gen = Some b
    \<and> verify_dir_block_checksum app b seed ino gen = Inr ()
    \<and> dir_inv 12 b \<and> dir_map 12 b = dir_map 12 block'"
proof -
  let ?seed = "inode_seed app seed ino gen" and ?b = "dir_stamp.put_csum app (inode_seed app seed ino gen) block'"
  note m = mutates_effect [OF assms(2,4,6)]
  have len: "length block < 2 ^ 37" "length block' = length block" using assms(2) m by (simp_all add: dir_inv_def)
  have ok: "dir_stamp.csum_ok app ?seed block" using assms(5) len by (simp add: verify_dir_iff)
  then have "dir_tail_ok block" by (auto simp: dir_stamp.csum_ok_def dir_field_def split: if_splits)
  moreover have "dir_tail_ok block' = dir_tail_ok block"
    by (rule dir_tail_ok_cong) (use m in \<open>auto simp: keeps_tail_def\<close>)
  ultimately have tail: "dir_tail_ok block'" by simp
  then have field: "dir_field block' = Some (length block' - 4)" by (simp add: dir_field_def)
  have full: "stamp_dir_block_checksum app block' seed ino gen = Some ?b"
    by (rule stamp_dir_eq [OF assms(1) _ tail]) (use len in simp)
  moreover have "stamp_ext4_dir_block_maybe_incremental app (Some seed) block' ino gen edit = Some ?b"
    using full stamp_after_edit [OF assms(1) len(1) ok] m
    by (cases edit) (simp_all add: stamp_ext4_dir_block_maybe_incremental_def stamp_ext4_dir_block_def)
  moreover have "verify_dir_block_checksum app ?b seed ino gen = Inr ()"
    using dir_stamp.put_csum_ok [OF field] len by (simp add: verify_dir_iff dir_stamp.length_put_csum)
  moreover have "dir_inv 12 ?b \<and> dir_map 12 ?b = dir_map 12 block'"
    by (rule stamp_keeps_dir) (use m len assms(3) dir_stamp.put_csum_frame [OF field] in \<open>auto simp: dir_stamp.length_put_csum\<close>)
  ultimately show ?thesis by blast
qed

text \<open>A block that holds one name, with its checksum tail.\<close>

definition one_name_dir :: bytes where
  "one_name_dir = [2, 0, 0, 0, 12, 0, 1, 2, 0x61, 0, 0, 0, 0, 0, 0, 0, 12, 0, 0, 0xDE, 0, 0, 0, 0]"

lemma one_name_dir:
  "length one_name_dir = 24" "dir_tail_ok one_name_dir" "dir_inv 12 one_name_dir"
  "dir_map 12 one_name_dir [0x61] = Some (2, 2)"
proof -
  let ?e = "\<lparr>de_off = 0, de_len = 12, de_ino = 2, de_name = [0x61], de_ftype = 2\<rparr>"
  show len: "length one_name_dir = 24" by (simp add: one_name_dir_def)
  show "dir_tail_ok one_name_dir" by (simp add: dir_tail_ok_def one_name_dir_def segment_def from_le_def EXT4_FT_DIR_CSUM_TAIL_def)
  have "u32_to_le 2 = [2, 0, 0, 0]" "u16_to_le 12 = [12, 0]" by code_simp+
  then have "slot_at one_name_dir 12 ?e" by (simp add: slot_at_def one_name_dir_def segment_def)
  then have lay: "laid_out one_name_dir 12 0 [?e]" by simp
  have v: "validate_reserved_tail (length one_name_dir) 12 = Inr 12" by (simp add: len validate_reserved_tail_def arith_defs)
  have u: "unique_names [?e]" by (simp add: unique_names_def live_entries_def)
  show "dir_inv 12 one_name_dir" using dir_inv_intro(1) [OF v _ lay u] len by simp
  show "dir_map 12 one_name_dir [0x61] = Some (2, 2)"
    using dir_inv_intro(2) [OF v _ lay u] len by (simp add: name_map_def live_entries_def live_def)
qed

theorem mutated_directory_verifies_witness:
  "\<exists>block edit block' b. verify_dir_block_checksum reference_crc block 7 2 0 = Inr () \<and> mutates 12 [0x61] block edit block'
     \<and> stamp_ext4_dir_block_maybe_incremental reference_crc (Some 7) block' 2 0 edit = Some b
     \<and> verify_dir_block_checksum reference_crc b 7 2 0 = Inr ()"
proof -
  define block where "block = dir_stamp.put_csum reference_crc (inode_seed reference_crc 7 2 0) one_name_dir"
  have field: "dir_field one_name_dir = Some 20" by (simp add: dir_field_def one_name_dir)
  have len: "length block = 24" by (simp add: block_def dir_stamp.length_put_csum one_name_dir)
  have ok: "verify_dir_block_checksum reference_crc block 7 2 0 = Inr ()"
    using dir_stamp.put_csum_ok [OF field] len by (simp add: verify_dir_iff block_def)
  have dir: "dir_inv 12 block \<and> dir_map 12 block = dir_map 12 one_name_dir"
    unfolding block_def by (rule stamp_keeps_dir)
      (use dir_stamp.put_csum_frame [OF field] in \<open>auto simp: one_name_dir dir_stamp.length_put_csum\<close>)
  have name: "valid_name [0x61]" by (simp add: valid_name_def)
  have inv: "dir_inv 12 block" and "dir_map 12 block [0x61] = Some (2, 2)" using dir by (simp_all add: one_name_dir)
  then obtain ed block' where "remove_entry_take_inode_tracked block [0x61] 12 = (Inr (Some (fst (2 :: u32, 2 :: u8), ed)), block')"
    using remove_present [OF _ name] by blast
  then have m: "mutates 12 [0x61] block (Some ed) block'" by (auto simp: mutates_def)
  have "16 \<le> length block" by (simp add: len)
  from mutated_directory_verifies [OF reference_crate inv this name ok m] ok m show ?thesis by blast
qed

end
