(* ===== verification/Merge_Proof.thy ===== *)
theory Merge_Proof
  imports Prelude
begin

text \<open>
  Merge proofs of \<open>ffs-mvcc\<close> (\<open>lib.rs\<close>): when two transactions wrote the same block from one base
  version, the evidence attached to the staged write selects an algorithm that merges the two
  results, or the commit falls back to first-committer-wins. A slice expression whose start
  exceeds its end panics in Rust; the range validator returns \<open>Inl Panicked\<close> there.
\<close>

section \<open>Byte ranges\<close>

record merge_byte_range =
  mr_start :: usize
  mr_len :: usize

definition mr_end :: "merge_byte_range \<Rightarrow> usize" where
  "mr_end r = saturating_add_usize (mr_start r) (mr_len r)"

definition overlaps :: "merge_byte_range \<Rightarrow> merge_byte_range \<Rightarrow> bool" where
  "overlaps a b \<longleftrightarrow> mr_start a < mr_end b \<and> mr_start b < mr_end a"

fun ranges_are_pairwise_disjoint :: "merge_byte_range list \<Rightarrow> bool" where
  "ranges_are_pairwise_disjoint [] = True"
| "ranges_are_pairwise_disjoint (l # rs) =
     (list_all (\<lambda>r. \<not> overlaps l r) rs \<and> ranges_are_pairwise_disjoint rs)"

text \<open>
  The in-place loop of \<open>coalesce_byte_ranges\<close>: \<open>prev\<close> is \<open>ranges[write_idx]\<close>, the entries before it
  are already output.
\<close>

fun coalesce_loop :: "merge_byte_range \<Rightarrow> merge_byte_range list \<Rightarrow> merge_byte_range list" where
  "coalesce_loop prev [] = [prev]"
| "coalesce_loop prev (current # rs) =
     (if mr_start current \<le> mr_end prev
      then coalesce_loop (prev\<lparr>mr_len := max (mr_end prev) (mr_end current) - mr_start prev\<rparr>) rs
      else prev # coalesce_loop current rs)"

text \<open>
  \<open>sort_unstable_by_key(|r| (r.start, r.end()))\<close>. Entries with equal keys denote the same range,
  up to saturation, so the order among them is not observable.
\<close>

definition by_start_end :: "merge_byte_range list \<Rightarrow> merge_byte_range list" where
  "by_start_end rs = sort_key mr_start (sort_key mr_end rs)"

definition coalesce_byte_ranges :: "merge_byte_range list \<Rightarrow> merge_byte_range list" where
  "coalesce_byte_ranges ranges =
     (if length ranges \<le> 1 then ranges
      else case by_start_end ranges of
             [] \<Rightarrow> []
           | r # rs \<Rightarrow> coalesce_loop r rs)"

section \<open>Merge proofs\<close>

datatype merge_proof_mechanism =
    MechNoSameBlockMerge | MechAppendOnly | MechRangeOverlay | MechBitmapOr | MechBitmapDelta

datatype merge_proof =
    Unsafe
  | DisjointBlocks
  | AppendOnly usize
  | IndependentKeys "merge_byte_range list"
  | NonOverlappingExtents "merge_byte_range list"
  | TimestampOnlyInode "merge_byte_range list"
  | BitmapOr
  | BitmapDelta

definition range_new :: "usize \<Rightarrow> usize \<Rightarrow> merge_byte_range" where
  "range_new start len = \<lparr>mr_start = start, mr_len = len\<rparr>"

definition independent_key_range :: "usize \<Rightarrow> usize \<Rightarrow> merge_proof" where
  "independent_key_range start len = IndependentKeys [range_new start len]"

definition independent_keys :: "(usize \<times> usize) list \<Rightarrow> merge_proof" where
  "independent_keys ranges = IndependentKeys (map (\<lambda>(start, len). range_new start len) ranges)"

definition non_overlapping_extent_range :: "usize \<Rightarrow> usize \<Rightarrow> merge_proof" where
  "non_overlapping_extent_range start len = NonOverlappingExtents [range_new start len]"

definition timestamp_only_inode_range :: "usize \<Rightarrow> usize \<Rightarrow> merge_proof" where
  "timestamp_only_inode_range start len = TimestampOnlyInode [range_new start len]"

fun mechanism :: "merge_proof \<Rightarrow> merge_proof_mechanism" where
  "mechanism Unsafe = MechNoSameBlockMerge"
| "mechanism DisjointBlocks = MechNoSameBlockMerge"
| "mechanism (AppendOnly _) = MechAppendOnly"
| "mechanism (IndependentKeys _) = MechRangeOverlay"
| "mechanism (NonOverlappingExtents _) = MechRangeOverlay"
| "mechanism (TimestampOnlyInode _) = MechRangeOverlay"
| "mechanism BitmapOr = MechBitmapOr"
| "mechanism BitmapDelta = MechBitmapDelta"

section \<open>Validators\<close>

datatype panic = Panicked

definition append_only_merge_valid :: "usize \<Rightarrow> bytes \<Rightarrow> bytes \<Rightarrow> bytes \<Rightarrow> bool" where
  "append_only_merge_valid base_len base latest staged =
     (if length base < base_len \<or> length latest < base_len \<or> length staged < base_len then False
      else let prefix = take base_len base
           in \<not> (take base_len latest \<noteq> prefix \<or> take base_len staged \<noteq> prefix))"

definition bitmap_delta_merge_valid :: "bytes \<Rightarrow> bytes \<Rightarrow> bytes \<Rightarrow> bool" where
  "bitmap_delta_merge_valid base latest staged =
     (if length latest \<noteq> length base \<or> length staged \<noteq> length base then False
      else list_all (\<lambda>((b, l), s). (l XOR b) AND (s XOR b) = 0) (zip (zip base latest) staged))"

definition bitmap_or_merge_valid :: "bytes \<Rightarrow> bytes \<Rightarrow> bytes \<Rightarrow> bool" where
  "bitmap_or_merge_valid base latest staged =
     (if length latest \<noteq> length base \<or> length staged \<noteq> length base then False
      else list_all (\<lambda>((b, l), s).
             if b AND NOT l \<noteq> 0 \<or> b AND NOT s \<noteq> 0 then False
             else (l AND NOT b) AND (s AND NOT b) = 0) (zip (zip base latest) staged))"

fun gaps_unchanged :: "bytes \<Rightarrow> bytes \<Rightarrow> usize \<Rightarrow> merge_byte_range list \<Rightarrow> panic + bool" where
  "gaps_unchanged base staged cursor [] = Inr (drop cursor staged = drop cursor base)"
| "gaps_unchanged base staged cursor (r # rs) =
     (if mr_start r < cursor then Inl Panicked
      else if segment staged cursor (mr_start r) \<noteq> segment base cursor (mr_start r) then Inr False
      else gaps_unchanged base staged (mr_end r) rs)"

text \<open>
  The source sorts with \<open>sort_unstable_by_key(|range| range.start)\<close>. Disjoint ranges with the same
  start are possible when one of them is empty; their order is left open by the library, and the
  model takes the one that keeps the order of the declaration.
\<close>

definition merge_non_overlapping_ranges_valid ::
  "merge_byte_range list \<Rightarrow> bytes \<Rightarrow> bytes \<Rightarrow> bytes \<Rightarrow> panic + bool" where
  "merge_non_overlapping_ranges_valid touched_ranges base latest staged =
     (if length latest \<noteq> length base \<or> length staged \<noteq> length base then Inr False
      else if \<not> ranges_are_pairwise_disjoint touched_ranges then Inr False
      else if list_ex (\<lambda>r. length base < mr_end r) touched_ranges then Inr False
      else case gaps_unchanged base staged 0 (sort_key mr_start touched_ranges) of
             Inl p \<Rightarrow> Inl p
           | Inr False \<Rightarrow> Inr False
           | Inr True \<Rightarrow>
               Inr (list_all (\<lambda>r. segment latest (mr_start r) (mr_end r)
                                   = segment base (mr_start r) (mr_end r)) touched_ranges))"

definition overlay_ranges :: "merge_byte_range list \<Rightarrow> bytes \<Rightarrow> bytes \<Rightarrow> bytes" where
  "overlay_ranges ranges staged merged =
     fold (\<lambda>r m. blit m (mr_start r) (segment staged (mr_start r) (mr_end r))) ranges merged"

definition merge_non_overlapping_ranges ::
  "merge_byte_range list \<Rightarrow> bytes \<Rightarrow> bytes \<Rightarrow> bytes \<Rightarrow> panic + bytes option" where
  "merge_non_overlapping_ranges touched_ranges base latest staged =
     (case merge_non_overlapping_ranges_valid touched_ranges base latest staged of
        Inl p \<Rightarrow> Inl p
      | Inr False \<Rightarrow> Inr None
      | Inr True \<Rightarrow> Inr (Some (overlay_ranges touched_ranges staged latest)))"

fun merge_valid :: "merge_proof \<Rightarrow> bytes \<Rightarrow> bytes \<Rightarrow> bytes \<Rightarrow> panic + bool" where
  "merge_valid Unsafe base latest staged = Inr False"
| "merge_valid DisjointBlocks base latest staged = Inr False"
| "merge_valid (AppendOnly base_len) base latest staged =
     Inr (append_only_merge_valid base_len base latest staged)"
| "merge_valid (IndependentKeys rs) base latest staged =
     merge_non_overlapping_ranges_valid rs base latest staged"
| "merge_valid (NonOverlappingExtents rs) base latest staged =
     merge_non_overlapping_ranges_valid rs base latest staged"
| "merge_valid (TimestampOnlyInode rs) base latest staged =
     merge_non_overlapping_ranges_valid rs base latest staged"
| "merge_valid BitmapOr base latest staged = Inr (bitmap_or_merge_valid base latest staged)"
| "merge_valid BitmapDelta base latest staged = Inr (bitmap_delta_merge_valid base latest staged)"

fun merge_bytes :: "merge_proof \<Rightarrow> bytes \<Rightarrow> bytes \<Rightarrow> bytes \<Rightarrow> panic + bytes option" where
  "merge_bytes Unsafe base latest staged = Inr None"
| "merge_bytes DisjointBlocks base latest staged = Inr None"
| "merge_bytes (AppendOnly base_len) base latest staged =
     Inr (if \<not> append_only_merge_valid base_len base latest staged then None
          else Some (latest @ drop base_len staged))"
| "merge_bytes (IndependentKeys rs) base latest staged =
     merge_non_overlapping_ranges rs base latest staged"
| "merge_bytes (NonOverlappingExtents rs) base latest staged =
     merge_non_overlapping_ranges rs base latest staged"
| "merge_bytes (TimestampOnlyInode rs) base latest staged =
     merge_non_overlapping_ranges rs base latest staged"
| "merge_bytes BitmapOr base latest staged =
     Inr (if \<not> bitmap_or_merge_valid base latest staged then None
          else Some (map (\<lambda>(m, s). m OR s) (zip latest staged)))"
| "merge_bytes BitmapDelta base latest staged =
     Inr (if \<not> bitmap_delta_merge_valid base latest staged then None
          else Some (map (\<lambda>((m, b), s). m XOR (b XOR s)) (zip (zip latest base) staged)))"

end
