(* ===== verification/Mvcc_Txn.thy ===== *)
theory Mvcc_Txn
  imports Ffs_Types Merge_Proof
begin

text \<open>
  Transactions of \<open>ffs-mvcc\<close> (\<open>lib.rs\<close>): staging of block writes in a vector sorted by block
  number, read tracking, the commit errors, and the detection of dangerous structures of
  serializable snapshot isolation. The process-wide counter \<open>PROOF_DOWNGRADES\<close> and the log
  records are not part of the state.
\<close>

section \<open>Transactions\<close>

record staged_write =
  sw_bytes :: bytes
  sw_proof :: merge_proof
  sw_base :: "bytes option"

type_synonym staged_writes = "(block_number \<times> staged_write) list"

record cow_rewrite_intent =
  old_physical :: "block_number option"
  new_physical :: block_number

record transaction =
  txn_ident :: txn_id
  txn_snapshot :: snapshot
  txn_staged :: staged_writes
  txn_reads :: "(block_number, commit_seq) btree_map"
  txn_cow_writes :: "(block_number, cow_rewrite_intent) btree_map"
  txn_cow_orphans :: "block_number list"

definition staged_write_pos :: "staged_writes \<Rightarrow> block_number \<Rightarrow> usize + usize" where
  "staged_write_pos ws block = binary_search_by (\<lambda>w. cmp_key (fst w) block) ws"

definition transaction_new :: "txn_id \<Rightarrow> snapshot \<Rightarrow> transaction" where
  "transaction_new ident snap =
     \<lparr>txn_ident = ident, txn_snapshot = snap, txn_staged = [], txn_reads = [], txn_cow_writes = [],
      txn_cow_orphans = []\<rparr>"

fun range_family :: "merge_proof \<Rightarrow> merge_byte_range list option" where
  "range_family (IndependentKeys rs) = Some rs"
| "range_family (NonOverlappingExtents rs) = Some rs"
| "range_family (TimestampOnlyInode rs) = Some rs"
| "range_family _ = None"

definition combined_proof :: "merge_proof \<Rightarrow> merge_proof \<Rightarrow> merge_proof option" where
  "combined_proof p q =
     (case (p, q) of
        (NonOverlappingExtents prev, NonOverlappingExtents nxt) \<Rightarrow>
          Some (NonOverlappingExtents (coalesce_byte_ranges (prev @ nxt)))
      | (TimestampOnlyInode prev, TimestampOnlyInode nxt) \<Rightarrow>
          Some (TimestampOnlyInode (coalesce_byte_ranges (prev @ nxt)))
      | _ \<Rightarrow>
          (case (range_family p, range_family q) of
             (Some prev, Some nxt) \<Rightarrow> Some (IndependentKeys (coalesce_byte_ranges (prev @ nxt)))
           | _ \<Rightarrow> None))"

text \<open>The staged write that replaces \<open>previous\<close> when a block is staged a second time.\<close>

definition restage :: "staged_write \<Rightarrow> staged_write \<Rightarrow> staged_write" where
  "restage previous staged =
     (if sw_proof previous \<noteq> Unsafe \<and> sw_proof staged = Unsafe then staged
      else
        let staged = (case combined_proof (sw_proof previous) (sw_proof staged) of
                        None \<Rightarrow> staged
                      | Some p \<Rightarrow> staged\<lparr>sw_proof := p\<rparr>)
        in if sw_proof staged \<noteq> Unsafe
           then staged\<lparr>sw_base := (case sw_base previous of Some b \<Rightarrow> Some b | None \<Rightarrow> sw_base staged)\<rparr>
           else staged)"

definition insert_staged_write :: "transaction \<Rightarrow> block_number \<Rightarrow> staged_write \<Rightarrow> transaction" where
  "insert_staged_write txn block staged =
     (case staged_write_pos (txn_staged txn) block of
        Inr idx \<Rightarrow>
          txn\<lparr>txn_staged := (txn_staged txn)[idx := (block, restage (snd (txn_staged txn ! idx)) staged)]\<rparr>
      | Inl idx \<Rightarrow>
          txn\<lparr>txn_staged := take idx (txn_staged txn) @ [(block, staged)] @ drop idx (txn_staged txn)\<rparr>)"

definition stage_write_with_proof_and_base ::
  "transaction \<Rightarrow> block_number \<Rightarrow> bytes \<Rightarrow> merge_proof \<Rightarrow> bytes option \<Rightarrow> transaction" where
  "stage_write_with_proof_and_base txn block bs proof base =
     insert_staged_write txn block \<lparr>sw_bytes = bs, sw_proof = proof, sw_base = base\<rparr>"

definition stage_write_with_proof :: "transaction \<Rightarrow> block_number \<Rightarrow> bytes \<Rightarrow> merge_proof \<Rightarrow> transaction" where
  "stage_write_with_proof txn block bs proof =
     insert_staged_write txn block \<lparr>sw_bytes = bs, sw_proof = proof, sw_base = None\<rparr>"

definition stage_write :: "transaction \<Rightarrow> block_number \<Rightarrow> bytes \<Rightarrow> transaction" where
  "stage_write txn block bs = stage_write_with_proof txn block bs Unsafe"

definition stage_cow_rewrite ::
  "transaction \<Rightarrow> block_number \<Rightarrow> block_number option \<Rightarrow> block_number \<Rightarrow> bytes \<Rightarrow> transaction" where
  "stage_cow_rewrite txn logical old_phys new_phys bs =
     (let previous = bt_get (txn_cow_writes txn) logical;
          txn = txn\<lparr>txn_cow_writes := bt_insert logical
                  \<lparr>old_physical = old_phys, new_physical = new_phys\<rparr> (txn_cow_writes txn)\<rparr>;
          txn = (case previous of
                   None \<Rightarrow> txn
                 | Some p \<Rightarrow> txn\<lparr>txn_cow_orphans := bts_insert (new_physical p) (txn_cow_orphans txn)\<rparr>)
      in insert_staged_write txn logical \<lparr>sw_bytes = bs, sw_proof = Unsafe, sw_base = None\<rparr>)"

definition staged_lookup :: "transaction \<Rightarrow> block_number \<Rightarrow> staged_write option" where
  "staged_lookup txn block =
     (case staged_write_pos (txn_staged txn) block of
        Inr idx \<Rightarrow> Some (snd (txn_staged txn ! idx))
      | Inl _ \<Rightarrow> None)"

definition staged_write_bytes :: "transaction \<Rightarrow> block_number \<Rightarrow> bytes option" where
  "staged_write_bytes txn block = map_option sw_bytes (staged_lookup txn block)"

definition staged_base :: "transaction \<Rightarrow> block_number \<Rightarrow> bytes option" where
  "staged_base txn block = Option.bind (staged_lookup txn block) sw_base"

definition txn_merge_proof :: "transaction \<Rightarrow> block_number \<Rightarrow> merge_proof option" where
  "txn_merge_proof txn block = map_option sw_proof (staged_lookup txn block)"

definition record_read :: "transaction \<Rightarrow> block_number \<Rightarrow> commit_seq \<Rightarrow> transaction" where
  "record_read txn block version_seq =
     (case bt_get (txn_reads txn) block of
        Some _ \<Rightarrow> txn
      | None \<Rightarrow> txn\<lparr>txn_reads := bt_insert block version_seq (txn_reads txn)\<rparr>)"

definition write_set_contains :: "staged_writes \<Rightarrow> block_number \<Rightarrow> bool" where
  "write_set_contains ws block = (case staged_write_pos ws block of Inr _ \<Rightarrow> True | Inl _ \<Rightarrow> False)"

section \<open>Commit errors\<close>

datatype commit_error =
    Conflict block_number commit_seq commit_seq
  | SsiConflict block_number commit_seq commit_seq txn_id
  | ChainBackpressure block_number usize usize usize commit_seq
  | DurabilityFailure string

definition validate_transaction_id :: "txn_id \<Rightarrow> commit_error + unit" where
  "validate_transaction_id ident =
     (if txn_val ident = 0 \<or> txn_val ident = - 1
      then Inl (DurabilityFailure (''invalid transaction id '' @ show_nat (unat (txn_val ident))))
      else Inr ())"

section \<open>Serializable snapshot isolation\<close>

record committed_txn_record =
  cr_txn_id :: txn_id
  cr_commit_seq :: commit_seq
  cr_snapshot :: snapshot
  cr_write_set :: "block_number list"
  cr_read_set :: "(block_number, commit_seq) btree_map"

record ssi_rw_edge =
  reader_txn :: txn_id
  writer_txn :: txn_id
  edge_block :: block_number
  read_version :: commit_seq
  reader_snapshot_high :: commit_seq
  write_version :: commit_seq

record ssi_dangerous_structure =
  incoming :: ssi_rw_edge
  outgoing :: ssi_rw_edge

definition to_commit_error :: "ssi_dangerous_structure \<Rightarrow> commit_error" where
  "to_commit_error d =
     SsiConflict (edge_block (outgoing d)) (read_version (outgoing d)) (write_version (outgoing d))
       (writer_txn (outgoing d))"

definition key_span :: "block_number list \<Rightarrow> (block_number \<times> block_number) option" where
  "key_span ks = (if ks = [] then None else Some (hd ks, last ks))"

definition key_in_span :: "block_number \<Rightarrow> block_number \<times> block_number \<Rightarrow> bool" where
  "key_in_span key span \<longleftrightarrow> fst span \<le> key \<and> key \<le> snd span"

fun find_map :: "('a \<Rightarrow> 'b option) \<Rightarrow> 'a list \<Rightarrow> 'b option" where
  "find_map f [] = None"
| "find_map f (x # xs) = (case f x of Some y \<Rightarrow> Some y | None \<Rightarrow> find_map f xs)"

definition ssi_incoming_edge :: "transaction \<Rightarrow> committed_txn_record \<Rightarrow> ssi_rw_edge option" where
  "ssi_incoming_edge txn rec =
     (let read_set = cr_read_set rec;
          write_set = txn_staged txn;
          mk = (\<lambda>block rv. \<lparr>reader_txn = cr_txn_id rec, writer_txn = txn_ident txn, edge_block = block,
                 read_version = rv, reader_snapshot_high = high (cr_snapshot rec),
                 write_version = CommitSeq 0\<rparr>)
      in if length write_set < length read_set
         then case key_span (map fst read_set) of
                None \<Rightarrow> None
              | Some read_span \<Rightarrow>
                  find_map (\<lambda>block.
                    if key_in_span block read_span
                    then map_option (mk block) (bt_get read_set block) else None) (map fst write_set)
         else case key_span (map fst write_set) of
                None \<Rightarrow> None
              | Some write_span \<Rightarrow>
                  find_map (\<lambda>(block, rv).
                    if key_in_span block write_span \<and> write_set_contains write_set block
                    then Some (mk block rv) else None) read_set)"

definition ssi_outgoing_edge :: "transaction \<Rightarrow> committed_txn_record \<Rightarrow> ssi_rw_edge option" where
  "ssi_outgoing_edge txn rec =
     (let read_set = txn_reads txn;
          write_set = cr_write_set rec;
          mk = (\<lambda>block rv. \<lparr>reader_txn = txn_ident txn, writer_txn = cr_txn_id rec, edge_block = block,
                 read_version = rv, reader_snapshot_high = high (txn_snapshot txn),
                 write_version = cr_commit_seq rec\<rparr>)
      in if length write_set < length read_set
         then case key_span (map fst read_set) of
                None \<Rightarrow> None
              | Some read_span \<Rightarrow>
                  find_map (\<lambda>block.
                    if key_in_span block read_span
                    then map_option (mk block) (bt_get read_set block) else None) write_set
         else case key_span write_set of
                None \<Rightarrow> None
              | Some write_span \<Rightarrow>
                  find_map (\<lambda>(block, rv).
                    if key_in_span block write_span \<and> block \<in> set write_set
                    then Some (mk block rv) else None) read_set)"

fun detect_loop ::
  "transaction \<Rightarrow> u64 \<Rightarrow> ssi_rw_edge option \<Rightarrow> ssi_rw_edge option \<Rightarrow> committed_txn_record list
   \<Rightarrow> u64 \<times> ssi_dangerous_structure option" where
  "detect_loop txn checks inc outg [] = (checks, None)"
| "detect_loop txn checks inc outg (rec # recs) =
     (if cr_commit_seq rec \<le> high (txn_snapshot txn) then detect_loop txn checks inc outg recs
      else
        let checks = saturating_add checks 1;
            inc = (case inc of None \<Rightarrow> ssi_incoming_edge txn rec | Some e \<Rightarrow> Some e);
            outg = (case outg of None \<Rightarrow> ssi_outgoing_edge txn rec | Some e \<Rightarrow> Some e)
        in case (inc, outg) of
             (Some i, Some og) \<Rightarrow> (checks, Some \<lparr>incoming = i, outgoing = og\<rparr>)
           | _ \<Rightarrow> detect_loop txn checks inc outg recs)"

definition detect_ssi_dangerous_structure ::
  "transaction \<Rightarrow> committed_txn_record list \<Rightarrow> u64 \<times> ssi_dangerous_structure option" where
  "detect_ssi_dangerous_structure txn records =
     (if txn_staged txn = [] then (0, None) else detect_loop txn 0 None None records)"

end
