(* ===== verification/Merge_Law.thy ===== *)
theory Merge_Law
  imports Merge_Proof
begin

text \<open>
  What a successful merge guarantees. The locale \<open>three_way_merge\<close> states the law of a sound
  merge over a positional view of blocks: at every position at most one writer changed the base,
  and the result carries the change. It derives that no update is lost and that the order of the
  two writers does not matter, and is interpreted for the range overlay (positions are bytes)
  and for the two bitmap algorithms (positions are bits).
\<close>

locale three_way_merge =
  fixes view :: "'b \<Rightarrow> nat \<Rightarrow> 'v" and merge :: "'b \<Rightarrow> 'b \<Rightarrow> 'b \<Rightarrow> 'b option"
  assumes one_writer: "merge base latest staged = Some m \<Longrightarrow>
      view latest i = view base i \<or> view staged i = view base i"
    and takes_change: "merge base latest staged = Some m \<Longrightarrow>
      view m i = (if view staged i = view base i then view latest i else view staged i)"
begin

lemma no_lost_update:
  assumes "merge base latest staged = Some m"
  shows "view staged i \<noteq> view base i \<Longrightarrow> view m i = view staged i"
    and "view latest i \<noteq> view base i \<Longrightarrow> view m i = view latest i"
  using one_writer [OF assms, of i] takes_change [OF assms, of i] by auto

lemma order_irrelevant:
  assumes "merge base latest staged = Some m"
  shows "(if view latest i = view base i then view staged i else view latest i) = view m i"
  using one_writer [OF assms, of i] takes_change [OF assms, of i] by auto

end

section \<open>The range overlay\<close>

definition touched :: "merge_byte_range list \<Rightarrow> nat \<Rightarrow> bool" where
  "touched rs k \<longleftrightarrow> (\<exists>r \<in> set rs. mr_start r \<le> k \<and> k < mr_end r)"

lemma touched_simps [simp]:
  "\<not> touched [] k"
  "touched (r # rs) k \<longleftrightarrow> mr_start r \<le> k \<and> k < mr_end r \<or> touched rs k"
  by (auto simp: touched_def)

lemma touched_sort_key [simp]: "touched (sort_key f rs) = touched rs"
  by (simp add: touched_def fun_eq_iff)

lemma gaps_unchanged_True:
  assumes "gaps_unchanged base staged cursor rs = Inr True" "length staged = length base"
    and "\<forall>r \<in> set rs. mr_end r \<le> length base" "cursor \<le> k" "k < length base" "\<not> touched rs k"
    and "\<forall>r \<in> set rs. mr_start r \<le> mr_end r"
  shows "staged ! k = base ! k"
  using assms
proof (induction rs arbitrary: cursor)
  case Nil
  then show ?case
    using nth_drop [of cursor staged "k - cursor"] nth_drop [of cursor base "k - cursor"] by simp
next
  case (Cons r rs)
  from Cons.prems(1) have r: "cursor \<le> mr_start r" "segment staged cursor (mr_start r) = segment base cursor (mr_start r)"
    "gaps_unchanged base staged (mr_end r) rs = Inr True"
    by (auto split: if_splits)
  show ?case
  proof (cases "k < mr_start r")
    case True
    moreover have "mr_start r \<le> length base" using Cons.prems(3,7) by (metis le_trans list.set_intros(1))
    ultimately show ?thesis using segment_eqD [OF r(2) Cons.prems(4)] Cons.prems(2) by simp
  next
    case False
    with Cons.prems(6) have "mr_end r \<le> k" "\<not> touched rs k" by auto
    with Cons r(3) show ?thesis by simp
  qed
qed

text \<open>
  The source orders the ranges with \<open>sort_unstable_by_key\<close>, which leaves the order of ranges with
  the same start open. The order decides at most whether the scan panics: two orders that both
  give a verdict give the same one.
\<close>

lemma gaps_unchanged_False:
  assumes "gaps_unchanged base staged cursor rs = Inr False" "length staged = length base" "sorted (map mr_start rs)"
    and "\<forall>r \<in> set rs. mr_start r \<le> mr_end r \<and> mr_end r \<le> length base"
  shows "\<exists>k. cursor \<le> k \<and> k < length base \<and> \<not> touched rs k \<and> staged ! k \<noteq> base ! k"
  using assms
proof (induction rs arbitrary: cursor)
  case Nil
  then show ?case
    using nth_equalityI [of "drop cursor staged" "drop cursor base"] by (fastforce intro: le_add1)
next
  case (Cons r rs)
  show ?case
  proof (cases "segment staged cursor (mr_start r) = segment base cursor (mr_start r)")
    case True
    with Cons.prems obtain k where "mr_end r \<le> k" "k < length base" "\<not> touched rs k" "staged ! k \<noteq> base ! k" "cursor \<le> mr_start r"
      using Cons.IH [of "mr_end r"] by (auto split: if_splits)
    moreover have "mr_start r \<le> mr_end r" using Cons.prems(4) by simp
    ultimately show ?thesis by (intro exI [of _ k]) simp
  next
    case False
    have le: "mr_start r \<le> length base" using Cons.prems(4) by (metis le_trans list.set_intros(1))
    with False Cons.prems(2) obtain k where k: "cursor \<le> k" "k < mr_start r" "staged ! k \<noteq> base ! k"
      by (metis segment_eqI)
    moreover have "\<not> touched (r # rs) k" using k(2) Cons.prems(3) by (auto simp: touched_def)
    ultimately show ?thesis using le by (intro exI [of _ k]) simp
  qed
qed

lemma gaps_verdicts_agree:
  assumes "gaps_unchanged base staged 0 xs = Inr True" "gaps_unchanged base staged 0 ys = Inr False"
    and "length staged = length base" "set xs = set ys" "sorted (map mr_start ys)"
    and "\<forall>r \<in> set ys. mr_start r \<le> mr_end r \<and> mr_end r \<le> length base"
  shows False
proof -
  obtain k where k: "k < length base" "\<not> touched ys k" "staged ! k \<noteq> base ! k"
    using gaps_unchanged_False [OF assms(2,3,5,6)] by blast
  have "\<not> touched xs k" using k(2) assms(4) by (simp add: touched_def)
  then have "staged ! k = base ! k"
    by (intro gaps_unchanged_True [OF assms(1,3) _ le0 k(1)]) (use assms(4,6) in simp_all)
  with k(3) show False ..
qed

lemma gaps_unchanged_any_order:
  assumes "gaps_unchanged base staged 0 xs = Inr a" "gaps_unchanged base staged 0 ys = Inr b"
    and "length staged = length base" "set xs = set ys" "sorted (map mr_start xs)" "sorted (map mr_start ys)"
    and "\<forall>r \<in> set ys. mr_start r \<le> mr_end r \<and> mr_end r \<le> length base"
  shows "a = b"
proof (rule ccontr)
  assume "a \<noteq> b"
  then consider "a" "\<not> b" | "b" "\<not> a" by blast
  then show False
  proof cases
    case 1
    then show ?thesis using gaps_verdicts_agree [of base staged xs ys] assms by simp
  next
    case 2
    then show ?thesis using gaps_verdicts_agree [of base staged ys xs] assms by simp
  qed
qed

lemma overlay_ranges_nth:
  assumes "length m = length staged" "\<forall>r \<in> set rs. mr_start r \<le> mr_end r \<and> mr_end r \<le> length staged"
  shows "length (overlay_ranges rs staged m) = length staged \<and>
    (\<forall>k < length staged. overlay_ranges rs staged m ! k = (if touched rs k then staged ! k else m ! k))"
  using assms
proof (induction rs arbitrary: m)
  case (Cons r rs)
  let ?m = "blit m (mr_start r) (segment staged (mr_start r) (mr_end r))"
  have b: "mr_start r + length (segment staged (mr_start r) (mr_end r)) = mr_end r" "mr_end r \<le> length m"
    using Cons.prems by auto
  then have "length ?m = length staged" using Cons.prems(1) by simp
  moreover have "\<forall>k < length staged. ?m ! k = (if mr_start r \<le> k \<and> k < mr_end r then staged ! k else m ! k)"
    using b Cons.prems by (auto simp: nth_blit)
  ultimately show ?case using Cons.IH [of ?m] Cons.prems(2) by (simp add: overlay_ranges_def)
qed (simp add: overlay_ranges_def)

definition range_ok :: "merge_byte_range \<Rightarrow> bool" where
  "range_ok r \<longleftrightarrow> mr_start r \<le> usize_max"

lemma range_ok_le: "range_ok r \<Longrightarrow> mr_start r \<le> mr_end r"
  by (auto simp: range_ok_def mr_end_def arith_defs)

lemma overlay_merge:
  assumes "merge_non_overlapping_ranges rs base latest staged = Inr (Some m)" "\<forall>r \<in> set rs. range_ok r"
  shows "length latest = length base" "length staged = length base" "length m = length base"
    and "k < length base \<Longrightarrow> (latest ! k = base ! k \<or> staged ! k = base ! k) \<and>
      m ! k = (if staged ! k = base ! k then latest ! k else staged ! k)"
proof -
  from assms(1) have v: "merge_non_overlapping_ranges_valid rs base latest staged = Inr True"
    and m: "m = overlay_ranges rs staged latest"
    by (auto simp: merge_non_overlapping_ranges_def split: sum.splits bool.splits)
  from v have len: "length latest = length base" "length staged = length base"
    and fit: "\<forall>r \<in> set rs. mr_end r \<le> length base"
    and gaps: "gaps_unchanged base staged 0 (sort_key mr_start rs) = Inr True"
    and same: "\<forall>r \<in> set rs. segment latest (mr_start r) (mr_end r) = segment base (mr_start r) (mr_end r)"
    by (auto simp: merge_non_overlapping_ranges_valid_def list_ex_iff list_all_iff not_less
        split: if_splits sum.splits bool.splits)
  have le: "\<forall>r \<in> set rs. mr_start r \<le> mr_end r" using assms(2) range_ok_le by blast
  show "length latest = length base" "length staged = length base" by fact+
  have ov: "length m = length staged"
    "\<forall>k < length staged. m ! k = (if touched rs k then staged ! k else latest ! k)"
    using overlay_ranges_nth [of latest staged rs] le fit len m by auto
  then show "length m = length base" using len by simp
  assume k: "k < length base"
  have in_range: "latest ! k = base ! k" if "touched rs k"
  proof -
    from that obtain r where r: "r \<in> set rs" "mr_start r \<le> k" "k < mr_end r" by (auto simp: touched_def)
    from segment_eqD [OF same [rule_format, OF r(1)] r(2,3)] fit r(1) len show ?thesis by simp
  qed
  have "staged ! k = base ! k" if "\<not> touched rs k"
    using gaps_unchanged_True [OF gaps len(2), of k] fit le k that by simp
  with in_range ov(2) k len show "(latest ! k = base ! k \<or> staged ! k = base ! k) \<and>
      m ! k = (if staged ! k = base ! k then latest ! k else staged ! k)" by auto
qed


section \<open>The bitmap merges\<close>

definition bits_of :: "bytes \<Rightarrow> nat \<Rightarrow> bool option" where
  "bits_of xs i = (if i < 8 * length xs then Some (bit (xs ! (i div 8)) (i mod 8)) else None)"

lemma bits_of_eqD: "bits_of xs = bits_of ys \<Longrightarrow> xs = ys"
proof -
  assume eq: "bits_of xs = bits_of ys"
  have len: "length xs = length ys"
  proof (rule ccontr)
    assume "length xs \<noteq> length ys"
    then have "bits_of xs (8 * min (length xs) (length ys)) \<noteq> bits_of ys (8 * min (length xs) (length ys))"
      by (auto simp: bits_of_def min_def)
    with eq show False by simp
  qed
  have "xs ! k = ys ! k" if "k < length xs" for k
  proof (rule bit_word_eqI)
    fix n assume "n < LENGTH(8)"
    then have "(8 * k + n) div 8 = k" "(8 * k + n) mod 8 = n" "8 * k + n < 8 * length xs" using that by auto
    moreover have "bits_of xs (8 * k + n) = bits_of ys (8 * k + n)" by (simp add: eq)
    ultimately show "bit (xs ! k) n = bit (ys ! k) n" using len unfolding bits_of_def by simp
  qed
  with len show "xs = ys" by (simp add: nth_equalityI)
qed

lemma bits_of_div [simp]: "i < 8 * n \<Longrightarrow> i div 8 < (n :: nat)"
  by auto

lemma delta_valid_iff:
  assumes "length latest = length base" "length staged = length base"
  shows "bitmap_delta_merge_valid base latest staged \<longleftrightarrow>
    (\<forall>i < 8 * length base. bits_of latest i = bits_of base i \<or> bits_of staged i = bits_of base i)"
proof -
  have byte: "(l XOR b) AND (s XOR b) = 0 \<longleftrightarrow> (\<forall>n < 8. bit l n = bit b n \<or> bit s n = bit b n)" for l b s :: u8
    by (auto simp: bit_eq_iff bit_and_iff bit_xor_iff)
  have "bitmap_delta_merge_valid base latest staged \<longleftrightarrow>
      (\<forall>k < length base. (latest ! k XOR base ! k) AND (staged ! k XOR base ! k) = 0)"
    using assms by (auto simp: bitmap_delta_merge_valid_def list_all_length)
  also have "\<dots> \<longleftrightarrow> (\<forall>i < 8 * length base. bits_of latest i = bits_of base i \<or> bits_of staged i = bits_of base i)"
  proof
    assume L: "\<forall>k < length base. (latest ! k XOR base ! k) AND (staged ! k XOR base ! k) = 0"
    show "\<forall>i < 8 * length base. bits_of latest i = bits_of base i \<or> bits_of staged i = bits_of base i"
      using L assms unfolding byte by (auto simp: bits_of_def)
  next
    assume R: "\<forall>i < 8 * length base. bits_of latest i = bits_of base i \<or> bits_of staged i = bits_of base i"
    show "\<forall>k < length base. (latest ! k XOR base ! k) AND (staged ! k XOR base ! k) = 0"
      unfolding byte
    proof (intro allI impI)
      fix k n :: nat assume "k < length base" "n < 8"
      then have "(8 * k + n) div 8 = k" "(8 * k + n) mod 8 = n" "8 * k + n < 8 * length base" by auto
      with R [rule_format, of "8 * k + n"] assms show "bit (latest ! k) n = bit (base ! k) n \<or> bit (staged ! k) n = bit (base ! k) n"
        by (simp add: bits_of_def)
    qed
  qed
  finally show ?thesis .
qed


lemma or_valid_iff:
  "bitmap_or_merge_valid base latest staged \<longleftrightarrow>
     bitmap_delta_merge_valid base latest staged \<and>
     (\<forall>k < length base. base ! k AND NOT (latest ! k) = 0 \<and> base ! k AND NOT (staged ! k) = 0)"
proof -
  have "(l AND NOT b) AND (s AND NOT b) = 0 \<longleftrightarrow> (l XOR b) AND (s XOR b) = 0"
    if "b AND NOT l = 0" "b AND NOT s = 0" for l b s :: u8
    using that by (auto simp: bit_eq_iff bit_and_iff bit_xor_iff bit_not_iff)
  then show ?thesis
    by (auto simp: bitmap_or_merge_valid_def bitmap_delta_merge_valid_def list_all_length split: if_splits)
qed

lemma delta_valid_lengths:
  "bitmap_delta_merge_valid base latest staged \<Longrightarrow> length latest = length base \<and> length staged = length base"
  by (auto simp: bitmap_delta_merge_valid_def split: if_splits)

lemma delta_bits:
  assumes "length latest = length base" "length staged = length base"
    and "\<forall>i < 8 * length base. bits_of latest i = bits_of base i \<or> bits_of staged i = bits_of base i"
  shows "bits_of (map (\<lambda>((m, b), s). m XOR (b XOR s)) (zip (zip latest base) staged)) i =
    (if bits_of staged i = bits_of base i then bits_of latest i else bits_of staged i)"
proof (cases "i < 8 * length base")
  case True
  with assms(3) have "bits_of latest i = bits_of base i \<or> bits_of staged i = bits_of base i" by blast
  with True assms(1,2) show ?thesis by (auto simp: bits_of_def bit_xor_iff)
next
  case False
  with assms show ?thesis by (simp add: bits_of_def)
qed

lemma or_eq_delta:
  assumes "bitmap_or_merge_valid base latest staged"
  shows "map (\<lambda>(m, s). m OR s) (zip latest staged)
    = map (\<lambda>((m, b), s). m XOR (b XOR s)) (zip (zip latest base) staged)"
proof -
  from assms have d: "bitmap_delta_merge_valid base latest staged" and
    m: "\<forall>k < length base. base ! k AND NOT (latest ! k) = 0 \<and> base ! k AND NOT (staged ! k) = 0"
    by (simp_all add: or_valid_iff)
  note len = delta_valid_lengths [OF d]
  have byte: "l OR s = l XOR (b XOR s)" if "b AND NOT l = 0" "b AND NOT s = 0" "(l XOR b) AND (s XOR b) = 0"
    for l b s :: u8
    using that by (auto simp: bit_eq_iff bit_and_iff bit_or_iff bit_xor_iff bit_not_iff)
  have "\<forall>k < length base. (latest ! k XOR base ! k) AND (staged ! k XOR base ! k) = 0"
    using d len by (auto simp: bitmap_delta_merge_valid_def list_all_length)
  with m len byte show ?thesis by (intro nth_equalityI) auto
qed

section \<open>The law, interpreted\<close>

definition bytes_of :: "bytes \<Rightarrow> nat \<Rightarrow> u8 option" where
  "bytes_of xs i = (if i < length xs then Some (xs ! i) else None)"

definition overlay_merge_fun :: "merge_byte_range list \<Rightarrow> bytes \<Rightarrow> bytes \<Rightarrow> bytes \<Rightarrow> bytes option" where
  "overlay_merge_fun rs base latest staged =
     (if \<forall>r \<in> set rs. range_ok r
      then case merge_non_overlapping_ranges rs base latest staged of Inl _ \<Rightarrow> None | Inr r \<Rightarrow> r
      else None)"

interpretation overlay: three_way_merge bytes_of "overlay_merge_fun rs" for rs
proof (unfold_locales, goal_cases)
  case (1 base latest staged m i)
  then have "merge_non_overlapping_ranges rs base latest staged = Inr (Some m)" "\<forall>r \<in> set rs. range_ok r"
    by (auto simp: overlay_merge_fun_def split: if_splits sum.splits)
  from overlay_merge [OF this] show ?case by (auto simp: bytes_of_def)
next
  case (2 base latest staged m i)
  then have "merge_non_overlapping_ranges rs base latest staged = Inr (Some m)" "\<forall>r \<in> set rs. range_ok r"
    by (auto simp: overlay_merge_fun_def split: if_splits sum.splits)
  from overlay_merge [OF this] show ?case by (auto simp: bytes_of_def)
qed

definition bitmap_merge_fun :: "merge_proof \<Rightarrow> bytes \<Rightarrow> bytes \<Rightarrow> bytes \<Rightarrow> bytes option" where
  "bitmap_merge_fun p base latest staged =
     (if p = BitmapOr \<or> p = BitmapDelta
      then case merge_bytes p base latest staged of Inl _ \<Rightarrow> None | Inr r \<Rightarrow> r else None)"

lemma bitmap_merge_delta:
  assumes "bitmap_merge_fun p base latest staged = Some m"
  shows "bitmap_delta_merge_valid base latest staged"
    and "m = map (\<lambda>((m, b), s). m XOR (b XOR s)) (zip (zip latest base) staged)"
  using assms or_eq_delta [of base latest staged]
  by (auto simp: bitmap_merge_fun_def or_valid_iff split: if_splits)

interpretation bitmap: three_way_merge bits_of "bitmap_merge_fun p" for p
proof (unfold_locales, goal_cases)
  case (1 base latest staged m i)
  note d = bitmap_merge_delta [OF 1]
  note len = delta_valid_lengths [OF d(1)]
  with d(1) delta_valid_iff [of latest base staged] show ?case
    by (cases "i < 8 * length base") (auto simp: bits_of_def)
next
  case (2 base latest staged m i)
  note d = bitmap_merge_delta [OF 2]
  note len = delta_valid_lengths [OF d(1)]
  with d delta_valid_iff [of latest base staged] delta_bits [of latest base staged i] show ?case by simp
qed

lemma bits_of_bytes_of:
  "bits_of xs i = map_option (\<lambda>b. bit b (i mod 8)) (bytes_of xs (i div 8))"
  by (auto simp: bits_of_def bytes_of_def)


fun proof_ranges :: "merge_proof \<Rightarrow> merge_byte_range list" where
  "proof_ranges (IndependentKeys rs) = rs"
| "proof_ranges (NonOverlappingExtents rs) = rs"
| "proof_ranges (TimestampOnlyInode rs) = rs"
| "proof_ranges _ = []"

lemma merge_bits:
  assumes "merge_bytes p base latest staged = Inr (Some m)" "mechanism p \<noteq> MechAppendOnly"
    and "\<forall>r \<in> set (proof_ranges p). range_ok r"
  shows "bits_of latest i = bits_of base i \<or> bits_of staged i = bits_of base i"
    and "bits_of m i = (if bits_of staged i = bits_of base i then bits_of latest i else bits_of staged i)"
proof -
  have "(bits_of latest i = bits_of base i \<or> bits_of staged i = bits_of base i) \<and>
    bits_of m i = (if bits_of staged i = bits_of base i then bits_of latest i else bits_of staged i)"
  proof (cases "mechanism p = MechRangeOverlay")
    case True
    with assms have o: "overlay_merge_fun (proof_ranges p) base latest staged = Some m"
      by (cases p) (simp_all add: overlay_merge_fun_def)
    show ?thesis
      using overlay.one_writer [OF o, of "i div 8"] overlay.takes_change [OF o, of "i div 8"]
      by (auto simp: bits_of_bytes_of)
  next
    case False
    with assms(1,2) have b: "bitmap_merge_fun p base latest staged = Some m"
      by (cases p) (simp_all add: bitmap_merge_fun_def)
    show ?thesis using bitmap.one_writer [OF b, of i] bitmap.takes_change [OF b, of i] by auto
  qed
  then show "bits_of latest i = bits_of base i \<or> bits_of staged i = bits_of base i"
    "bits_of m i = (if bits_of staged i = bits_of base i then bits_of latest i else bits_of staged i)" by auto
qed

section \<open>Coalescing\<close>

definition no_saturation :: "merge_byte_range \<Rightarrow> bool" where
  "no_saturation r \<longleftrightarrow> mr_start r + mr_len r \<le> usize_max"

lemma no_saturation_end: "no_saturation r \<Longrightarrow> mr_end r = mr_start r + mr_len r"
  by (simp add: no_saturation_def mr_end_def arith_defs)

definition separated :: "merge_byte_range list \<Rightarrow> bool" where
  "separated rs \<longleftrightarrow> sorted_wrt (\<lambda>a b. mr_end a < mr_start b) rs"

lemma coalesce_loop_spec:
  assumes "\<forall>r \<in> set (prev # rs). no_saturation r" "sorted (map mr_start (prev # rs))"
  shows "(\<forall>k. touched (coalesce_loop prev rs) k \<longleftrightarrow> touched (prev # rs) k) \<and>
    separated (coalesce_loop prev rs) \<and> (\<forall>r \<in> set (coalesce_loop prev rs). mr_start prev \<le> mr_start r)"
  using assms
proof (induction prev rs rule: coalesce_loop.induct)
  case (2 prev current rs)
  show ?case
  proof (cases "mr_start current \<le> mr_end prev")
    case True
    let ?p = "prev\<lparr>mr_len := max (mr_end prev) (mr_end current) - mr_start prev\<rparr>"
    have e: "mr_end prev = mr_start prev + mr_len prev" "mr_end current = mr_start current + mr_len current"
      using "2.prems"(1) by (simp_all add: no_saturation_end)
    have sat: "no_saturation ?p" using "2.prems"(1) e by (simp add: no_saturation_def)
    then have pe: "mr_end ?p = max (mr_end prev) (mr_end current)"
      using e by (simp add: no_saturation_end)
    have "sorted (map mr_start (?p # rs))" using "2.prems"(2) by auto
    with "2.IH"(1) [OF True] "2.prems"(1) sat
    have IH: "\<forall>k. touched (coalesce_loop ?p rs) k \<longleftrightarrow> touched (?p # rs) k"
      "separated (coalesce_loop ?p rs)" "\<forall>r \<in> set (coalesce_loop ?p rs). mr_start ?p \<le> mr_start r" by simp_all
    have "touched (?p # rs) k \<longleftrightarrow> touched (prev # current # rs) k" for k
      using pe True "2.prems"(2) e by auto
    with IH True show ?thesis by simp
  next
    case False
    with "2.IH"(2) "2.prems" have IH: "\<forall>k. touched (coalesce_loop current rs) k \<longleftrightarrow> touched (current # rs) k"
      "separated (coalesce_loop current rs)" "\<forall>r \<in> set (coalesce_loop current rs). mr_start current \<le> mr_start r"
      by simp_all
    have "mr_start prev \<le> mr_start current" using "2.prems"(2) by simp
    with IH False show ?thesis by (fastforce simp: separated_def)
  qed
qed (simp add: separated_def)

lemma coalesce_spec:
  assumes "\<forall>r \<in> set rs. no_saturation r"
  shows "touched (coalesce_byte_ranges rs) k \<longleftrightarrow> touched rs k" "separated (coalesce_byte_ranges rs)"
proof -
  have sorted: "sorted (map mr_start (by_start_end rs))" and set: "set (by_start_end rs) = set rs"
    by (simp_all add: by_start_end_def)
  have "(touched (coalesce_byte_ranges rs) k \<longleftrightarrow> touched rs k) \<and> separated (coalesce_byte_ranges rs)"
  proof (cases "length rs \<le> 1")
    case True
    then show ?thesis by (cases rs) (auto simp: coalesce_byte_ranges_def separated_def)
  next
    case False
    then obtain r rs' where r: "by_start_end rs = r # rs'" using set by (cases "by_start_end rs") auto
    have "touched (r # rs') k \<longleftrightarrow> touched rs k" using set r by (auto simp: touched_def)
    moreover have "\<forall>x \<in> set (r # rs'). no_saturation x" using assms set r by auto
    ultimately show ?thesis using coalesce_loop_spec [of r rs'] sorted r False
      by (simp add: coalesce_byte_ranges_def)
  qed
  then show "touched (coalesce_byte_ranges rs) k \<longleftrightarrow> touched rs k" "separated (coalesce_byte_ranges rs)" by auto
qed

section \<open>Properties\<close>

text \<open>
  C18: a successful same-block merge keeps both writers. For every range-overlay and bitmap
  proof, at each bit at most one of the two writers changed the base, and the merged block
  carries that change; bits neither writer changed stay as in the base. For an append-only proof
  both writers kept the declared prefix of the base, and the merged block is the whole block of the
  committed writer followed by all that the staged writer appended.
\<close>

theorem merge_keeps_both_writers:
  assumes "merge_bytes p base latest staged = Inr (Some m)" "\<forall>r \<in> set (proof_ranges p). range_ok r"
  shows "case p of
      AppendOnly n \<Rightarrow>
        n \<le> length base \<and> take n latest = take n base \<and> take n staged = take n base \<and>
        length m = length latest + (length staged - n) \<and>
        take (length latest) m = latest \<and> drop (length latest) m = drop n staged
    | _ \<Rightarrow>
        (bits_of latest i = bits_of base i \<or> bits_of staged i = bits_of base i) \<and>
        (bits_of staged i \<noteq> bits_of base i \<longrightarrow> bits_of m i = bits_of staged i) \<and>
        (bits_of latest i \<noteq> bits_of base i \<longrightarrow> bits_of m i = bits_of latest i) \<and>
        (bits_of latest i = bits_of base i \<and> bits_of staged i = bits_of base i \<longrightarrow> bits_of m i = bits_of base i)"
proof (cases "mechanism p = MechAppendOnly")
  case True
  then obtain n where "p = AppendOnly n" by (cases p) auto
  with assms(1) show ?thesis by (auto simp: append_only_merge_valid_def Let_def split: if_splits)
next
  case False
  from merge_bits [OF assms(1) False assms(2), of i] False show ?thesis by (cases p) auto
qed

theorem merge_keeps_both_writers_witness:
  "merge_bytes BitmapDelta [0x0F] [0x1F] [0x0E] = Inr (Some [0x1E]) \<and> bits_of [0x1E] 4 = bits_of [0x1F] 4
    \<and> bits_of [0x1E] 0 = bits_of [0x0E] 0
    \<and> merge_bytes (AppendOnly 1) [1] [1, 2] [1, 3] = Inr (Some [1, 2, 3]) \<and> take 2 [1, 2, 3 :: u8] = [1, 2]"
proof -
  have m: "merge_bytes BitmapDelta [0x0F] [0x1F] [0x0E] = Inr (Some [0x1E])"
    by (simp add: bitmap_delta_merge_valid_def)
  have a: "merge_bytes (AppendOnly 1) [1] [1, 2] [1, 3] = Inr (Some [1, 2, 3])"
    by (simp add: append_only_merge_valid_def)
  from merge_keeps_both_writers [OF m, of 4] merge_keeps_both_writers [OF m, of 0] m merge_keeps_both_writers [OF a] a
  show ?thesis by (simp add: bits_of_def)
qed

text \<open>
  C25: merging is symmetric for range overlays and bitmaps. Whichever of two transactions commits
  first, merging the other one onto its result with its own proof yields the same block. Append-only
  proofs are excepted: there the appended tails stand in the order of the commits.
\<close>

theorem merge_order_irrelevant:
  assumes "merge_bytes p base a b = Inr (Some m)" "merge_bytes q base b a = Inr (Some m')"
    and "mechanism p \<noteq> MechAppendOnly" "mechanism q \<noteq> MechAppendOnly"
    and "\<forall>r \<in> set (proof_ranges p @ proof_ranges q). range_ok r"
  shows "m = m'"
proof (rule bits_of_eqD, rule ext)
  fix i
  show "bits_of m i = bits_of m' i"
    using merge_bits [OF assms(1,3), of i] merge_bits(2) [OF assms(2,4), of i] assms(5) by auto
qed

theorem merge_order_irrelevant_witness:
  "\<exists>m. merge_bytes (IndependentKeys [range_new 0 1]) [0, 0] [0, 7] [5, 0] = Inr (Some m) \<and>
       merge_bytes (IndependentKeys [range_new 1 1]) [0, 0] [5, 0] [0, 7] = Inr (Some m)"
proof -
  have l: "merge_bytes (IndependentKeys [range_new 0 1]) [0, 0] [0, 7] [5, 0] = Inr (Some [5, 7])"
    and r: "merge_bytes (IndependentKeys [range_new 1 1]) [0, 0] [5, 0] [0, 7] = Inr (Some [5, 7])"
    by (simp_all add: merge_non_overlapping_ranges_def merge_non_overlapping_ranges_valid_def range_new_def
        mr_end_def arith_defs usize_max_def segment_def overlay_ranges_def blit_def)
  from merge_order_irrelevant [OF l r] l r show ?thesis by (simp add: range_ok_def range_new_def usize_max_def)
qed

text \<open>
  C26: the bitmap merge is as permissive as it can be: \<open>BitmapDelta\<close> succeeds exactly when the
  blocks have one length and no bit was changed by both writers, and \<open>BitmapOr\<close> exactly when in
  addition no writer cleared a bit of the base; when both succeed they agree.
\<close>

theorem bitmap_merge_complete:
  "(\<exists>m. merge_bytes BitmapDelta base latest staged = Inr (Some m)) =
     (length latest = length base \<and> length staged = length base \<and>
      (\<forall>i < 8 * length base. bits_of latest i = bits_of base i \<or> bits_of staged i = bits_of base i)) \<and>
   (\<forall>m. (merge_bytes BitmapOr base latest staged = Inr (Some m)) =
     (merge_bytes BitmapDelta base latest staged = Inr (Some m) \<and>
      (\<forall>k < length base. base ! k AND NOT (latest ! k) = 0 \<and> base ! k AND NOT (staged ! k) = 0)))"
  using delta_valid_iff [of latest base staged] delta_valid_lengths [of base latest staged]
    or_eq_delta [of base latest staged] or_valid_iff [of base latest staged]
  by auto

theorem bitmap_merge_complete_witness:
  "merge_bytes BitmapOr [0] [1] [2] = Inr (Some [3]) \<and> merge_bytes BitmapDelta [0] [1] [2] = Inr (Some [3])"
  using bitmap_merge_complete [of "[0]" "[1]" "[2]"]
  by (simp add: bitmap_or_merge_valid_def bitmap_delta_merge_valid_def)

text \<open>
  C28: coalescing the byte ranges of repeated writes keeps exactly the bytes they cover and
  yields ranges that are sorted, non-adjacent and hence pairwise disjoint, provided no range
  reaches past \<open>usize::MAX\<close>.
\<close>

theorem coalesce_exact:
  assumes "\<forall>r \<in> set rs. no_saturation r"
  shows "(\<forall>k. touched (coalesce_byte_ranges rs) k = touched rs k) \<and> separated (coalesce_byte_ranges rs)"
  using coalesce_spec [OF assms] by blast

theorem coalesce_exact_witness:
  "separated (coalesce_byte_ranges [range_new 8 4, range_new 0 4, range_new 4 2])"
  using coalesce_exact [of "[range_new 8 4, range_new 0 4, range_new 4 2]"]
  by (simp add: no_saturation_def range_new_def usize_max_def)

end
