(* ===== verification/Txn_Law.thy ===== *)
theory Txn_Law
  imports Mvcc_Txn Merge_Law
begin

text \<open>
  Staging keeps the write vector sorted, so that the binary searches of a transaction implement
  a map from blocks to staged writes; and the detection of dangerous structures finds one
  exactly when two concurrent rw-antidependencies meet in the committing transaction.
\<close>

section \<open>Binary search on strictly sorted keys\<close>

definition search_base :: "('a \<Rightarrow> 'k::linorder) \<Rightarrow> 'k \<Rightarrow> 'a list \<Rightarrow> nat" where
  "search_base key k xs = bs_loop (\<lambda>x. cmp_key (key x) k) xs 0 (length xs)"

lemma cmp_key_simps:
  "cmp_key a b = Greater \<longleftrightarrow> b < a" "cmp_key a b = Equal \<longleftrightarrow> a = b" "cmp_key a b = Less \<longleftrightarrow> a < b"
  by (auto simp: cmp_key_def)

lemma search_base_spec:
  assumes "sorted_wrt (<) (map key xs)" "xs \<noteq> []"
  shows "search_base key k xs < length xs"
    and "search_base key k xs = 0 \<or> \<not> k < key (xs ! search_base key k xs)"
    and "search_base key k xs < j \<Longrightarrow> j < length xs \<Longrightarrow> k < key (xs ! j)"
    and "j < search_base key k xs \<Longrightarrow> key (xs ! j) < key (xs ! search_base key k xs)"
proof -
  let ?f = "\<lambda>x. cmp_key (key x) k" and ?r = "search_base key k xs"
  have mono: "key (xs ! i) < key (xs ! j)" if "i < j" "j < length xs" for i j
    using assms(1) that by (simp add: sorted_wrt_iff_nth_less)
  show r: "?r < length xs"
    using bs_loop_bound [of "length xs" 0 xs ?f] assms(2) by (simp add: search_base_def)
  have up: "?f (xs ! j) = Greater" if "i < j" "j < length xs" "?f (xs ! i) = Greater" for i j
    using less_trans [OF _ mono [OF that(1,2)]] that(3) by (simp only: cmp_key_simps)
  have "(?r = 0 \<or> ?f (xs ! ?r) \<noteq> Greater) \<and> (\<forall>i. ?r < i \<and> i < length xs \<longrightarrow> ?f (xs ! i) = Greater)"
    unfolding search_base_def by (rule bs_loop_spec) (use assms(2) up in auto)
  then show "?r = 0 \<or> \<not> k < key (xs ! ?r)" "?r < j \<Longrightarrow> j < length xs \<Longrightarrow> k < key (xs ! j)"
    by (simp_all only: cmp_key_simps)
  show "j < ?r \<Longrightarrow> key (xs ! j) < key (xs ! ?r)" using mono r by simp
qed

lemma binary_search_cases:
  "binary_search_by (\<lambda>x. cmp_key (key x) k) xs =
     (if xs = [] then Inl 0
      else let r = search_base key k xs
           in if key (xs ! r) = k then Inr r else if key (xs ! r) < k then Inl (r + 1) else Inl r)"
proof -
  let ?r = "search_base key k xs"
  consider "key (xs ! ?r) < k" "cmp_key (key (xs ! ?r)) k = Less"
    | "key (xs ! ?r) = k" "cmp_key (key (xs ! ?r)) k = Equal"
    | "k < key (xs ! ?r)" "cmp_key (key (xs ! ?r)) k = Greater"
    by (metis cmp_key_simps linorder_less_linear)
  then show ?thesis
    unfolding binary_search_by_def Let_def search_base_def [symmetric] by cases auto
qed

lemma binary_search_Inl:
  assumes "binary_search_by (\<lambda>x. cmp_key (key x) k) xs = Inl i"
  obtains "xs = []" "i = 0" | "xs \<noteq> []" "key (xs ! search_base key k xs) < k" "i = search_base key k xs + 1"
    | "xs \<noteq> []" "k < key (xs ! search_base key k xs)" "i = search_base key k xs"
proof -
  define r where "r = search_base key k xs"
  define y where "y = key (xs ! r)"
  have "(if xs = [] then Inl 0 else if y = k then Inr r else if y < k then Inl (r + 1) else Inl r) = Inl i"
    using assms unfolding binary_search_cases [of key k xs] Let_def r_def [symmetric] y_def [symmetric] .
  then have "(xs = [] \<and> i = 0) \<or> (xs \<noteq> [] \<and> y < k \<and> i = r + 1) \<or> (xs \<noteq> [] \<and> k < y \<and> i = r)"
    by (auto split: if_split_asm)
  with that show thesis unfolding r_def [symmetric] y_def [symmetric] by argo
qed

lemma binary_search_found:
  assumes "sorted_wrt (<) (map key xs)" "binary_search_by (\<lambda>x. cmp_key (key x) k) xs = Inr i"
  shows "i < length xs \<and> key (xs ! i) = k"
proof -
  let ?r = "search_base key k xs"
  have "xs \<noteq> []" "key (xs ! ?r) = k" "i = ?r"
    using assms(2) unfolding binary_search_cases [of key k xs] Let_def by (simp_all split: if_split_asm)
  then show ?thesis using search_base_spec(1) [OF assms(1), of k] by simp
qed

lemma binary_search_absent:
  assumes "sorted_wrt (<) (map key xs)" "binary_search_by (\<lambda>x. cmp_key (key x) k) xs = Inl i"
  shows "j < i \<Longrightarrow> key (xs ! j) < k" "i \<le> j \<Longrightarrow> j < length xs \<Longrightarrow> k < key (xs ! j)" "i \<le> length xs"
proof -
  let ?r = "search_base key k xs"
  consider (empty) "xs = []" "i = 0" | (below) "xs \<noteq> []" "key (xs ! ?r) < k" "i = ?r + 1"
    | (above) "xs \<noteq> []" "k < key (xs ! ?r)" "i = ?r"
    using assms(2) by (rule binary_search_Inl)
  then have "(j < i \<longrightarrow> key (xs ! j) < k) \<and> (i \<le> j \<and> j < length xs \<longrightarrow> k < key (xs ! j)) \<and> i \<le> length xs"
  proof cases
    case below
    note s = search_base_spec [OF assms(1) below(1), where k = k]
    have "key (xs ! j) < k" if "j < ?r" using s(4) [OF that] below(2) by (rule less_trans)
    with below s(1) s(3) [of j] show ?thesis by (auto simp: less_Suc_eq)
  next
    case above
    note s = search_base_spec [OF assms(1) above(1), where k = k]
    from s(2) above have "?r = 0" by simp
    with above s(3) [of j] show ?thesis by (cases "j = 0") simp_all
  qed simp
  then show "j < i \<Longrightarrow> key (xs ! j) < k" "i \<le> j \<Longrightarrow> j < length xs \<Longrightarrow> k < key (xs ! j)" "i \<le> length xs"
    by simp_all
qed

lemma bt_insert_split:
  assumes "\<forall>x \<in> set xs. fst x < k" "\<forall>y \<in> set ys. k < fst y"
  shows "bt_insert k v (xs @ ys) = xs @ (k, v) # ys" "bt_insert k v (xs @ (k, w) # ys) = xs @ (k, v) # ys"
proof -
  have "bt_insert k v (xs @ zs) = xs @ bt_insert k v zs" if "\<forall>x \<in> set xs. fst x < k" for zs
    using that by (induction xs) (auto simp: not_less_iff_gr_or_eq)
  moreover have "bt_insert k v ys = (k, v) # ys" using assms(2) by (cases ys) auto
  ultimately show "bt_insert k v (xs @ ys) = xs @ (k, v) # ys" "bt_insert k v (xs @ (k, w) # ys) = xs @ (k, v) # ys"
    using assms(1) by simp_all
qed

section \<open>Staging\<close>

lemma staged_pos_found:
  assumes "bt_inv ws" "staged_write_pos ws block = Inr i"
  shows "i < length ws" "fst (ws ! i) = block" "bt_get ws block = Some (snd (ws ! i))"
proof -
  show i: "i < length ws" "fst (ws ! i) = block"
    using binary_search_found [of fst ws block i] assms by (simp_all add: bt_inv_def staged_write_pos_def)
  then have "(block, snd (ws ! i)) \<in> set ws" by (metis nth_mem prod.collapse)
  then show "bt_get ws block = Some (snd (ws ! i))" using assms(1) by (simp add: bt_mem_iff_get)
qed

lemma staged_pos_absent:
  assumes "bt_inv ws" "staged_write_pos ws block = Inl i"
  shows "\<forall>x \<in> set (take i ws). fst x < block" "\<forall>x \<in> set (drop i ws). block < fst x" "bt_get ws block = None"
proof -
  show i: "\<forall>x \<in> set (take i ws). fst x < block" "\<forall>x \<in> set (drop i ws). block < fst x"
    using binary_search_absent [of fst ws block i] assms
    by (simp_all add: bt_inv_def staged_write_pos_def all_set_conv_all_nth)
  have "set ws = set (take i ws) \<union> set (drop i ws)" by (metis append_take_drop_id set_append)
  with i show "bt_get ws block = None" by (auto simp: map_of_eq_None_iff)
qed

lemma staged_lookup_get:
  "bt_inv (txn_staged txn) \<Longrightarrow> staged_lookup txn block = bt_get (txn_staged txn) block"
  using staged_pos_found(3) [of "txn_staged txn" block] staged_pos_absent(3) [of "txn_staged txn" block]
  by (cases "staged_write_pos (txn_staged txn) block") (simp_all add: staged_lookup_def)

lemma write_set_contains_iff:
  "bt_inv ws \<Longrightarrow> write_set_contains ws block \<longleftrightarrow> block \<in> fst ` set ws"
  using staged_pos_found(3) [of ws block] staged_pos_absent(3) [of ws block] bt_get_None_iff [of ws block]
  by (cases "staged_write_pos ws block") (simp_all add: write_set_contains_def)

definition restaged :: "staged_write option \<Rightarrow> staged_write \<Rightarrow> staged_write" where
  "restaged previous staged = (case previous of None \<Rightarrow> staged | Some p \<Rightarrow> restage p staged)"

lemma insert_staged_is_map_insert:
  assumes "bt_inv (txn_staged txn)"
  shows "insert_staged_write txn block staged =
    txn\<lparr>txn_staged := bt_insert block (restaged (bt_get (txn_staged txn) block) staged) (txn_staged txn)\<rparr>"
proof (cases "staged_write_pos (txn_staged txn) block")
  case (Inl i)
  let ?ws = "txn_staged txn"
  note a = staged_pos_absent [OF assms Inl]
  have "bt_insert block staged (take i ?ws @ drop i ?ws) = take i ?ws @ (block, staged) # drop i ?ws"
    by (rule bt_insert_split(1) [OF a(1,2)])
  with Inl a(3) show ?thesis by (simp add: insert_staged_write_def restaged_def)
next
  case (Inr i)
  let ?ws = "txn_staged txn" and ?s = "restage (snd (txn_staged txn ! i)) staged"
  note f = staged_pos_found [OF assms Inr]
  have mono: "a < b \<Longrightarrow> b < length ?ws \<Longrightarrow> fst (?ws ! a) < fst (?ws ! b)" for a b
    using assms by (simp add: bt_inv_def sorted_wrt_iff_nth_less)
  have ws: "?ws = take i ?ws @ (block, snd (?ws ! i)) # drop (Suc i) ?ws"
    using f(1,2) id_take_nth_drop [of i ?ws] by (metis prod.collapse)
  have "\<forall>x \<in> set (take i ?ws). fst x < block" "\<forall>x \<in> set (drop (Suc i) ?ws). block < fst x"
    using mono f(1,2) by (auto simp: all_set_conv_all_nth simp flip: f(2))
  then have "bt_insert block ?s (take i ?ws @ (block, snd (?ws ! i)) # drop (Suc i) ?ws)
      = take i ?ws @ (block, ?s) # drop (Suc i) ?ws"
    by (rule bt_insert_split(2))
  then have "bt_insert block ?s ?ws = ?ws[i := (block, ?s)]"
    using ws f(1) by (simp add: upd_conv_take_nth_drop)
  with Inr f(3) show ?thesis by (simp add: insert_staged_write_def restaged_def)
qed

lemma bt_inv_insert_staged:
  "bt_inv (txn_staged txn) \<Longrightarrow> bt_inv (txn_staged (insert_staged_write txn block staged))"
  by (simp add: insert_staged_is_map_insert bt_inv_insert)

lemma restage_bytes [simp]: "sw_bytes (restage p s) = sw_bytes s"
  by (auto simp: restage_def Let_def split: option.splits)

lemma restaged_bytes [simp]: "sw_bytes (restaged p s) = sw_bytes s"
  by (simp add: restaged_def split: option.splits)

section \<open>Antidependency edges\<close>

lemma find_map_None: "find_map f xs = None \<longleftrightarrow> (\<forall>x \<in> set xs. f x = None)"
  by (induction xs) (auto split: option.splits)

lemma find_map_Some:
  assumes "find_map f xs = Some y"
  obtains pre x post where "xs = pre @ x # post" "f x = Some y" "\<forall>z \<in> set pre. f z = None"
  using assms
proof (induction xs arbitrary: thesis)
  case (Cons a xs)
  show ?case
  proof (cases "f a")
    case None
    with Cons.prems(2) have "find_map f xs = Some y" by simp
    then obtain pre x post where "xs = pre @ x # post" "f x = Some y" "\<forall>z \<in> set pre. f z = None"
      by (rule Cons.IH [rotated])
    with None Cons.prems(1) [of "a # pre" x post] show ?thesis by simp
  next
    case (Some b)
    with Cons.prems(2) Cons.prems(1) [of "[]" a xs] show ?thesis by simp
  qed
qed simp

text \<open>Of a strictly sorted list, \<open>find_map\<close> with a key-indexed choice finds the least key.\<close>

lemma find_map_least:
  assumes "sorted_wrt (<) (map key xs)" and choice: "\<And>x. x \<in> set xs \<Longrightarrow> f x = (if key x \<in> K then Some (g (key x)) else None)"
  shows "find_map f xs = (if key ` set xs \<inter> K = {} then None else Some (g (Min (key ` set xs \<inter> K))))"
proof (cases "find_map f xs")
  case None
  then have "\<forall>x \<in> set xs. key x \<notin> K" using choice by (auto simp: find_map_None split: if_splits)
  with None show ?thesis by auto
next
  case (Some y)
  then obtain pre x post where s: "xs = pre @ x # post" "f x = Some y" "\<forall>z \<in> set pre. f z = None"
    by (rule find_map_Some)
  then have x: "key x \<in> K" "y = g (key x)" using choice [of x] by (auto split: if_splits)
  have pre: "\<forall>z \<in> set pre. key z \<notin> K"
  proof
    fix z assume "z \<in> set pre"
    with s choice [of z] show "key z \<notin> K" by (auto split: if_splits)
  qed
  have post: "\<forall>z \<in> set post. key x < key z" using assms(1) s(1) by (auto simp: sorted_wrt_append)
  have "Min (key ` set xs \<inter> K) = key x"
    by (rule Min_eqI) (use s(1) x(1) pre post in \<open>auto intro: less_imp_le\<close>)
  with Some x s(1) show ?thesis by auto
qed

lemma sorted_in_span:
  assumes "sorted_wrt (<) ks" "(b :: block_number) \<in> set ks" "key_span ks = Some span"
  shows "key_in_span b span"
proof -
  have s: "sorted ks" and ne: "ks \<noteq> []" using assms by (auto simp: strict_sorted_iff)
  obtain i where i: "i < length ks" "ks ! i = b" using assms(2) by (auto simp: in_set_conv_nth)
  have "ks ! 0 \<le> ks ! i" "ks ! i \<le> ks ! (length ks - 1)"
    using i s by (auto intro: sorted_nth_mono)
  then show ?thesis using assms(3) ne i by (auto simp: key_span_def key_in_span_def hd_conv_nth last_conv_nth)
qed

lemma span_guard:
  assumes "sorted_wrt (<) ks" "key_span ks = Some span"
  shows "key_in_span b span \<and> b \<in> set ks \<longleftrightarrow> b \<in> set (ks :: block_number list)"
  using sorted_in_span [OF assms(1) _ assms(2)] by auto

definition common_edge :: "(block_number \<Rightarrow> commit_seq \<Rightarrow> ssi_rw_edge) \<Rightarrow> (block_number, commit_seq) btree_map
    \<Rightarrow> block_number set \<Rightarrow> ssi_rw_edge option" where
  "common_edge mk reads writes =
     (let common = fst ` set reads \<inter> writes
      in if common = {} then None else Some (mk (Min common) (the (bt_get reads (Min common)))))"

lemma intersect_by_writes:
  assumes "bt_inv reads" "sorted_wrt (<) ws"
  shows "(case key_span (map fst reads) of None \<Rightarrow> None
          | Some span \<Rightarrow> find_map (\<lambda>b. if key_in_span b span then map_option (mk b) (bt_get reads b) else None) ws)
    = common_edge mk reads (set ws)"
proof (cases "key_span (map fst reads)")
  case None
  then show ?thesis by (simp add: key_span_def common_edge_def split: if_splits)
next
  case (Some span)
  have "find_map (\<lambda>b. if key_in_span b span then map_option (mk b) (bt_get reads b) else None) ws
      = (if (\<lambda>b. b) ` set ws \<inter> fst ` set reads = {} then None
         else Some ((\<lambda>b. mk b (the (bt_get reads b))) (Min ((\<lambda>b. b) ` set ws \<inter> fst ` set reads))))"
  proof (rule find_map_least)
    show "sorted_wrt (<) (map (\<lambda>b. b) ws)" using assms(2) by simp
    fix b assume "b \<in> set ws"
    have sp: "key_in_span b span \<and> b \<in> fst ` set reads \<longleftrightarrow> b \<in> fst ` set reads"
      using span_guard [OF _ Some, of b] assms(1) by (simp add: bt_inv_def)
    show "(if key_in_span b span then map_option (mk b) (bt_get reads b) else None)
        = (if b \<in> fst ` set reads then Some (mk b (the (bt_get reads b))) else None)"
      using sp bt_get_None_iff [of reads b] by (cases "bt_get reads b") auto
  qed
  with Some show ?thesis by (simp add: common_edge_def Int_commute)
qed

lemma intersect_by_reads:
  assumes "bt_inv reads" "sorted_wrt (<) ws" "\<And>b. contains b \<longleftrightarrow> b \<in> set ws"
  shows "(case key_span ws of None \<Rightarrow> None
          | Some span \<Rightarrow> find_map (\<lambda>(b, rv). if key_in_span b span \<and> contains b then Some (mk b rv) else None) reads)
    = common_edge mk reads (set ws)"
proof (cases "key_span ws")
  case None
  then show ?thesis by (simp add: key_span_def common_edge_def split: if_splits)
next
  case (Some span)
  have "find_map (\<lambda>(b, rv). if key_in_span b span \<and> contains b then Some (mk b rv) else None) reads
      = (if fst ` set reads \<inter> set ws = {} then None
         else Some ((\<lambda>b. mk b (the (bt_get reads b))) (Min (fst ` set reads \<inter> set ws))))"
  proof (rule find_map_least)
    show "sorted_wrt (<) (map fst reads)" using assms(1) by (simp add: bt_inv_def)
    fix x assume x: "x \<in> set reads"
    obtain b rv where xb: "x = (b, rv)" by force
    have "bt_get reads b = Some rv" using x xb bt_mem_iff_get [OF assms(1), of b rv] by simp
    moreover have "key_in_span b span \<and> contains b \<longleftrightarrow> b \<in> set ws"
      using span_guard [OF assms(2) Some, of b] assms(3) by simp
    ultimately show "(case x of (b, rv) \<Rightarrow> if key_in_span b span \<and> contains b then Some (mk b rv) else None)
        = (if fst x \<in> set ws then Some (mk (fst x) (the (bt_get reads (fst x)))) else None)"
      by (simp add: xb)
  qed
  with Some show ?thesis by (simp add: common_edge_def)
qed


definition incoming_mk :: "transaction \<Rightarrow> committed_txn_record \<Rightarrow> block_number \<Rightarrow> commit_seq \<Rightarrow> ssi_rw_edge" where
  "incoming_mk txn rec block rv =
     \<lparr>reader_txn = cr_txn_id rec, writer_txn = txn_ident txn, edge_block = block, read_version = rv,
      reader_snapshot_high = high (cr_snapshot rec), write_version = CommitSeq 0\<rparr>"

definition outgoing_mk :: "transaction \<Rightarrow> committed_txn_record \<Rightarrow> block_number \<Rightarrow> commit_seq \<Rightarrow> ssi_rw_edge" where
  "outgoing_mk txn rec block rv =
     \<lparr>reader_txn = txn_ident txn, writer_txn = cr_txn_id rec, edge_block = block, read_version = rv,
      reader_snapshot_high = high (txn_snapshot txn), write_version = cr_commit_seq rec\<rparr>"

definition record_ok :: "committed_txn_record \<Rightarrow> bool" where
  "record_ok rec \<longleftrightarrow> sorted_wrt (<) (cr_write_set rec) \<and> bt_inv (cr_read_set rec)"

definition txn_ok :: "transaction \<Rightarrow> bool" where
  "txn_ok txn \<longleftrightarrow> bt_inv (txn_staged txn) \<and> bt_inv (txn_reads txn)"

lemma incoming_edge_common:
  assumes "txn_ok txn" "record_ok rec"
  shows "ssi_incoming_edge txn rec = common_edge (incoming_mk txn rec) (cr_read_set rec) (fst ` set (txn_staged txn))"
proof -
  have inv: "bt_inv (cr_read_set rec)" "sorted_wrt (<) (map fst (txn_staged txn))" "bt_inv (txn_staged txn)"
    using assms by (simp_all add: txn_ok_def record_ok_def bt_inv_def)
  note w = intersect_by_writes [OF inv(1,2), of "incoming_mk txn rec"]
  have r: "(case key_span (map fst (txn_staged txn)) of None \<Rightarrow> None
      | Some span \<Rightarrow> find_map (\<lambda>(b, rv). if key_in_span b span \<and> write_set_contains (txn_staged txn) b
          then Some (incoming_mk txn rec b rv) else None) (cr_read_set rec))
    = common_edge (incoming_mk txn rec) (cr_read_set rec) (set (map fst (txn_staged txn)))"
    by (rule intersect_by_reads [OF inv(1,2)]) (simp add: write_set_contains_iff [OF inv(3)])
  show ?thesis
    using w r unfolding ssi_incoming_edge_def Let_def incoming_mk_def [abs_def] set_map
    by (cases "length (txn_staged txn) < length (cr_read_set rec)") (simp_all only: if_True if_False)
qed

lemma outgoing_edge_common:
  assumes "txn_ok txn" "record_ok rec"
  shows "ssi_outgoing_edge txn rec = common_edge (outgoing_mk txn rec) (txn_reads txn) (set (cr_write_set rec))"
proof -
  have inv: "bt_inv (txn_reads txn)" "sorted_wrt (<) (cr_write_set rec)"
    using assms by (simp_all add: txn_ok_def record_ok_def)
  note w = intersect_by_writes [OF inv, of "outgoing_mk txn rec"]
  note r = intersect_by_reads [OF inv refl, of "outgoing_mk txn rec"]
  show ?thesis
    using w r unfolding ssi_outgoing_edge_def Let_def outgoing_mk_def [abs_def]
    by (cases "length (cr_write_set rec) < length (txn_reads txn)") (simp_all only: if_True if_False)
qed

lemma common_edge_None: "common_edge mk reads ws = None \<longleftrightarrow> fst ` set reads \<inter> ws = {}"
  by (simp add: common_edge_def Let_def)

definition concurrent :: "transaction \<Rightarrow> committed_txn_record \<Rightarrow> bool" where
  "concurrent txn rec \<longleftrightarrow> high (txn_snapshot txn) < cr_commit_seq rec"

lemma detect_loop_finds:
  "snd (detect_loop txn checks inc outg recs) \<noteq> None \<longleftrightarrow>
     (\<exists>r \<in> set recs. concurrent txn r) \<and>
     (inc \<noteq> None \<or> (\<exists>r \<in> set recs. concurrent txn r \<and> ssi_incoming_edge txn r \<noteq> None)) \<and>
     (outg \<noteq> None \<or> (\<exists>r \<in> set recs. concurrent txn r \<and> ssi_outgoing_edge txn r \<noteq> None))"
proof (induction recs arbitrary: checks inc outg)
  case (Cons rec recs)
  show ?case
  proof (cases "concurrent txn rec")
    case False
    then have "detect_loop txn checks inc outg (rec # recs) = detect_loop txn checks inc outg recs"
      by (simp add: concurrent_def not_less)
    with Cons.IH [of checks inc outg] False show ?thesis by simp
  next
    case True
    let ?i = "case inc of None \<Rightarrow> ssi_incoming_edge txn rec | Some e \<Rightarrow> Some e"
    let ?o = "case outg of None \<Rightarrow> ssi_outgoing_edge txn rec | Some e \<Rightarrow> Some e"
    have i: "?i \<noteq> None \<longleftrightarrow> inc \<noteq> None \<or> ssi_incoming_edge txn rec \<noteq> None"
      and o: "?o \<noteq> None \<longleftrightarrow> outg \<noteq> None \<or> ssi_outgoing_edge txn rec \<noteq> None"
      by (auto split: option.splits)
    have step: "detect_loop txn checks inc outg (rec # recs) =
        (case (?i, ?o) of (Some e, Some e') \<Rightarrow> (saturating_add checks 1, Some \<lparr>incoming = e, outgoing = e'\<rparr>)
         | _ \<Rightarrow> detect_loop txn (saturating_add checks 1) ?i ?o recs)"
      using True by (simp add: concurrent_def not_le [symmetric] Let_def)
    show ?thesis
    proof (cases "?i \<noteq> None \<and> ?o \<noteq> None")
      case both: True
      then have "snd (detect_loop txn checks inc outg (rec # recs)) \<noteq> None"
        unfolding step by (auto split: option.splits)
      moreover have "inc \<noteq> None \<or> ssi_incoming_edge txn rec \<noteq> None" "outg \<noteq> None \<or> ssi_outgoing_edge txn rec \<noteq> None"
        using both i o by blast+
      ultimately show ?thesis using True by auto
    next
      case False
      then have "detect_loop txn checks inc outg (rec # recs) = detect_loop txn (saturating_add checks 1) ?i ?o recs"
        unfolding step by (cases ?i; cases ?o) auto
      with Cons.IH [of "saturating_add checks 1" ?i ?o]
      have "snd (detect_loop txn checks inc outg (rec # recs)) \<noteq> None \<longleftrightarrow>
          (\<exists>r \<in> set recs. concurrent txn r) \<and>
          (?i \<noteq> None \<or> (\<exists>r \<in> set recs. concurrent txn r \<and> ssi_incoming_edge txn r \<noteq> None)) \<and>
          (?o \<noteq> None \<or> (\<exists>r \<in> set recs. concurrent txn r \<and> ssi_outgoing_edge txn r \<noteq> None))" by simp
      then show ?thesis unfolding i o using False [unfolded i o] True by auto
    qed
  qed
qed simp

lemma combined_ranges:
  assumes "range_family p = Some prev" "range_family q = Some nxt" "\<forall>r \<in> set (prev @ nxt). no_saturation r"
  obtains c where "combined_proof p q = Some c" "\<And>k. touched (proof_ranges c) k \<longleftrightarrow> touched prev k \<or> touched nxt k"
    "separated (proof_ranges c)"
proof -
  have t: "touched (coalesce_byte_ranges (prev @ nxt)) k \<longleftrightarrow> touched prev k \<or> touched nxt k" for k
    using coalesce_spec(1) [OF assms(3), of k] by (auto simp: touched_def)
  note s = coalesce_spec(2) [OF assms(3)]
  from assms(1,2) t s that show thesis
    by (cases p; cases q) (auto simp: combined_proof_def)
qed

lemma detection_iff:
  assumes "txn_ok txn" "\<forall>r \<in> set records. record_ok r"
  shows "snd (detect_ssi_dangerous_structure txn records) \<noteq> None \<longleftrightarrow>
    (\<exists>r \<in> set records. concurrent txn r \<and> fst ` set (cr_read_set r) \<inter> fst ` set (txn_staged txn) \<noteq> {}) \<and>
    (\<exists>r \<in> set records. concurrent txn r \<and> fst ` set (txn_reads txn) \<inter> set (cr_write_set r) \<noteq> {})"
proof -
  have "ssi_incoming_edge txn r \<noteq> None \<longleftrightarrow> fst ` set (cr_read_set r) \<inter> fst ` set (txn_staged txn) \<noteq> {}"
    "ssi_outgoing_edge txn r \<noteq> None \<longleftrightarrow> fst ` set (txn_reads txn) \<inter> set (cr_write_set r) \<noteq> {}"
    if "r \<in> set records" for r
    using that assms incoming_edge_common [of txn r] outgoing_edge_common [of txn r] common_edge_None by simp_all
  then show ?thesis
    using detect_loop_finds [of txn 0 None None records]
    by (auto simp: detect_ssi_dangerous_structure_def)
qed

section \<open>Properties\<close>

text \<open>
  C23: staging is a map update. The staged writes stay sorted by block; after staging, looking the
  block up gives the new bytes and every other block is as before; and staging a block twice
  with range proofs yields one range proof that covers exactly the bytes of both, as disjoint
  ranges.
\<close>

theorem staging_is_map_update:
  fixes block :: block_number and bs :: bytes and pf :: merge_proof and base :: "bytes option"
  assumes "txn_ok txn"
  defines "txn' \<equiv> stage_write_with_proof_and_base txn block bs pf base"
  shows "txn_ok txn' \<and>
    (\<forall>b. staged_write_bytes txn' b = (if b = block then Some bs else staged_write_bytes txn b)) \<and>
    (\<forall>p prev nxt. txn_merge_proof txn block = Some p \<and> range_family p = Some prev \<and>
       range_family pf = Some nxt \<and> (\<forall>r \<in> set (prev @ nxt). no_saturation r) \<longrightarrow>
       (\<exists>c. txn_merge_proof txn' block = Some c \<and> separated (proof_ranges c) \<and>
          (\<forall>k. touched (proof_ranges c) k \<longleftrightarrow> touched prev k \<or> touched nxt k)))"
proof (intro conjI allI impI)
  let ?s = "\<lparr>sw_bytes = bs, sw_proof = pf, sw_base = base\<rparr>"
  let ?new = "restaged (bt_get (txn_staged txn) block) ?s"
  have inv: "bt_inv (txn_staged txn)" using assms(1) by (simp add: txn_ok_def)
  have t: "txn' = txn\<lparr>txn_staged := bt_insert block ?new (txn_staged txn)\<rparr>"
    unfolding txn'_def stage_write_with_proof_and_base_def by (rule insert_staged_is_map_insert [OF inv])
  then show ok: "txn_ok txn'" using assms(1) by (auto simp: txn_ok_def)
  have inv': "bt_inv (txn_staged txn')" using ok by (simp add: txn_ok_def)
  have look: "staged_lookup txn' b = (if b = block then Some ?new else staged_lookup txn b)" for b
    using staged_lookup_get [OF inv'] staged_lookup_get [OF inv] inv by (simp add: t)
  then show "staged_write_bytes txn' b = (if b = block then Some bs else staged_write_bytes txn b)" for b
    by (simp add: staged_write_bytes_def)
  fix p prev nxt
  assume a: "txn_merge_proof txn block = Some p \<and> range_family p = Some prev \<and>
       range_family pf = Some nxt \<and> (\<forall>r \<in> set (prev @ nxt). no_saturation r)"
  then obtain w where w: "bt_get (txn_staged txn) block = Some w" "sw_proof w = p"
    using staged_lookup_get [OF inv] by (auto simp: txn_merge_proof_def)
  obtain c where c: "combined_proof p pf = Some c"
    "\<And>k. touched (proof_ranges c) k \<longleftrightarrow> touched prev k \<or> touched nxt k" "separated (proof_ranges c)"
    using combined_ranges [of p prev pf nxt] a by blast
  have "pf \<noteq> Unsafe" using a by auto
  then have "sw_proof ?new = c" using w c(1) by (simp add: restaged_def restage_def Let_def)
  then show "\<exists>c. txn_merge_proof txn' block = Some c \<and> separated (proof_ranges c) \<and>
      (\<forall>k. touched (proof_ranges c) k \<longleftrightarrow> touched prev k \<or> touched nxt k)"
    using c look [of block] by (auto simp: txn_merge_proof_def)
qed

theorem staging_is_map_update_witness:
  "staged_write_bytes (stage_write_with_proof_and_base (transaction_new (TxnId 1) \<lparr>high = CommitSeq 0\<rparr>)
     (BlockNumber 7) [1, 2] BitmapDelta None) (BlockNumber 7) = Some [1, 2]"
  using staging_is_map_update [of "transaction_new (TxnId 1) \<lparr>high = CommitSeq 0\<rparr>" "BlockNumber 7" "[1, 2]" BitmapDelta None]
  by (simp add: txn_ok_def transaction_new_def)

text \<open>
  C19: the detection of serialization anomalies is exact. A dangerous structure is reported if
  and only if, among the transactions that committed after the snapshot was taken, one read a
  block this transaction writes and one wrote a block this transaction read.
\<close>

theorem ssi_detection_exact:
  assumes "txn_ok txn" "\<forall>r \<in> set records. record_ok r"
  shows "snd (detect_ssi_dangerous_structure txn records) \<noteq> None \<longleftrightarrow>
    (\<exists>r \<in> set records. concurrent txn r \<and> fst ` set (cr_read_set r) \<inter> fst ` set (txn_staged txn) \<noteq> {}) \<and>
    (\<exists>r \<in> set records. concurrent txn r \<and> fst ` set (txn_reads txn) \<inter> set (cr_write_set r) \<noteq> {})"
  using assms by (rule detection_iff)

theorem ssi_detection_exact_witness:
  "snd (detect_ssi_dangerous_structure
     \<lparr>txn_ident = TxnId 2, txn_snapshot = \<lparr>high = CommitSeq 0\<rparr>,
      txn_staged = [(BlockNumber 1, \<lparr>sw_bytes = [0], sw_proof = Unsafe, sw_base = None\<rparr>)],
      txn_reads = [(BlockNumber 2, CommitSeq 0)], txn_cow_writes = [], txn_cow_orphans = []\<rparr>
     [\<lparr>cr_txn_id = TxnId 1, cr_commit_seq = CommitSeq 1, cr_snapshot = \<lparr>high = CommitSeq 0\<rparr>,
       cr_write_set = [BlockNumber 2], cr_read_set = [(BlockNumber 1, CommitSeq 0)]\<rparr>]) \<noteq> None"
  by (subst ssi_detection_exact) (simp_all add: txn_ok_def record_ok_def concurrent_def bt_inv_def)

end
