(* ===== verification/Version_Chain.thy ===== *)
theory Version_Chain
  imports Txn_Law
begin

text \<open>
  Version chains of \<open>ffs-mvcc\<close> (\<open>compression.rs\<close>, \<open>lib.rs\<close>, and the chain operations of
  \<open>store.rs\<close>): the stored form of a version, the search for the newest version a snapshot sees,
  the resolution of deduplicated and compressed versions, and the trimming of old versions. The
  compressors \<open>zstd\<close> and \<open>brotli\<close> are third-party code and a parameter of the definitions.
  The lemmas show that neither trimming nor appending changes what a protected snapshot reads.
\<close>

section \<open>Stored versions\<close>

record codecs =
  zstd_encode_all :: "bytes \<Rightarrow> i32 \<Rightarrow> bytes option"
  zstd_decode_all :: "bytes \<Rightarrow> bytes option"
  brotli_compress :: "bytes \<Rightarrow> u32 \<Rightarrow> bytes option"
  brotli_decompress :: "bytes \<Rightarrow> bytes option"

text \<open>What the store relies on: what the compressors produce is decompressed to the input.\<close>

definition lossless :: "'z codecs_scheme \<Rightarrow> bool" where
  "lossless c \<longleftrightarrow>
     (\<forall>bs level packed. zstd_encode_all c bs level = Some packed \<longrightarrow> zstd_decode_all c packed = Some bs)
   \<and> (\<forall>bs level packed. brotli_compress c bs level = Some packed \<longrightarrow> brotli_decompress c packed = Some bs)"

datatype version_data = Full bytes | Identical | Zstd bytes | Brotli bytes

definition is_identical :: "version_data \<Rightarrow> bool" where
  "is_identical d \<longleftrightarrow> d = Identical"

definition is_full :: "version_data \<Rightarrow> bool" where
  "is_full d = (case d of Full _ \<Rightarrow> True | _ \<Rightarrow> False)"

definition memory_bytes :: "version_data \<Rightarrow> usize" where
  "memory_bytes d = (case d of Full bs \<Rightarrow> length bs | Zstd bs \<Rightarrow> length bs | Brotli bs \<Rightarrow> length bs
                      | Identical \<Rightarrow> 0)"

record block_version =
  bv_block :: block_number
  bv_commit_seq :: commit_seq
  bv_writer :: txn_id
  bv_data :: version_data

record physical_block_version =
  pv_logical :: block_number
  pv_physical :: block_number
  pv_commit_seq :: commit_seq
  pv_writer :: txn_id

datatype compression_algo = NoCompression | ZstdAlgo i32 | BrotliAlgo u32

record compression_policy =
  dedup_identical :: bool
  max_chain_length :: "usize option"
  algo :: compression_algo

definition compression_policy_default :: compression_policy where
  "compression_policy_default =
     \<lparr>dedup_identical = True, max_chain_length = Some 64, algo = NoCompression\<rparr>"

definition compression_policy_none :: compression_policy where
  "compression_policy_none = \<lparr>dedup_identical = False, max_chain_length = None, algo = NoCompression\<rparr>"

definition dedup_only :: compression_policy where
  "dedup_only = \<lparr>dedup_identical = True, max_chain_length = None, algo = NoCompression\<rparr>"

text \<open>\<open>MvccStore::compress_data\<close>: a compressed form is kept only when it is shorter.\<close>

definition compress_data :: "'z codecs_scheme \<Rightarrow> compression_policy \<Rightarrow> bytes \<Rightarrow> version_data" where
  "compress_data c policy new_bytes =
     (case algo policy of
        NoCompression \<Rightarrow> Full new_bytes
      | ZstdAlgo level \<Rightarrow>
          (case zstd_encode_all c new_bytes level of
             Some packed \<Rightarrow> if length packed < length new_bytes then Zstd packed else Full new_bytes
           | None \<Rightarrow> Full new_bytes)
      | BrotliAlgo level \<Rightarrow>
          (case brotli_compress c new_bytes level of
             Some packed \<Rightarrow> if length packed < length new_bytes then Brotli packed else Full new_bytes
           | None \<Rightarrow> Full new_bytes))"

section \<open>Reading a chain\<close>

definition newest_visible_index_by :: "('a \<Rightarrow> commit_seq) \<Rightarrow> 'a list \<Rightarrow> commit_seq \<Rightarrow> usize option" where
  "newest_visible_index_by commit_seq versions visible_high =
     (case checked_sub_usize (length versions) 1 of
        None \<Rightarrow> None
      | Some newest \<Rightarrow>
          if commit_seq (versions ! newest) \<le> visible_high then Some newest
          else checked_sub_usize (partition_point (\<lambda>v. commit_seq v \<le> visible_high) versions) 1)"

definition newest_visible_index :: "block_version list \<Rightarrow> commit_seq \<Rightarrow> usize option" where
  "newest_visible_index versions visible_high = newest_visible_index_by bv_commit_seq versions visible_high"

fun resolve_loop :: "'z codecs_scheme \<Rightarrow> block_version list \<Rightarrow> nat \<Rightarrow> bytes option" where
  "resolve_loop c chain i =
     (case bv_data (chain ! i) of
        Full bs \<Rightarrow> Some bs
      | Zstd bs \<Rightarrow> zstd_decode_all c bs
      | Brotli bs \<Rightarrow> brotli_decompress c bs
      | Identical \<Rightarrow> if i = 0 then None else resolve_loop c chain (i - 1))"

declare resolve_loop.simps [simp del]

definition resolve_data_with :: "'z codecs_scheme \<Rightarrow> block_version list \<Rightarrow> usize \<Rightarrow> bytes option" where
  "resolve_data_with c chain index =
     (if length chain \<le> index then None else resolve_loop c chain index)"

definition resolve_version_bytes_at_or_before ::
  "'z codecs_scheme \<Rightarrow> block_version list \<Rightarrow> commit_seq \<Rightarrow> bytes option" where
  "resolve_version_bytes_at_or_before c versions visible_high =
     Option.bind (newest_visible_index versions visible_high) (resolve_data_with c versions)"

section \<open>Trimming a chain\<close>

definition make_chain_head_full :: "'z codecs_scheme \<Rightarrow> block_version list \<Rightarrow> usize \<Rightarrow> block_version list" where
  "make_chain_head_full c versions keep_from =
     (if keep_from < length versions \<and> is_identical (bv_data (versions ! keep_from))
      then case resolve_data_with c versions keep_from of
             Some full_data \<Rightarrow> versions[keep_from := (versions ! keep_from)\<lparr>bv_data := Full full_data\<rparr>]
           | None \<Rightarrow> versions
      else versions)"

text \<open>
  The loop of \<open>trim_block_chain_to_cap\<close> and of \<open>trim_physical_chain_to_cap\<close>, and the loop of
  \<open>prune_versions_older_than\<close>, over the commit sequences of a chain.
\<close>

function trim_loop :: "commit_seq list \<Rightarrow> usize \<Rightarrow> commit_seq \<Rightarrow> usize \<Rightarrow> usize" where
  "trim_loop seqs max_len watermark trim =
     (if max_len < length seqs - trim
      then if length seqs \<le> trim + 1 \<or> watermark < seqs ! (trim + 1) then trim
           else trim_loop seqs max_len watermark (trim + 1)
      else trim)"
  by pat_completeness auto
termination
  by (relation "measure (\<lambda>(seqs, m, w, trim). length seqs - trim)") auto

declare trim_loop.simps [simp del]

function keep_loop :: "commit_seq list \<Rightarrow> commit_seq \<Rightarrow> usize \<Rightarrow> usize" where
  "keep_loop seqs watermark keep_from =
     (if keep_from + 1 < length seqs
      then if seqs ! (keep_from + 1) \<le> watermark then keep_loop seqs watermark (keep_from + 1)
           else keep_from
      else keep_from)"
  by pat_completeness auto
termination
  by (relation "measure (\<lambda>(seqs, w, k). length seqs - k)") auto

declare keep_loop.simps [simp del]

definition trim_block_chain_to_cap ::
  "'z codecs_scheme \<Rightarrow> block_version list \<Rightarrow> usize \<Rightarrow> commit_seq \<Rightarrow> block_version list \<times> block_version list" where
  "trim_block_chain_to_cap c versions max_len watermark =
     (let trim = trim_loop (map bv_commit_seq versions) max_len watermark 0
      in if 0 < trim
         then let versions = make_chain_head_full c versions trim
              in (take trim versions, drop trim versions)
         else ([], versions))"

definition trim_physical_chain_to_cap ::
  "physical_block_version list \<Rightarrow> usize \<Rightarrow> commit_seq \<Rightarrow> usize \<times> physical_block_version list" where
  "trim_physical_chain_to_cap versions max_len watermark =
     (let trim = trim_loop (map pv_commit_seq versions) max_len watermark 0
      in (trim, if 0 < trim then drop trim versions else versions))"

definition prune_chain ::
  "'z codecs_scheme \<Rightarrow> commit_seq \<Rightarrow> block_version list \<Rightarrow> block_version list \<times> block_version list" where
  "prune_chain c watermark versions =
     (if length versions \<le> 1 then ([], versions)
      else let keep_from = keep_loop (map bv_commit_seq versions) watermark 0
           in if 0 < keep_from
              then let versions = make_chain_head_full c versions keep_from
                   in (take keep_from versions, drop keep_from versions)
              else ([], versions))"

definition prune_physical_chain ::
  "commit_seq \<Rightarrow> physical_block_version list \<Rightarrow> physical_block_version list" where
  "prune_physical_chain watermark versions =
     (if length versions \<le> 1 then versions
      else let keep_from = keep_loop (map pv_commit_seq versions) watermark 0
           in if 0 < keep_from then drop keep_from versions else versions)"

section \<open>The value of a chain at a snapshot\<close>

text \<open>A chain read from the front: each version replaces the value before it, or keeps it.\<close>

definition apply_version :: "'z codecs_scheme \<Rightarrow> bytes option \<Rightarrow> block_version \<Rightarrow> bytes option" where
  "apply_version c acc v =
     (case bv_data v of
        Full bs \<Rightarrow> Some bs
      | Zstd bs \<Rightarrow> zstd_decode_all c bs
      | Brotli bs \<Rightarrow> brotli_decompress c bs
      | Identical \<Rightarrow> acc)"

definition chain_value :: "'z codecs_scheme \<Rightarrow> block_version list \<Rightarrow> bytes option" where
  "chain_value c vs = foldl (apply_version c) None vs"

definition visible :: "commit_seq \<Rightarrow> block_version list \<Rightarrow> block_version list" where
  "visible s vs = takeWhile (\<lambda>v. bv_commit_seq v \<le> s) vs"

definition ascending :: "block_version list \<Rightarrow> bool" where
  "ascending vs \<longleftrightarrow> sorted_wrt (<) (map bv_commit_seq vs)"

fun rposition :: "('a \<Rightarrow> bool) \<Rightarrow> 'a list \<Rightarrow> nat option" where
  "rposition p [] = None"
| "rposition p (x # xs) =
     (case rposition p xs of
        Some i \<Rightarrow> Some (Suc i)
      | None \<Rightarrow> if p x then Some 0 else None)"

lemma chain_value_snoc [simp]: "chain_value c (vs @ [v]) = apply_version c (chain_value c vs) v"
  by (simp add: chain_value_def)

lemma chain_value_Nil [simp]: "chain_value c [] = None"
  by (simp add: chain_value_def)

lemma resolve_loop_value:
  "i < length vs \<Longrightarrow> resolve_loop c vs i = chain_value c (take (Suc i) vs)"
proof (induction i)
  case 0
  then have "take (Suc 0) vs = [vs ! 0]" by (cases vs) simp_all
  then show ?case
    by (subst resolve_loop.simps) (simp add: chain_value_def apply_version_def)
next
  case (Suc i)
  then have "chain_value c (take (Suc (Suc i)) vs)
      = apply_version c (chain_value c (take (Suc i) vs)) (vs ! Suc i)"
    by (simp add: take_Suc_conv_app_nth [of "Suc i"])
  with Suc show ?case
    by (subst resolve_loop.simps) (auto simp: apply_version_def split: version_data.splits)
qed

lemma resolve_data_value:
  "resolve_data_with c vs i = (if i < length vs then chain_value c (take (Suc i) vs) else None)"
  by (simp add: resolve_data_with_def resolve_loop_value)

lemma rposition_partitioned:
  "partitioned p xs \<Longrightarrow> rposition p xs = checked_sub_usize (length (takeWhile p xs)) 1"
proof (induction xs)
  case (Cons x xs)
  have part: "partitioned p xs"
    unfolding partitioned_def
  proof (intro allI impI)
    fix i j assume "i < j \<and> j < length xs \<and> p (xs ! j)"
    then show "p (xs ! i)"
      using Cons.prems [unfolded partitioned_def, rule_format, of "Suc i" "Suc j"] by simp
  qed
  have none: "takeWhile p xs = []" if "\<not> p x"
  proof (cases xs)
    case (Cons y ys)
    with that \<open>partitioned p (x # xs)\<close> have "\<not> p y"
      unfolding partitioned_def by (metis length_Cons nth_Cons_0 nth_Cons_Suc zero_less_Suc Suc_less_eq)
    with Cons show ?thesis by simp
  qed simp
  show ?case
    using Cons.IH [OF part] none by (cases "takeWhile p xs") (auto simp: checked_sub_usize_def)
qed (simp add: arith_defs)

lemma partitioned_ascending:
  fixes f :: "'a \<Rightarrow> 'k::linorder"
  assumes "sorted_wrt (<) (map f xs)"
  shows "partitioned (\<lambda>x. f x \<le> s) xs"
  using assms by (intro sorted_partitioned) (simp add: strict_sorted_iff)

lemma takeWhile_all_last:
  assumes "partitioned p xs" and "xs \<noteq> []" and "p (last xs)"
  shows "takeWhile p xs = xs"
proof -
  have "p x" if "x \<in> set xs" for x
  proof -
    obtain i where "i < length xs" "x = xs ! i" using \<open>x \<in> set xs\<close> by (auto simp: in_set_conv_nth)
    moreover have last: "p (xs ! (length xs - 1))" using assms by (simp add: last_conv_nth)
    moreover have "i < length xs - 1 \<or> i = length xs - 1" using \<open>i < length xs\<close> by linarith
    ultimately show ?thesis
      using assms(1) [unfolded partitioned_def, rule_format, of i "length xs - 1"] by auto
  qed
  then show ?thesis by (simp add: takeWhile_eq_all_conv)
qed

lemma newest_visible_takeWhile:
  fixes f :: "'a \<Rightarrow> commit_seq"
  assumes "sorted_wrt (<) (map f xs)"
  shows "newest_visible_index_by f xs s = checked_sub_usize (length (takeWhile (\<lambda>x. f x \<le> s) xs)) 1"
proof (cases "xs = []")
  case False
  have part: "partitioned (\<lambda>x. f x \<le> s) xs" using assms by (rule partitioned_ascending)
  show ?thesis
  proof (cases "f (last xs) \<le> s")
    case True
    have "length (takeWhile (\<lambda>x. f x \<le> s) xs) = length xs"
      by (rule arg_cong [OF takeWhile_all_last [OF part False True]])
    then show ?thesis
      using False True by (simp add: newest_visible_index_by_def checked_sub_usize_def last_conv_nth)
  next
    case last: False
    then show ?thesis
      using False partition_point_takeWhile [OF part]
      by (simp add: newest_visible_index_by_def checked_sub_usize_def last_conv_nth Suc_le_eq)
  qed
qed (simp add: newest_visible_index_by_def checked_sub_usize_def)

lemma resolve_at_value:
  assumes "ascending vs"
  shows "resolve_version_bytes_at_or_before c vs s = chain_value c (visible s vs)"
proof -
  let ?n = "length (visible s vs)"
  have idx: "newest_visible_index vs s = checked_sub_usize ?n 1"
    using assms by (simp add: newest_visible_index_def newest_visible_takeWhile ascending_def visible_def)
  have take: "take ?n vs = visible s vs" by (simp add: visible_def takeWhile_eq_take [symmetric])
  have "?n \<le> length vs" by (simp add: visible_def length_takeWhile_le)
  with take show ?thesis
    by (cases ?n) (auto simp: resolve_version_bytes_at_or_before_def idx checked_sub_usize_def
        resolve_data_value)
qed

section \<open>Trimming keeps what protected snapshots read\<close>

lemma map_set_data:
  assumes "\<And>v. g (v\<lparr>bv_data := d\<rparr>) = g v"
  shows "map g (vs[k := (vs ! k)\<lparr>bv_data := d\<rparr>]) = map g vs"
proof -
  have "map g (vs[k := (vs ! k)\<lparr>bv_data := d\<rparr>]) = (map g vs)[k := g (vs ! k)]"
    by (simp add: map_update assms)
  then show ?thesis by (metis list_update_id map_update)
qed

lemma make_head_facts:
  "length (make_chain_head_full c vs k) = length vs"
  "map bv_commit_seq (make_chain_head_full c vs k) = map bv_commit_seq vs"
  "map bv_block (make_chain_head_full c vs k) = map bv_block vs"
  by (auto simp: make_chain_head_full_def map_set_data split: option.splits)

lemma drop_make_head:
  assumes "k < length vs"
  obtains v where "drop k (make_chain_head_full c vs k) = v # drop (Suc k) vs"
    and "bv_commit_seq v = bv_commit_seq (vs ! k)" and "bv_block v = bv_block (vs ! k)"
    and "apply_version c None v = chain_value c (take (Suc k) vs)"
proof -
  have split: "drop k vs = vs ! k # drop (Suc k) vs" using assms by (simp add: Cons_nth_drop_Suc)
  have val: "chain_value c (take (Suc k) vs) = apply_version c (chain_value c (take k vs)) (vs ! k)"
    using assms by (simp add: take_Suc_conv_app_nth)
  have res: "resolve_data_with c vs k = chain_value c (take (Suc k) vs)"
    using assms by (simp add: resolve_data_value)
  consider (expand) b where "bv_data (vs ! k) = Identical" "chain_value c (take (Suc k) vs) = Some b"
    | (lost) "bv_data (vs ! k) = Identical" "chain_value c (take (Suc k) vs) = None"
    | (stored) "bv_data (vs ! k) \<noteq> Identical" by fastforce
  then show ?thesis
  proof cases
    case expand
    have "drop k (make_chain_head_full c vs k) = (vs ! k)\<lparr>bv_data := Full b\<rparr> # drop (Suc k) vs"
      using assms expand split
      by (simp add: make_chain_head_full_def is_identical_def res drop_update_swap)
    then show ?thesis by (rule that) (simp_all add: apply_version_def expand)
  next
    case lost
    have "drop k (make_chain_head_full c vs k) = vs ! k # drop (Suc k) vs"
      using assms lost split by (simp add: make_chain_head_full_def is_identical_def res)
    then show ?thesis by (rule that) (simp_all add: apply_version_def lost)
  next
    case stored
    have "drop k (make_chain_head_full c vs k) = vs ! k # drop (Suc k) vs"
      using stored split by (simp add: make_chain_head_full_def is_identical_def)
    then show ?thesis
      by (rule that) (use stored val in \<open>auto simp: apply_version_def split: version_data.splits\<close>)
  qed
qed

text \<open>
  What a chain keeps: versions of one block in ascending commit order below the next sequence
  number, each of them resolvable.
\<close>

definition chain_ok :: "'z codecs_scheme \<Rightarrow> block_number \<Rightarrow> u64 \<Rightarrow> block_version list \<Rightarrow> bool" where
  "chain_ok c b next_commit vs \<longleftrightarrow>
     vs \<noteq> [] \<and> ascending vs
   \<and> (\<forall>v \<in> set vs. bv_block v = b \<and> 0 < seq_val (bv_commit_seq v) \<and> seq_val (bv_commit_seq v) < next_commit)
   \<and> (\<forall>i < length vs. chain_value c (take (Suc i) vs) \<noteq> None)"

text \<open>\<open>trims c w vs vs'\<close>: the front of \<open>vs\<close> up to a version visible at \<open>w\<close> was dropped.\<close>

definition trims :: "'z codecs_scheme \<Rightarrow> commit_seq \<Rightarrow> block_version list \<Rightarrow> block_version list \<Rightarrow> bool" where
  "trims c w vs vs' \<longleftrightarrow>
     vs' = vs
   \<or> (\<exists>k < length vs. bv_commit_seq (vs ! k) \<le> w \<and> vs' = drop k (make_chain_head_full c vs k))"

lemma trims_refl [simp]: "trims c w vs vs"
  by (simp add: trims_def)

lemma chain_value_split:
  "chain_value c (xs @ ys) = foldl (apply_version c) (chain_value c xs) ys"
  by (simp add: chain_value_def)

lemma visible_split:
  assumes "ascending vs" and "k < length vs" and "bv_commit_seq (vs ! k) \<le> s"
  shows "visible s vs = take (Suc k) vs @ visible s (drop (Suc k) vs)"
proof -
  have part: "partitioned (\<lambda>v. bv_commit_seq v \<le> s) vs"
    using assms(1) unfolding ascending_def by (rule partitioned_ascending)
  have "bv_commit_seq v \<le> s" if mem: "v \<in> set (take (Suc k) vs)" for v
  proof -
    obtain i where "i < length (take (Suc k) vs)" "take (Suc k) vs ! i = v"
      using mem [unfolded in_set_conv_nth] by blast
    then have "i < length vs" "i \<le> k" "v = vs ! i" by auto
    then show ?thesis
      using part [unfolded partitioned_def, rule_format, of i k] assms by (cases "i = k") auto
  qed
  then have "takeWhile (\<lambda>v. bv_commit_seq v \<le> s) (take (Suc k) vs @ drop (Suc k) vs)
      = take (Suc k) vs @ takeWhile (\<lambda>v. bv_commit_seq v \<le> s) (drop (Suc k) vs)"
    by (intro takeWhile_append2) blast
  then show ?thesis by (simp add: visible_def)
qed

lemma trimmed_prefix_value:
  assumes "k < length vs" and "drop k (make_chain_head_full c vs k) = v # drop (Suc k) vs"
    and "apply_version c None v = chain_value c (take (Suc k) vs)"
  shows "chain_value c (take (Suc i) (drop k (make_chain_head_full c vs k)))
       = chain_value c (take (Suc (k + i)) vs)"
proof -
  have "take (Suc (k + i)) vs = take (Suc k) vs @ take i (drop (Suc k) vs)"
    using take_add [of "Suc k" i vs] by simp
  then show ?thesis
    using assms(2,3) by (simp add: chain_value_split) (simp add: chain_value_def)
qed

lemma trims_value:
  assumes asc: "ascending vs" and tr: "trims c w vs vs'" and "w \<le> s"
  shows "chain_value c (visible s vs') = chain_value c (visible s vs)"
  using tr unfolding trims_def
proof (elim disjE exE conjE)
  fix k assume k: "k < length vs" "bv_commit_seq (vs ! k) \<le> w"
    and vs': "vs' = drop k (make_chain_head_full c vs k)"
  obtain v where v: "drop k (make_chain_head_full c vs k) = v # drop (Suc k) vs"
    "bv_commit_seq v = bv_commit_seq (vs ! k)" "apply_version c None v = chain_value c (take (Suc k) vs)"
    using k(1) by (rule drop_make_head)
  have ks: "bv_commit_seq (vs ! k) \<le> s" using k(2) \<open>w \<le> s\<close> by (rule order_trans)
  have "visible s vs' = v # visible s (drop (Suc k) vs)"
    using v ks vs' by (simp add: visible_def)
  then show ?thesis
    using v(3) by (simp add: visible_split [OF asc k(1) ks] chain_value_split) (simp add: chain_value_def)
qed simp

lemma trims_full_value:
  assumes "trims c w vs vs'"
  shows "chain_value c vs' = chain_value c vs"
  using assms unfolding trims_def
proof (elim disjE exE conjE)
  fix k assume k: "k < length vs" and vs': "vs' = drop k (make_chain_head_full c vs k)"
  obtain v where "drop k (make_chain_head_full c vs k) = v # drop (Suc k) vs"
    "apply_version c None v = chain_value c (take (Suc k) vs)"
    using k by (rule drop_make_head)
  moreover have "chain_value c vs = chain_value c (take (Suc k) vs @ drop (Suc k) vs)" by simp
  ultimately show ?thesis
    unfolding vs' chain_value_split by (simp add: chain_value_def)
qed simp

lemma trims_chain_ok:
  assumes ok: "chain_ok c b n vs" and tr: "trims c w vs vs'"
  shows "chain_ok c b n vs'"
  using tr unfolding trims_def
proof (elim disjE exE conjE)
  fix k assume k: "k < length vs" and vs': "vs' = drop k (make_chain_head_full c vs k)"
  obtain v where v: "drop k (make_chain_head_full c vs k) = v # drop (Suc k) vs"
    "bv_commit_seq v = bv_commit_seq (vs ! k)" "bv_block v = bv_block (vs ! k)"
    "apply_version c None v = chain_value c (take (Suc k) vs)"
    using k by (rule drop_make_head)
  have "map bv_commit_seq vs' = drop k (map bv_commit_seq vs)"
    using vs' make_head_facts(2) [of c vs k] by (metis drop_map)
  then have "ascending vs'" using ok by (simp add: ascending_def chain_ok_def sorted_wrt_drop)
  moreover have "set (drop (Suc k) vs) \<subseteq> set vs" by (rule set_drop_subset)
  moreover have "vs ! k \<in> set vs" using k by simp
  moreover have "length vs' = length vs - k" using vs' by (simp add: make_head_facts)
  ultimately show ?thesis
    using ok v k vs' trimmed_prefix_value [OF k v(1,4)] by (auto simp: chain_ok_def)
qed (use ok in simp)

lemma trims_last:
  assumes "trims c w vs vs'" "vs \<noteq> []"
  shows "vs' \<noteq> [] \<and> bv_commit_seq (last vs') = bv_commit_seq (last vs)"
  using assms(1) unfolding trims_def
proof (elim disjE exE conjE)
  fix k assume k: "k < length vs" and vs': "vs' = drop k (make_chain_head_full c vs k)"
  have "map bv_commit_seq vs' = drop k (map bv_commit_seq vs)"
    using vs' make_head_facts(2) [of c vs k] by (metis drop_map)
  moreover have "vs' \<noteq> []" using k vs' by (simp add: make_head_facts)
  ultimately show ?thesis
    using k by (metis last_drop last_map length_map map_is_Nil_conv assms(2))
qed (use assms(2) in simp)

lemma trims_length: "trims c w vs vs' \<Longrightarrow> length vs' \<le> length vs"
  by (auto simp: trims_def make_head_facts)

lemma trim_loop_bounds:
  assumes "t \<le> length seqs"
  shows "t \<le> trim_loop seqs m w t \<and> (trim_loop seqs m w t = t
       \<or> trim_loop seqs m w t < length seqs \<and> seqs ! trim_loop seqs m w t \<le> w)"
  using assms
proof (induction seqs m w t rule: trim_loop.induct)
  case (1 seqs m w t)
  show ?case
  proof (cases "m < length seqs - t \<and> \<not> (length seqs \<le> t + 1 \<or> w < seqs ! (t + 1))")
    case True
    then have "trim_loop seqs m w t = trim_loop seqs m w (t + 1)"
      by (simp add: trim_loop.simps [of seqs m w t])
    with 1 True show ?thesis by (auto simp: not_less)
  next
    case False
    then have "trim_loop seqs m w t = t" by (auto simp: trim_loop.simps [of seqs m w t])
    then show ?thesis by simp
  qed
qed

lemma keep_loop_bounds:
  "k \<le> keep_loop seqs w k \<and> (keep_loop seqs w k = k
     \<or> keep_loop seqs w k < length seqs \<and> seqs ! keep_loop seqs w k \<le> w)"
proof (induction seqs w k rule: keep_loop.induct)
  case (1 seqs w k)
  show ?case
  proof (cases "k + 1 < length seqs \<and> seqs ! (k + 1) \<le> w")
    case True
    then have "keep_loop seqs w k = keep_loop seqs w (k + 1)"
      by (simp add: keep_loop.simps [of seqs w k])
    with 1 True show ?thesis by auto
  next
    case False
    then have "keep_loop seqs w k = k" by (auto simp: keep_loop.simps [of seqs w k])
    then show ?thesis by simp
  qed
qed

lemma trim_block_chain_trims: "trims c w vs (snd (trim_block_chain_to_cap c vs m w))"
  using trim_loop_bounds [of 0 "map bv_commit_seq vs" m w]
  by (auto simp: trim_block_chain_to_cap_def Let_def trims_def)

lemma prune_chain_trims: "trims c w vs (snd (prune_chain c w vs))"
  using keep_loop_bounds [of 0 "map bv_commit_seq vs" w]
  by (auto simp: prune_chain_def Let_def trims_def)

section \<open>Appending a version\<close>

lemma visible_snoc:
  assumes "\<forall>v \<in> set vs. bv_commit_seq v \<le> n" and "n < bv_commit_seq v"
  shows "visible s (vs @ [v]) = (if bv_commit_seq v \<le> s then vs @ [v] else visible s vs)"
proof (cases "bv_commit_seq v \<le> s")
  case True
  then have "bv_commit_seq x \<le> s" if "x \<in> set vs" for x
    using assms that by (meson order_trans less_imp_le)
  with True show ?thesis by (simp add: visible_def)
next
  case False
  then show ?thesis by (simp add: visible_def takeWhile_tail)
qed

lemma ascending_snoc:
  "ascending (vs @ [v]) \<longleftrightarrow> ascending vs \<and> (\<forall>x \<in> set vs. bv_commit_seq x < bv_commit_seq v)"
  by (auto simp: ascending_def sorted_wrt_append)

lemma chain_value_full: "chain_value c vs = resolve_data_with c vs (length vs - 1)" if "vs \<noteq> []"
  using that by (simp add: resolve_data_value)

lemma apply_compressed:
  assumes "lossless c"
  shows "apply_version c acc \<lparr>bv_block = b, bv_commit_seq = s, bv_writer = t,
           bv_data = compress_data c policy bs\<rparr> = Some bs"
  using assms
  by (auto simp: apply_version_def compress_data_def lossless_def split: compression_algo.splits option.splits)

end
