(* ===== verification/Mvcc_Metrics.thy ===== *)
theory Mvcc_Metrics
  imports Version_Chain
begin

text \<open>
  The conflict policy of \<open>ffs-mvcc\<close> and the metrics it is selected from (\<open>lib.rs\<close>): the
  adaptive expected-loss model, its exponential moving averages, and the runtime counters and
  histograms. Floating-point operations are a parameter of the model, so that every statement
  holds for IEEE arithmetic with any rounding; \<open>f_lit m e\<close> is the value of the literal
  \<open>m \<cdot> 10\<^sup>e\<close>. The start instant of the counters, which only the exported rates read, is left out.
\<close>

record 'f host = codecs +
  f_lit :: "int \<Rightarrow> int \<Rightarrow> 'f"
  f_sub :: "'f \<Rightarrow> 'f \<Rightarrow> 'f"
  f_mul :: "'f \<Rightarrow> 'f \<Rightarrow> 'f"
  f_mul_add :: "'f \<Rightarrow> 'f \<Rightarrow> 'f \<Rightarrow> 'f"
  f_le :: "'f \<Rightarrow> 'f \<Rightarrow> bool"
  f_lt :: "'f \<Rightarrow> 'f \<Rightarrow> bool"

section \<open>Adaptive conflict policy\<close>

datatype conflict_policy = Strict | SafeMerge | Adaptive

record 'f adaptive_policy_config =
  corruption_severity :: 'f
  abort_cost :: 'f
  base_corruption_probability :: 'f
  ema_alpha :: 'f
  warmup_commits :: u64
  hysteresis_ratio :: 'f

definition adaptive_policy_config_default :: "'f host \<Rightarrow> 'f adaptive_policy_config" where
  "adaptive_policy_config_default h =
     \<lparr>corruption_severity = f_lit h 1000 0, abort_cost = f_lit h 1 0,
      base_corruption_probability = f_lit h 1 (- 6), ema_alpha = f_lit h 1 (- 1),
      warmup_commits = 50, hysteresis_ratio = f_lit h 15 (- 1)\<rparr>"

record 'f contention_metrics =
  conflict_rate :: 'f
  merge_success_rate :: 'f
  abort_rate :: 'f
  total_commits :: u64
  total_conflicts :: u64
  total_merges :: u64
  total_aborts :: u64
  last_selected :: "conflict_policy option"

definition contention_metrics_default :: "'f host \<Rightarrow> 'f contention_metrics" where
  "contention_metrics_default h =
     \<lparr>conflict_rate = f_lit h 0 0, merge_success_rate = f_lit h 1 0, abort_rate = f_lit h 0 0,
      total_commits = 0, total_conflicts = 0, total_merges = 0, total_aborts = 0,
      last_selected = None\<rparr>"

definition record_commit ::
  "'f host \<Rightarrow> 'f contention_metrics \<Rightarrow> 'f \<Rightarrow> bool \<Rightarrow> bool \<Rightarrow> bool \<Rightarrow> 'f contention_metrics" where
  "record_commit h m alpha had_conflict merge_succeeded aborted =
     (let sample = (\<lambda>b. if b then f_lit h 1 0 else f_lit h 0 0);
          m = m\<lparr>total_commits := saturating_add (total_commits m) 1\<rparr>;
          decay = f_sub h (f_lit h 1 0) alpha;
          m = m\<lparr>conflict_rate :=
                 f_mul_add h decay (conflict_rate m) (f_mul h (sample had_conflict) alpha)\<rparr>;
          m = (if had_conflict
               then let m = m\<lparr>total_conflicts := saturating_add (total_conflicts m) 1\<rparr>;
                        m = m\<lparr>merge_success_rate :=
                              f_mul_add h decay (merge_success_rate m) (f_mul h (sample merge_succeeded) alpha)\<rparr>
                    in if merge_succeeded
                       then m\<lparr>total_merges := saturating_add (total_merges m) 1\<rparr> else m
               else m);
          m = (if aborted then m\<lparr>total_aborts := saturating_add (total_aborts m) 1\<rparr> else m)
      in m\<lparr>abort_rate := f_mul_add h decay (abort_rate m) (f_mul h (sample aborted) alpha)\<rparr>)"

definition expected_loss_strict :: "'f host \<Rightarrow> 'f contention_metrics \<Rightarrow> 'f adaptive_policy_config \<Rightarrow> 'f" where
  "expected_loss_strict h m config = f_mul h (conflict_rate m) (abort_cost config)"

definition expected_loss_safe_merge :: "'f host \<Rightarrow> 'f contention_metrics \<Rightarrow> 'f adaptive_policy_config \<Rightarrow> 'f" where
  "expected_loss_safe_merge h m config =
     (let corruption_loss = f_mul h (base_corruption_probability config) (corruption_severity config);
          residual_abort_rate = f_mul h (conflict_rate m) (f_sub h (f_lit h 1 0) (merge_success_rate m))
      in f_mul_add h residual_abort_rate (abort_cost config) corruption_loss)"

definition select_policy :: "'f host \<Rightarrow> 'f contention_metrics \<Rightarrow> 'f adaptive_policy_config \<Rightarrow> conflict_policy" where
  "select_policy h m config =
     (if total_commits m < warmup_commits config then SafeMerge
      else
        let loss_strict = expected_loss_strict h m config;
            loss_merge = expected_loss_safe_merge h m config;
            raw_winner = (if f_le h loss_strict loss_merge then Strict else SafeMerge)
        in case last_selected m of
             Some incumbent \<Rightarrow>
               if incumbent \<noteq> raw_winner
               then let (incumbent_loss, challenger_loss) =
                          (if incumbent = Strict then (loss_strict, loss_merge) else (loss_merge, loss_strict))
                    in if f_lt h (f_mul h challenger_loss (hysteresis_ratio config)) incumbent_loss
                       then raw_winner else incumbent
               else raw_winner
           | None \<Rightarrow> raw_winner)"

section \<open>Runtime counters\<close>

definition DEFAULT_RUNTIME_HISTOGRAM_BOUNDS :: "u64 list" where
  "DEFAULT_RUNTIME_HISTOGRAM_BOUNDS = [1, 5, 10, 50, 100, 500, 1000, 5000, 10000, 50000, 100000, 1000000]"

record runtime_histogram =
  rh_bounds :: "u64 list"
  rh_counts :: "u64 list"
  rh_sum :: u64
  rh_count :: u64

definition with_bounds :: "u64 list \<Rightarrow> runtime_histogram" where
  "with_bounds bounds =
     \<lparr>rh_bounds = bounds, rh_counts = replicate (length bounds + 1) 0, rh_sum = 0, rh_count = 0\<rparr>"

definition observe :: "runtime_histogram \<Rightarrow> u64 \<Rightarrow> runtime_histogram" where
  "observe r v =
     (let idx = partition_point (\<lambda>bound. bound < v) (rh_bounds r)
      in r\<lparr>rh_counts := (rh_counts r)[idx := saturating_add (rh_counts r ! idx) 1],
           rh_sum := saturating_add (rh_sum r) v,
           rh_count := saturating_add (rh_count r) 1\<rparr>)"

record runtime_metrics_state =
  commit_attempts_total :: u64
  commit_successes_total :: u64
  conflicts_total :: u64
  aborts_total :: u64
  pruned_versions_total :: u64
  commit_latency_us :: runtime_histogram
  conflict_resolution_latency_us :: runtime_histogram

definition runtime_metrics_default :: runtime_metrics_state where
  "runtime_metrics_default =
     \<lparr>commit_attempts_total = 0, commit_successes_total = 0, conflicts_total = 0, aborts_total = 0,
      pruned_versions_total = 0,
      commit_latency_us = with_bounds DEFAULT_RUNTIME_HISTOGRAM_BOUNDS,
      conflict_resolution_latency_us = with_bounds DEFAULT_RUNTIME_HISTOGRAM_BOUNDS\<rparr>"

definition record_commit_attempt :: "runtime_metrics_state \<Rightarrow> runtime_metrics_state" where
  "record_commit_attempt r = r\<lparr>commit_attempts_total := saturating_add (commit_attempts_total r) 1\<rparr>"

definition record_commit_success :: "u64 \<Rightarrow> runtime_metrics_state \<Rightarrow> runtime_metrics_state" where
  "record_commit_success latency_us r =
     r\<lparr>commit_successes_total := saturating_add (commit_successes_total r) 1,
       commit_latency_us := observe (commit_latency_us r) latency_us\<rparr>"

definition record_commit_abort_metrics :: "commit_error \<Rightarrow> runtime_metrics_state \<Rightarrow> runtime_metrics_state" where
  "record_commit_abort_metrics err r =
     (let r = r\<lparr>aborts_total := saturating_add (aborts_total r) 1\<rparr>
      in case err of
           Conflict _ _ _ \<Rightarrow> r\<lparr>conflicts_total := saturating_add (conflicts_total r) 1\<rparr>
         | SsiConflict _ _ _ _ \<Rightarrow> r\<lparr>conflicts_total := saturating_add (conflicts_total r) 1\<rparr>
         | _ \<Rightarrow> r)"

definition record_conflict_resolution_latency :: "u64 \<Rightarrow> runtime_metrics_state \<Rightarrow> runtime_metrics_state" where
  "record_conflict_resolution_latency latency_us r =
     r\<lparr>conflict_resolution_latency_us := observe (conflict_resolution_latency_us r) latency_us\<rparr>"

definition record_versions_pruned :: "usize \<Rightarrow> runtime_metrics_state \<Rightarrow> runtime_metrics_state" where
  "record_versions_pruned n r =
     r\<lparr>pruned_versions_total := saturating_add (pruned_versions_total r)
         (case try_from_nat n of Some k \<Rightarrow> k | None \<Rightarrow> - 1)\<rparr>"

end
