(* ===== verification/Mvcc_Store.thy ===== *)
theory Mvcc_Store
  imports Ffs_Error Mvcc_Metrics
begin

text \<open>
  The multi-version store of \<open>ffs-mvcc\<close> (\<open>store.rs\<close>): commit under first-committer-wins and
  under serializable snapshot isolation, merging of conflicting writes, chain pressure and
  trimming, snapshot registration, pruning and eviction. Each method is a function on the
  record of the store's fields. Left out of the state are the evidence ledger and the log
  records, the epoch-based reclaimer (only its counter of retired versions is kept) and the
  throttle flag of the budgeted collector. Measured durations are arguments. A panic of a merge
  validator is the error \<open>Panics\<close>; the release profile aborts there, so the state that comes
  with it is never seen again.
\<close>

section \<open>State\<close>

record 'f mvcc_store =
  next_txn :: u64
  next_commit :: u64
  versions :: "(block_number, block_version list) btree_map"
  physical_versions :: "(block_number, physical_block_version list) btree_map"
  active_snapshots :: "(commit_seq, u64) btree_map"
  force_advanced_releases :: "(commit_seq, u64) btree_map"
  ssi_log :: "committed_txn_record list"
  compression_policy_of :: compression_policy
  retired_versions :: u64
  aborted_transactions :: u64
  ssi_conflicts :: u64
  committed_block_writes :: u64
  conflict_policy_of :: conflict_policy
  adaptive_config :: "'f adaptive_policy_config"
  contention_metrics_of :: "'f contention_metrics"
  runtime_metrics :: runtime_metrics_state

definition mvcc_store_new :: "'f host \<Rightarrow> 'f mvcc_store" where
  "mvcc_store_new h =
     \<lparr>next_txn = 1, next_commit = 1, versions = [], physical_versions = [], active_snapshots = [],
      force_advanced_releases = [], ssi_log = [], compression_policy_of = compression_policy_default,
      retired_versions = 0, aborted_transactions = 0, ssi_conflicts = 0, committed_block_writes = 0,
      conflict_policy_of = SafeMerge, adaptive_config = adaptive_policy_config_default h,
      contention_metrics_of = contention_metrics_default h, runtime_metrics = runtime_metrics_default\<rparr>"

definition with_compression_policy :: "'f host \<Rightarrow> compression_policy \<Rightarrow> 'f mvcc_store" where
  "with_compression_policy h policy = (mvcc_store_new h)\<lparr>compression_policy_of := policy\<rparr>"

definition set_conflict_policy :: "conflict_policy \<Rightarrow> 'f mvcc_store \<Rightarrow> 'f mvcc_store" where
  "set_conflict_policy policy st = st\<lparr>conflict_policy_of := policy\<rparr>"

definition set_adaptive_config :: "'f adaptive_policy_config \<Rightarrow> 'f mvcc_store \<Rightarrow> 'f mvcc_store" where
  "set_adaptive_config config st = st\<lparr>adaptive_config := config\<rparr>"

datatype commit_fault = Fails commit_error | Panics

record timing =
  commit_us :: u64
  resolve_us :: "block_number \<Rightarrow> u64"

section \<open>Reading\<close>

definition effective_policy :: "'f host \<Rightarrow> 'f mvcc_store \<Rightarrow> conflict_policy" where
  "effective_policy h st =
     (case conflict_policy_of st of
        Adaptive \<Rightarrow> select_policy h (contention_metrics_of st) (adaptive_config st)
      | other \<Rightarrow> other)"

definition critical_chain_len :: "usize \<Rightarrow> usize" where
  "critical_chain_len max_len =
     (let cap = max max_len 1
      in max (min (cap * 4) usize_max) (saturating_add_usize cap 1))"

definition current_snapshot :: "'f mvcc_store \<Rightarrow> snapshot" where
  "current_snapshot st = \<lparr>high = CommitSeq (saturating_sub (next_commit st) 1)\<rparr>"

definition begin_txn :: "'f mvcc_store \<Rightarrow> transaction \<times> 'f mvcc_store" where
  "begin_txn st =
     (transaction_new (TxnId (next_txn st)) (current_snapshot st),
      st\<lparr>next_txn := saturating_add (next_txn st) 1\<rparr>)"

definition latest_commit_seq :: "'f mvcc_store \<Rightarrow> block_number \<Rightarrow> commit_seq" where
  "latest_commit_seq st block =
     (case bt_get (versions st) block of
        None \<Rightarrow> CommitSeq 0
      | Some vs \<Rightarrow> if vs = [] then CommitSeq 0 else bv_commit_seq (last vs))"

definition version_bytes_at :: "'f host \<Rightarrow> 'f mvcc_store \<Rightarrow> block_number \<Rightarrow> commit_seq \<Rightarrow> bytes option" where
  "version_bytes_at h st block visible_high =
     Option.bind (bt_get (versions st) block)
       (\<lambda>vs. Option.bind (newest_visible_index vs visible_high) (resolve_data_with h vs))"

definition read_visible :: "'f host \<Rightarrow> 'f mvcc_store \<Rightarrow> block_number \<Rightarrow> snapshot \<Rightarrow> bytes option" where
  "read_visible h st block snap =
     Option.bind (bt_get (versions st) block)
       (\<lambda>vs. Option.bind (newest_visible_index vs (high snap)) (resolve_data_with h vs))"

definition read_visible_physical ::
  "'f host \<Rightarrow> 'f mvcc_store \<Rightarrow> block_number \<Rightarrow> snapshot \<Rightarrow> block_number option" where
  "read_visible_physical h st logical snap =
     (case Option.bind (bt_get (physical_versions st) logical)
             (\<lambda>vs. map_option (\<lambda>idx. pv_physical (vs ! idx))
                     (newest_visible_index_by pv_commit_seq vs (high snap))) of
        Some p \<Rightarrow> Some p
      | None \<Rightarrow> map_option (\<lambda>_. logical) (read_visible h st logical snap))"

definition latest_physical_block :: "'f host \<Rightarrow> 'f mvcc_store \<Rightarrow> block_number \<Rightarrow> block_number option" where
  "latest_physical_block h st logical = read_visible_physical h st logical (current_snapshot st)"

definition is_identical_to_latest :: "'f host \<Rightarrow> 'f mvcc_store \<Rightarrow> block_number \<Rightarrow> bytes \<Rightarrow> bool" where
  "is_identical_to_latest h st block bs =
     (case bt_get (versions st) block of
        None \<Rightarrow> False
      | Some vs \<Rightarrow> vs \<noteq> [] \<and> resolve_data_with h vs (length vs - 1) = Some bs)"

definition maybe_dedup :: "'f host \<Rightarrow> 'f mvcc_store \<Rightarrow> block_number \<Rightarrow> bytes \<Rightarrow> version_data" where
  "maybe_dedup h st block new_bytes =
     (if is_identical_to_latest h st block new_bytes then Identical
      else compress_data h (compression_policy_of st) new_bytes)"

definition watermark :: "'f mvcc_store \<Rightarrow> commit_seq option" where
  "watermark st = (case active_snapshots st of [] \<Rightarrow> None | (s, _) # _ \<Rightarrow> Some s)"

text \<open>The expression \<open>self.watermark().unwrap_or_else(|| self.current_snapshot().high)\<close>.\<close>

definition watermark_or_current :: "'f mvcc_store \<Rightarrow> commit_seq" where
  "watermark_or_current st =
     (case watermark st of Some w \<Rightarrow> w | None \<Rightarrow> high (current_snapshot st))"

definition active_snapshot_count :: "'f mvcc_store \<Rightarrow> usize" where
  "active_snapshot_count st =
     fold (\<lambda>(_, n) total. saturating_add_usize total (unat n)) (active_snapshots st) 0"

definition version_count :: "'f mvcc_store \<Rightarrow> usize" where
  "version_count st = sum_list (map (length \<circ> snd) (versions st))"

definition block_count_versioned :: "'f mvcc_store \<Rightarrow> usize" where
  "block_count_versioned st = length (versions st)"

section \<open>Merging conflicting writes\<close>

definition conflict_on :: "transaction \<Rightarrow> block_number \<Rightarrow> commit_seq \<Rightarrow> commit_fault" where
  "conflict_on txn block observed = Fails (Conflict block (high (txn_snapshot txn)) observed)"

definition missing_staged :: "block_number \<Rightarrow> commit_fault" where
  "missing_staged block =
     Fails (DurabilityFailure (''write_set keys must have staged bytes: BlockNumber('' @ show_nat (unat (bn_val block)) @ '')''))"

definition default_proof :: "merge_proof option \<Rightarrow> merge_proof" where
  "default_proof p = (case p of Some q \<Rightarrow> q | None \<Rightarrow> Unsafe)"

definition or_empty :: "bytes option \<Rightarrow> bytes" where
  "or_empty b = (case b of Some bs \<Rightarrow> bs | None \<Rightarrow> [])"

definition base_or_staged :: "'f host \<Rightarrow> 'f mvcc_store \<Rightarrow> transaction \<Rightarrow> block_number \<Rightarrow> bytes" where
  "base_or_staged h st txn block =
     or_empty (case version_bytes_at h st block (high (txn_snapshot txn)) of
                 Some bs \<Rightarrow> Some bs
               | None \<Rightarrow> staged_base txn block)"

definition resolved_write_bytes_with_policy ::
  "'f host \<Rightarrow> 'f mvcc_store \<Rightarrow> transaction \<Rightarrow> block_number \<Rightarrow> conflict_policy \<Rightarrow> commit_fault + bytes" where
  "resolved_write_bytes_with_policy h st txn block effective =
     (case staged_write_bytes txn block of
        None \<Rightarrow> Inl (missing_staged block)
      | Some staged \<Rightarrow>
          let observed = latest_commit_seq st block
          in if observed \<le> high (txn_snapshot txn) then Inr staged
             else if effective = Strict then Inl (conflict_on txn block observed)
             else
               case merge_bytes (default_proof (txn_merge_proof txn block)) (base_or_staged h st txn block)
                      (or_empty (version_bytes_at h st block observed)) staged of
                 Inl _ \<Rightarrow> Inl Panics
               | Inr None \<Rightarrow> Inl (conflict_on txn block observed)
               | Inr (Some merged) \<Rightarrow> Inr merged)"

definition resolved_write_bytes ::
  "'f host \<Rightarrow> 'f mvcc_store \<Rightarrow> transaction \<Rightarrow> block_number \<Rightarrow> commit_fault + bytes" where
  "resolved_write_bytes h st txn block =
     resolved_write_bytes_with_policy h st txn block (effective_policy h st)"

fun resolve_all ::
  "'f host \<Rightarrow> 'f mvcc_store \<Rightarrow> transaction \<Rightarrow> block_number list \<Rightarrow> commit_fault + (block_number \<times> bytes) list" where
  "resolve_all h st txn [] = Inr []"
| "resolve_all h st txn (block # blocks) =
     (case resolved_write_bytes h st txn block of
        Inl e \<Rightarrow> Inl e
      | Inr bs \<Rightarrow>
          (case resolve_all h st txn blocks of
             Inl e \<Rightarrow> Inl e
           | Inr rest \<Rightarrow> Inr ((block, bs) # rest)))"

definition resolved_writes_for_commit ::
  "'f host \<Rightarrow> 'f mvcc_store \<Rightarrow> transaction \<Rightarrow> commit_fault + (block_number \<times> bytes) list" where
  "resolved_writes_for_commit h st txn = resolve_all h st txn (map fst (txn_staged txn))"

definition resolved_write_valid_with_policy ::
  "'f host \<Rightarrow> 'f mvcc_store \<Rightarrow> transaction \<Rightarrow> block_number \<Rightarrow> conflict_policy \<Rightarrow> commit_fault + unit" where
  "resolved_write_valid_with_policy h st txn block effective =
     (case staged_write_bytes txn block of
        None \<Rightarrow> Inl (missing_staged block)
      | Some staged \<Rightarrow>
          let observed = latest_commit_seq st block
          in if observed \<le> high (txn_snapshot txn) then Inr ()
             else if effective = Strict then Inl (conflict_on txn block observed)
             else
               case merge_valid (default_proof (txn_merge_proof txn block)) (base_or_staged h st txn block)
                      (or_empty (version_bytes_at h st block observed)) staged of
                 Inl _ \<Rightarrow> Inl Panics
               | Inr False \<Rightarrow> Inl (conflict_on txn block observed)
               | Inr True \<Rightarrow> Inr ())"

text \<open>The proof's name and the staged length it returns only feed the evidence ledger.\<close>

definition preflight_resolve_block_conflict ::
  "'f host \<Rightarrow> 'f mvcc_store \<Rightarrow> transaction \<Rightarrow> block_number \<Rightarrow> commit_seq \<Rightarrow> conflict_policy
   \<Rightarrow> commit_fault + unit" where
  "preflight_resolve_block_conflict h st txn block latest effective =
     (if effective = Strict then Inl (conflict_on txn block latest)
      else case resolved_write_valid_with_policy h st txn block effective of
             Inr _ \<Rightarrow> Inr ()
           | Inl Panics \<Rightarrow> Inl Panics
           | Inl (Fails _) \<Rightarrow> Inl (conflict_on txn block latest))"

fun merge_loop ::
  "'f host \<Rightarrow> 'f mvcc_store \<Rightarrow> transaction \<Rightarrow> conflict_policy \<Rightarrow> staged_writes
   \<Rightarrow> (block_number, bytes) btree_map \<Rightarrow> commit_fault + (block_number, bytes) btree_map" where
  "merge_loop h st txn effective [] merged_writes = Inr merged_writes"
| "merge_loop h st txn effective ((block, staged) # rest) merged_writes =
     (let observed = latest_commit_seq st block
      in if observed \<le> high (txn_snapshot txn) then merge_loop h st txn effective rest merged_writes
         else if effective = Strict then Inl (conflict_on txn block observed)
         else
           case merge_bytes (sw_proof staged)
                  (or_empty (version_bytes_at h st block (high (txn_snapshot txn))))
                  (or_empty (version_bytes_at h st block observed)) (sw_bytes staged) of
             Inl _ \<Rightarrow> Inl Panics
           | Inr None \<Rightarrow> Inl (conflict_on txn block observed)
           | Inr (Some merged) \<Rightarrow>
               merge_loop h st txn effective rest (bt_insert block merged merged_writes))"

definition merged_writes_after_preflight ::
  "'f host \<Rightarrow> 'f mvcc_store \<Rightarrow> transaction \<Rightarrow> commit_fault + (block_number, bytes) btree_map" where
  "merged_writes_after_preflight h st txn =
     merge_loop h st txn (effective_policy h st) (txn_staged txn) []"

section \<open>Chain pressure and trimming\<close>

definition retire :: "usize \<Rightarrow> 'f mvcc_store \<Rightarrow> 'f mvcc_store" where
  "retire n st =
     st\<lparr>retired_versions := (case try_from_nat n of
                                 Some k \<Rightarrow> saturating_add (retired_versions st) k
                               | None \<Rightarrow> - 1)\<rparr>"

definition force_advance_oldest_snapshot :: "'f mvcc_store \<Rightarrow> (commit_seq \<times> u64) option \<times> 'f mvcc_store" where
  "force_advance_oldest_snapshot st =
     (case active_snapshots st of
        [] \<Rightarrow> (None, st)
      | (oldest, refs) # _ \<Rightarrow>
          let pending = (case bt_get (force_advanced_releases st) oldest of Some n \<Rightarrow> n | None \<Rightarrow> 0);
              st = st\<lparr>force_advanced_releases := bt_insert oldest (pending + 1) (force_advanced_releases st)\<rparr>
          in if 1 < refs
             then (Some (oldest, refs - 1),
                   st\<lparr>active_snapshots := bt_insert oldest (refs - 1) (active_snapshots st)\<rparr>)
             else (Some (oldest, 0),
                   st\<lparr>active_snapshots := bt_remove oldest (active_snapshots st)\<rparr>))"

definition chain_trim_blocked_by_snapshot :: "'f mvcc_store \<Rightarrow> block_number \<Rightarrow> commit_seq \<Rightarrow> bool" where
  "chain_trim_blocked_by_snapshot st block wm =
     (case bt_get (versions st) block of
        None \<Rightarrow> False
      | Some vs \<Rightarrow> 1 < length vs \<and> wm < bv_commit_seq (vs ! 1))"

definition enforce_chain_pressure ::
  "'f mvcc_store \<Rightarrow> block_number \<Rightarrow> usize \<Rightarrow> (commit_error + unit) \<times> 'f mvcc_store" where
  "enforce_chain_pressure st block max_len =
     (let chain_len = (case bt_get (versions st) block of None \<Rightarrow> 0 | Some vs \<Rightarrow> length vs);
          max_len = max max_len 1;
          critical_len = critical_chain_len max_len;
          wm = watermark_or_current st
      in if chain_len = 0 then (Inr (), st)
         else if chain_len < critical_len then (Inr (), st)
         else if \<not> chain_trim_blocked_by_snapshot st block wm then (Inr (), st)
         else case force_advance_oldest_snapshot st of
                (Some _, st') \<Rightarrow>
                  if \<not> chain_trim_blocked_by_snapshot st' block (watermark_or_current st') then (Inr (), st')
                  else (Inl (ChainBackpressure block chain_len max_len critical_len wm), st')
              | (None, st') \<Rightarrow> (Inl (ChainBackpressure block chain_len max_len critical_len wm), st'))"

definition enforce_chain_cap :: "'f host \<Rightarrow> block_number \<Rightarrow> usize \<Rightarrow> 'f mvcc_store \<Rightarrow> 'f mvcc_store" where
  "enforce_chain_cap h block max_len st =
     (case bt_get (versions st) block of
        None \<Rightarrow> st
      | Some vs \<Rightarrow>
          let (retired, vs) = trim_block_chain_to_cap h vs (max max_len 1) (watermark_or_current st);
              st = st\<lparr>versions := bt_insert block vs (versions st)\<rparr>
          in if retired = [] then st else retire (length retired) st)"

definition enforce_physical_chain_cap :: "block_number \<Rightarrow> usize \<Rightarrow> 'f mvcc_store \<Rightarrow> 'f mvcc_store" where
  "enforce_physical_chain_cap block max_len st =
     (case bt_get (physical_versions st) block of
        None \<Rightarrow> st
      | Some vs \<Rightarrow>
          st\<lparr>physical_versions :=
               bt_insert block (snd (trim_physical_chain_to_cap vs (max max_len 1) (watermark_or_current st)))
                 (physical_versions st)\<rparr>)"

definition eligible_in_chain :: "commit_seq \<Rightarrow> block_version list \<Rightarrow> nat" where
  "eligible_in_chain wm vs = (if length vs \<le> 1 then 0 else keep_loop (map bv_commit_seq vs) wm 0)"

section \<open>Commit\<close>

text \<open>\<open>ContentionMetrics::record_commit\<close> followed by the update of the selected policy.\<close>

definition record_contention :: "'f host \<Rightarrow> bool \<Rightarrow> bool \<Rightarrow> bool \<Rightarrow> 'f mvcc_store \<Rightarrow> 'f mvcc_store" where
  "record_contention h had_conflict merge_succeeded aborted st =
     (let m = record_commit h (contention_metrics_of st) (ema_alpha (adaptive_config st))
                had_conflict merge_succeeded aborted
      in st\<lparr>contention_metrics_of := m\<lparr>last_selected := Some (select_policy h m (adaptive_config st))\<rparr>\<rparr>)"

definition resolve_step ::
  "'f host \<Rightarrow> timing \<Rightarrow> transaction \<Rightarrow> conflict_policy \<Rightarrow> bool \<Rightarrow> block_number \<Rightarrow> commit_seq \<Rightarrow> 'f mvcc_store
   \<Rightarrow> (commit_fault + unit) \<times> 'f mvcc_store" where
  "resolve_step h tm txn effective record_metrics block latest st =
     (let resolution = preflight_resolve_block_conflict h st txn block latest effective;
          st = st\<lparr>runtime_metrics :=
                 record_conflict_resolution_latency (resolve_us tm block) (runtime_metrics st)\<rparr>
      in case resolution of
           Inr _ \<Rightarrow> (Inr (), st)
         | Inl Panics \<Rightarrow> (Inl Panics, st)
         | Inl err \<Rightarrow> (Inl err, if record_metrics then record_contention h True False True st else st))"

definition pressure_step ::
  "'f host \<Rightarrow> bool \<Rightarrow> bool \<Rightarrow> bool \<Rightarrow> block_number \<Rightarrow> usize option \<Rightarrow> 'f mvcc_store
   \<Rightarrow> (commit_fault + unit) \<times> 'f mvcc_store" where
  "pressure_step h record_metrics had_conflict merge_succeeded block chain_cap st =
     (case chain_cap of
        None \<Rightarrow> (Inr (), st)
      | Some cap \<Rightarrow>
          (case enforce_chain_pressure st block cap of
             (Inr _, st) \<Rightarrow> (Inr (), st)
           | (Inl err, st) \<Rightarrow>
               (Inl (Fails err),
                if record_metrics then record_contention h had_conflict merge_succeeded True st else st)))"

fun preflight_loop ::
  "'f host \<Rightarrow> timing \<Rightarrow> transaction \<Rightarrow> conflict_policy \<Rightarrow> bool \<Rightarrow> usize option \<Rightarrow> bool \<Rightarrow> bool
   \<Rightarrow> block_number list \<Rightarrow> 'f mvcc_store \<Rightarrow> (commit_fault + (bool \<times> bool)) \<times> 'f mvcc_store" where
  "preflight_loop h tm txn effective rm chain_cap had_conflict merge_succeeded [] st =
     (Inr (had_conflict, merge_succeeded), st)"
| "preflight_loop h tm txn effective rm chain_cap had_conflict merge_succeeded (block # blocks) st =
     (let latest = latest_commit_seq st block;
          conflicted = high (txn_snapshot txn) < latest;
          had_conflict = (had_conflict \<or> conflicted)
      in case (if conflicted then resolve_step h tm txn effective rm block latest st else (Inr (), st)) of
           (Inl err, st) \<Rightarrow> (Inl err, st)
         | (Inr _, st) \<Rightarrow>
             let merge_succeeded = (merge_succeeded \<or> conflicted)
             in case pressure_step h rm had_conflict merge_succeeded block chain_cap st of
                  (Inl err, st) \<Rightarrow> (Inl err, st)
                | (Inr _, st) \<Rightarrow>
                    preflight_loop h tm txn effective rm chain_cap had_conflict merge_succeeded blocks st)"

definition preflight_fcw ::
  "'f host \<Rightarrow> timing \<Rightarrow> transaction \<Rightarrow> 'f mvcc_store \<Rightarrow> (commit_fault + unit) \<times> 'f mvcc_store" where
  "preflight_fcw h tm txn st =
     (case validate_transaction_id (txn_ident txn) of
        Inl err \<Rightarrow> (Inl (Fails err), st)
      | Inr _ \<Rightarrow>
          let chain_cap = max_chain_length (compression_policy_of st);
              prev_effective = effective_policy h st;
              record_metrics = (conflict_policy_of st = Adaptive)
          in case preflight_loop h tm txn prev_effective record_metrics chain_cap False False
                    (map fst (txn_staged txn)) st of
               (Inl err, st) \<Rightarrow> (Inl err, st)
             | (Inr (had_conflict, merge_succeeded), st) \<Rightarrow>
                 (Inr (), if record_metrics then record_contention h had_conflict merge_succeeded False st else st))"

definition next_commit_seq :: "'f mvcc_store \<Rightarrow> (commit_fault + commit_seq) \<times> 'f mvcc_store" where
  "next_commit_seq st =
     (case checked_add (next_commit st) 1 of
        None \<Rightarrow> (Inl (Fails (DurabilityFailure
                  (''commit sequence exhausted at '' @ show_nat (unat (next_commit st))))), st)
      | Some nxt \<Rightarrow> (Inr (CommitSeq (next_commit st)), st\<lparr>next_commit := nxt\<rparr>))"

definition push_version :: "block_number \<Rightarrow> block_version \<Rightarrow> 'f mvcc_store \<Rightarrow> 'f mvcc_store" where
  "push_version block v st =
     st\<lparr>versions := bt_insert block
          ((case bt_get (versions st) block of Some vs \<Rightarrow> vs | None \<Rightarrow> []) @ [v]) (versions st)\<rparr>"

definition push_physical :: "block_number \<Rightarrow> physical_block_version \<Rightarrow> 'f mvcc_store \<Rightarrow> 'f mvcc_store" where
  "push_physical block v st =
     st\<lparr>physical_versions := bt_insert block
          ((case bt_get (physical_versions st) block of Some vs \<Rightarrow> vs | None \<Rightarrow> []) @ [v])
          (physical_versions st)\<rparr>"

definition version_data_for :: "'f host \<Rightarrow> 'f mvcc_store \<Rightarrow> block_number \<Rightarrow> bytes \<Rightarrow> version_data" where
  "version_data_for h st block version_bytes =
     (if dedup_identical (compression_policy_of st) \<and> is_identical_to_latest h st block version_bytes
      then Identical
      else if algo (compression_policy_of st) = NoCompression then Full version_bytes
      else compress_data h (compression_policy_of st) version_bytes)"

definition install_one ::
  "'f host \<Rightarrow> txn_id \<Rightarrow> commit_seq \<Rightarrow> (block_number, cow_rewrite_intent) btree_map
   \<Rightarrow> block_number \<Rightarrow> bytes \<Rightarrow> 'f mvcc_store \<Rightarrow> 'f mvcc_store" where
  "install_one h ident seq cow_writes block version_bytes st =
     (let v = \<lparr>bv_block = block, bv_commit_seq = seq, bv_writer = ident,
               bv_data = version_data_for h st block version_bytes\<rparr>;
          st = push_version block v st;
          st = (case bt_get cow_writes block of
                  None \<Rightarrow> st
                | Some intent \<Rightarrow>
                    push_physical block \<lparr>pv_logical = block, pv_physical = new_physical intent,
                      pv_commit_seq = seq, pv_writer = ident\<rparr> st)
      in case max_chain_length (compression_policy_of st) of
           None \<Rightarrow> st
         | Some cap \<Rightarrow> enforce_physical_chain_cap block cap (enforce_chain_cap h block cap st))"

fun install_loop ::
  "'f host \<Rightarrow> txn_id \<Rightarrow> commit_seq \<Rightarrow> (block_number, cow_rewrite_intent) btree_map
   \<Rightarrow> (block_number, bytes) btree_map \<Rightarrow> staged_writes \<Rightarrow> 'f mvcc_store \<Rightarrow> 'f mvcc_store" where
  "install_loop h ident seq cow_writes merged_writes [] st = st"
| "install_loop h ident seq cow_writes merged_writes ((block, staged) # rest) st =
     install_loop h ident seq cow_writes (bt_remove block merged_writes) rest
       (install_one h ident seq cow_writes block
          (case bt_get merged_writes block of Some bs \<Rightarrow> bs | None \<Rightarrow> sw_bytes staged) st)"

definition collect_cow_deferred_frees ::
  "(block_number, cow_rewrite_intent) btree_map \<Rightarrow> block_number list \<Rightarrow> block_number list" where
  "collect_cow_deferred_frees cow_writes cow_orphans =
     fold (\<lambda>(_, intent) orphans.
             case old_physical intent of
               Some old \<Rightarrow> if old \<noteq> new_physical intent then bts_insert old orphans else orphans
             | None \<Rightarrow> orphans) cow_writes cow_orphans"

definition apply_fcw_commit ::
  "'f host \<Rightarrow> transaction \<Rightarrow> 'f mvcc_store
   \<Rightarrow> (commit_fault + (commit_seq \<times> block_number list)) \<times> 'f mvcc_store" where
  "apply_fcw_commit h txn st =
     (case validate_transaction_id (txn_ident txn) of
        Inl err \<Rightarrow> (Inl (Fails err), st)
      | Inr _ \<Rightarrow>
          (case merge_loop h st txn (effective_policy h st) (txn_staged txn) [] of
             Inl err \<Rightarrow> (Inl err, st)
           | Inr merged_writes \<Rightarrow>
               (case next_commit_seq st of
                  (Inl err, st) \<Rightarrow> (Inl err, st)
                | (Inr seq, st) \<Rightarrow>
                    (Inr (seq, collect_cow_deferred_frees (txn_cow_writes txn) (txn_cow_orphans txn)),
                     install_loop h (txn_ident txn) seq (txn_cow_writes txn) merged_writes
                       (txn_staged txn) st))))"

definition commit_fcw_internal ::
  "'f host \<Rightarrow> timing \<Rightarrow> transaction \<Rightarrow> 'f mvcc_store
   \<Rightarrow> (commit_fault + (commit_seq \<times> block_number list)) \<times> 'f mvcc_store" where
  "commit_fcw_internal h tm txn st =
     (case preflight_fcw h tm txn st of
        (Inl err, st) \<Rightarrow> (Inl err, st)
      | (Inr _, st) \<Rightarrow> apply_fcw_commit h txn st)"

definition validate_ssi_read_set :: "'f mvcc_store \<Rightarrow> transaction \<Rightarrow> commit_fault + u64" where
  "validate_ssi_read_set st txn =
     (let records = takeWhile (\<lambda>r. high (txn_snapshot txn) < cr_commit_seq r) (rev (ssi_log st))
      in case detect_ssi_dangerous_structure txn records of
           (checks, Some d) \<Rightarrow> Inl (Fails (to_commit_error d))
         | (checks, None) \<Rightarrow> Inr checks)"

definition commit_ssi_internal ::
  "'f host \<Rightarrow> timing \<Rightarrow> transaction \<Rightarrow> 'f mvcc_store
   \<Rightarrow> (commit_fault + (commit_seq \<times> block_number list)) \<times> 'f mvcc_store" where
  "commit_ssi_internal h tm txn st =
     (case preflight_fcw h tm txn st of
        (Inl err, st) \<Rightarrow> (Inl err, st)
      | (Inr _, st) \<Rightarrow>
          (case validate_ssi_read_set st txn of
             Inl err \<Rightarrow> (Inl err, st)
           | Inr _ \<Rightarrow>
               (case merged_writes_after_preflight h st txn of
                  Inl err \<Rightarrow> (Inl err, st)
                | Inr merged_writes \<Rightarrow>
                    (case next_commit_seq st of
                       (Inl err, st) \<Rightarrow> (Inl err, st)
                     | (Inr seq, st) \<Rightarrow>
                         let st = install_loop h (txn_ident txn) seq (txn_cow_writes txn) merged_writes
                                    (txn_staged txn) st;
                             rec = \<lparr>cr_txn_id = txn_ident txn, cr_commit_seq = seq,
                                    cr_snapshot = txn_snapshot txn,
                                    cr_write_set = fold bts_insert (map fst (txn_staged txn)) [],
                                    cr_read_set = txn_reads txn\<rparr>
                         in (Inr (seq, collect_cow_deferred_frees (txn_cow_writes txn) (txn_cow_orphans txn)),
                             st\<lparr>ssi_log := ssi_log st @ [rec]\<rparr>)))))"

section \<open>Public commit operations\<close>

definition emit_txn_aborted :: "'f mvcc_store \<Rightarrow> 'f mvcc_store" where
  "emit_txn_aborted st = st\<lparr>aborted_transactions := saturating_add (aborted_transactions st) 1\<rparr>"

definition emit_serialization_conflict :: "'f mvcc_store \<Rightarrow> 'f mvcc_store" where
  "emit_serialization_conflict st = st\<lparr>ssi_conflicts := saturating_add (ssi_conflicts st) 1\<rparr>"

definition emit_transaction_commit :: "timing \<Rightarrow> usize \<Rightarrow> 'f mvcc_store \<Rightarrow> 'f mvcc_store" where
  "emit_transaction_commit tm write_set_size st =
     st\<lparr>runtime_metrics := record_commit_success (commit_us tm) (runtime_metrics st),
        committed_block_writes := saturating_add (committed_block_writes st)
          (case try_from_nat write_set_size of Some n \<Rightarrow> n | None \<Rightarrow> - 1)\<rparr>"

definition record_commit_abort :: "commit_error \<Rightarrow> 'f mvcc_store \<Rightarrow> 'f mvcc_store" where
  "record_commit_abort err st =
     (let st = st\<lparr>runtime_metrics := record_commit_abort_metrics err (runtime_metrics st)\<rparr>
      in case err of
           SsiConflict _ _ _ _ \<Rightarrow> emit_serialization_conflict (emit_txn_aborted st)
         | _ \<Rightarrow> emit_txn_aborted st)"

definition attempt :: "'f mvcc_store \<Rightarrow> 'f mvcc_store" where
  "attempt st = st\<lparr>runtime_metrics := record_commit_attempt (runtime_metrics st)\<rparr>"

text \<open>The common tail of the commit methods: the outcome of the internal commit is counted.\<close>

definition finish_commit ::
  "timing \<Rightarrow> transaction \<Rightarrow> (commit_fault + (commit_seq \<times> block_number list)) \<times> 'f mvcc_store
   \<Rightarrow> (commit_fault + commit_seq) \<times> 'f mvcc_store" where
  "finish_commit tm txn outcome =
     (case outcome of
        (Inr (seq, _), st) \<Rightarrow> (Inr seq, emit_transaction_commit tm (length (txn_staged txn)) st)
      | (Inl Panics, st) \<Rightarrow> (Inl Panics, st)
      | (Inl (Fails err), st) \<Rightarrow> (Inl (Fails err), record_commit_abort err st))"

definition commit_txn ::
  "'f host \<Rightarrow> timing \<Rightarrow> transaction \<Rightarrow> 'f mvcc_store \<Rightarrow> (commit_fault + commit_seq) \<times> 'f mvcc_store" where
  "commit_txn h tm txn st = finish_commit tm txn (commit_fcw_internal h tm txn (attempt st))"

definition preflight_commit_fcw ::
  "'f host \<Rightarrow> timing \<Rightarrow> transaction \<Rightarrow> 'f mvcc_store \<Rightarrow> (commit_fault + unit) \<times> 'f mvcc_store" where
  "preflight_commit_fcw h tm txn st = preflight_fcw h tm txn st"

definition commit_fcw_prechecked ::
  "'f host \<Rightarrow> timing \<Rightarrow> transaction \<Rightarrow> 'f mvcc_store \<Rightarrow> (commit_fault + commit_seq) \<times> 'f mvcc_store" where
  "commit_fcw_prechecked h tm txn st = finish_commit tm txn (apply_fcw_commit h txn (attempt st))"

definition commit_ssi ::
  "'f host \<Rightarrow> timing \<Rightarrow> transaction \<Rightarrow> 'f mvcc_store \<Rightarrow> (commit_fault + commit_seq) \<times> 'f mvcc_store" where
  "commit_ssi h tm txn st = finish_commit tm txn (commit_ssi_internal h tm txn (attempt st))"

text \<open>
  The copy-on-write allocator is a trait object of other crates: the model returns the calls
  the store makes on it, in order.
\<close>

datatype cow_call = DeferFree block_number commit_seq | GcFree commit_seq

definition gc_cow_blocks :: "'f mvcc_store \<Rightarrow> cow_call" where
  "gc_cow_blocks st = GcFree (watermark_or_current st)"

definition release_cow_blocks :: "transaction \<Rightarrow> cow_call list" where
  "release_cow_blocks txn =
     map (\<lambda>(_, intent). DeferFree (new_physical intent) (CommitSeq 0)) (txn_cow_writes txn)
     @ map (\<lambda>orphan. DeferFree orphan (CommitSeq 0)) (txn_cow_orphans txn)"

definition cow_calls ::
  "transaction \<Rightarrow> (commit_fault + (commit_seq \<times> block_number list)) \<times> 'f mvcc_store \<Rightarrow> cow_call list" where
  "cow_calls txn outcome =
     (case outcome of
        (Inr (seq, deferred), st) \<Rightarrow> map (\<lambda>b. DeferFree b seq) deferred @ [gc_cow_blocks st]
      | (Inl Panics, st) \<Rightarrow> []
      | (Inl (Fails _), st) \<Rightarrow> release_cow_blocks txn @ [gc_cow_blocks st])"

definition commit_with_cow_allocator ::
  "'f host \<Rightarrow> timing \<Rightarrow> transaction \<Rightarrow> 'f mvcc_store
   \<Rightarrow> (commit_fault + commit_seq) \<times> 'f mvcc_store \<times> cow_call list" where
  "commit_with_cow_allocator h tm txn st =
     (let outcome = commit_fcw_internal h tm txn (attempt st);
          (r, st) = finish_commit tm txn outcome
      in (r, st, cow_calls txn outcome))"

definition commit_ssi_with_cow_allocator ::
  "'f host \<Rightarrow> timing \<Rightarrow> transaction \<Rightarrow> 'f mvcc_store
   \<Rightarrow> (commit_fault + commit_seq) \<times> 'f mvcc_store \<times> cow_call list" where
  "commit_ssi_with_cow_allocator h tm txn st =
     (let outcome = commit_ssi_internal h tm txn (attempt st);
          (r, st) = finish_commit tm txn outcome
      in (r, st, cow_calls txn outcome))"

definition abort_txn :: "transaction \<Rightarrow> 'f mvcc_store \<Rightarrow> 'f mvcc_store" where
  "abort_txn txn st = emit_txn_aborted st"

definition abort_with_cow_allocator :: "transaction \<Rightarrow> 'f mvcc_store \<Rightarrow> 'f mvcc_store \<times> cow_call list" where
  "abort_with_cow_allocator txn st =
     (abort_txn txn st, release_cow_blocks txn @ [gc_cow_blocks st])"

definition write_cow ::
  "'f host \<Rightarrow> 'f mvcc_store \<Rightarrow> block_number \<Rightarrow> bytes \<Rightarrow> transaction
   \<Rightarrow> (block_number option \<Rightarrow> ffs_error + block_number) \<Rightarrow> (ffs_error + block_number) \<times> transaction" where
  "write_cow h st logical data txn alloc_cow =
     (let staged = bt_get (txn_cow_writes txn) logical;
          committed_old = (case Option.bind staged old_physical of
                             Some p \<Rightarrow> Some p
                           | None \<Rightarrow> read_visible_physical h st logical (txn_snapshot txn));
          allocation_hint = (case staged of
                               Some intent \<Rightarrow> Some (new_physical intent)
                             | None \<Rightarrow> committed_old)
      in case alloc_cow allocation_hint of
           Inl err \<Rightarrow> (Inl err, txn)
         | Inr new_phys \<Rightarrow> (Inr new_phys, stage_cow_rewrite txn logical committed_old new_phys data))"

section \<open>Snapshots, pruning, eviction\<close>

definition register_snapshot :: "snapshot \<Rightarrow> 'f mvcc_store \<Rightarrow> 'f mvcc_store" where
  "register_snapshot snap st =
     (let n = (case bt_get (active_snapshots st) (high snap) of Some n \<Rightarrow> n | None \<Rightarrow> 0)
      in st\<lparr>active_snapshots := bt_insert (high snap) (saturating_add n 1) (active_snapshots st)\<rparr>)"

definition release_snapshot :: "snapshot \<Rightarrow> 'f mvcc_store \<Rightarrow> bool \<times> 'f mvcc_store" where
  "release_snapshot snap st =
     (case bt_get (active_snapshots st) (high snap) of
        Some n \<Rightarrow>
          let n' = saturating_sub n 1
          in (True, st\<lparr>active_snapshots :=
                (if n' = 0 then bt_remove (high snap) (active_snapshots st)
                 else bt_insert (high snap) n' (active_snapshots st))\<rparr>)
      | None \<Rightarrow>
          (case bt_get (force_advanced_releases st) (high snap) of
             Some pending \<Rightarrow>
               let pending' = pending - 1
               in (True, st\<lparr>force_advanced_releases :=
                     (if pending' = 0 then bt_remove (high snap) (force_advanced_releases st)
                      else bt_insert (high snap) pending' (force_advanced_releases st))\<rparr>)
           | None \<Rightarrow> (False, st)))"

definition prune_versions_older_than :: "'f host \<Rightarrow> commit_seq \<Rightarrow> 'f mvcc_store \<Rightarrow> 'f mvcc_store" where
  "prune_versions_older_than h wm st =
     (let retired = concat (map (\<lambda>(_, vs). fst (prune_chain h wm vs)) (versions st));
          st = st\<lparr>versions := map (\<lambda>(b, vs). (b, snd (prune_chain h wm vs))) (versions st)\<rparr>;
          st = (if retired \<noteq> []
                then retire (length retired)
                       (st\<lparr>runtime_metrics := record_versions_pruned (length retired) (runtime_metrics st)\<rparr>)
                else st)
      in st\<lparr>physical_versions := map (\<lambda>(b, vs). (b, prune_physical_chain wm vs)) (physical_versions st)\<rparr>)"

definition prune_safe :: "'f host \<Rightarrow> 'f mvcc_store \<Rightarrow> commit_seq \<times> 'f mvcc_store" where
  "prune_safe h st =
     (let wm = watermark_or_current st in (wm, prune_versions_older_than h wm st))"

definition prune_ssi_log :: "commit_seq \<Rightarrow> 'f mvcc_store \<Rightarrow> 'f mvcc_store" where
  "prune_ssi_log wm st = st\<lparr>ssi_log := filter (\<lambda>r. wm < cr_commit_seq r) (ssi_log st)\<rparr>"

definition durable_chain ::
  "(block_number, physical_block_version list) btree_map \<Rightarrow> commit_seq \<Rightarrow> block_number \<times> block_version list \<Rightarrow> bool" where
  "durable_chain physical bound entry =
     (case entry of (block, vs) \<Rightarrow>
        bt_get physical block = None \<and> vs \<noteq> [] \<and> bv_commit_seq (last vs) \<le> bound)"

text \<open>
  The result lists the evicted blocks, the arguments of the callback; the source passes them in
  the order of its hash map.
\<close>

definition evict_durable_chains :: "commit_seq \<Rightarrow> 'f mvcc_store \<Rightarrow> block_number list \<times> 'f mvcc_store" where
  "evict_durable_chains durable_through st =
     (let bound = (case watermark st of None \<Rightarrow> durable_through | Some wm \<Rightarrow> min wm durable_through);
          durable = durable_chain (physical_versions st) bound;
          retired = concat (map snd (filter durable (versions st)));
          evicted = map fst (filter durable (versions st));
          st = st\<lparr>versions := filter (\<lambda>e. \<not> durable e) (versions st)\<rparr>
      in (evicted,
          if retired \<noteq> []
          then retire (length retired)
                 (st\<lparr>runtime_metrics := record_versions_pruned (length retired) (runtime_metrics st)\<rparr>)
          else st))"

definition advance_counters :: "u64 \<Rightarrow> u64 \<Rightarrow> 'f mvcc_store \<Rightarrow> 'f mvcc_store" where
  "advance_counters last_commit last_txn st =
     st\<lparr>next_commit := max (next_commit st) (saturating_add last_commit 1),
        next_txn := max (next_txn st) (saturating_add last_txn 1)\<rparr>"

definition insert_versions :: "block_number \<Rightarrow> block_version list \<Rightarrow> 'f mvcc_store \<Rightarrow> 'f mvcc_store" where
  "insert_versions block vs st =
     st\<lparr>versions := bt_insert block
          ((case bt_get (versions st) block of Some old \<Rightarrow> old | None \<Rightarrow> []) @ vs) (versions st)\<rparr>"

end
