(* ===== verification/Store_Inv.thy ===== *)
theory Store_Inv
  imports Mvcc_Store
begin

text \<open>
  The invariant of the multi-version store and its preservation by every operation. Chains are
  ascending, belong to their block, lie below the next sequence number and stay resolvable;
  reference counts of snapshots are positive; the log of committed transactions is ordered. The
  operations of the store form a state machine, and the invariant holds in all its reachable
  states.
\<close>

section \<open>The invariant\<close>

definition physical_ok :: "block_number \<Rightarrow> u64 \<Rightarrow> physical_block_version list \<Rightarrow> bool" where
  "physical_ok b n ps \<longleftrightarrow>
     ps \<noteq> [] \<and> sorted_wrt (<) (map pv_commit_seq ps)
   \<and> (\<forall>p \<in> set ps. pv_logical p = b \<and> seq_val (pv_commit_seq p) < n)"

definition chains_ok :: "'f host \<Rightarrow> 'f mvcc_store \<Rightarrow> bool" where
  "chains_ok h st \<longleftrightarrow>
     bt_inv (versions st) \<and> (\<forall>b vs. bt_get (versions st) b = Some vs \<longrightarrow> chain_ok h b (next_commit st) vs)
   \<and> bt_inv (physical_versions st)
   \<and> (\<forall>b ps. bt_get (physical_versions st) b = Some ps \<longrightarrow> physical_ok b (next_commit st) ps)"

definition snapshots_ok :: "'f mvcc_store \<Rightarrow> bool" where
  "snapshots_ok st \<longleftrightarrow>
     bt_inv (active_snapshots st) \<and> (\<forall>s n. bt_get (active_snapshots st) s = Some n \<longrightarrow> 0 < n)
   \<and> bt_inv (force_advanced_releases st)"

definition log_ok :: "'f mvcc_store \<Rightarrow> bool" where
  "log_ok st \<longleftrightarrow>
     sorted_wrt (<) (map cr_commit_seq (ssi_log st))
   \<and> (\<forall>r \<in> set (ssi_log st). record_ok r \<and> seq_val (cr_commit_seq r) < next_commit st)"

definition store_ok :: "'f host \<Rightarrow> 'f mvcc_store \<Rightarrow> bool" where
  "store_ok h st \<longleftrightarrow> chains_ok h st \<and> snapshots_ok st \<and> log_ok st \<and> 0 < next_commit st"

section \<open>Fields an operation leaves alone\<close>

text \<open>The part of the state that holds committed data.\<close>

definition same_data :: "'f mvcc_store \<Rightarrow> 'f mvcc_store \<Rightarrow> bool" where
  "same_data st st' \<longleftrightarrow>
     versions st' = versions st \<and> physical_versions st' = physical_versions st
   \<and> next_commit st' = next_commit st \<and> ssi_log st' = ssi_log st
   \<and> compression_policy_of st' = compression_policy_of st"

definition same_snapshots :: "'f mvcc_store \<Rightarrow> 'f mvcc_store \<Rightarrow> bool" where
  "same_snapshots st st' \<longleftrightarrow>
     active_snapshots st' = active_snapshots st
   \<and> force_advanced_releases st' = force_advanced_releases st"

text \<open>Preflight only counts, and may age out the oldest snapshot.\<close>

definition preflight_frame :: "'f mvcc_store \<Rightarrow> 'f mvcc_store \<Rightarrow> bool" where
  "preflight_frame st st' \<longleftrightarrow>
     same_data st st' \<and> conflict_policy_of st' = conflict_policy_of st
   \<and> adaptive_config st' = adaptive_config st \<and> next_txn st' = next_txn st
   \<and> (snapshots_ok st \<longrightarrow> snapshots_ok st')
   \<and> fst ` set (active_snapshots st') \<subseteq> fst ` set (active_snapshots st)"

lemmas frame_defs = preflight_frame_def same_data_def same_snapshots_def snapshots_ok_def

lemma preflight_frame_refl [simp]: "preflight_frame st st"
  by (simp add: frame_defs)

lemma preflight_frame_trans [trans]:
  assumes "preflight_frame a b" "preflight_frame b c"
  shows "preflight_frame a c"
proof -
  have "fst ` set (active_snapshots c) \<subseteq> fst ` set (active_snapshots a)"
    using assms unfolding preflight_frame_def by (elim conjE) (rule subset_trans)
  then show ?thesis using assms by (simp add: preflight_frame_def same_data_def)
qed

lemma record_contention_frame [simp]:
  "preflight_frame st (record_contention h a b c st)"
  "same_snapshots st (record_contention h a b c st)"
  by (simp_all add: frame_defs record_contention_def Let_def)

lemma latency_frame [simp]: "preflight_frame st (st\<lparr>runtime_metrics := m\<rparr>)"
  by (simp add: frame_defs)

lemma counts_insert:
  assumes "bt_inv m" "\<forall>s n. bt_get m s = Some n \<longrightarrow> (0::u64) < n" "0 < n'"
  shows "bt_inv (bt_insert k n' m) \<and> (\<forall>s n. bt_get (bt_insert k n' m) s = Some n \<longrightarrow> 0 < n)"
  using assms by auto

lemma counts_remove:
  assumes "bt_inv m" "\<forall>s n. bt_get m s = Some n \<longrightarrow> (0::u64) < n"
  shows "bt_inv (bt_remove k m) \<and> (\<forall>s n. bt_get (bt_remove k m) s = Some n \<longrightarrow> 0 < n)"
  using assms by (auto split: if_splits)

lemma fst_set_bt_remove: "fst ` set (bt_remove k m) = fst ` set m - {k}"
  by (auto simp: bt_remove_def)

lemma force_advance_frame: "preflight_frame st (snd (force_advance_oldest_snapshot st))"
proof (cases "active_snapshots st")
  case (Cons e rest)
  obtain oldest refs where e: "e = (oldest, refs)" by (cases e)
  define act where "act = active_snapshots st"
  define pend where "pend = (case bt_get (force_advanced_releases st) oldest of Some n \<Rightarrow> n | None \<Rightarrow> 0)"
  define act' where "act' = (if 1 < refs then bt_insert oldest (refs - 1) act else bt_remove oldest act)"
  have st': "snd (force_advance_oldest_snapshot st) =
      st\<lparr>force_advanced_releases := bt_insert oldest (pend + 1) (force_advanced_releases st),
        active_snapshots := act'\<rparr>"
    by (simp add: force_advance_oldest_snapshot_def Cons e Let_def pend_def act'_def act_def)
  have refs: "0 < refs - 1" if "1 < refs"
    using that by (simp add: word_less_nat_alt unat_sub word_le_nat_alt)
  have "oldest \<in> fst ` set act" by (simp add: act_def Cons e)
  then have sub: "fst ` set act' \<subseteq> fst ` set act"
    by (auto simp: act'_def fst_set_bt_insert fst_set_bt_remove)
  have "snapshots_ok (snd (force_advance_oldest_snapshot st))" if "snapshots_ok st"
    using that counts_insert [of act "refs - 1" oldest] counts_remove [of act oldest] refs
    unfolding st' snapshots_ok_def act'_def by (auto simp: act_def [symmetric])
  then show ?thesis using sub by (simp add: preflight_frame_def same_data_def st' act_def)
qed (simp add: force_advance_oldest_snapshot_def)

lemma chain_pressure_frame: "preflight_frame st (snd (enforce_chain_pressure st block cap))"
  using force_advance_frame [of st]
  by (auto simp: enforce_chain_pressure_def Let_def split: prod.splits option.splits)

lemma resolve_step_frame: "preflight_frame st (snd (resolve_step h tm txn eff rm block latest st))"
proof -
  let ?st = "st\<lparr>runtime_metrics := record_conflict_resolution_latency (resolve_us tm block) (runtime_metrics st)\<rparr>"
  have a: "preflight_frame st ?st" by (rule latency_frame)
  have "preflight_frame st (record_contention h True False True ?st)"
    using a record_contention_frame(1) by (rule preflight_frame_trans)
  with a show ?thesis
    by (auto simp: resolve_step_def Let_def split: sum.splits commit_fault.splits)
qed

lemma pressure_step_frame: "preflight_frame st (snd (pressure_step h rm had mg block cap st))"
proof (cases cap)
  case (Some c)
  obtain r st' where e: "enforce_chain_pressure st block c = (r, st')" by (cases "enforce_chain_pressure st block c")
  have a: "preflight_frame st st'" using chain_pressure_frame [of st block c] by (simp add: e)
  have "preflight_frame st (record_contention h had mg True st')"
    using a record_contention_frame(1) by (rule preflight_frame_trans)
  with a show ?thesis by (auto simp: pressure_step_def Some e split: sum.splits)
qed (simp add: pressure_step_def)

lemma preflight_loop_frame:
  "preflight_frame st (snd (preflight_loop h tm txn eff rm cap had mg blocks st))"
proof (induction blocks arbitrary: st had mg)
  case (Cons block blocks)
  define conf where "conf = (high (txn_snapshot txn) < latest_commit_seq st block)"
  obtain r st1 where r: "(if conf then resolve_step h tm txn eff rm block (latest_commit_seq st block) st
      else (Inr (), st)) = (r, st1)" by (metis surj_pair)
  have f1: "preflight_frame st st1"
    using resolve_step_frame [of st h tm txn eff rm block "latest_commit_seq st block"] r
    by (cases conf) auto
  obtain q st2 where q: "pressure_step h rm (had \<or> conf) (mg \<or> conf) block cap st1 = (q, st2)"
    by (metis surj_pair)
  have f2: "preflight_frame st1 st2"
    using pressure_step_frame [of st1 h rm "had \<or> conf" "mg \<or> conf" block cap] by (simp add: q)
  note f12 = preflight_frame_trans [OF f1 f2]
  have "preflight_frame st (snd (preflight_loop h tm txn eff rm cap (had \<or> conf) (mg \<or> conf) blocks st2))"
    by (rule preflight_frame_trans [OF f12 Cons.IH])
  then show ?case
    using f1 f12 q by (simp add: Let_def conf_def [symmetric] r split: sum.split)
qed simp

lemma preflight_frame: "preflight_frame st (snd (preflight_fcw h tm txn st))"
proof -
  obtain r st' where r: "preflight_loop h tm txn (effective_policy h st) (conflict_policy_of st = Adaptive)
      (max_chain_length (compression_policy_of st)) False False (map fst (txn_staged txn)) st = (r, st')"
    by (metis surj_pair)
  have f: "preflight_frame st st'"
    using preflight_loop_frame [of st h tm txn "effective_policy h st" "conflict_policy_of st = Adaptive"
        "max_chain_length (compression_policy_of st)" False False "map fst (txn_staged txn)"] by (simp add: r)
  have "preflight_frame st (record_contention h a b c st')" for a b c
    using f record_contention_frame(1) by (rule preflight_frame_trans)
  with f show ?thesis
    by (auto simp: preflight_fcw_def Let_def r split: sum.splits prod.splits)
qed

section \<open>Installing versions\<close>

definition chain_of :: "(block_number, 'v list) btree_map \<Rightarrow> block_number \<Rightarrow> 'v list" where
  "chain_of m b = (case bt_get m b of Some vs \<Rightarrow> vs | None \<Rightarrow> [])"

definition ptrims :: "commit_seq \<Rightarrow> physical_block_version list \<Rightarrow> physical_block_version list \<Rightarrow> bool" where
  "ptrims w ps ps' \<longleftrightarrow>
     ps' = ps \<or> (\<exists>k < length ps. pv_commit_seq (ps ! k) \<le> w \<and> ps' = drop k ps)"

definition install_frame :: "'f mvcc_store \<Rightarrow> 'f mvcc_store \<Rightarrow> bool" where
  "install_frame st st' \<longleftrightarrow>
     same_snapshots st st' \<and> next_commit st' = next_commit st \<and> next_txn st' = next_txn st
   \<and> ssi_log st' = ssi_log st \<and> compression_policy_of st' = compression_policy_of st
   \<and> conflict_policy_of st' = conflict_policy_of st \<and> adaptive_config st' = adaptive_config st"

text \<open>The effect of one update on a map of chains: one chain replaced, the others kept.\<close>

definition chain_updated ::
  "(block_number, 'v list) btree_map \<Rightarrow> block_number \<Rightarrow> 'v list \<Rightarrow> (block_number, 'v list) btree_map \<Rightarrow> bool" where
  "chain_updated m b vs m' \<longleftrightarrow>
     (bt_inv m \<longrightarrow> bt_inv m' \<and> (\<forall>b'. bt_get m' b' = (if b' = b then Some vs else bt_get m b')))"

lemma chain_updated_insert: "chain_updated m b vs (bt_insert b vs m)"
  by (auto simp: chain_updated_def)

lemma chain_updated_trans:
  "chain_updated m b us m' \<Longrightarrow> chain_updated m' b vs m'' \<Longrightarrow> chain_updated m b vs m''"
  by (auto simp: chain_updated_def)

lemma install_frame_refl [simp]: "install_frame st st"
  by (simp add: install_frame_def same_snapshots_def)

lemma install_frame_trans [trans]: "install_frame a b \<Longrightarrow> install_frame b c \<Longrightarrow> install_frame a c"
  by (simp add: install_frame_def same_snapshots_def)

lemma install_frame_watermark:
  "install_frame st st' \<Longrightarrow> watermark_or_current st' = watermark_or_current st \<and> watermark st' = watermark st"
proof -
  assume a: "install_frame st st'"
  then have "current_snapshot st' = current_snapshot st"
    by (simp add: install_frame_def current_snapshot_def)
  moreover from a have "watermark st' = watermark st"
    by (simp add: install_frame_def same_snapshots_def watermark_def)
  ultimately show ?thesis by (cases "watermark st") (simp_all add: watermark_or_current_def)
qed

lemma retire_fields [simp]:
  "versions (retire n st) = versions st" "physical_versions (retire n st) = physical_versions st"
  "install_frame st (retire n st)"
  by (simp_all add: retire_def install_frame_def same_snapshots_def)

lemma push_version_fields [simp]:
  "versions (push_version b v st) = bt_insert b (chain_of (versions st) b @ [v]) (versions st)"
  "physical_versions (push_version b v st) = physical_versions st"
  "install_frame st (push_version b v st)"
  by (simp_all add: push_version_def chain_of_def install_frame_def same_snapshots_def)

lemma push_physical_fields [simp]:
  "versions (push_physical b p st) = versions st"
  "physical_versions (push_physical b p st) = bt_insert b (chain_of (physical_versions st) b @ [p]) (physical_versions st)"
  "install_frame st (push_physical b p st)"
  by (simp_all add: push_physical_def chain_of_def install_frame_def same_snapshots_def)

lemma enforce_cap_effect:
  assumes "bt_get (versions st) b = Some vs"
  obtains vs' where "trims h (watermark_or_current st) vs vs'"
    and "versions (enforce_chain_cap h b cap st) = bt_insert b vs' (versions st)"
    and "physical_versions (enforce_chain_cap h b cap st) = physical_versions st"
    and "install_frame st (enforce_chain_cap h b cap st)"
proof -
  obtain ret vs' where t: "trim_block_chain_to_cap h vs (max cap 1) (watermark_or_current st) = (ret, vs')"
    by (metis surj_pair)
  let ?st = "st\<lparr>versions := bt_insert b vs' (versions st)\<rparr>"
  have e: "enforce_chain_cap h b cap st = (if ret = [] then ?st else retire (length ret) ?st)"
    by (simp add: enforce_chain_cap_def assms t Let_def del: One_nat_def)
  have f: "install_frame st ?st" by (simp add: install_frame_def same_snapshots_def)
  show ?thesis
  proof
    show "trims h (watermark_or_current st) vs vs'"
      using trim_block_chain_trims [of h "watermark_or_current st" vs "max cap 1"] by (simp only: t snd_conv)
    show "install_frame st (enforce_chain_cap h b cap st)"
      using f install_frame_trans [OF f retire_fields(3)] by (simp add: e)
  qed (simp_all add: e)
qed

lemma trim_physical_ptrims: "ptrims w ps (snd (trim_physical_chain_to_cap ps m w))"
  using trim_loop_bounds [of 0 "map pv_commit_seq ps" m w]
  by (auto simp: trim_physical_chain_to_cap_def Let_def ptrims_def)

lemma enforce_physical_effect:
  "versions (enforce_physical_chain_cap b cap st) = versions st"
  "install_frame st (enforce_physical_chain_cap b cap st)"
  "physical_versions (enforce_physical_chain_cap b cap st) =
     (case bt_get (physical_versions st) b of
        None \<Rightarrow> physical_versions st
      | Some ps \<Rightarrow> bt_insert b (snd (trim_physical_chain_to_cap ps (max cap 1) (watermark_or_current st)))
                     (physical_versions st))"
  by (auto simp: enforce_physical_chain_cap_def install_frame_def same_snapshots_def split: option.splits)

abbreviation new_version ::
  "'f host \<Rightarrow> txn_id \<Rightarrow> commit_seq \<Rightarrow> block_number \<Rightarrow> bytes \<Rightarrow> 'f mvcc_store \<Rightarrow> block_version" where
  "new_version h ident seq block bs st \<equiv>
     \<lparr>bv_block = block, bv_commit_seq = seq, bv_writer = ident, bv_data = version_data_for h st block bs\<rparr>"

lemma install_one_versions:
  assumes inv: "bt_inv (versions st)"
    and st'_def: "st' = install_one h ident seq cow block bs st"
  obtains vs' where "trims h (watermark_or_current st)
      (chain_of (versions st) block @ [new_version h ident seq block bs st]) vs'"
    and "chain_updated (versions st) block vs' (versions st')" and "install_frame st st'"
proof -
  let ?v = "new_version h ident seq block bs st"
  let ?vs = "chain_of (versions st) block @ [?v]"
  define s1 where "s1 = push_version block ?v st"
  define s2 where "s2 = (case bt_get cow block of None \<Rightarrow> s1
     | Some intent \<Rightarrow> push_physical block \<lparr>pv_logical = block, pv_physical = new_physical intent,
         pv_commit_seq = seq, pv_writer = ident\<rparr> s1)"
  have f1: "install_frame st s1" by (simp add: s1_def)
  have "install_frame s1 s2" by (simp add: s2_def split: option.split)
  note f2 = install_frame_trans [OF f1 this]
  have v2: "versions s2 = bt_insert block ?vs (versions st)"
    by (simp add: s2_def s1_def split: option.split)
  have st': "st' = (case max_chain_length (compression_policy_of s2) of None \<Rightarrow> s2
      | Some cap \<Rightarrow> enforce_physical_chain_cap block cap (enforce_chain_cap h block cap s2))"
    unfolding st'_def install_one_def Let_def s2_def s1_def by simp
  show thesis
  proof (cases "max_chain_length (compression_policy_of s2)")
    case None
    show thesis
      by (rule that [of ?vs]) (use None f2 st' v2 in \<open>simp_all add: chain_updated_insert\<close>)
  next
    case (Some cap)
    have "bt_get (versions s2) block = Some ?vs" using inv by (simp add: v2)
    then obtain vs' where vs': "trims h (watermark_or_current s2) ?vs vs'"
      "versions (enforce_chain_cap h block cap s2) = bt_insert block vs' (versions s2)"
      "install_frame s2 (enforce_chain_cap h block cap s2)"
      using enforce_cap_effect [of s2 block ?vs h cap] by blast
    show thesis
    proof (rule that)
      show "trims h (watermark_or_current st) ?vs vs'"
        using vs'(1) install_frame_watermark [OF f2] by simp
      show "chain_updated (versions st) block vs' (versions st')"
        using vs'(2) chain_updated_trans [OF chain_updated_insert chain_updated_insert]
        by (simp add: st' Some enforce_physical_effect v2)
      show "install_frame st st'"
        using install_frame_trans [OF install_frame_trans [OF f2 vs'(3)] enforce_physical_effect(2)]
        by (simp add: st' Some)
    qed
  qed
qed

lemma new_version_value:
  assumes "lossless h"
  shows "chain_value h (chain_of (versions st) block @ [new_version h ident seq block bs st]) = Some bs"
proof -
  consider (same) vs where "bt_get (versions st) block = Some vs" "vs \<noteq> []"
      "resolve_data_with h vs (length vs - 1) = Some bs" "version_data_for h st block bs = Identical"
    | (full) "version_data_for h st block bs = Full bs"
    | (packed) "version_data_for h st block bs = compress_data h (compression_policy_of st) bs"
  proof (cases "dedup_identical (compression_policy_of st) \<and> is_identical_to_latest h st block bs")
    case True
    then obtain vs where "bt_get (versions st) block = Some vs" "vs \<noteq> []"
      "resolve_data_with h vs (length vs - 1) = Some bs"
      by (auto simp: is_identical_to_latest_def split: option.splits)
    moreover have "version_data_for h st block bs = Identical" using True by (simp add: version_data_for_def)
    ultimately show ?thesis by (rule same)
  next
    case False
    then have "version_data_for h st block bs = Full bs
        \<or> version_data_for h st block bs = compress_data h (compression_policy_of st) bs"
      by (auto simp: version_data_for_def)
    with full packed show ?thesis by blast
  qed
  then show ?thesis
  proof cases
    case same
    then show ?thesis by (simp add: chain_of_def apply_version_def chain_value_full)
  next
    case packed
    then show ?thesis using apply_compressed [OF assms] by simp
  qed (simp add: apply_version_def)
qed

lemma chain_ok_append:
  assumes ok: "old = [] \<or> chain_ok h b n old" and "\<forall>v \<in> set old. bv_commit_seq v < bv_commit_seq v'"
    and "bv_block v' = b" "0 < seq_val (bv_commit_seq v')" "seq_val (bv_commit_seq v') < n"
    and val: "chain_value h (old @ [v']) \<noteq> None"
  shows "chain_ok h b n (old @ [v'])"
proof -
  have "ascending (old @ [v'])" using ok assms(2) by (auto simp: ascending_snoc chain_ok_def) (simp add: ascending_def)
  moreover have "chain_value h (take (Suc i) (old @ [v'])) \<noteq> None" if "i < Suc (length old)" for i
    using that ok val by (cases "i = length old") (auto simp: chain_ok_def)
  ultimately show ?thesis using ok assms(3-5) by (auto simp: chain_ok_def)
qed

text \<open>All versions of a block precede a commit sequence.\<close>

definition all_before :: "commit_seq \<Rightarrow> 'f mvcc_store \<Rightarrow> block_number \<Rightarrow> bool" where
  "all_before seq st b \<longleftrightarrow>
     (\<forall>v \<in> set (chain_of (versions st) b). bv_commit_seq v < seq)
   \<and> (\<forall>p \<in> set (chain_of (physical_versions st) b). pv_commit_seq p < seq)"

lemma chains_ok_chain_of:
  "chains_ok h st \<Longrightarrow> chain_of (versions st) b = [] \<or> chain_ok h b (next_commit st) (chain_of (versions st) b)"
  by (auto simp: chains_ok_def chain_of_def split: option.splits)

lemma ptrims_ok: "ptrims w ps ps' \<Longrightarrow> physical_ok b n ps \<Longrightarrow> physical_ok b n ps'"
  by (auto simp: ptrims_def physical_ok_def drop_map [symmetric] sorted_wrt_drop dest: in_set_dropD)

lemma physical_ok_append:
  assumes "ps = [] \<or> physical_ok b n ps" "\<forall>p \<in> set ps. pv_commit_seq p < pv_commit_seq p'"
    and "pv_logical p' = b" "seq_val (pv_commit_seq p') < n"
  shows "physical_ok b n (ps @ [p'])"
  using assms by (auto simp: physical_ok_def sorted_wrt_append)

definition cow_version ::
  "txn_id \<Rightarrow> commit_seq \<Rightarrow> (block_number, cow_rewrite_intent) btree_map \<Rightarrow> block_number \<Rightarrow> physical_block_version list" where
  "cow_version ident seq cow block =
     (case bt_get cow block of
        None \<Rightarrow> []
      | Some intent \<Rightarrow> [\<lparr>pv_logical = block, pv_physical = new_physical intent, pv_commit_seq = seq,
                         pv_writer = ident\<rparr>])"

lemma install_one_physical:
  assumes inv: "bt_inv (physical_versions st)" "bt_inv (versions st)"
    and ps_def: "ps = chain_of (physical_versions st) block @ cow_version ident seq cow block"
    and m'_def: "m' = physical_versions (install_one h ident seq cow block bs st)"
  shows "bt_inv m'" "b \<noteq> block \<Longrightarrow> bt_get m' b = bt_get (physical_versions st) b"
    "ptrims (watermark_or_current st) ps (chain_of m' block)"
    "ps = [] \<Longrightarrow> bt_get m' block = bt_get (physical_versions st) block"
proof -
  define s1 where "s1 = push_version block (new_version h ident seq block bs st) st"
  define s2 where "s2 = (case bt_get cow block of None \<Rightarrow> s1
     | Some intent \<Rightarrow> push_physical block \<lparr>pv_logical = block, pv_physical = new_physical intent,
         pv_commit_seq = seq, pv_writer = ident\<rparr> s1)"
  have f1: "install_frame st s1" by (simp add: s1_def)
  have "install_frame s1 s2" by (simp add: s2_def split: option.split)
  note f2 = install_frame_trans [OF f1 this]
  have p2: "bt_inv (physical_versions s2)" "chain_of (physical_versions s2) block = ps"
    "b \<noteq> block \<Longrightarrow> bt_get (physical_versions s2) b = bt_get (physical_versions st) b" for b
    using inv by (auto simp: s2_def s1_def ps_def cow_version_def chain_of_def split: option.split)
  have p2': "physical_versions s2 = physical_versions st" if "ps = []"
    using that by (auto simp: s2_def s1_def ps_def cow_version_def split: option.splits)
  have v2: "bt_get (versions s2) block \<noteq> None"
    using inv(2) by (auto simp: s2_def s1_def split: option.split)
  define s3 where "s3 = (\<lambda>cap. enforce_chain_cap h block cap s2)"
  have p3: "physical_versions (s3 cap) = physical_versions s2" "install_frame s2 (s3 cap)" for cap
    using v2 enforce_cap_effect [of s2 block _ h cap] unfolding s3_def by (metis option.exhaust)+
  have m': "m' = physical_versions (case max_chain_length (compression_policy_of s2) of None \<Rightarrow> s2
      | Some cap \<Rightarrow> enforce_physical_chain_cap block cap (s3 cap))"
    unfolding m'_def install_one_def Let_def s3_def s2_def s1_def by simp
  have w: "watermark_or_current (s3 cap) = watermark_or_current st" "watermark_or_current s2 = watermark_or_current st" for cap
    using install_frame_watermark [OF f2] install_frame_watermark [OF p3(2)] by simp_all
  show "bt_inv m'" "b \<noteq> block \<Longrightarrow> bt_get m' b = bt_get (physical_versions st) b"
    using p2 by (auto simp: m' enforce_physical_effect p3 split: option.split)
  show "ptrims (watermark_or_current st) ps (chain_of m' block)"
  proof (cases "max_chain_length (compression_policy_of s2)")
    case None
    then show ?thesis using p2 by (simp add: m' ptrims_def)
  next
    case (Some cap)
    show ?thesis
    proof (cases "bt_get (physical_versions s2) block")
      case None
      then show ?thesis using p2(2) by (simp add: m' Some enforce_physical_effect p3 ptrims_def)
    next
      case ps2: (Some ps2)
      have "ps2 = ps" using p2(2) by (simp add: chain_of_def ps2)
      then show ?thesis
        using trim_physical_ptrims [of "watermark_or_current st" ps "max cap 1"] p2(1)
        by (simp add: m' Some enforce_physical_effect p3 ps2 w chain_of_def)
    qed
  qed
  show "bt_get m' block = bt_get (physical_versions st) block" if "ps = []"
  proof -
    have "trim_physical_chain_to_cap [] k v = (0, [])" for k v
      by (simp add: trim_physical_chain_to_cap_def trim_loop.simps)
    then show ?thesis
      using p2(1,2) p2' [OF that] that
      by (auto simp: m' enforce_physical_effect p3 chain_of_def split: option.split)
  qed
qed

lemma version_bytes_at_value:
  assumes "chains_ok h st"
  shows "version_bytes_at h st b s = chain_value h (visible s (chain_of (versions st) b))"
proof (cases "bt_get (versions st) b")
  case None
  then show ?thesis by (simp add: version_bytes_at_def chain_of_def visible_def)
next
  case (Some vs)
  then have "ascending vs" using assms by (simp add: chains_ok_def chain_ok_def)
  from resolve_at_value [OF this, of h s] show ?thesis
    by (simp add: version_bytes_at_def chain_of_def Some resolve_version_bytes_at_or_before_def)
qed

lemma read_visible_bytes_at: "read_visible h st b snap = version_bytes_at h st b (high snap)"
  by (simp add: read_visible_def version_bytes_at_def)

lemma install_one_ok:
  assumes loss: "lossless h" and ok: "chains_ok h st" and before: "all_before seq st block"
    and seq: "0 < seq_val seq" "seq_val seq < next_commit st"
    and st': "st' = install_one h ident seq cow block bs st"
  shows "chains_ok h st'" "install_frame st st'"
    "b \<noteq> block \<Longrightarrow> chain_of (versions st') b = chain_of (versions st) b"
    "b \<noteq> block \<Longrightarrow> chain_of (physical_versions st') b = chain_of (physical_versions st) b"
    "chain_value h (chain_of (versions st') block) = Some bs"
    "chain_of (versions st') block \<noteq> [] \<and> bv_commit_seq (last (chain_of (versions st') block)) = seq"
    "watermark_or_current st \<le> s \<Longrightarrow> s < seq \<Longrightarrow>
       chain_value h (visible s (chain_of (versions st') block))
       = chain_value h (visible s (chain_of (versions st) block))"
proof -
  let ?old = "chain_of (versions st) block" and ?v = "new_version h ident seq block bs st"
  have inv: "bt_inv (versions st)" "bt_inv (physical_versions st)" using ok by (simp_all add: chains_ok_def)
  obtain vs' where tr: "trims h (watermark_or_current st) (?old @ [?v]) vs'"
    and upd: "chain_updated (versions st) block vs' (versions st')" and fr: "install_frame st st'"
    using install_one_versions [OF inv(1) st'] by blast
  define ps where "ps = chain_of (physical_versions st) block @ cow_version ident seq cow block"
  have ph: "bt_inv (physical_versions st')" "ptrims (watermark_or_current st) ps (chain_of (physical_versions st') block)"
    "b \<noteq> block \<Longrightarrow> bt_get (physical_versions st') b = bt_get (physical_versions st) b"
    "ps = [] \<Longrightarrow> bt_get (physical_versions st') block = bt_get (physical_versions st) block" for b
    using install_one_physical [OF inv(2,1) ps_def refl] unfolding st' by blast+
  have val: "chain_value h (?old @ [?v]) = Some bs" using loss by (rule new_version_value)
  have old: "?old = [] \<or> chain_ok h block (next_commit st) ?old" using ok by (rule chains_ok_chain_of)
  have ok': "chain_ok h block (next_commit st) (?old @ [?v])"
    by (rule chain_ok_append [OF old]) (use before seq val in \<open>simp_all add: all_before_def\<close>)
  have get: "bt_get (versions st') b = (if b = block then Some vs' else bt_get (versions st) b)" for b
    using upd inv by (simp add: chain_updated_def)
  show "install_frame st st'" by (rule fr)
  have old_ps: "chain_of (physical_versions st) block = []
      \<or> physical_ok block (next_commit st) (chain_of (physical_versions st) block)"
    using ok by (auto simp: chains_ok_def chain_of_def split: option.split)
  have "physical_ok block (next_commit st) ps" if "ps \<noteq> []"
    using that old_ps before seq physical_ok_append [OF old_ps]
    by (auto simp: ps_def cow_version_def all_before_def split: option.splits)
  then have pok: "physical_ok b (next_commit st) qs" if "bt_get (physical_versions st') b = Some qs" for b qs
    using that ok ph(3,4) ptrims_ok [OF ph(2)]
    by (cases "b = block"; cases "ps = []") (auto simp: chains_ok_def chain_of_def)
  show "chains_ok h st'"
    using ok upd fr trims_chain_ok [OF ok' tr] ph(1) pok
    by (auto simp: chains_ok_def get chain_updated_def install_frame_def)
  show "b \<noteq> block \<Longrightarrow> chain_of (versions st') b = chain_of (versions st) b"
    by (simp add: chain_of_def get)
  show "b \<noteq> block \<Longrightarrow> chain_of (physical_versions st') b = chain_of (physical_versions st) b"
    using ph(3) by (simp add: chain_of_def)
  show "chain_of (versions st') block \<noteq> [] \<and> bv_commit_seq (last (chain_of (versions st') block)) = seq"
    using trims_last [OF tr] by (simp add: chain_of_def get)
  show "chain_value h (chain_of (versions st') block) = Some bs"
    using trims_full_value [OF tr] val by (simp add: chain_of_def get)
  show "chain_value h (visible s (chain_of (versions st') block)) = chain_value h (visible s ?old)"
    if s: "watermark_or_current st \<le> s" "s < seq"
  proof -
    have asc: "ascending (?old @ [?v])" using ok' by (simp add: chain_ok_def)
    have "visible s (?old @ [?v]) = visible s ?old"
      using s(2) by (simp add: visible_def takeWhile_tail)
    then show ?thesis using trims_value [OF asc tr s(1)] by (simp add: chain_of_def get)
  qed
qed

definition installed_bytes :: "(block_number, bytes) btree_map \<Rightarrow> block_number \<Rightarrow> staged_write \<Rightarrow> bytes" where
  "installed_bytes merged b w = (case bt_get merged b of Some bs \<Rightarrow> bs | None \<Rightarrow> sw_bytes w)"

lemma all_before_cong:
  "chain_of (versions st') b = chain_of (versions st) b \<Longrightarrow>
   chain_of (physical_versions st') b = chain_of (physical_versions st) b \<Longrightarrow>
   all_before seq st' b \<longleftrightarrow> all_before seq st b"
  by (simp add: all_before_def)

text \<open>
  What installing the writes \<open>ws\<close> at \<open>seq\<close> does: other blocks keep their chains, a written block
  ends in the installed bytes at \<open>seq\<close>, and snapshots between the watermark and \<open>seq\<close> read what
  they read before.
\<close>

definition installed ::
  "'f host \<Rightarrow> commit_seq \<Rightarrow> (block_number, bytes) btree_map \<Rightarrow> staged_writes \<Rightarrow> 'f mvcc_store \<Rightarrow> 'f mvcc_store \<Rightarrow> bool" where
  "installed h seq merged ws st st' \<longleftrightarrow>
     chains_ok h st' \<and> install_frame st st'
   \<and> (\<forall>b. b \<notin> fst ` set ws \<longrightarrow> chain_of (versions st') b = chain_of (versions st) b)
   \<and> (\<forall>b w. (b, w) \<in> set ws \<longrightarrow>
        chain_value h (chain_of (versions st') b) = Some (installed_bytes merged b w)
      \<and> chain_of (versions st') b \<noteq> [] \<and> bv_commit_seq (last (chain_of (versions st') b)) = seq)
   \<and> (\<forall>b s. watermark_or_current st \<le> s \<and> s < seq \<longrightarrow>
        chain_value h (visible s (chain_of (versions st') b))
        = chain_value h (visible s (chain_of (versions st) b)))"

lemma install_loop_effect:
  assumes "lossless h" "chains_ok h st" "\<forall>b \<in> fst ` set ws. all_before seq st b" "distinct (map fst ws)"
    and "0 < seq_val seq" "seq_val seq < next_commit st"
  shows "installed h seq merged ws st (install_loop h ident seq cow merged ws st)"
  using assms(2-4,6)
proof (induction ws arbitrary: st merged)
  case Nil
  then show ?case by (simp add: installed_def)
next
  case (Cons e ws)
  obtain b w where e: "e = (b, w)" by (cases e)
  define st1 where "st1 = install_one h ident seq cow b (installed_bytes merged b w) st"
  define st2 where "st2 = install_loop h ident seq cow (bt_remove b merged) ws st1"
  have bef: "all_before seq st b" using Cons.prems(2) by (simp add: e)
  note one = install_one_ok [OF assms(1) Cons.prems(1) bef assms(5) Cons.prems(4) st1_def]
  have fresh: "b \<notin> fst ` set ws" using Cons.prems(3) by (simp add: e)
  have "\<forall>b' \<in> fst ` set ws. all_before seq st1 b'"
  proof
    fix b' assume mem: "b' \<in> fst ` set ws"
    then have "b' \<noteq> b" using fresh by blast
    moreover have "all_before seq st b'" using mem Cons.prems(2) by auto
    ultimately show "all_before seq st1 b'" using all_before_cong one(3,4) by blast
  qed
  moreover have "seq_val seq < next_commit st1"
    using one(2) Cons.prems(4) by (simp add: install_frame_def)
  moreover have "distinct (map fst ws)" using Cons.prems(3) by simp
  ultimately have ih: "installed h seq (bt_remove b merged) ws st1 st2"
    unfolding st2_def using Cons.IH [OF one(1)] by blast
  have eq: "install_loop h ident seq cow merged (e # ws) st = st2"
    by (simp add: e st2_def st1_def installed_bytes_def)
  have same: "installed_bytes (bt_remove b merged) b' w' = installed_bytes merged b' w'" if "(b', w') \<in> set ws" for b' w'
    using that fresh by (auto simp: installed_bytes_def image_iff)
  have wm: "watermark_or_current st1 = watermark_or_current st"
    using install_frame_watermark [OF one(2)] by simp
  have vis: "chain_value h (visible s (chain_of (versions st1) b'))
      = chain_value h (visible s (chain_of (versions st) b'))"
    if "watermark_or_current st \<le> s" "s < seq" for b' s
    using that one(3,7) by (cases "b' = b") simp_all
  have fr: "install_frame st st2"
    using ih one(2) by (auto simp: installed_def intro: install_frame_trans)
  have here: "chain_of (versions st2) b = chain_of (versions st1) b"
    using ih fresh by (simp add: installed_def)
  show ?case
    unfolding eq installed_def
  proof (intro conjI allI impI)
    fix b' w' assume "(b', w') \<in> set (e # ws)"
    then consider "b' = b" "w' = w" | "(b', w') \<in> set ws" by (auto simp: e)
    then show "chain_value h (chain_of (versions st2) b') = Some (installed_bytes merged b' w')"
      "chain_of (versions st2) b' \<noteq> []" "bv_commit_seq (last (chain_of (versions st2) b')) = seq"
      using ih one(5,6) same by (cases; simp add: installed_def here)+
  next
    fix b' assume "b' \<notin> fst ` set (e # ws)"
    then show "chain_of (versions st2) b' = chain_of (versions st) b'"
      using ih one(3) by (simp add: installed_def e)
  next
    fix b' s assume "watermark_or_current st \<le> s \<and> s < seq"
    then show "chain_value h (visible s (chain_of (versions st2) b')) = chain_value h (visible s (chain_of (versions st) b'))"
      using ih vis [of s b'] by (simp add: installed_def wm)
  qed (use ih fr in \<open>simp_all add: installed_def\<close>)
qed

section \<open>Commit\<close>

lemma merge_loop_keys:
  assumes "merge_loop h st txn eff ws m = Inr merged" "bt_inv m"
  shows "bt_inv merged"
  using assms
  by (induction h st txn eff ws m rule: merge_loop.induct)
    (auto simp: Let_def split: if_splits sum.splits option.splits)

text \<open>What a successful commit does to the data, whichever method ran it.\<close>

definition committed ::
  "'f host \<Rightarrow> transaction \<Rightarrow> commit_seq \<Rightarrow> 'f mvcc_store \<Rightarrow> 'f mvcc_store \<Rightarrow> bool" where
  "committed h txn seq st st' \<longleftrightarrow>
     (\<exists>pre merged. preflight_frame st pre
       \<and> merge_loop h pre txn (effective_policy h pre) (txn_staged txn) [] = Inr merged
       \<and> seq = CommitSeq (next_commit st) \<and> unat (next_commit st) + 1 < 2 ^ 64
       \<and> installed h seq merged (txn_staged txn) (pre\<lparr>next_commit := next_commit st + 1\<rparr>) st')"

lemma chain_below_next:
  assumes "chains_ok h st"
  shows "all_before (CommitSeq (next_commit st)) st b"
proof -
  have "seq_val (bv_commit_seq v) < next_commit st" if "v \<in> set (chain_of (versions st) b)" for v
    using that assms by (cases "bt_get (versions st) b") (auto simp: chains_ok_def chain_ok_def chain_of_def)
  moreover have "seq_val (pv_commit_seq p) < next_commit st" if "p \<in> set (chain_of (physical_versions st) b)" for p
    using that assms by (cases "bt_get (physical_versions st) b") (auto simp: chains_ok_def physical_ok_def chain_of_def)
  ultimately show ?thesis by (simp add: all_before_def less_commit_seq_def)
qed

lemma word_less_Suc:
  "unat (n :: u64) + 1 < 2 ^ 64 \<Longrightarrow> n < n + 1" "unat n + 1 < 2 ^ 64 \<Longrightarrow> m < n \<Longrightarrow> m < n + 1"
  by (simp_all add: word_less_nat_alt unat_word_ariths)

lemma chains_ok_next:
  assumes "chains_ok h st" "unat (next_commit st) + 1 < 2 ^ 64"
  shows "chains_ok h (st\<lparr>next_commit := next_commit st + 1\<rparr>)"
  using assms word_less_Suc [of "next_commit st"]
  by (auto simp: chains_ok_def chain_ok_def physical_ok_def)

lemma next_commit_seq_cases:
  assumes "next_commit_seq st = (r, st')"
  shows "(\<exists>e. r = Inl (Fails e) \<and> st' = st)
    \<or> r = Inr (CommitSeq (next_commit st)) \<and> st' = st\<lparr>next_commit := next_commit st + 1\<rparr>
      \<and> unat (next_commit st) + 1 < 2 ^ 64"
  using assms by (auto simp: next_commit_seq_def arith_defs split: if_splits)

lemma install_after_next:
  assumes "lossless h" "chains_ok h st" "bt_inv (txn_staged txn)" "0 < next_commit st"
    and "unat (next_commit st) + 1 < 2 ^ 64"
  shows "installed h (CommitSeq (next_commit st)) merged (txn_staged txn) (st\<lparr>next_commit := next_commit st + 1\<rparr>)
    (install_loop h ident (CommitSeq (next_commit st)) cow merged (txn_staged txn)
      (st\<lparr>next_commit := next_commit st + 1\<rparr>))"
proof (rule install_loop_effect)
  show "\<forall>b \<in> fst ` set (txn_staged txn). all_before (CommitSeq (next_commit st)) (st\<lparr>next_commit := next_commit st + 1\<rparr>) b"
    using chain_below_next [OF assms(2)] by (simp add: all_before_def)
qed (use assms chains_ok_next bt_inv_distinct word_less_Suc in auto)

lemma preflight_frame_chains:
  assumes "preflight_frame st pre"
  shows "chains_ok h pre \<longleftrightarrow> chains_ok h st" "next_commit pre = next_commit st" "log_ok pre \<longleftrightarrow> log_ok st"
  using assms by (simp_all add: preflight_frame_def same_data_def chains_ok_def log_ok_def)

lemma apply_fcw_committed:
  assumes "lossless h" "chains_ok h st" "txn_ok txn" "0 < next_commit st"
    and "apply_fcw_commit h txn st = (r, st')"
  shows "(\<exists>e. r = Inl e \<and> st' = st) \<or> (\<exists>seq frees. r = Inr (seq, frees) \<and> committed h txn seq st st')"
proof (cases r)
  case (Inl e)
  then show ?thesis
    using assms(5) by (auto simp: apply_fcw_commit_def next_commit_seq_def split: sum.splits option.splits prod.splits)
next
  case (Inr q)
  obtain merged where v: "validate_transaction_id (txn_ident txn) = Inr ()"
    and m: "merge_loop h st txn (effective_policy h st) (txn_staged txn) [] = Inr merged"
    using assms(5) Inr by (auto simp: apply_fcw_commit_def split: sum.splits)
  obtain x st1 where n: "next_commit_seq st = (x, st1)" by (metis surj_pair)
  from next_commit_seq_cases [OF n] assms(5) v m n Inr
  have c: "x = Inr (CommitSeq (next_commit st))" "st1 = st\<lparr>next_commit := next_commit st + 1\<rparr>"
    "unat (next_commit st) + 1 < 2 ^ 64" by (auto simp: apply_fcw_commit_def)
  then have "installed h (CommitSeq (next_commit st)) merged (txn_staged txn) (st\<lparr>next_commit := next_commit st + 1\<rparr>) st'"
    using install_after_next [OF assms(1,2) _ assms(4) c(3), of txn merged] assms(3,5) v m n
    by (auto simp: apply_fcw_commit_def txn_ok_def)
  then have "committed h txn (CommitSeq (next_commit st)) st st'"
    unfolding committed_def using m c(3) preflight_frame_refl by blast
  with assms(5) v m n c show ?thesis by (auto simp: apply_fcw_commit_def)
qed

text \<open>Counters and metrics are outside of what the invariant and the readers look at.\<close>

definition same_core :: "'f mvcc_store \<Rightarrow> 'f mvcc_store \<Rightarrow> bool" where
  "same_core st st' \<longleftrightarrow> same_data st st' \<and> same_snapshots st st'"

lemma same_core_refl [simp]: "same_core st st"
  by (simp add: same_core_def same_data_def same_snapshots_def)

lemma same_core_trans [trans]: "same_core a b \<Longrightarrow> same_core b c \<Longrightarrow> same_core a c"
  by (simp add: same_core_def same_data_def same_snapshots_def)

lemma same_core_cong:
  assumes "same_core st st'"
  shows "store_ok h st' \<longleftrightarrow> store_ok h st" "chains_ok h st' \<longleftrightarrow> chains_ok h st"
    "version_bytes_at h st' b s = version_bytes_at h st b s" "latest_commit_seq st' b = latest_commit_seq st b"
    "next_commit st' = next_commit st" "active_snapshots st' = active_snapshots st"
    "versions st' = versions st" "ssi_log st' = ssi_log st"
  using assms
  by (simp_all add: same_core_def same_data_def same_snapshots_def store_ok_def chains_ok_def snapshots_ok_def
      log_ok_def version_bytes_at_def latest_commit_seq_def)

lemma attempt_core [simp]: "same_core st (attempt st)" "preflight_frame st (attempt st)"
  by (simp_all add: attempt_def same_core_def frame_defs)

lemma emit_core:
  "same_core st (emit_transaction_commit tm n st)" "same_core st (record_commit_abort err st)"
  "preflight_frame st (record_commit_abort err st)"
  by (simp_all add: emit_transaction_commit_def record_commit_abort_def emit_txn_aborted_def
      emit_serialization_conflict_def Let_def same_core_def frame_defs split: commit_error.split)

lemma committed_core:
  assumes "same_core st st0" "committed h txn seq st0 st'" "preflight_frame st st0"
  shows "committed h txn seq st st'"
  using assms preflight_frame_trans [OF assms(3)] same_core_cong(5) [OF assms(1)]
  unfolding committed_def by metis

definition ssi_record :: "transaction \<Rightarrow> commit_seq \<Rightarrow> committed_txn_record" where
  "ssi_record txn seq =
     \<lparr>cr_txn_id = txn_ident txn, cr_commit_seq = seq, cr_snapshot = txn_snapshot txn,
      cr_write_set = fold bts_insert (map fst (txn_staged txn)) [], cr_read_set = txn_reads txn\<rparr>"

definition log_commit :: "committed_txn_record \<Rightarrow> 'f mvcc_store \<Rightarrow> 'f mvcc_store" where
  "log_commit rec st = st\<lparr>ssi_log := ssi_log st @ [rec]\<rparr>"

lemma fcw_internal_outcome:
  assumes "lossless h" "chains_ok h st" "txn_ok txn" "0 < next_commit st"
    and run: "commit_fcw_internal h tm txn st = (r, st')"
  shows "(\<exists>e. r = Inl e \<and> preflight_frame st st')
    \<or> (\<exists>seq frees. r = Inr (seq, frees) \<and> committed h txn seq st st')"
proof -
  obtain x pre where x: "preflight_fcw h tm txn st = (x, pre)" by (metis surj_pair)
  have f: "preflight_frame st pre" using preflight_frame [of st h tm txn] by (simp add: x)
  have pre: "chains_ok h pre" "0 < next_commit pre"
    using assms(2,4) preflight_frame_chains [OF f] by simp_all
  show ?thesis
  proof (cases x)
    case (Inl e)
    with run x f show ?thesis by (auto simp: commit_fcw_internal_def)
  next
    case (Inr u)
    then have a: "apply_fcw_commit h txn pre = (r, st')" using run x by (simp add: commit_fcw_internal_def)
    consider e where "r = Inl e" "st' = pre"
      | seq frees where "r = Inr (seq, frees)" "committed h txn seq pre st'"
      using apply_fcw_committed [OF assms(1) pre(1) assms(3) pre(2) a] by blast
    then show ?thesis
    proof cases
      case 1
      with f show ?thesis by simp
    next
      case 2
      have "committed h txn seq st st'"
        using 2(2) preflight_frame_trans [OF f] preflight_frame_chains(2) [OF f]
        unfolding committed_def by metis
      with 2 show ?thesis by blast
    qed
  qed
qed

lemma ssi_internal_outcome:
  assumes "lossless h" "chains_ok h st" "txn_ok txn" "0 < next_commit st"
    and run: "commit_ssi_internal h tm txn st = (r, st')"
  shows "(\<exists>e. r = Inl e \<and> preflight_frame st st')
    \<or> (\<exists>seq frees st1 n. r = Inr (seq, frees) \<and> committed h txn seq st st1
         \<and> st' = log_commit (ssi_record txn seq) st1 \<and> validate_ssi_read_set st txn = Inr n)"
proof -
  obtain x pre where x: "preflight_fcw h tm txn st = (x, pre)" by (metis surj_pair)
  have f: "preflight_frame st pre" using preflight_frame [of st h tm txn] by (simp add: x)
  note same = preflight_frame_chains [OF f]
  have log: "ssi_log pre = ssi_log st" using f by (simp add: preflight_frame_def same_data_def)
  show ?thesis
  proof (cases r)
    case (Inl e)
    have "st' = pre"
      using run Inl x
      by (auto simp: commit_ssi_internal_def next_commit_seq_def Let_def split: sum.splits option.splits prod.splits)
    with f Inl show ?thesis by simp
  next
    case (Inr q)
    obtain n merged where n: "validate_ssi_read_set pre txn = Inr n" and u: "x = Inr ()"
      and m: "merge_loop h pre txn (effective_policy h pre) (txn_staged txn) [] = Inr merged"
      using run Inr x by (auto simp: commit_ssi_internal_def merged_writes_after_preflight_def split: sum.splits)
    obtain y st1 where y: "next_commit_seq pre = (y, st1)" by (metis surj_pair)
    have c: "y = Inr (CommitSeq (next_commit pre))" "st1 = pre\<lparr>next_commit := next_commit pre + 1\<rparr>"
      "unat (next_commit pre) + 1 < 2 ^ 64"
      using next_commit_seq_cases [OF y] run Inr x n m u y
      by (auto simp: commit_ssi_internal_def merged_writes_after_preflight_def)
    let ?seq = "CommitSeq (next_commit pre)"
    let ?st2 = "install_loop h (txn_ident txn) ?seq (txn_cow_writes txn) merged (txn_staged txn) st1"
    have "installed h ?seq merged (txn_staged txn) (pre\<lparr>next_commit := next_commit pre + 1\<rparr>) ?st2"
      unfolding c(2) by (rule install_after_next) (use assms same c in \<open>simp_all add: txn_ok_def\<close>)
    then have "committed h txn ?seq st ?st2"
      unfolding committed_def using f m c(3) same(2) by metis
    moreover have "r = Inr (?seq, collect_cow_deferred_frees (txn_cow_writes txn) (txn_cow_orphans txn))"
      "st' = log_commit (ssi_record txn ?seq) ?st2"
      using run x n m u y c
      by (auto simp: commit_ssi_internal_def merged_writes_after_preflight_def Let_def log_commit_def ssi_record_def)
    moreover have "validate_ssi_read_set st txn = Inr n" using n log by (simp add: validate_ssi_read_set_def)
    ultimately show ?thesis by blast
  qed
qed

lemma committed_facts:
  assumes ok: "store_ok h st" and c: "committed h txn seq st st'"
  shows "store_ok h st'" "next_commit st < next_commit st'" "seq = CommitSeq (next_commit st)"
    "ssi_log st' = ssi_log st" "fst ` set (active_snapshots st') \<subseteq> fst ` set (active_snapshots st)"
proof -
  obtain pre merged where f: "preflight_frame st pre" and seq: "seq = CommitSeq (next_commit st)"
    and n: "unat (next_commit st) + 1 < 2 ^ 64"
    and i: "installed h seq merged (txn_staged txn) (pre\<lparr>next_commit := next_commit st + 1\<rparr>) st'"
    using c unfolding committed_def by blast
  have g: "chains_ok h st'" "next_commit st' = next_commit st + 1" "ssi_log st' = ssi_log pre"
    "active_snapshots st' = active_snapshots pre" "force_advanced_releases st' = force_advanced_releases pre"
    using i by (simp_all add: installed_def install_frame_def same_snapshots_def)
  have p: "ssi_log pre = ssi_log st" "snapshots_ok pre"
    "fst ` set (active_snapshots pre) \<subseteq> fst ` set (active_snapshots st)"
    using f ok by (simp_all add: preflight_frame_def same_data_def store_ok_def)
  note w = word_less_Suc [OF n]
  show "next_commit st < next_commit st'" "seq = CommitSeq (next_commit st)" "ssi_log st' = ssi_log st"
    "fst ` set (active_snapshots st') \<subseteq> fst ` set (active_snapshots st)"
    using g p w(1) seq by simp_all
  have "log_ok st'"
    using ok w(2) by (auto simp: store_ok_def log_ok_def g(2,3) p(1))
  moreover have "snapshots_ok st'" using p(2) by (simp add: snapshots_ok_def g)
  moreover have "0 < next_commit st'" using w(1) by (simp add: g) (metis less_trans word_gt_0 word_not_simps(1))
  ultimately show "store_ok h st'" using g(1) by (simp add: store_ok_def)
qed

lemma sorted_fold_bts: "sorted_wrt (<) ks \<Longrightarrow> sorted_wrt (<) (fold bts_insert xs ks)"
  by (induction xs arbitrary: ks) auto

lemma log_commit_ok:
  assumes "store_ok h st" "committed h txn seq st st'" "txn_ok txn"
  shows "store_ok h (log_commit (ssi_record txn seq) st')"
proof -
  note c = committed_facts [OF assms(1,2)]
  have "record_ok (ssi_record txn seq)"
    using assms(3) by (simp add: record_ok_def ssi_record_def txn_ok_def sorted_fold_bts)
  moreover have "\<forall>r \<in> set (ssi_log st). cr_commit_seq r < seq"
    using assms(1) c(3) by (auto simp: store_ok_def log_ok_def less_commit_seq_def)
  ultimately have "log_ok (log_commit (ssi_record txn seq) st')"
    using c by (auto simp: log_ok_def log_commit_def store_ok_def sorted_wrt_append ssi_record_def)
  then show ?thesis using c(1) by (simp add: store_ok_def log_commit_def chains_ok_def snapshots_ok_def)
qed

end
