(* ===== verification/Store_Ops.thy ===== *)
theory Store_Ops
  imports Store_Inv
begin

text \<open>
  The operations of the multi-version store as a state machine, its invariant in every reachable
  state, and snapshot isolation: as long as a snapshot stays registered, no commit, abort,
  pruning or release of another snapshot changes what it reads. Both are proved once for any
  machine that keeps an invariant and the reads of what its readers hold, and obtained for the
  store by interpretation.
\<close>

section \<open>Machines with protected readers\<close>

locale protected_reads =
  fixes inv :: "'s \<Rightarrow> bool"
    and step :: "'o \<Rightarrow> 's \<Rightarrow> 's"
    and legal :: "'o \<Rightarrow> bool"
    and quiet :: "'t \<Rightarrow> 'o \<Rightarrow> bool"
    and holds :: "'t \<Rightarrow> 's \<Rightarrow> bool"
    and look :: "'s \<Rightarrow> 't \<Rightarrow> 'a \<Rightarrow> 'v"
  assumes step_inv: "inv s \<Longrightarrow> legal op \<Longrightarrow> inv (step op s)"
    and step_look: "inv s \<Longrightarrow> legal op \<Longrightarrow> quiet t op \<Longrightarrow> holds t s \<Longrightarrow> holds t (step op s)
      \<Longrightarrow> look (step op s) t a = look s t a"
begin

lemma run_inv: "inv s \<Longrightarrow> \<forall>op \<in> set ops. legal op \<Longrightarrow> inv (fold step ops s)"
  by (induction ops arbitrary: s) (auto intro: step_inv)

lemma run_look:
  assumes "inv s" "holds t s" "\<forall>op \<in> set ops. legal op \<and> quiet t op"
    and "\<forall>k \<le> length ops. holds t (fold step (take k ops) s)"
  shows "look (fold step ops s) t a = look s t a"
  using assms
proof (induction ops arbitrary: s)
  case (Cons op ops)
  have h1: "holds t (step op s)" using Cons.prems(4) [rule_format, of 1] by simp
  have "\<forall>k \<le> length ops. holds t (fold step (take k ops) (step op s))"
    using Cons.prems(4) [rule_format, of "Suc _"] by simp
  then have "look (fold step ops (step op s)) t a = look (step op s) t a"
    using Cons.IH [OF step_inv h1] Cons.prems by simp
  also have "\<dots> = look s t a" using Cons.prems h1 by (intro step_look) simp_all
  finally show ?case by simp
qed simp

end

section \<open>The store as a machine\<close>

datatype 'f store_op =
    OpBegin
  | OpCommit timing transaction
  | OpPrechecked timing transaction
  | OpCommitSsi timing transaction
  | OpPreflight timing transaction
  | OpAbort transaction
  | OpRegister snapshot
  | OpRelease snapshot
  | OpPruneSafe
  | OpPrune commit_seq
  | OpPruneLog commit_seq
  | OpEvict commit_seq
  | OpSetPolicy conflict_policy
  | OpSetConfig "'f adaptive_policy_config"

fun run_op :: "'f host \<Rightarrow> 'f store_op \<Rightarrow> 'f mvcc_store \<Rightarrow> 'f mvcc_store" where
  "run_op h OpBegin st = snd (begin_txn st)"
| "run_op h (OpCommit tm txn) st = snd (commit_txn h tm txn st)"
| "run_op h (OpPrechecked tm txn) st = snd (commit_fcw_prechecked h tm txn st)"
| "run_op h (OpCommitSsi tm txn) st = snd (commit_ssi h tm txn st)"
| "run_op h (OpPreflight tm txn) st = snd (preflight_commit_fcw h tm txn st)"
| "run_op h (OpAbort txn) st = abort_txn txn st"
| "run_op h (OpRegister snap) st = register_snapshot snap st"
| "run_op h (OpRelease snap) st = snd (release_snapshot snap st)"
| "run_op h OpPruneSafe st = snd (prune_safe h st)"
| "run_op h (OpPrune wm) st = prune_versions_older_than h wm st"
| "run_op h (OpPruneLog wm) st = prune_ssi_log wm st"
| "run_op h (OpEvict durable) st = snd (evict_durable_chains durable st)"
| "run_op h (OpSetPolicy policy) st = set_conflict_policy policy st"
| "run_op h (OpSetConfig config) st = set_adaptive_config config st"

text \<open>Transactions come from \<open>begin\<close> and the staging methods, which keep their vectors sorted.\<close>

fun legal_op :: "'f store_op \<Rightarrow> bool" where
  "legal_op (OpCommit tm txn) = txn_ok txn"
| "legal_op (OpPrechecked tm txn) = txn_ok txn"
| "legal_op (OpCommitSsi tm txn) = txn_ok txn"
| "legal_op (OpPreflight tm txn) = txn_ok txn"
| "legal_op _ = True"

text \<open>
  Pruning above a snapshot by an explicit watermark, and eviction, which hands the newest
  version over to the device, are the callers' responsibility.
\<close>

fun quiet_op :: "snapshot \<Rightarrow> 'f store_op \<Rightarrow> bool" where
  "quiet_op snap (OpPrune wm) \<longleftrightarrow> wm \<le> high snap"
| "quiet_op snap (OpEvict durable) \<longleftrightarrow> False"
| "quiet_op snap _ \<longleftrightarrow> True"

definition holds_snapshot :: "snapshot \<Rightarrow> 'f mvcc_store \<Rightarrow> bool" where
  "holds_snapshot snap st \<longleftrightarrow>
     seq_val (high snap) < next_commit st \<and> high snap \<in> fst ` set (active_snapshots st)"

section \<open>Commit methods\<close>

lemma finish_commit_cases:
  assumes "finish_commit tm txn (r0, st0) = (r, st')"
  obtains seq frees where "r0 = Inr (seq, frees)" "r = Inr seq" "same_core st0 st'"
  | e where "r0 = Inl e" "r = Inl e" "preflight_frame st0 st'" "same_core st0 st'"
  using assms
  by (auto simp: finish_commit_def emit_core split: sum.splits commit_fault.splits prod.splits)

definition commit_outcome ::
  "'f host \<Rightarrow> transaction \<Rightarrow> 'f mvcc_store \<Rightarrow> commit_fault + commit_seq \<Rightarrow> 'f mvcc_store \<Rightarrow> bool" where
  "commit_outcome h txn st r st' \<longleftrightarrow>
     (\<exists>e. r = Inl e \<and> preflight_frame st st')
   \<or> (\<exists>seq st1. r = Inr seq \<and> committed h txn seq st st1
        \<and> (same_core st1 st' \<or> same_core (log_commit (ssi_record txn seq) st1) st'))"

lemma attempt_chains [simp]: "chains_ok h (attempt st) = chains_ok h st" "next_commit (attempt st) = next_commit st"
  using same_core_cong(2,5) [OF attempt_core(1)] by auto

lemma finish_outcome:
  assumes "finish_commit tm txn (r0, st0) = (r, st')"
    and "(\<exists>e. r0 = Inl e \<and> preflight_frame (attempt st) st0)
      \<or> (\<exists>seq frees st1. r0 = Inr (seq, frees) \<and> committed h txn seq (attempt st) st1
           \<and> (st0 = st1 \<or> st0 = log_commit (ssi_record txn seq) st1))"
  shows "commit_outcome h txn st r st'"
  using assms(1)
proof (cases rule: finish_commit_cases)
  case (1 seq frees)
  with assms(2) obtain st1 where st1: "committed h txn seq (attempt st) st1"
    "st0 = st1 \<or> st0 = log_commit (ssi_record txn seq) st1" by auto
  have "committed h txn seq st st1"
    using attempt_core(1) st1(1) attempt_core(2) by (rule committed_core)
  with 1 st1(2) show ?thesis by (auto simp: commit_outcome_def)
next
  case (2 e)
  with assms(2) have "preflight_frame (attempt st) st0" by auto
  from preflight_frame_trans [OF preflight_frame_trans [OF attempt_core(2) this] 2(3)] 2(2)
  show ?thesis by (simp add: commit_outcome_def)
qed

lemma commit_txn_outcome:
  assumes "lossless h" "store_ok h st" "txn_ok txn" "commit_txn h tm txn st = (r, st')"
  shows "commit_outcome h txn st r st'"
proof -
  obtain r0 st0 where i: "commit_fcw_internal h tm txn (attempt st) = (r0, st0)" by (metis surj_pair)
  have "finish_commit tm txn (r0, st0) = (r, st')" using assms(4) by (simp add: commit_txn_def i)
  then show ?thesis
    by (rule finish_outcome) (use fcw_internal_outcome [OF assms(1) _ assms(3) _ i] assms(2) in
        \<open>auto simp: store_ok_def\<close>)
qed

lemma prechecked_outcome:
  assumes "lossless h" "store_ok h st" "txn_ok txn" "commit_fcw_prechecked h tm txn st = (r, st')"
  shows "commit_outcome h txn st r st'"
proof -
  obtain r0 st0 where i: "apply_fcw_commit h txn (attempt st) = (r0, st0)" by (metis surj_pair)
  have "finish_commit tm txn (r0, st0) = (r, st')" using assms(4) by (simp add: commit_fcw_prechecked_def i)
  then show ?thesis
    by (rule finish_outcome) (use apply_fcw_committed [OF assms(1) _ assms(3) _ i] assms(2) in
        \<open>auto simp: store_ok_def\<close>)
qed

lemma commit_ssi_outcome:
  assumes "lossless h" "store_ok h st" "txn_ok txn" "commit_ssi h tm txn st = (r, st')"
  shows "commit_outcome h txn st r st'"
proof -
  obtain r0 st0 where i: "commit_ssi_internal h tm txn (attempt st) = (r0, st0)" by (metis surj_pair)
  have "finish_commit tm txn (r0, st0) = (r, st')" using assms(4) by (simp add: commit_ssi_def i)
  then show ?thesis
    by (rule finish_outcome) (use ssi_internal_outcome [OF assms(1) _ assms(3) _ i] assms(2) in
        \<open>auto simp: store_ok_def\<close>)
qed

lemma preflight_frame_ok:
  assumes "preflight_frame st st'" "store_ok h st"
  shows "store_ok h st'"
  using assms preflight_frame_chains [OF assms(1)]
  by (simp add: store_ok_def preflight_frame_def)

lemma outcome_ok:
  assumes "commit_outcome h txn st r st'" "store_ok h st" "txn_ok txn"
  shows "store_ok h st'"
  using assms(1) unfolding commit_outcome_def
proof (elim disjE exE conjE)
  fix e assume "preflight_frame st st'" then show ?thesis using assms(2) by (rule preflight_frame_ok)
next
  fix seq st1 assume c: "committed h txn seq st st1" and s: "same_core st1 st'"
  show ?thesis using committed_facts(1) [OF assms(2) c] same_core_cong(1) [OF s] by simp
next
  fix seq st1 assume c: "committed h txn seq st st1" and s: "same_core (log_commit (ssi_record txn seq) st1) st'"
  show ?thesis using log_commit_ok [OF assms(2) c assms(3)] same_core_cong(1) [OF s] by simp
qed

section \<open>Snapshots, pruning and eviction\<close>

lemma register_ok:
  assumes "store_ok h st"
  shows "store_ok h (register_snapshot snap st)"
proof -
  have pos: "0 < saturating_add n (1 :: u64)" for n
    using saturating_add_ge [of n 1] by (cases "n = 0") (auto simp: arith_defs word_gt_0)
  show ?thesis
    using assms counts_insert [OF _ _ pos, of "active_snapshots st" "high snap"]
    by (auto simp: register_snapshot_def Let_def store_ok_def snapshots_ok_def chains_ok_def log_ok_def)
qed

lemma release_ok:
  assumes "store_ok h st"
  shows "store_ok h (snd (release_snapshot snap st))"
proof -
  have s: "snapshots_ok st" using assms by (simp add: store_ok_def)
  have "snapshots_ok (snd (release_snapshot snap st))"
  proof (cases "bt_get (active_snapshots st) (high snap)")
    case (Some n)
    have "0 < saturating_sub n 1" if "saturating_sub n 1 \<noteq> 0" using that by (simp add: word_gt_0)
    then show ?thesis
      using s counts_insert [of "active_snapshots st" "saturating_sub n 1" "high snap"]
        counts_remove [of "active_snapshots st" "high snap"]
      by (auto simp: release_snapshot_def Some Let_def snapshots_ok_def)
  next
    case None
    then show ?thesis
      using s by (auto simp: release_snapshot_def Let_def snapshots_ok_def split: option.split)
  qed
  moreover have "same_data st (snd (release_snapshot snap st))"
    by (auto simp: release_snapshot_def Let_def same_data_def split: option.split)
  ultimately show ?thesis using assms by (simp add: store_ok_def same_data_def chains_ok_def log_ok_def)
qed

lemma prune_physical_ptrims: "ptrims w ps (prune_physical_chain w ps)"
  using keep_loop_bounds [of 0 "map pv_commit_seq ps" w]
  by (auto simp: prune_physical_chain_def Let_def ptrims_def)

lemma prune_fields:
  "versions (prune_versions_older_than h w st) = map (\<lambda>(b, vs). (b, snd (prune_chain h w vs))) (versions st)"
  "physical_versions (prune_versions_older_than h w st)
     = map (\<lambda>(b, ps). (b, prune_physical_chain w ps)) (physical_versions st)"
  "next_commit (prune_versions_older_than h w st) = next_commit st"
  "ssi_log (prune_versions_older_than h w st) = ssi_log st"
  "same_snapshots st (prune_versions_older_than h w st)"
  by (simp_all add: prune_versions_older_than_def Let_def retire_def same_snapshots_def)

lemma prune_chain_of:
  "trims h w (chain_of (versions st) b) (chain_of (versions (prune_versions_older_than h w st)) b)"
  using prune_chain_trims
  by (auto simp: prune_fields chain_of_def bt_get_map_values split: option.split)

lemma prune_ok:
  assumes "store_ok h st"
  shows "store_ok h (prune_versions_older_than h w st)"
proof -
  have ok: "chains_ok h st" using assms by (simp add: store_ok_def)
  have "chain_ok h b (next_commit st) vs" if "bt_get (versions (prune_versions_older_than h w st)) b = Some vs" for b vs
    using that ok
    by (auto simp: prune_fields bt_get_map_values chains_ok_def intro!: trims_chain_ok [OF _ prune_chain_trims])
  moreover have "physical_ok b (next_commit st) ps"
    if "bt_get (physical_versions (prune_versions_older_than h w st)) b = Some ps" for b ps
    using that ok ptrims_ok [OF prune_physical_ptrims]
    by (auto simp: prune_fields bt_get_map_values chains_ok_def)
  ultimately have "chains_ok h (prune_versions_older_than h w st)"
    using ok by (auto simp: chains_ok_def prune_fields)
  then show ?thesis
    using assms prune_fields(5) [of st h w]
    by (simp add: store_ok_def snapshots_ok_def log_ok_def prune_fields same_snapshots_def)
qed

definition evict_bound :: "commit_seq \<Rightarrow> 'f mvcc_store \<Rightarrow> commit_seq" where
  "evict_bound durable st = (case watermark st of None \<Rightarrow> durable | Some wm \<Rightarrow> min wm durable)"

lemma evict_fields:
  "versions (snd (evict_durable_chains d st))
     = filter (\<lambda>e. \<not> durable_chain (physical_versions st) (evict_bound d st) e) (versions st)"
  "physical_versions (snd (evict_durable_chains d st)) = physical_versions st"
  "next_commit (snd (evict_durable_chains d st)) = next_commit st"
  "ssi_log (snd (evict_durable_chains d st)) = ssi_log st"
  "same_snapshots st (snd (evict_durable_chains d st))"
  by (simp_all add: evict_durable_chains_def Let_def retire_def same_snapshots_def evict_bound_def)

lemma bt_get_filter:
  "bt_inv m \<Longrightarrow> bt_get (filter P m) k = (case bt_get m k of None \<Rightarrow> None | Some v \<Rightarrow> if P (k, v) then Some v else None)"
  by (induction m) (auto simp: bt_inv_Cons split: option.split, metis fst_conv less_irrefl map_of_SomeD)

lemma evict_ok:
  assumes "store_ok h st"
  shows "store_ok h (snd (evict_durable_chains d st))"
proof -
  have "chains_ok h (snd (evict_durable_chains d st))"
    using assms
    by (auto simp: chains_ok_def store_ok_def evict_fields bt_inv_filter bt_get_filter split: option.splits if_splits)
  then show ?thesis
    using assms evict_fields(5) [of st d]
    by (simp add: store_ok_def snapshots_ok_def log_ok_def evict_fields same_snapshots_def)
qed

lemma prune_log_ok:
  assumes "store_ok h st"
  shows "store_ok h (prune_ssi_log w st)"
proof -
  have "sorted_wrt (<) (map cr_commit_seq (filter P (ssi_log st)))" for P
    using assms by (simp add: store_ok_def log_ok_def sorted_wrt_map sorted_wrt_filter)
  then show ?thesis
    using assms by (auto simp: prune_ssi_log_def store_ok_def chains_ok_def snapshots_ok_def log_ok_def)
qed

lemma bookkeeping_core:
  "same_core st (snd (begin_txn st))" "same_core st (abort_txn txn st)"
  "same_core st (set_conflict_policy p st)" "same_core st (set_adaptive_config c st)"
  by (simp_all add: begin_txn_def abort_txn_def emit_txn_aborted_def set_conflict_policy_def
      set_adaptive_config_def same_core_def same_data_def same_snapshots_def)

lemmas bookkeeping_ok =
  same_core_cong(1) [OF bookkeeping_core(1)] same_core_cong(1) [OF bookkeeping_core(2)]
  same_core_cong(1) [OF bookkeeping_core(3)] same_core_cong(1) [OF bookkeeping_core(4)]

lemmas bookkeeping_versions =
  same_core_cong(7) [OF bookkeeping_core(1)] same_core_cong(7) [OF bookkeeping_core(2)]
  same_core_cong(7) [OF bookkeeping_core(3)] same_core_cong(7) [OF bookkeeping_core(4)]

lemma run_op_ok:
  assumes "lossless h" "store_ok h st" "legal_op op"
  shows "store_ok h (run_op h op st)"
proof (cases op)
  case (OpCommit tm txn)
  then show ?thesis
    using outcome_ok [OF commit_txn_outcome [OF assms(1,2) _ surjective_pairing] assms(2)] assms(3) by simp
next
  case (OpPrechecked tm txn)
  then show ?thesis
    using outcome_ok [OF prechecked_outcome [OF assms(1,2) _ surjective_pairing] assms(2)] assms(3) by simp
next
  case (OpCommitSsi tm txn)
  then show ?thesis
    using outcome_ok [OF commit_ssi_outcome [OF assms(1,2) _ surjective_pairing] assms(2)] assms(3) by simp
next
  case (OpPreflight tm txn)
  then show ?thesis
    using preflight_frame_ok [OF preflight_frame assms(2)] by (simp add: preflight_commit_fcw_def)
next
  case OpPruneSafe
  then show ?thesis using prune_ok [OF assms(2)] by (simp add: prune_safe_def Let_def)
next
  case (OpEvict d)
  then show ?thesis using evict_ok [OF assms(2)] by simp
next
  case (OpPruneLog w)
  then show ?thesis using prune_log_ok [OF assms(2)] by simp
next
  case (OpPrune w)
  then show ?thesis using prune_ok [OF assms(2)] by simp
next
  case (OpRegister snap)
  then show ?thesis using register_ok [OF assms(2)] by simp
next
  case (OpRelease snap)
  then show ?thesis using release_ok [OF assms(2)] by simp
qed (use assms(2) in \<open>simp_all add: bookkeeping_ok\<close>)

section \<open>Protected reads\<close>

lemma held_watermark:
  assumes "bt_inv (active_snapshots st)" "s \<in> fst ` set (active_snapshots st)"
  shows "watermark_or_current st \<le> s" "watermark st = Some w \<Longrightarrow> w \<le> s"
  using assms
  by (cases "active_snapshots st"; auto simp: watermark_or_current_def watermark_def bt_inv_Cons)+

lemma committed_read:
  assumes ok: "store_ok h st" and c: "committed h txn seq st st'"
    and s: "seq_val s < next_commit st" "s \<in> fst ` set (active_snapshots st')"
  shows "version_bytes_at h st' b s = version_bytes_at h st b s"
proof -
  obtain pre merged where f: "preflight_frame st pre" and seq: "seq = CommitSeq (next_commit st)"
    and i: "installed h seq merged (txn_staged txn) (pre\<lparr>next_commit := next_commit st + 1\<rparr>) st'"
    using c unfolding committed_def by blast
  let ?p = "pre\<lparr>next_commit := next_commit st + 1\<rparr>"
  have "snapshots_ok pre" using f ok by (simp add: preflight_frame_def store_ok_def)
  moreover have "active_snapshots st' = active_snapshots pre"
    using i by (simp add: installed_def install_frame_def same_snapshots_def)
  ultimately have "watermark_or_current ?p \<le> s"
    using s(2) held_watermark(1) [of ?p s] by (simp add: snapshots_ok_def)
  moreover have "s < seq" using s(1) by (simp add: seq less_commit_seq_def)
  ultimately have "chain_value h (visible s (chain_of (versions st') b))
      = chain_value h (visible s (chain_of (versions ?p) b))"
    using i by (simp add: installed_def)
  moreover have "versions ?p = versions st" using f by (simp add: preflight_frame_def same_data_def)
  moreover have "chains_ok h st" "chains_ok h st'"
    using ok i by (simp_all add: store_ok_def installed_def)
  ultimately show ?thesis by (simp add: version_bytes_at_value)
qed

lemma versions_read:
  "versions st' = versions st \<Longrightarrow> version_bytes_at h st' b s = version_bytes_at h st b s"
  by (simp add: version_bytes_at_def)

lemma outcome_read:
  assumes "commit_outcome h txn st r st'" "store_ok h st" "holds_snapshot snap st" "holds_snapshot snap st'"
  shows "version_bytes_at h st' b (high snap) = version_bytes_at h st b (high snap)"
  using assms(1) unfolding commit_outcome_def
proof (elim disjE exE conjE)
  fix e assume "preflight_frame st st'"
  then show ?thesis by (intro versions_read) (simp add: preflight_frame_def same_data_def)
next
  fix seq st1 assume c: "committed h txn seq st st1" and s: "same_core st1 st'"
  show ?thesis
    using committed_read [OF assms(2) c] same_core_cong(3,6) [OF s] assms(3,4) by (simp add: holds_snapshot_def)
next
  fix seq st1 assume c: "committed h txn seq st st1" and s: "same_core (log_commit (ssi_record txn seq) st1) st'"
  show ?thesis
    using committed_read [OF assms(2) c] same_core_cong(3,6) [OF s] assms(3,4)
    by (simp add: holds_snapshot_def log_commit_def version_bytes_at_def)
qed

lemma prune_read:
  assumes "store_ok h st" "w \<le> s"
  shows "version_bytes_at h (prune_versions_older_than h w st) b s = version_bytes_at h st b s"
proof -
  have ok: "chains_ok h st" "chains_ok h (prune_versions_older_than h w st)"
    using assms(1) prune_ok [OF assms(1)] by (simp_all add: store_ok_def)
  have "ascending (chain_of (versions st) b)"
    using chains_ok_chain_of [OF ok(1), of b] by (auto simp: chain_ok_def ascending_def)
  from trims_value [OF this prune_chain_of assms(2)] show ?thesis
    using ok by (simp add: version_bytes_at_value)
qed

lemma run_op_read:
  assumes "lossless h" "store_ok h st" "legal_op op" "quiet_op snap op"
    and "holds_snapshot snap st" "holds_snapshot snap (run_op h op st)"
  shows "read_visible h (run_op h op st) b snap = read_visible h st b snap"
proof (cases op)
  case (OpCommit tm txn)
  then show ?thesis
    using outcome_read [OF commit_txn_outcome [OF assms(1,2) _ surjective_pairing] assms(2,5)] assms(3,6)
    by (simp add: read_visible_bytes_at)
next
  case (OpPrechecked tm txn)
  then show ?thesis
    using outcome_read [OF prechecked_outcome [OF assms(1,2) _ surjective_pairing] assms(2,5)] assms(3,6)
    by (simp add: read_visible_bytes_at)
next
  case (OpCommitSsi tm txn)
  then show ?thesis
    using outcome_read [OF commit_ssi_outcome [OF assms(1,2) _ surjective_pairing] assms(2,5)] assms(3,6)
    by (simp add: read_visible_bytes_at)
next
  case (OpPreflight tm txn)
  then show ?thesis
    using preflight_frame [of st h tm txn]
    by (simp add: preflight_commit_fcw_def preflight_frame_def same_data_def read_visible_def)
next
  case OpPruneSafe
  have "watermark_or_current st \<le> high snap"
    using assms(2,5) by (intro held_watermark) (simp_all add: store_ok_def snapshots_ok_def holds_snapshot_def)
  then show ?thesis
    using OpPruneSafe prune_read [OF assms(2)] by (simp add: prune_safe_def Let_def read_visible_bytes_at)
next
  case (OpPrune w)
  then show ?thesis using prune_read [OF assms(2)] assms(4) by (simp add: read_visible_bytes_at)
next
  case (OpRelease s)
  then show ?thesis by (simp add: read_visible_def release_snapshot_def Let_def split: option.split)
next
  case (OpRegister s)
  then show ?thesis by (simp add: read_visible_def register_snapshot_def Let_def)
next
  case (OpPruneLog w)
  then show ?thesis by (simp add: read_visible_def prune_ssi_log_def)
qed (use assms(4) in \<open>simp_all add: bookkeeping_versions read_visible_def\<close>)

text \<open>The premise on the compressors is carried by the invariant of the interpretation.\<close>

interpretation mvcc: protected_reads "\<lambda>st. lossless h \<and> store_ok h st" "run_op h" legal_op quiet_op
  holds_snapshot "\<lambda>st snap b. read_visible h st b snap" for h :: "'f host"
  by unfold_locales (use run_op_ok run_op_read in blast)+

end
