(* ===== verification/Store_Props.thy ===== *)
theory Store_Props
  imports Store_Ops
begin

text \<open>
  Properties of the multi-version store: the invariant in all reachable states, snapshot
  isolation, what a successful commit makes visible, that a failed commit changes no data,
  first-committer-wins, the refusal of dangerous structures, and the search for the newest
  visible version.
\<close>

section \<open>The merged writes of a commit\<close>

definition merge_result ::
  "'f host \<Rightarrow> 'f mvcc_store \<Rightarrow> transaction \<Rightarrow> block_number \<Rightarrow> staged_write \<Rightarrow> panic + bytes option" where
  "merge_result h st txn b w =
     merge_bytes (sw_proof w) (or_empty (version_bytes_at h st b (high (txn_snapshot txn))))
       (or_empty (version_bytes_at h st b (latest_commit_seq st b))) (sw_bytes w)"

definition merges ::
  "'f host \<Rightarrow> 'f mvcc_store \<Rightarrow> transaction \<Rightarrow> conflict_policy \<Rightarrow> (block_number, bytes) btree_map
   \<Rightarrow> (block_number, bytes) btree_map \<Rightarrow> block_number \<Rightarrow> staged_write \<Rightarrow> bool" where
  "merges h st txn eff m merged b w \<longleftrightarrow>
     (if latest_commit_seq st b \<le> high (txn_snapshot txn) then bt_get merged b = bt_get m b
      else eff \<noteq> Strict \<and> (\<exists>x. merge_result h st txn b w = Inr (Some x) \<and> bt_get merged b = Some x))"

lemma merge_loop_spec:
  assumes "merge_loop h st txn eff ws m = Inr merged" "distinct (map fst ws)" "bt_inv m"
  shows "(\<forall>b. b \<notin> fst ` set ws \<longrightarrow> bt_get merged b = bt_get m b)
    \<and> (\<forall>b w. (b, w) \<in> set ws \<longrightarrow> merges h st txn eff m merged b w)"
  using assms
proof (induction ws arbitrary: m)
  case (Cons e ws)
  obtain b w where e: "e = (b, w)" by (cases e)
  have fresh: "b \<notin> fst ` set ws" "distinct (map fst ws)" using Cons.prems(2) by (auto simp: e)
  obtain m1 where run: "merge_loop h st txn eff ws m1 = Inr merged" and m1: "bt_inv m1"
    and get: "\<forall>b'. b' \<noteq> b \<longrightarrow> bt_get m1 b' = bt_get m b'" and here: "merges h st txn eff m m1 b w"
  proof (cases "latest_commit_seq st b \<le> high (txn_snapshot txn)")
    case True
    with Cons.prems that [of m] show ?thesis by (simp add: e merges_def)
  next
    case False
    with Cons.prems(1) obtain x where "eff \<noteq> Strict" "merge_result h st txn b w = Inr (Some x)"
      "merge_loop h st txn eff ws (bt_insert b x m) = Inr merged"
      by (auto simp: e Let_def merge_result_def split: if_splits sum.splits option.splits)
    with False Cons.prems(3) that [of "bt_insert b x m"] show ?thesis by (auto simp: merges_def)
  qed
  note ih = Cons.IH [OF run fresh(2) m1]
  have out: "bt_get merged b' = bt_get m1 b'" if "b' \<notin> fst ` set ws" for b' using ih that by blast
  have "merges h st txn eff m merged b' w'" if "(b', w') \<in> set (e # ws)" for b' w'
  proof (cases "(b', w') \<in> set ws")
    case True
    then have "b' \<noteq> b" using fresh(1) by force
    then show ?thesis using ih True get by (auto simp: merges_def)
  next
    case False
    then have "b' = b" "w' = w" using that by (auto simp: e)
    then show ?thesis using here out [OF fresh(1)] by (simp add: merges_def)
  qed
  moreover have "bt_get merged b' = bt_get m b'" if "b' \<notin> fst ` set (e # ws)" for b'
    using that out get by (auto simp: e)
  ultimately show ?case by blast
qed simp

lemma latest_chain: "chains_ok h st \<Longrightarrow> latest_commit_seq st b =
    (if chain_of (versions st) b = [] then CommitSeq 0 else bv_commit_seq (last (chain_of (versions st) b)))"
  by (simp add: latest_commit_seq_def chain_of_def split: option.split)

lemma visible_all: "\<forall>v \<in> set vs. bv_commit_seq v \<le> s \<Longrightarrow> visible s vs = vs"
  by (simp add: visible_def)

lemma committed_merge:
  assumes "committed h txn seq st st'"
  obtains pre merged where "preflight_frame st pre"
    and "merge_loop h pre txn (effective_policy h pre) (txn_staged txn) [] = Inr merged"
    and "installed h seq merged (txn_staged txn) (pre\<lparr>next_commit := next_commit st + 1\<rparr>) st'"
    and "\<And>b w. merge_result h pre txn b w = merge_result h st txn b w"
    and "\<And>b. latest_commit_seq pre b = latest_commit_seq st b"
proof -
  obtain pre merged where a: "preflight_frame st pre"
    "merge_loop h pre txn (effective_policy h pre) (txn_staged txn) [] = Inr merged"
    "installed h seq merged (txn_staged txn) (pre\<lparr>next_commit := next_commit st + 1\<rparr>) st'"
    using assms unfolding committed_def by blast
  have "versions pre = versions st" using a(1) by (simp add: preflight_frame_def same_data_def)
  then show thesis
    using a that by (simp add: merge_result_def latest_commit_seq_def version_bytes_at_def)
qed

lemma installed_reads:
  assumes ok: "store_ok h st" and f: "preflight_frame st pre" and n: "unat (next_commit st) + 1 < 2 ^ 64"
    and i: "installed h seq merged ws (pre\<lparr>next_commit := next_commit st + 1\<rparr>) st'"
    and seq: "seq = CommitSeq (next_commit st)"
  shows "(b, w) \<in> set ws \<Longrightarrow> version_bytes_at h st' b seq = Some (installed_bytes merged b w)"
    "b \<notin> fst ` set ws \<Longrightarrow> version_bytes_at h st' b seq = version_bytes_at h st b (high (current_snapshot st))"
    "current_snapshot st' = \<lparr>high = seq\<rparr>"
proof -
  have ok': "chains_ok h st'" and nc: "next_commit st' = next_commit st + 1"
    using i by (simp_all add: installed_def install_frame_def)
  have vs: "versions pre = versions st" using f by (simp add: preflight_frame_def same_data_def)
  have one: "1 \<le> next_commit st" using ok by (simp add: store_ok_def word_le_nat_alt word_less_nat_alt)
  have suc: "unat (next_commit st + 1) = unat (next_commit st) + 1"
    using n unat_add_no_overflow [of "next_commit st" 1] by simp
  then have sat: "saturating_sub (next_commit st + 1) 1 = next_commit st"
    by (simp add: saturating_sub_def word_le_nat_alt)
  show "current_snapshot st' = \<lparr>high = seq\<rparr>" by (simp add: current_snapshot_def nc sat seq)
  have below: "visible seq (chain_of (versions st') b) = chain_of (versions st') b"
  proof (intro visible_all ballI)
    fix v assume "v \<in> set (chain_of (versions st') b)"
    then have "seq_val (bv_commit_seq v) < next_commit st + 1"
      using ok' nc by (cases "bt_get (versions st') b") (auto simp: chains_ok_def chain_ok_def chain_of_def)
    then show "bv_commit_seq v \<le> seq"
      using suc by (simp add: seq less_eq_commit_seq_def word_le_nat_alt word_less_nat_alt)
  qed
  then show "version_bytes_at h st' b seq = Some (installed_bytes merged b w)" if "(b, w) \<in> set ws"
    using that i by (simp add: version_bytes_at_value [OF ok'] installed_def)
  show "version_bytes_at h st' b seq = version_bytes_at h st b (high (current_snapshot st))" if "b \<notin> fst ` set ws"
  proof -
    have "chains_ok h st" using ok by (simp add: store_ok_def)
    moreover have "chain_of (versions st') b = chain_of (versions st) b"
      using that i vs by (simp add: installed_def)
    moreover have "visible (high (current_snapshot st)) (chain_of (versions st) b) = chain_of (versions st) b"
    proof (intro visible_all ballI)
      fix v assume "v \<in> set (chain_of (versions st) b)"
      then have "seq_val (bv_commit_seq v) < next_commit st"
        using ok by (cases "bt_get (versions st) b") (auto simp: store_ok_def chains_ok_def chain_ok_def chain_of_def)
      then show "bv_commit_seq v \<le> high (current_snapshot st)"
        using one by (simp add: current_snapshot_def saturating_sub_def less_eq_commit_seq_def word_le_nat_alt
            word_less_nat_alt unat_sub)
    qed
    ultimately show ?thesis using below by (simp add: version_bytes_at_value [OF ok'] version_bytes_at_value)
  qed
qed

lemma outcome_success:
  assumes "commit_outcome h txn st (Inr seq) st'"
  obtains st1 where "committed h txn seq st st1" "versions st' = versions st1" "next_commit st' = next_commit st1"
proof -
  obtain st1 where c: "committed h txn seq st st1"
    and s: "same_core st1 st' \<or> same_core (log_commit (ssi_record txn seq) st1) st'"
    using assms by (auto simp: commit_outcome_def)
  have "versions st' = versions st1" "next_commit st' = next_commit st1"
    using s by (auto simp: same_core_def same_data_def log_commit_def)
  with c show thesis by (rule that)
qed

lemma commit_visible:
  assumes "store_ok h st" "txn_ok txn" "commit_outcome h txn st (Inr seq) st'"
  shows "seq = CommitSeq (next_commit st)" "current_snapshot st' = \<lparr>high = seq\<rparr>"
    and "bt_get (txn_staged txn) b = None
      \<Longrightarrow> read_visible h st' b \<lparr>high = seq\<rparr> = read_visible h st b (current_snapshot st)"
    and "bt_get (txn_staged txn) b = Some w
      \<Longrightarrow> if latest_commit_seq st b \<le> high (txn_snapshot txn) then read_visible h st' b \<lparr>high = seq\<rparr> = Some (sw_bytes w)
         else \<exists>merged. merge_result h st txn b w = Inr (Some merged) \<and> read_visible h st' b \<lparr>high = seq\<rparr> = Some merged"
proof -
  obtain st1 where c: "committed h txn seq st st1" and v: "versions st' = versions st1"
    and nc: "next_commit st' = next_commit st1" using assms(3) by (rule outcome_success)
  obtain pre merged where f: "preflight_frame st pre"
    and m: "merge_loop h pre txn (effective_policy h pre) (txn_staged txn) [] = Inr merged"
    and i: "installed h seq merged (txn_staged txn) (pre\<lparr>next_commit := next_commit st + 1\<rparr>) st1"
    and same: "\<And>b w. merge_result h pre txn b w = merge_result h st txn b w"
      "\<And>b. latest_commit_seq pre b = latest_commit_seq st b"
    using committed_merge [OF c] by blast
  have n: "unat (next_commit st) + 1 < 2 ^ 64" using c by (auto simp: committed_def)
  show seq: "seq = CommitSeq (next_commit st)" using c by (auto simp: committed_def)
  note r = installed_reads [OF assms(1) f n i seq]
  have inv: "bt_inv (txn_staged txn)" using assms(2) by (simp add: txn_ok_def)
  note spec = merge_loop_spec [OF m bt_inv_distinct [OF inv] bt_inv_Nil]
  have rd: "version_bytes_at h st' b s = version_bytes_at h st1 b s" for b s
    by (simp add: version_bytes_at_def v)
  show "current_snapshot st' = \<lparr>high = seq\<rparr>" using r(3) nc by (simp add: current_snapshot_def)
  show "read_visible h st' b \<lparr>high = seq\<rparr> = read_visible h st b (current_snapshot st)"
    if "bt_get (txn_staged txn) b = None"
    using r(2) [OF bt_get_None_iff [THEN iffD1, OF that]] by (simp add: rd read_visible_bytes_at)
  show "if latest_commit_seq st b \<le> high (txn_snapshot txn) then read_visible h st' b \<lparr>high = seq\<rparr> = Some (sw_bytes w)
        else \<exists>merged. merge_result h st txn b w = Inr (Some merged) \<and> read_visible h st' b \<lparr>high = seq\<rparr> = Some merged"
    if "bt_get (txn_staged txn) b = Some w"
  proof -
    have mem: "(b, w) \<in> set (txn_staged txn)" using inv that by (simp add: bt_mem_iff_get)
    with spec have "merges h pre txn (effective_policy h pre) [] merged b w" by blast
    then show ?thesis using r(1) [OF mem] by (auto simp: rd read_visible_bytes_at merges_def same installed_bytes_def)
  qed
qed

lemma staged_get:
  "txn_ok txn \<Longrightarrow> staged_write_bytes txn b = map_option sw_bytes (bt_get (txn_staged txn) b)"
  by (simp add: staged_write_bytes_def staged_lookup_get txn_ok_def)

lemma takeWhile_descending:
  fixes f :: "'a \<Rightarrow> 'k::linorder"
  assumes "sorted_wrt (\<lambda>x y. f y < f x) xs"
  shows "takeWhile (\<lambda>x. s < f x) xs = filter (\<lambda>x. s < f x) xs"
  using assms
proof (induction xs)
  case (Cons x xs)
  have "filter (\<lambda>y. s < f y) xs = []" if "\<not> s < f x"
    using Cons.prems that by (auto simp: filter_empty_conv)
  with Cons show ?case by simp
qed simp

lemma ssi_records:
  assumes "log_ok st"
  shows "set (takeWhile (\<lambda>r. s < cr_commit_seq r) (rev (ssi_log st))) = {r \<in> set (ssi_log st). s < cr_commit_seq r}"
proof -
  have "sorted_wrt (\<lambda>x y. cr_commit_seq y < cr_commit_seq x) (rev (ssi_log st))"
    using assms by (simp add: log_ok_def sorted_wrt_map sorted_wrt_rev)
  from takeWhile_descending [OF this] show ?thesis by auto
qed

lemma with_policy_ok: "store_ok h (with_compression_policy h policy)"
  by (simp add: store_ok_def with_compression_policy_def mvcc_store_new_def chains_ok_def snapshots_ok_def log_ok_def)

lemma strict_effective: "conflict_policy_of st = Strict \<Longrightarrow> preflight_frame st pre \<Longrightarrow> effective_policy h pre = Strict"
  by (simp add: effective_policy_def preflight_frame_def)

section \<open>A concrete host\<close>

definition plain_host :: "unit host" where
  "plain_host =
     \<lparr>zstd_encode_all = (\<lambda>bs _. Some bs), zstd_decode_all = (\<lambda>bs. Some bs),
      brotli_compress = (\<lambda>bs _. Some bs), brotli_decompress = (\<lambda>bs. Some bs),
      f_lit = (\<lambda>_ _. ()), f_sub = (\<lambda>_ _. ()), f_mul = (\<lambda>_ _. ()), f_mul_add = (\<lambda>_ _ _. ()),
      f_le = (\<lambda>_ _. True), f_lt = (\<lambda>_ _. False)\<rparr>"

lemma plain_lossless: "lossless plain_host"
  by (simp add: lossless_def plain_host_def)

definition sample_txn :: "u64 \<Rightarrow> u64 \<Rightarrow> bytes \<Rightarrow> transaction" where
  "sample_txn ident snap bs =
     stage_write (transaction_new (TxnId ident) \<lparr>high = CommitSeq snap\<rparr>) (BlockNumber 5) bs"

definition sample_timing :: timing where
  "sample_timing = \<lparr>commit_us = 3, resolve_us = (\<lambda>_. 2)\<rparr>"

lemma sample_txn_eq: "sample_txn ident snap bs =
    (transaction_new (TxnId ident) \<lparr>high = CommitSeq snap\<rparr>)
      \<lparr>txn_staged := [(BlockNumber 5, \<lparr>sw_bytes = bs, sw_proof = Unsafe, sw_base = None\<rparr>)]\<rparr>"
  by (simp add: sample_txn_def stage_write_def stage_write_with_proof_def insert_staged_write_def
      staged_write_pos_def binary_search_by_def transaction_new_def)

lemma sample_txn_ok: "txn_ok (sample_txn ident snap bs)"
  by (simp add: sample_txn_eq txn_ok_def transaction_new_def bt_inv_def)

definition sample_store :: "unit mvcc_store" where
  "sample_store = (with_compression_policy plain_host dedup_only)
     \<lparr>next_commit := 2, next_txn := 2,
      versions := [(BlockNumber 5, [\<lparr>bv_block = BlockNumber 5, bv_commit_seq = CommitSeq 1,
                     bv_writer = TxnId 1, bv_data = Full [7]\<rparr>])],
      active_snapshots := [(CommitSeq 1, 1)]\<rparr>"

lemmas commit_eval = commit_txn_def finish_commit_def commit_fcw_internal_def preflight_fcw_def attempt_def
  validate_transaction_id_def sample_txn_eq transaction_new_def latest_commit_seq_def sample_store_def
  with_compression_policy_def mvcc_store_new_def dedup_only_def pressure_step_def
  apply_fcw_commit_def next_commit_seq_def checked_add_def less_commit_seq_def less_eq_commit_seq_def
  install_one_def push_version_def emit_transaction_commit_def effective_policy_def

lemma sample_store_ok: "store_ok plain_host sample_store"
  by (simp add: store_ok_def sample_store_def with_compression_policy_def mvcc_store_new_def chains_ok_def
      chain_ok_def ascending_def chain_value_def apply_version_def snapshots_ok_def log_ok_def bt_inv_def)

lemma sample_store_fields:
  "next_commit sample_store = 2" "active_snapshots sample_store = [(CommitSeq 1, 1)]"
  "versions sample_store = [(BlockNumber 5, [\<lparr>bv_block = BlockNumber 5, bv_commit_seq = CommitSeq 1,
     bv_writer = TxnId 1, bv_data = Full [7]\<rparr>])]"
  by (simp_all add: sample_store_def)

lemmas prune_active = prune_fields(5) [unfolded same_snapshots_def, THEN conjunct1]

lemma sample_commit:
  "fst (commit_txn plain_host sample_timing (sample_txn 2 1 [8]) sample_store) = Inr (CommitSeq 2)"
  "next_commit (snd (commit_txn plain_host sample_timing (sample_txn 2 1 [8]) sample_store)) = 3"
  "active_snapshots (snd (commit_txn plain_host sample_timing (sample_txn 2 1 [8]) sample_store)) = [(CommitSeq 1, 1)]"
  by (simp_all add: commit_eval Let_def)

section \<open>Properties\<close>

text \<open>
  C2: the invariant of the store holds in every reachable state. From a new store with any
  compression policy, any sequence of operations leaves every version chain strictly ascending,
  bound to its block, below the next commit sequence and resolvable, the snapshot counts
  positive, and the log of serializable commits ordered.
\<close>

theorem store_invariant_always:
  assumes "lossless h" "\<forall>op \<in> set ops. legal_op op"
  shows "store_ok h (fold (run_op h) ops (with_compression_policy h policy))"
  using mvcc.run_inv [of h "with_compression_policy h policy" ops] assms with_policy_ok by blast

theorem store_invariant_always_witness:
  "store_ok plain_host (fold (run_op plain_host)
     [OpBegin, OpCommit sample_timing (sample_txn 1 0 [7]), OpPruneSafe, OpEvict (CommitSeq 9)]
     (with_compression_policy plain_host dedup_only))"
  by (rule store_invariant_always [OF plain_lossless]) (simp add: sample_txn_ok)

text \<open>
  C1: snapshot isolation. While a snapshot that was taken at or below the current commit stays
  registered, no sequence of begins, commits and preflights of every kind, aborts, registrations
  and releases, safe prunings, prunings at a watermark up to the snapshot, prunings of the log and
  changes of policy changes the value of any block read at the snapshot. Evictions, which hand the
  newest version to the device, and prunings above the snapshot are excepted.
\<close>

theorem snapshot_isolation:
  assumes "lossless h" "store_ok h st" "holds_snapshot snap st"
    and "\<forall>op \<in> set ops. legal_op op \<and> quiet_op snap op"
    and "\<forall>k \<le> length ops. holds_snapshot snap (fold (run_op h) (take k ops) st)"
  shows "read_visible h (fold (run_op h) ops st) b snap = read_visible h st b snap"
  using mvcc.run_look [of h st snap ops b] assms by blast

theorem snapshot_isolation_witness:
  "read_visible plain_host (fold (run_op plain_host) [OpCommit sample_timing (sample_txn 2 1 [8]), OpPruneSafe]
     sample_store) (BlockNumber 5) \<lparr>high = CommitSeq 1\<rparr> = Some [7]"
proof -
  let ?ops = "[OpCommit sample_timing (sample_txn 2 1 [8]), OpPruneSafe]"
  have "holds_snapshot \<lparr>high = CommitSeq 1\<rparr> (fold (run_op plain_host) (take k ?ops) sample_store)"
    if "k \<le> length ?ops" for k
  proof -
    have "k = 0 \<or> k = 1 \<or> k = 2" using that by (simp add: le_Suc_eq) linarith
    then show ?thesis
      by (elim disjE) (simp_all add: holds_snapshot_def sample_commit sample_store_fields prune_fields(3) prune_active
          prune_safe_def Let_def word_less_nat_alt)
  qed
  then have "read_visible plain_host (fold (run_op plain_host) ?ops sample_store) (BlockNumber 5) \<lparr>high = CommitSeq 1\<rparr>
      = read_visible plain_host sample_store (BlockNumber 5) \<lparr>high = CommitSeq 1\<rparr>"
    using snapshot_isolation [OF plain_lossless sample_store_ok, of "\<lparr>high = CommitSeq 1\<rparr>" ?ops "BlockNumber 5"]
    by (simp add: sample_txn_ok holds_snapshot_def sample_store_fields)
  also have "\<dots> = Some [7]"
    by (simp add: read_visible_def sample_store_fields newest_visible_index_def
        newest_visible_index_by_def checked_sub_usize_def resolve_data_with_def resolve_loop.simps)
  finally show ?thesis .
qed

text \<open>
  C15: what a successful commit, plain or serializable, makes visible. The commit takes the next sequence number; at it, a
  staged block without a newer version reads as the staged bytes, a staged block that another
  transaction changed since the snapshot reads as the merge of its proof, and every other block
  reads as before.
\<close>

theorem commit_read_back:
  assumes "lossless h" "store_ok h st" "txn_ok txn"
    and "commit_txn h tm txn st = (Inr seq, st') \<or> commit_ssi h tm txn st = (Inr seq, st')"
  shows "seq = CommitSeq (next_commit st) \<and> current_snapshot st' = \<lparr>high = seq\<rparr>
    \<and> (\<forall>b. case bt_get (txn_staged txn) b of
         None \<Rightarrow> read_visible h st' b \<lparr>high = seq\<rparr> = read_visible h st b (current_snapshot st)
       | Some w \<Rightarrow>
           if latest_commit_seq st b \<le> high (txn_snapshot txn)
           then read_visible h st' b \<lparr>high = seq\<rparr> = Some (sw_bytes w)
           else \<exists>merged. merge_result h st txn b w = Inr (Some merged)
                       \<and> read_visible h st' b \<lparr>high = seq\<rparr> = Some merged)"
proof -
  have "commit_outcome h txn st (Inr seq) st'"
    using assms(4) commit_txn_outcome [OF assms(1-3)] commit_ssi_outcome [OF assms(1-3)] by blast
  from commit_visible [OF assms(2,3) this] show ?thesis by (auto split: option.split)
qed

theorem commit_read_back_witness:
  "read_visible plain_host (snd (commit_txn plain_host sample_timing (sample_txn 2 1 [8]) sample_store))
     (BlockNumber 5) \<lparr>high = CommitSeq 2\<rparr> = Some [8]"
proof -
  obtain st' where c: "commit_txn plain_host sample_timing (sample_txn 2 1 [8]) sample_store = (Inr (CommitSeq 2), st')"
    using sample_commit(1) by (metis prod.collapse)
  have s: "bt_get (txn_staged (sample_txn 2 1 [8])) (BlockNumber 5)
      = Some \<lparr>sw_bytes = [8], sw_proof = Unsafe, sw_base = None\<rparr>"
    "latest_commit_seq sample_store (BlockNumber 5) \<le> high (txn_snapshot (sample_txn 2 1 [8]))"
    by (simp_all add: sample_txn_eq transaction_new_def latest_commit_seq_def sample_store_fields)
  from commit_read_back [OF plain_lossless sample_store_ok sample_txn_ok disjI1 [OF c]] s show ?thesis
    by (auto simp: c dest: spec [of _ "BlockNumber 5"])
qed

text \<open>
  C24: a failed commit changes no data. Whichever commit method fails, and whatever the error,
  the version chains, the physical mappings, the next sequence number and the log of
  serializable commits are as before.
\<close>

theorem failed_commit_keeps_data:
  assumes "lossless h" "store_ok h st" "txn_ok txn"
    and "commit_txn h tm txn st = (Inl e, st') \<or> commit_fcw_prechecked h tm txn st = (Inl e, st')
      \<or> commit_ssi h tm txn st = (Inl e, st')"
  shows "same_data st st'"
proof -
  have "commit_outcome h txn st (Inl e) st'"
    using assms(4) commit_txn_outcome [OF assms(1-3)] prechecked_outcome [OF assms(1-3)]
      commit_ssi_outcome [OF assms(1-3)] by blast
  then show ?thesis by (simp add: commit_outcome_def preflight_frame_def)
qed

theorem failed_commit_keeps_data_witness:
  "\<exists>st'. commit_txn plain_host sample_timing (sample_txn 0 1 [8]) sample_store
     = (Inl (Fails (DurabilityFailure (''invalid transaction id '' @ show_nat 0))), st') \<and> same_data sample_store st'"
proof -
  obtain st' where c: "commit_txn plain_host sample_timing (sample_txn 0 1 [8]) sample_store
      = (Inl (Fails (DurabilityFailure (''invalid transaction id '' @ show_nat 0))), st')"
    by (simp add: commit_eval del: show_nat.simps)
  from failed_commit_keeps_data [OF plain_lossless sample_store_ok sample_txn_ok disjI1 [OF c]] c
  show ?thesis by blast
qed

text \<open>
  C16: first committer wins. Under the strict policy a commit succeeds only if no staged block has
  a version newer than the transaction's snapshot; under any policy, a staged block with a newer
  version is committed only through an accepted merge.
\<close>

theorem first_committer_wins:
  assumes "lossless h" "store_ok h st" "txn_ok txn"
    and "commit_txn h tm txn st = (Inr seq, st') \<or> commit_ssi h tm txn st = (Inr seq, st')"
    and "bt_get (txn_staged txn) b = Some w" "high (txn_snapshot txn) < latest_commit_seq st b"
  shows "conflict_policy_of st \<noteq> Strict \<and> (\<exists>merged. merge_result h st txn b w = Inr (Some merged))"
proof -
  have "commit_outcome h txn st (Inr seq) st'"
    using assms(4) commit_txn_outcome [OF assms(1-3)] commit_ssi_outcome [OF assms(1-3)] by blast
  then obtain st1 where c: "committed h txn seq st st1" by (rule outcome_success)
  obtain pre merged where f: "preflight_frame st pre"
    and m: "merge_loop h pre txn (effective_policy h pre) (txn_staged txn) [] = Inr merged"
    and i: "installed h seq merged (txn_staged txn) (pre\<lparr>next_commit := next_commit st + 1\<rparr>) st1"
    and same: "\<And>b w. merge_result h pre txn b w = merge_result h st txn b w"
      "\<And>b. latest_commit_seq pre b = latest_commit_seq st b"
    using committed_merge [OF c] by blast
  have inv: "bt_inv (txn_staged txn)" using assms(3) by (simp add: txn_ok_def)
  have "(b, w) \<in> set (txn_staged txn)" using inv assms(5) by (simp add: bt_mem_iff_get)
  then have "merges h pre txn (effective_policy h pre) [] merged b w"
    using merge_loop_spec [OF m bt_inv_distinct [OF inv] bt_inv_Nil] by blast
  then have "effective_policy h pre \<noteq> Strict" "\<exists>x. merge_result h st txn b w = Inr (Some x)"
    using assms(6) by (auto simp: merges_def same split: if_splits)
  then show ?thesis using strict_effective [OF _ f] by blast
qed

lemmas merge_eval = resolve_step_def
  preflight_resolve_block_conflict_def resolved_write_valid_with_policy_def staged_write_bytes_def staged_lookup_def
  staged_write_pos_def binary_search_by_def bs_loop.simps cmp_key_def base_or_staged_def version_bytes_at_def
  newest_visible_index_def newest_visible_index_by_def checked_sub_usize_def resolve_data_with_def
  resolve_loop.simps or_empty_def default_proof_def txn_merge_proof_def partition_point_def
  bitmap_delta_merge_valid_def word_less_nat_alt word_le_nat_alt

definition bitmap_store :: "unit mvcc_store" where
  "bitmap_store = (with_compression_policy plain_host dedup_only)
     \<lparr>next_commit := 3, next_txn := 3,
      versions := [(BlockNumber 5,
        [\<lparr>bv_block = BlockNumber 5, bv_commit_seq = CommitSeq 1, bv_writer = TxnId 1, bv_data = Full [0]\<rparr>,
         \<lparr>bv_block = BlockNumber 5, bv_commit_seq = CommitSeq 2, bv_writer = TxnId 2, bv_data = Full [1]\<rparr>])]\<rparr>"

definition bitmap_txn :: transaction where
  "bitmap_txn = (transaction_new (TxnId 3) \<lparr>high = CommitSeq 1\<rparr>)
     \<lparr>txn_staged := [(BlockNumber 5, \<lparr>sw_bytes = [2], sw_proof = BitmapDelta, sw_base = None\<rparr>)]\<rparr>"

lemma bitmap_ok: "store_ok plain_host bitmap_store" "txn_ok bitmap_txn"
  by (auto simp: store_ok_def bitmap_store_def with_compression_policy_def mvcc_store_new_def chains_ok_def
      chain_ok_def ascending_def chain_value_def apply_version_def snapshots_ok_def log_ok_def bt_inv_def
      less_Suc_eq word_less_nat_alt less_commit_seq_def txn_ok_def bitmap_txn_def transaction_new_def)

lemma bitmap_commit:
  "fst (commit_txn plain_host sample_timing bitmap_txn bitmap_store) = Inr (CommitSeq 3)"
  by (simp add: commit_eval Let_def bitmap_store_def bitmap_txn_def merge_eval)

theorem first_committer_wins_witness:
  "conflict_policy_of bitmap_store \<noteq> Strict \<and>
   (\<exists>merged. merge_result plain_host bitmap_store bitmap_txn (BlockNumber 5)
      \<lparr>sw_bytes = [2], sw_proof = BitmapDelta, sw_base = None\<rparr> = Inr (Some merged))"
proof (rule first_committer_wins)
  show "commit_txn plain_host sample_timing bitmap_txn bitmap_store =
      (Inr (CommitSeq 3), snd (commit_txn plain_host sample_timing bitmap_txn bitmap_store)) \<or>
    commit_ssi plain_host sample_timing bitmap_txn bitmap_store =
      (Inr (CommitSeq 3), snd (commit_txn plain_host sample_timing bitmap_txn bitmap_store))"
    by (simp add: prod_eq_iff bitmap_commit)
qed (simp_all add: plain_lossless bitmap_ok, simp_all add: bitmap_txn_def transaction_new_def latest_commit_seq_def bitmap_store_def
    less_commit_seq_def word_less_nat_alt)

text \<open>
  C17: a commit under serializable snapshot isolation leaves no dangerous structure. When
  \<open>commit_ssi\<close> succeeds, it is not the case that one logged transaction concurrent with it read
  a block it writes and another one wrote a block it read; and its own read and write sets are
  in the log for the commits that follow.
\<close>

theorem ssi_commit_safe:
  assumes "lossless h" "store_ok h st" "txn_ok txn" "commit_ssi h tm txn st = (Inr seq, st')"
  shows "\<not> ((\<exists>r \<in> set (ssi_log st). concurrent txn r \<and> fst ` set (cr_read_set r) \<inter> fst ` set (txn_staged txn) \<noteq> {}) \<and>
       (\<exists>r \<in> set (ssi_log st). concurrent txn r \<and> fst ` set (txn_reads txn) \<inter> set (cr_write_set r) \<noteq> {}))
    \<and> ssi_log st' = ssi_log st @ [ssi_record txn seq]"
proof -
  let ?recs = "takeWhile (\<lambda>r. high (txn_snapshot txn) < cr_commit_seq r) (rev (ssi_log st))"
  obtain r0 st0 where i: "commit_ssi_internal h tm txn (attempt st) = (r0, st0)" by (metis surj_pair)
  have ok: "chains_ok h st" "log_ok st" "0 < next_commit st" using assms(2) by (auto simp: store_ok_def)
  have "finish_commit tm txn (r0, st0) = (Inr seq, st')" using assms(4) by (simp add: commit_ssi_def i)
  then obtain frees where r0: "r0 = Inr (seq, frees)" and st': "ssi_log st' = ssi_log st0"
    by (auto simp: finish_commit_def emit_transaction_commit_def split: sum.splits commit_fault.splits)
  obtain st1 n where c: "committed h txn seq (attempt st) st1" "st0 = log_commit (ssi_record txn seq) st1"
    and v: "validate_ssi_read_set (attempt st) txn = Inr n"
    using ssi_internal_outcome [OF assms(1) _ assms(3) _ i] ok r0 by auto
  have "ssi_log st1 = ssi_log st"
    by (rule committed_facts(4) [OF assms(2) committed_core [OF attempt_core(1) c(1) attempt_core(2)]])
  with c(2) st' have log: "ssi_log st' = ssi_log st @ [ssi_record txn seq]" by (simp add: log_commit_def)
  have "snd (detect_ssi_dangerous_structure txn ?recs) = None"
    using v by (auto simp: validate_ssi_read_set_def attempt_def Let_def split: prod.splits option.splits)
  moreover have "\<forall>r \<in> set ?recs. record_ok r" using ok(2) by (auto simp: log_ok_def dest: set_takeWhileD)
  ultimately have "\<not> ((\<exists>r \<in> set ?recs. concurrent txn r \<and> fst ` set (cr_read_set r) \<inter> fst ` set (txn_staged txn) \<noteq> {}) \<and>
      (\<exists>r \<in> set ?recs. concurrent txn r \<and> fst ` set (txn_reads txn) \<inter> set (cr_write_set r) \<noteq> {}))"
    using detection_iff [OF assms(3), of ?recs] by simp
  moreover have "r \<in> set ?recs \<longleftrightarrow> r \<in> set (ssi_log st) \<and> concurrent txn r" for r
    unfolding ssi_records [OF ok(2)] by (simp add: concurrent_def)
  ultimately show ?thesis using log by blast
qed

lemma sample_commit_ssi:
  "fst (commit_ssi plain_host sample_timing (sample_txn 2 1 [8]) sample_store) = Inr (CommitSeq 2)"
  by (simp add: commit_eval commit_ssi_def commit_ssi_internal_def validate_ssi_read_set_def
      detect_ssi_dangerous_structure_def merged_writes_after_preflight_def Let_def)

theorem ssi_commit_safe_witness:
  "ssi_log (snd (commit_ssi plain_host sample_timing (sample_txn 2 1 [8]) sample_store))
     = ssi_log sample_store @ [ssi_record (sample_txn 2 1 [8]) (CommitSeq 2)]"
proof -
  obtain st' where c: "commit_ssi plain_host sample_timing (sample_txn 2 1 [8]) sample_store = (Inr (CommitSeq 2), st')"
    using sample_commit_ssi by (metis prod.collapse)
  from ssi_commit_safe [OF plain_lossless sample_store_ok sample_txn_ok c] show ?thesis by (simp add: c)
qed

text \<open>
  C27: \<open>newest_visible_index\<close>, a binary search after a check of the newest version, finds what the
  reverse linear scan of the version chain finds: the last version committed at or before the
  given sequence number.
\<close>

theorem newest_visible_is_last:
  assumes "ascending vs"
  shows "newest_visible_index vs s = rposition (\<lambda>v. bv_commit_seq v \<le> s) vs"
  using assms partitioned_ascending [of bv_commit_seq vs s] newest_visible_takeWhile [of bv_commit_seq vs s]
  by (simp add: ascending_def newest_visible_index_def rposition_partitioned)

theorem newest_visible_is_last_witness:
  "newest_visible_index [\<lparr>bv_block = BlockNumber 5, bv_commit_seq = CommitSeq 1, bv_writer = TxnId 1, bv_data = Full [0]\<rparr>,
     \<lparr>bv_block = BlockNumber 5, bv_commit_seq = CommitSeq 4, bv_writer = TxnId 2, bv_data = Full [1]\<rparr>] (CommitSeq 3) = Some 0"
  by (subst newest_visible_is_last)
    (simp_all add: ascending_def less_commit_seq_def less_eq_commit_seq_def word_less_nat_alt word_le_nat_alt)

section \<open>The base of a merge\<close>

text \<open>
  The preflight of a conflicting write takes the staged base image when the store holds no
  version of the block at the snapshot; the commit that follows takes the empty image. A
  transaction that stages the base its merge needs therefore passes the preflight and is then
  rejected by the commit, although nothing was committed in between.
\<close>

definition based_store :: "unit mvcc_store" where
  "based_store = (with_compression_policy plain_host dedup_only)
     \<lparr>next_commit := 3, next_txn := 3,
      versions := [(BlockNumber 5,
        [\<lparr>bv_block = BlockNumber 5, bv_commit_seq = CommitSeq 2, bv_writer = TxnId 2, bv_data = Full [1]\<rparr>])]\<rparr>"

definition based_txn :: transaction where
  "based_txn = (transaction_new (TxnId 3) \<lparr>high = CommitSeq 1\<rparr>)
     \<lparr>txn_staged := [(BlockNumber 5, \<lparr>sw_bytes = [2], sw_proof = BitmapDelta, sw_base = Some [0]\<rparr>)]\<rparr>"

lemma staged_base_ignored_by_commit:
  "fst (preflight_commit_fcw plain_host sample_timing based_txn based_store) = Inr () \<and>
   fst (commit_fcw_prechecked plain_host sample_timing based_txn
     (snd (preflight_commit_fcw plain_host sample_timing based_txn based_store)))
     = Inl (conflict_on based_txn (BlockNumber 5) (CommitSeq 2))"
  by (simp add: preflight_commit_fcw_def commit_fcw_prechecked_def conflict_on_def
      commit_eval Let_def based_store_def based_txn_def merge_eval staged_base_def)

end
