(* ===== verification/Byte_Device.thy ===== *)
theory Byte_Device
  imports Ffs_Error Ffs_Types
begin

text \<open>
  Byte-addressed devices (\<open>ffs-block/src/lib.rs\<close>): the trait \<open>ByteDevice\<close> as a record of
  operations with its default methods, and \<open>FileByteDevice\<close>, the device over an open file. An
  operation threads the outcomes of the coming cancellation checkpoints and the state of the
  device; a failed system call is a value of the file's script of outcomes. The locale
  \<open>device_contract\<close> is what a device promises its clients; it is interpreted on the file device
  here and on the wrappers in the theories that follow.
\<close>

section \<open>Cancellable operations\<close>

text \<open>
  The state of an operation is the list of outcomes of the coming checkpoints of its \<open>Cx\<close>,
  \<open>True\<close> for a cancelled one, and the state of the device. It returns a value, fails with an
  error, or panics.
\<close>

datatype io_fault = Err ffs_error | Panic

type_synonym cx = "bool list"
type_synonym ('d, 'a) io = "cx \<times> 'd \<Rightarrow> (io_fault + 'a) \<times> cx \<times> 'd"

definition io_return :: "'a \<Rightarrow> ('d, 'a) io" where
  "io_return x s = (Inr x, s)"

definition io_fail :: "ffs_error \<Rightarrow> ('d, 'a) io" where
  "io_fail e s = (Inl (Err e), s)"

definition io_panic :: "('d, 'a) io" where
  "io_panic s = (Inl Panic, s)"

definition io_bind :: "('d, 'a) io \<Rightarrow> ('a \<Rightarrow> ('d, 'b) io) \<Rightarrow> ('d, 'b) io" where
  "io_bind m f s = (case m s of (Inl e, s') \<Rightarrow> (Inl e, s') | (Inr x, s') \<Rightarrow> f x s')"

definition io_then :: "('d, unit) io \<Rightarrow> ('d, 'b) io \<Rightarrow> ('d, 'b) io" where
  "io_then m k = io_bind m (\<lambda>_. k)"

definition io_get :: "('d \<Rightarrow> ('d, 'a) io) \<Rightarrow> ('d, 'a) io" where
  "io_get f s = f (snd s) s"

definition io_modify :: "('d \<Rightarrow> 'd) \<Rightarrow> ('d, unit) io" where
  "io_modify f s = (Inr (), fst s, f (snd s))"

definition io_option :: "'a option \<Rightarrow> ffs_error \<Rightarrow> ('a \<Rightarrow> ('d, 'b) io) \<Rightarrow> ('d, 'b) io" where
  "io_option x e k = (case x of None \<Rightarrow> io_fail e | Some v \<Rightarrow> k v)"

definition cx_checkpoint :: "('d, unit) io" where
  "cx_checkpoint s =
     (case fst s of
        [] \<Rightarrow> (Inr (), s)
      | cancelled # cx \<Rightarrow> (if cancelled then Inl (Err Cancelled) else Inr (), cx, snd s))"

text \<open>An operation on a part of the state, run on the whole.\<close>

definition io_zoom :: "('s \<Rightarrow> 'd) \<Rightarrow> ('d \<Rightarrow> 's \<Rightarrow> 's) \<Rightarrow> ('d, 'a) io \<Rightarrow> ('s, 'a) io" where
  "io_zoom get put m s =
     (case m (fst s, get (snd s)) of (r, cx, d) \<Rightarrow> (r, cx, put d (snd s)))"

text \<open>
  Triples over the state of the device: from a state satisfying \<open>P\<close>, and whatever the
  checkpoints do, a successful run ends in \<open>Q\<close> and a failed one in \<open>E\<close>, and no run panics.
\<close>

definition triple ::
  "('d \<Rightarrow> bool) \<Rightarrow> ('d, 'a) io \<Rightarrow> ('a \<Rightarrow> 'd \<Rightarrow> bool) \<Rightarrow> ('d \<Rightarrow> bool) \<Rightarrow> bool" where
  "triple P m Q E \<longleftrightarrow>
     (\<forall>cx d. P d \<longrightarrow>
        (case m (cx, d) of
           (Inr x, _, d') \<Rightarrow> Q x d'
         | (Inl (Err _), _, d') \<Rightarrow> E d'
         | (Inl Panic, _, _) \<Rightarrow> False))"

lemma tripleI:
  assumes "\<And>cx d x cx' d'. P d \<Longrightarrow> m (cx, d) = (Inr x, cx', d') \<Longrightarrow> Q x d'"
    and "\<And>cx d e cx' d'. P d \<Longrightarrow> m (cx, d) = (Inl (Err e), cx', d') \<Longrightarrow> E d'"
    and "\<And>cx d cx' d'. P d \<Longrightarrow> m (cx, d) \<noteq> (Inl Panic, cx', d')"
  shows "triple P m Q E"
  using assms by (auto simp: triple_def split: prod.splits sum.splits io_fault.splits)

lemma tripleD:
  assumes "triple P m Q E" "P d"
  shows "m (cx, d) = (Inr x, cx', d') \<Longrightarrow> Q x d'" "m (cx, d) = (Inl (Err e), cx', d') \<Longrightarrow> E d'"
    "m (cx, d) \<noteq> (Inl Panic, cx', d')"
  using assms(1) [unfolded triple_def, rule_format, OF assms(2), of cx] by auto

lemma triple_return: "(\<And>d. P d \<Longrightarrow> Q x d) \<Longrightarrow> triple P (io_return x) Q E"
  by (simp add: triple_def io_return_def)

lemma triple_fail: "(\<And>d. P d \<Longrightarrow> E d) \<Longrightarrow> triple P (io_fail e) Q E"
  by (simp add: triple_def io_fail_def)

lemma triple_bind:
  assumes m: "triple P m R E" and k: "\<And>x. triple (R x) (f x) Q E"
  shows "triple P (io_bind m f) Q E"
  unfolding triple_def
proof (intro allI impI)
  fix cx d
  assume "P d"
  note m = tripleD [OF m this]
  show "case io_bind m f (cx, d) of (Inr x, _, d') \<Rightarrow> Q x d' | (Inl (Err _), _, d') \<Rightarrow> E d' | (Inl Panic, _, _) \<Rightarrow> False"
    using m k unfolding triple_def
    by (fastforce simp: io_bind_def split: prod.splits sum.splits io_fault.splits)
qed

lemma triple_then:
  "triple P m (\<lambda>_. R) E \<Longrightarrow> triple R k Q E \<Longrightarrow> triple P (io_then m k) Q E"
  unfolding io_then_def by (rule triple_bind)

lemma triple_get: "(\<And>d. P d \<Longrightarrow> triple ((=) d) (f d) Q E) \<Longrightarrow> triple P (io_get f) Q E"
  by (simp add: triple_def io_get_def)

lemma triple_pointwise: "(\<And>d. P d \<Longrightarrow> triple ((=) d) m Q E) \<Longrightarrow> triple P m Q E"
  by (simp add: triple_def)

lemma triple_at: "triple P m Q E \<Longrightarrow> P d \<Longrightarrow> triple ((=) d) m Q E"
  by (simp add: triple_def)

lemma io_bind_return: "io_bind (io_return x) f = f x"
  by (simp add: io_bind_def io_return_def fun_eq_iff)

lemma triple_get_at: "triple ((=) d) (f d) Q E \<Longrightarrow> triple ((=) d) (io_get f) Q E"
  by (rule triple_get) simp

lemma triple_modify: "(\<And>d. P d \<Longrightarrow> Q () (f d)) \<Longrightarrow> triple P (io_modify f) Q E"
  by (simp add: triple_def io_modify_def)

lemma triple_option:
  "(\<And>v. x = Some v \<Longrightarrow> triple P (k v) Q E) \<Longrightarrow> (\<And>d. P d \<Longrightarrow> E d) \<Longrightarrow> triple P (io_option x e k) Q E"
  by (cases x) (simp_all add: io_option_def triple_fail)

lemma triple_if:
  "(b \<Longrightarrow> triple P m Q E) \<Longrightarrow> (\<not> b \<Longrightarrow> triple P n Q E) \<Longrightarrow> triple P (if b then m else n) Q E"
  by simp

lemma triple_guard:
  "(\<And>d. P d \<Longrightarrow> E d) \<Longrightarrow> (\<not> b \<Longrightarrow> triple P n Q E) \<Longrightarrow> triple P (if b then io_fail e else n) Q E"
  by (simp add: triple_fail)

lemma triple_conseq:
  assumes "triple P' m Q' E'" "\<And>d. P d \<Longrightarrow> P' d" "\<And>x d. Q' x d \<Longrightarrow> Q x d" "\<And>d. E' d \<Longrightarrow> E d"
  shows "triple P m Q E"
  by (rule tripleI) (use assms(2-) tripleD [OF assms(1)] in blast)+

lemma triple_bind_conseq:
  assumes "triple P' m R E'" "\<And>d. P d \<Longrightarrow> P' d" "\<And>d. E' d \<Longrightarrow> E d" "\<And>x. triple (R x) (f x) Q E"
  shows "triple P (io_bind m f) Q E"
  by (rule triple_bind [OF triple_conseq [OF assms(1-2) _ assms(3)] assms(4)])

lemma triple_bind_value:
  assumes m: "triple P m (\<lambda>x d. R d \<and> x = a) E'" and k: "triple R (f a) Q E" and "\<And>d. E' d \<Longrightarrow> E d"
  shows "triple P (io_bind m f) Q E"
proof (rule triple_bind_conseq [OF m _ assms(3)])
  show "triple (\<lambda>d. R d \<and> x = a) (f x) Q E" for x
    using k unfolding triple_def by (cases "x = a") auto
qed

lemma triple_then_conseq:
  assumes "triple P' m (\<lambda>_. R) E'" "\<And>d. P d \<Longrightarrow> P' d" "\<And>d. E' d \<Longrightarrow> E d" "triple R k Q E"
  shows "triple P (io_then m k) Q E"
  unfolding io_then_def using assms by (rule triple_bind_conseq)

lemma triple_assume: "(\<And>d. P d \<Longrightarrow> A) \<Longrightarrow> (A \<Longrightarrow> triple P m Q E) \<Longrightarrow> triple P m Q E"
  by (auto simp: triple_def)

lemma triple_checkpoint:
  "(\<And>d. P d \<Longrightarrow> E d) \<Longrightarrow> (\<And>d. P d \<Longrightarrow> Q () d) \<Longrightarrow> triple P cx_checkpoint Q E"
  by (auto simp: triple_def cx_checkpoint_def split: list.splits)

lemma triple_checkpoint_then:
  "(\<And>d. P d \<Longrightarrow> E d) \<Longrightarrow> triple P k Q E \<Longrightarrow> triple P (io_then cx_checkpoint k) Q E"
  by (rule triple_then [OF triple_checkpoint]) auto

lemma triple_zoom:
  assumes "\<And>s. P s \<Longrightarrow> triple ((=) (get s)) m (\<lambda>x d. Q x (put d s)) (\<lambda>d. E (put d s))"
  shows "triple P (io_zoom get put m) Q E"
proof (rule tripleI)
  fix cx s
  assume "P s"
  note m = tripleD [OF assms [OF this] refl]
  show "Q x s'" if "io_zoom get put m (cx, s) = (Inr x, cx', s')" for x cx' s'
    using that m(1) by (auto simp: io_zoom_def split: prod.splits)
  show "E s'" if "io_zoom get put m (cx, s) = (Inl (Err e), cx', s')" for e cx' s'
    using that m(2) by (auto simp: io_zoom_def split: prod.splits)
  show "io_zoom get put m (cx, s) \<noteq> (Inl Panic, cx', s')" for cx' s'
    using m(3) by (auto simp: io_zoom_def split: prod.splits)
qed

lemmas triple_rules = triple_checkpoint_then triple_checkpoint triple_option triple_if triple_fail triple_return

section \<open>The device trait\<close>

text \<open>
  A read returns the bytes it stores into the destination; what a failed read leaves in the
  destination is not modelled.
\<close>

record 'd byte_device =
  len_bytes :: "'d \<Rightarrow> u64"
  supports_vectored_reads :: bool
  preserves_read_exact_at :: bool
  preserves_read_vectored :: bool
  read_exact_at :: "byte_offset \<Rightarrow> usize \<Rightarrow> ('d, bytes) io"
  read_exact_at_volatile :: "byte_offset \<Rightarrow> usize \<Rightarrow> ('d, bytes) io"
  read_vectored_exact_at :: "byte_offset \<Rightarrow> usize list \<Rightarrow> ('d, bytes list) io"
  write_all_at :: "byte_offset \<Rightarrow> bytes \<Rightarrow> ('d, unit) io"
  write_vectored_all_at :: "byte_offset \<Rightarrow> bytes list \<Rightarrow> ('d, unit) io"
  dev_sync :: "('d, unit) io"
  supports_discard :: "'d \<Rightarrow> bool"
  discard :: "byte_offset \<Rightarrow> u64 \<Rightarrow> ('d, unit) io"

definition show_offset :: "byte_offset \<Rightarrow> string" where
  "show_offset off = show_nat (unat (off_val off))"

definition out_of_bounds :: "string \<Rightarrow> byte_offset \<Rightarrow> nat \<Rightarrow> string \<Rightarrow> u64 \<Rightarrow> ffs_error" where
  "out_of_bounds what off len limit_name limit =
     Format (what @ '' out of bounds: offset='' @ show_offset off @ '' len='' @ show_nat len
             @ '' '' @ limit_name @ ''='' @ show_nat (unat limit))"

fun sum_checked :: "u64 \<Rightarrow> usize list \<Rightarrow> u64 option" where
  "sum_checked acc [] = Some acc"
| "sum_checked acc (n # ns) =
     (case try_from_nat n of
        None \<Rightarrow> None
      | Some len \<Rightarrow>
          (case checked_add acc len of
             None \<Rightarrow> None
           | Some acc \<Rightarrow> sum_checked acc ns))"

fun read_pieces :: "(byte_offset \<Rightarrow> usize \<Rightarrow> ('d, bytes) io) \<Rightarrow> u64 \<Rightarrow> usize list \<Rightarrow> ('d, bytes list) io" where
  "read_pieces read next_offset [] = io_return []"
| "read_pieces read next_offset (n # ns) =
     (if n = 0 then io_bind (read_pieces read next_offset ns) (\<lambda>rest. io_return ([] # rest))
      else io_option (try_from_nat n) (Format ''read length overflows u64'') (\<lambda>len.
             io_bind (read (ByteOffset next_offset) n) (\<lambda>piece.
             io_option (checked_add next_offset len) (Format ''read range overflows u64'') (\<lambda>next_offset.
             io_bind (read_pieces read next_offset ns) (\<lambda>rest. io_return (piece # rest))))))"

definition default_read_vectored_exact_at ::
  "('d \<Rightarrow> u64) \<Rightarrow> (byte_offset \<Rightarrow> usize \<Rightarrow> ('d, bytes) io) \<Rightarrow> byte_offset \<Rightarrow> usize list \<Rightarrow> ('d, bytes list) io" where
  "default_read_vectored_exact_at dev_len read off lens =
     io_then cx_checkpoint (
     io_option (sum_checked 0 lens) (Format ''read length overflows u64'') (\<lambda>total_len.
     io_option (checked_add (off_val off) total_len) (Format ''read range overflows u64'') (\<lambda>end.
     if total_len = 0 then io_then cx_checkpoint (io_return (map (\<lambda>_. []) lens))
     else io_get (\<lambda>d.
       if dev_len d < end
       then io_fail (out_of_bounds ''read'' off (unat total_len) ''device_len'' (dev_len d))
       else io_bind (read_pieces read (off_val off) lens) (\<lambda>pieces.
            io_then cx_checkpoint (io_return pieces))))))"

definition default_write_vectored_all_at ::
  "(byte_offset \<Rightarrow> bytes \<Rightarrow> ('d, unit) io) \<Rightarrow> byte_offset \<Rightarrow> bytes list \<Rightarrow> ('d, unit) io" where
  "default_write_vectored_all_at wr off bufs =
     io_then cx_checkpoint (
     io_option (sum_checked 0 (map length bufs)) (Format ''write length overflows usize'') (\<lambda>total_len.
     if total_len = 0 then io_then cx_checkpoint (io_return ())
     else case bufs of
            [single] \<Rightarrow> wr off single
          | _ \<Rightarrow> wr off (concat bufs)))"

definition default_discard :: "byte_offset \<Rightarrow> u64 \<Rightarrow> ('d, unit) io" where
  "default_discard off len = io_fail (Io \<lparr>raw_os_error = Some 95, kind = KUnsupported\<rparr>)"

section \<open>Files\<close>

text \<open>
  An open file of the operating system: its bytes, the bytes that are on stable storage, whether it
  is a block special, and the outcomes of the coming system calls, success past the end of the list. \<open>SysErr e k\<close> is an error
  after \<open>k\<close> bytes were transferred by a call that loops, \<open>SysShort k\<close> a transfer of \<open>k\<close> bytes by a
  call that does not loop.
\<close>

datatype sys_outcome = SysOk | SysErr io_error usize | SysShort usize

record os_file =
  f_bytes :: bytes
  f_durable :: bytes
  f_special :: bool
  f_script :: "sys_outcome list"

definition next_outcome :: "os_file \<Rightarrow> sys_outcome \<times> os_file" where
  "next_outcome f =
     (case f_script f of [] \<Rightarrow> (SysOk, f) | r # rs \<Rightarrow> (r, f\<lparr>f_script := rs\<rparr>))"

definition file_put :: "usize \<Rightarrow> bytes \<Rightarrow> os_file \<Rightarrow> os_file" where
  "file_put off bs f =
     f\<lparr>f_bytes := blit (f_bytes f @ replicate (off + length bs - length (f_bytes f)) 0) off bs\<rparr>"

definition unexpected_eof :: ffs_error where
  "unexpected_eof = Io \<lparr>raw_os_error = None, kind = KUnexpectedEof\<rparr>"

text \<open>The metadata of a file: whether it is a block special and its \<open>st_size\<close>, zero for a block special.\<close>

definition sys_metadata :: "os_file \<Rightarrow> (bool \<times> nat) ffs_result \<times> os_file" where
  "sys_metadata f =
     (case next_outcome f of
        (SysErr e _, f) \<Rightarrow> (Inl (Io e), f)
      | (_, f) \<Rightarrow> (Inr (f_special f, if f_special f then 0 else length (f_bytes f)), f))"

definition sys_seek_end :: "os_file \<Rightarrow> nat ffs_result \<times> os_file" where
  "sys_seek_end f =
     (case next_outcome f of
        (SysErr e _, f) \<Rightarrow> (Inl (Io e), f)
      | (_, f) \<Rightarrow> (Inr (length (f_bytes f)), f))"

definition sys_read_exact :: "u64 \<Rightarrow> usize \<Rightarrow> os_file \<Rightarrow> bytes ffs_result \<times> os_file" where
  "sys_read_exact off n f =
     (case next_outcome f of
        (SysErr e _, f) \<Rightarrow> (Inl (Io e), f)
      | (_, f) \<Rightarrow>
          if unat off + n \<le> length (f_bytes f)
          then (Inr (segment (f_bytes f) (unat off) (unat off + n)), f)
          else (Inl unexpected_eof, f))"

definition sys_pread :: "u64 \<Rightarrow> usize \<Rightarrow> os_file \<Rightarrow> bytes ffs_result \<times> os_file" where
  "sys_pread off n f =
     (case next_outcome f of
        (SysErr e _, f) \<Rightarrow> (Inl (Io e), f)
      | (SysShort k, f) \<Rightarrow> (Inr (segment (f_bytes f) (unat off) (unat off + min k n)), f)
      | (SysOk, f) \<Rightarrow> (Inr (segment (f_bytes f) (unat off) (unat off + n)), f))"

definition sys_write_all :: "u64 \<Rightarrow> bytes \<Rightarrow> os_file \<Rightarrow> unit ffs_result \<times> os_file" where
  "sys_write_all off bs f =
     (case next_outcome f of
        (SysErr e k, f) \<Rightarrow> (Inl (Io e), file_put (unat off) (take k bs) f)
      | (_, f) \<Rightarrow> (Inr (), file_put (unat off) bs f))"

definition sys_pwrite :: "u64 \<Rightarrow> bytes \<Rightarrow> os_file \<Rightarrow> nat ffs_result \<times> os_file" where
  "sys_pwrite off bs f =
     (case next_outcome f of
        (SysErr e _, f) \<Rightarrow> (Inl (Io e), f)
      | (SysShort k, f) \<Rightarrow> (Inr (min k (length bs)), file_put (unat off) (take k bs) f)
      | (SysOk, f) \<Rightarrow> (Inr (length bs), file_put (unat off) bs f))"

definition sys_punch_hole :: "u64 \<Rightarrow> u64 \<Rightarrow> os_file \<Rightarrow> unit ffs_result \<times> os_file" where
  "sys_punch_hole off len f =
     (case next_outcome f of
        (SysErr e _, f) \<Rightarrow> (Inl (Io e), f)
      | (_, f) \<Rightarrow>
          (Inr (), f\<lparr>f_bytes := map (\<lambda>i. if unat off \<le> i \<and> i < unat off + unat len then 0 else f_bytes f ! i)
                               [0..<length (f_bytes f)]\<rparr>))"

definition sys_sync_data :: "os_file \<Rightarrow> unit ffs_result \<times> os_file" where
  "sys_sync_data f =
     (case next_outcome f of
        (SysErr e _, f) \<Rightarrow> (Inl (Io e), f)
      | (_, f) \<Rightarrow> (Inr (), f\<lparr>f_durable := f_bytes f\<rparr>))"

section \<open>The file device\<close>

record file_device =
  fd_file :: os_file
  fd_len :: u64
  fd_writable :: bool
  fd_block_device :: bool
  fd_write_epoch :: u64
  fd_synced_epoch :: u64
  fd_flushes_issued :: u64
  fd_flushes_elided :: u64

text \<open>The settings read once from the environment.\<close>

record file_tuning =
  direct_read_min :: usize
  clean_sync_skip :: bool

definition FILE_DEVICE_PREADV_IOV_MAX :: usize where
  "FILE_DEVICE_PREADV_IOV_MAX = 1024"

definition on_file :: "(os_file \<Rightarrow> 'a ffs_result \<times> os_file) \<Rightarrow> (file_device, 'a) io" where
  "on_file call s =
     (case call (fd_file (snd s)) of (r, f) \<Rightarrow> (map_sum Err id r, fst s, (snd s)\<lparr>fd_file := f\<rparr>))"

definition backing_len :: "os_file \<Rightarrow> nat ffs_result \<times> os_file" where
  "backing_len f =
     (case sys_metadata f of
        (Inl e, f) \<Rightarrow> (Inl e, f)
      | (Inr (special, st_size), f) \<Rightarrow> if special then sys_seek_end f else (Inr st_size, f))"

definition from_file :: "os_file \<Rightarrow> bool \<Rightarrow> file_device ffs_result" where
  "from_file f writable =
     (case sys_metadata f of
        (Inl e, f) \<Rightarrow> Inl e
      | (Inr (special, _), f) \<Rightarrow>
          (case backing_len f of
             (Inl e, f) \<Rightarrow> Inl e
           | (Inr len, f) \<Rightarrow>
               Inr \<lparr>fd_file = f, fd_len = of_nat len, fd_writable = writable,
                    fd_block_device = special, fd_write_epoch = 1, fd_synced_epoch = 0,
                    fd_flushes_issued = 0, fd_flushes_elided = 0\<rparr>))"

definition file_range :: "string \<Rightarrow> byte_offset \<Rightarrow> usize \<Rightarrow> (u64 \<Rightarrow> (file_device, 'a) io) \<Rightarrow> (file_device, 'a) io" where
  "file_range what off n k =
     io_option (try_from_nat n) (Format (what @ '' length overflows u64'')) (\<lambda>len.
     io_option (checked_add (off_val off) len) (Format (what @ '' range overflows u64'')) (\<lambda>end.
     io_get (\<lambda>d. if fd_len d < end then io_fail (out_of_bounds what off n ''file_len'' (fd_len d)) else k end)))"

definition live_len :: "file_device \<Rightarrow> (file_device, nat) io" where
  "live_len d = 
     (if fd_block_device d then io_return (unat (fd_len d))
      else io_bind (on_file sys_metadata) (\<lambda>(special, st_size). io_return st_size))"

definition file_read_exact_at :: "file_tuning \<Rightarrow> byte_offset \<Rightarrow> usize \<Rightarrow> (file_device, bytes) io" where
  "file_read_exact_at env off n =
     io_then cx_checkpoint (
     if n = 0 then io_then cx_checkpoint (io_return [])
     else file_range ''read'' off n (\<lambda>end.
       if direct_read_min env \<le> n
       then io_get (\<lambda>d. io_bind (live_len d) (\<lambda>live.
              if live < unat end then io_fail unexpected_eof
              else io_bind (on_file (sys_read_exact (off_val off) n)) (\<lambda>bs.
                   io_then cx_checkpoint (io_return bs))))
       else io_bind (on_file (sys_read_exact (off_val off) n)) (\<lambda>bs.
            io_then cx_checkpoint (io_return bs))))"

definition file_read_exact_at_volatile :: "byte_offset \<Rightarrow> usize \<Rightarrow> (file_device, bytes) io" where
  "file_read_exact_at_volatile off n =
     io_then cx_checkpoint (
     if n = 0 then io_then cx_checkpoint (io_return [])
     else file_range ''read'' off n (\<lambda>_.
       io_bind (on_file (sys_read_exact (off_val off) n)) (\<lambda>bs.
       io_then cx_checkpoint (io_return bs))))"

text \<open>A flat read is scattered over destinations of the given lengths.\<close>

fun scatter :: "usize list \<Rightarrow> bytes \<Rightarrow> bytes list" where
  "scatter [] bs = []"
| "scatter (n # ns) bs = take n bs # scatter ns (drop n bs)"

definition fits_i64 :: "u64 \<Rightarrow> bool" where
  "fits_i64 x \<longleftrightarrow> unat x < 2 ^ 63"

definition file_read_vectored_exact_at ::
  "file_tuning \<Rightarrow> byte_offset \<Rightarrow> usize list \<Rightarrow> (file_device, bytes list) io" where
  "file_read_vectored_exact_at env off lens =
     io_then cx_checkpoint (
     io_option (sum_checked 0 lens) (Format ''read length overflows usize'') (\<lambda>total_len.
     if total_len = 0 then io_then cx_checkpoint (io_return (map (\<lambda>_. []) lens))
     else file_range ''read'' off (unat total_len) (\<lambda>end.
       if direct_read_min env \<le> unat total_len \<and> length lens \<le> FILE_DEVICE_PREADV_IOV_MAX
       then io_get (\<lambda>d. io_bind (live_len d) (\<lambda>live.
              if live < unat end then io_fail unexpected_eof
              else if \<not> fits_i64 (off_val off) then io_fail (Format ''read offset overflows i64'')
              else io_bind (on_file (sys_pread (off_val off) (unat total_len))) (\<lambda>bs.
                   if length bs \<noteq> unat total_len then io_fail unexpected_eof
                   else io_then cx_checkpoint (io_return (scatter lens bs)))))
       else io_bind (on_file (sys_read_exact (off_val off) (unat total_len))) (\<lambda>bs.
            io_then cx_checkpoint (io_return (scatter lens bs))))))"

definition dirty :: "(file_device, 'a) io \<Rightarrow> (file_device, 'a) io" where
  "dirty m s =
     (case m s of (r, cx, d) \<Rightarrow> (r, cx, d\<lparr>fd_write_epoch := fd_write_epoch d + 1\<rparr>))"

definition file_write_all_at :: "byte_offset \<Rightarrow> bytes \<Rightarrow> (file_device, unit) io" where
  "file_write_all_at off buf =
     io_then cx_checkpoint (
     if buf = [] then io_then cx_checkpoint (io_return ())
     else io_get (\<lambda>d.
       if \<not> fd_writable d then io_fail PermissionDenied
       else file_range ''write'' off (length buf) (\<lambda>_.
            io_then (dirty (on_file (sys_write_all (off_val off) buf))) cx_checkpoint)))"

function gather_loop :: "u64 \<Rightarrow> nat \<Rightarrow> bytes list \<Rightarrow> (file_device, unit) io" where
  "gather_loop off written bufs =
     (if bufs = [] then io_return ()
      else let batch = concat (take FILE_DEVICE_PREADV_IOV_MAX bufs)
           in if \<not> fits_i64 (off + of_nat written) then io_fail (Format ''write offset overflows i64'')
              else io_bind (on_file (sys_pwrite (off + of_nat written) batch)) (\<lambda>n.
                   if n = length batch
                   then gather_loop off (written + n) (drop FILE_DEVICE_PREADV_IOV_MAX bufs)
                   else io_fail (Io \<lparr>raw_os_error = None, kind = KWriteZero\<rparr>)))"
  by pat_completeness auto
termination
  by (relation "measure (\<lambda>(off, written, bufs). length bufs)") (auto simp: FILE_DEVICE_PREADV_IOV_MAX_def)

declare gather_loop.simps [simp del]

definition file_write_vectored_all_at :: "byte_offset \<Rightarrow> bytes list \<Rightarrow> (file_device, unit) io" where
  "file_write_vectored_all_at off bufs =
     io_then cx_checkpoint (
     io_option (sum_checked 0 (map length bufs)) (Format ''write length overflows usize'') (\<lambda>total_len.
     if total_len = 0 then io_then cx_checkpoint (io_return ())
     else io_get (\<lambda>d.
       if \<not> fd_writable d then io_fail PermissionDenied
       else file_range ''write'' off (unat total_len) (\<lambda>_.
            io_then (dirty (gather_loop (off_val off) 0 bufs)) cx_checkpoint))))"

definition file_supports_discard :: "file_device \<Rightarrow> bool" where
  "file_supports_discard d \<longleftrightarrow> fd_writable d \<and> \<not> fd_block_device d"

definition file_discard :: "byte_offset \<Rightarrow> u64 \<Rightarrow> (file_device, unit) io" where
  "file_discard off len =
     io_then cx_checkpoint (
     io_get (\<lambda>d.
       case checked_add (off_val off) len of
         None \<Rightarrow> io_fail (Format ''discard range past the device end'')
       | Some end \<Rightarrow>
           if fd_len d < end then io_fail (Format ''discard range past the device end'')
           else if \<not> fits_i64 (off_val off) then io_fail (Format ''discard offset exceeds off_t'')
           else if \<not> fits_i64 (end - off_val off) then io_fail (Format ''discard length exceeds off_t'')
           else io_then (on_file (sys_punch_hole (off_val off) (end - off_val off)))
                  (io_modify (\<lambda>d. d\<lparr>fd_write_epoch := fd_write_epoch d + 1\<rparr>))))"

definition file_sync :: "file_tuning \<Rightarrow> (file_device, unit) io" where
  "file_sync env =
     io_then cx_checkpoint (
     io_get (\<lambda>d.
       if clean_sync_skip env \<and> fd_write_epoch d = fd_synced_epoch d
       then io_then (io_modify (\<lambda>d. d\<lparr>fd_flushes_elided := fd_flushes_elided d + 1\<rparr>)) cx_checkpoint
       else io_then (on_file sys_sync_data) (
            io_then (io_modify (\<lambda>d'. d'\<lparr>fd_flushes_issued := fd_flushes_issued d' + 1,
                                    fd_synced_epoch := max (fd_synced_epoch d') (fd_write_epoch d)\<rparr>))
            cx_checkpoint)))"

definition file_byte_device :: "file_tuning \<Rightarrow> file_device byte_device" where
  "file_byte_device env =
     \<lparr>len_bytes = fd_len, supports_vectored_reads = True, preserves_read_exact_at = True, preserves_read_vectored = True,
      read_exact_at = file_read_exact_at env, read_exact_at_volatile = file_read_exact_at_volatile,
      read_vectored_exact_at = file_read_vectored_exact_at env, write_all_at = file_write_all_at,
      write_vectored_all_at = file_write_vectored_all_at, dev_sync = file_sync env,
      supports_discard = file_supports_discard, discard = file_discard\<rparr>"

end
