(* ===== verification/Block_Device.thy ===== *)
theory Block_Device
  imports Byte_Device
begin

text \<open>
  Block-addressed devices (\<open>ffs-block/src/lib.rs\<close>): the trait \<open>BlockDevice\<close> as a record of
  operations with its default methods, the multi-block helpers of \<open>VectoredBlockDevice\<close>, and
  \<open>ByteBlockDevice\<close>, the block view of a byte device. Block buffers are byte lists; the
  copy-on-write sharing of \<open>BlockBuf\<close> is not observable.
\<close>

section \<open>The device trait\<close>

record 'd block_device =
  read_block :: "block_number \<Rightarrow> ('d, bytes) io"
  supports_contiguous_reads :: bool
  read_contiguous_blocks :: "block_number \<Rightarrow> bytes list \<Rightarrow> ('d, bytes list) io"
  read_contiguous_into :: "block_number \<Rightarrow> usize \<Rightarrow> ('d, bytes) io"
  write_block :: "block_number \<Rightarrow> bytes \<Rightarrow> ('d, unit) io"
  rmw_block :: "block_number \<Rightarrow> (usize \<times> usize) list \<Rightarrow> (bytes \<Rightarrow> bytes ffs_result) \<Rightarrow> ('d, unit) io"
  rmw_block_bitmap_or :: "block_number \<Rightarrow> (bytes \<Rightarrow> bytes ffs_result) \<Rightarrow> ('d, unit) io"
  rmw_block_bitmap_delta :: "block_number \<Rightarrow> (bytes \<Rightarrow> bytes ffs_result) \<Rightarrow> ('d, unit) io"
  read_merge_ancestor_at_snapshot :: "block_number \<Rightarrow> snapshot \<Rightarrow> ('d, bytes \<times> bytes option) io"
  supports_contiguous_writes :: bool
  write_contiguous_blocks_vectored :: "block_number \<Rightarrow> bytes list \<Rightarrow> ('d, unit) io"
  write_contiguous_blocks :: "block_number \<Rightarrow> bytes \<Rightarrow> ('d, unit) io"
  dev_block_size :: "'d \<Rightarrow> u32"
  block_count :: "'d \<Rightarrow> u64"
  block_sync :: "('d, unit) io"

definition block_out_of_range :: "u64 \<Rightarrow> u64 \<Rightarrow> ffs_error" where
  "block_out_of_range block count =
     Format (''block out of range: block='' @ show_nat (unat block) @ '' block_count='' @ show_nat (unat count))"

definition wrong_read_size :: "nat \<Rightarrow> nat \<Rightarrow> ffs_error" where
  "wrong_read_size actual expected =
     Format (''read_block returned wrong size: got='' @ show_nat actual @ '' expected='' @ show_nat expected)"

text \<open>The range check of the default methods: the last block of a non-empty run is on the device.\<close>

definition default_run ::
  "('d \<Rightarrow> u64) \<Rightarrow> string \<Rightarrow> block_number \<Rightarrow> nat \<Rightarrow> ('d, 'a) io \<Rightarrow> ('d, 'a) io" where
  "default_run count what start n k =
     io_option (try_from_nat n) (Format ''block count does not fit u64'') (\<lambda>blocks.
     case checked_sub blocks 1 of
       None \<Rightarrow> k
     | Some last_delta \<Rightarrow>
         io_option (checked_add (bn_val start) last_delta)
           (Format (''contiguous '' @ what @ '' block range overflow'')) (\<lambda>last_block.
         io_get (\<lambda>d. if count d \<le> last_block then io_fail (block_out_of_range last_block (count d)) else k)))"

fun read_blocks :: "(block_number \<Rightarrow> ('d, bytes) io) \<Rightarrow> nat \<Rightarrow> block_number list \<Rightarrow> ('d, bytes list) io" where
  "read_blocks read bs [] = io_return []"
| "read_blocks read bs (block # rest) =
     io_bind (read block) (\<lambda>buf.
     if length buf \<noteq> bs then io_fail (wrong_read_size (length buf) bs)
     else io_bind (read_blocks read bs rest) (\<lambda>bufs. io_return (buf # bufs)))"

fun write_blocks :: "(block_number \<Rightarrow> bytes \<Rightarrow> ('d, unit) io) \<Rightarrow> (block_number \<times> bytes) list \<Rightarrow> ('d, unit) io" where
  "write_blocks wr [] = io_return ()"
| "write_blocks wr ((block, data) # rest) = io_then (wr block data) (write_blocks wr rest)"

text \<open>The blocks of a run that passed the range check; their numbers do not overflow.\<close>

definition run_blocks :: "block_number \<Rightarrow> nat \<Rightarrow> block_number list" where
  "run_blocks start n = map (\<lambda>idx. BlockNumber (bn_val start + of_nat idx)) [0..<n]"

definition default_read_contiguous_blocks ::
  "('d \<Rightarrow> u32) \<Rightarrow> ('d \<Rightarrow> u64) \<Rightarrow> (block_number \<Rightarrow> ('d, bytes) io) \<Rightarrow> block_number \<Rightarrow> bytes list \<Rightarrow> ('d, bytes list) io" where
  "default_read_contiguous_blocks bsize count read start bufs =
     io_then cx_checkpoint (
     io_get (\<lambda>d. let bs = unat (bsize d) in
       if bs = 0 \<and> bufs \<noteq> [] then io_fail (Format ''read_contiguous_blocks: block size must be nonzero'')
       else default_run count ''read'' start (length bufs) (
            io_bind (read_blocks read bs (run_blocks start (length bufs))) (\<lambda>bufs.
            io_then cx_checkpoint (io_return bufs)))))"

definition default_read_contiguous_into ::
  "('d \<Rightarrow> u32) \<Rightarrow> ('d \<Rightarrow> u64) \<Rightarrow> (block_number \<Rightarrow> ('d, bytes) io) \<Rightarrow> block_number \<Rightarrow> usize \<Rightarrow> ('d, bytes) io" where
  "default_read_contiguous_into bsize count read start n =
     io_then cx_checkpoint (
     io_get (\<lambda>d. let bs = unat (bsize d) in
       if bs = 0 \<or> n mod bs \<noteq> 0
       then io_fail (Format ''read_contiguous_into: dst length must be a multiple of block size'')
       else default_run count ''read'' start (n div bs) (
            io_bind (read_blocks read bs (run_blocks start (n div bs))) (\<lambda>bufs.
            io_then cx_checkpoint (io_return (concat bufs))))))"

definition default_rmw_block ::
  "(block_number \<Rightarrow> ('d, bytes) io) \<Rightarrow> (block_number \<Rightarrow> bytes \<Rightarrow> ('d, unit) io) \<Rightarrow> block_number
   \<Rightarrow> (usize \<times> usize) list \<Rightarrow> (bytes \<Rightarrow> bytes ffs_result) \<Rightarrow> ('d, unit) io" where
  "default_rmw_block read wr block disjoint_ranges patch =
     io_bind (read block) (\<lambda>before.
     case patch before of
       Inl e \<Rightarrow> io_fail e
     | Inr data \<Rightarrow> if data = before then io_return () else wr block data)"

definition default_rmw_block_bitmap ::
  "(block_number \<Rightarrow> ('d, bytes) io) \<Rightarrow> (block_number \<Rightarrow> bytes \<Rightarrow> ('d, unit) io) \<Rightarrow> block_number
   \<Rightarrow> (bytes \<Rightarrow> bytes ffs_result) \<Rightarrow> ('d, unit) io" where
  "default_rmw_block_bitmap read wr block patch =
     io_bind (read block) (\<lambda>before.
     case patch before of
       Inl e \<Rightarrow> io_fail e
     | Inr data \<Rightarrow> wr block data)"

definition default_read_merge_ancestor ::
  "(block_number \<Rightarrow> ('d, bytes) io) \<Rightarrow> block_number \<Rightarrow> snapshot \<Rightarrow> ('d, bytes \<times> bytes option) io" where
  "default_read_merge_ancestor read block snap = io_bind (read block) (\<lambda>buf. io_return (buf, None))"

definition default_write_contiguous_blocks ::
  "('d \<Rightarrow> u32) \<Rightarrow> ('d \<Rightarrow> u64) \<Rightarrow> (block_number \<Rightarrow> bytes \<Rightarrow> ('d, unit) io) \<Rightarrow> block_number \<Rightarrow> bytes \<Rightarrow> ('d, unit) io" where
  "default_write_contiguous_blocks bsize count wr start data =
     io_then cx_checkpoint (
     io_get (\<lambda>d. let bs = unat (bsize d) in
       if bs = 0 \<or> length data mod bs \<noteq> 0
       then io_fail (Format ''write_contiguous_blocks: data length must be a multiple of block size'')
       else default_run count ''write'' start (length data div bs) (
            io_then (write_blocks wr (zip (run_blocks start (length data div bs)) (chunks bs data))) cx_checkpoint)))"

definition default_write_contiguous_blocks_vectored ::
  "(block_number \<Rightarrow> bytes \<Rightarrow> ('d, unit) io) \<Rightarrow> block_number \<Rightarrow> bytes list \<Rightarrow> ('d, unit) io" where
  "default_write_contiguous_blocks_vectored wr_run start pieces =
     io_then cx_checkpoint (
     case pieces of
       [single] \<Rightarrow> wr_run start single
     | _ \<Rightarrow> wr_run start (concat pieces))"

section \<open>Multi-block helpers\<close>

definition first_outside :: "u64 \<Rightarrow> block_number list \<Rightarrow> block_number option" where
  "first_outside count blocks = find (\<lambda>block. count \<le> bn_val block) blocks"

definition read_vectored :: "'d block_device \<Rightarrow> block_number list \<Rightarrow> bytes list \<Rightarrow> ('d, bytes list) io" where
  "read_vectored dev blocks bufs =
     io_then cx_checkpoint (
     if length blocks \<noteq> length bufs
     then io_fail (Format (''read_vectored length mismatch: blocks='' @ show_nat (length blocks)
                           @ '' bufs='' @ show_nat (length bufs)))
     else io_get (\<lambda>d.
       case first_outside (block_count dev d) blocks of
         Some block \<Rightarrow> io_fail (block_out_of_range (bn_val block) (block_count dev d))
       | None \<Rightarrow>
           let bs = unat (dev_block_size dev d) in
           if bs = 0 \<and> blocks \<noteq> [] then io_fail (Format ''read_vectored: block size must be nonzero'')
           else io_bind (read_blocks (read_block dev) bs blocks) (\<lambda>bufs.
                io_then cx_checkpoint (io_return bufs))))"

definition write_vectored :: "'d block_device \<Rightarrow> block_number list \<Rightarrow> bytes list \<Rightarrow> ('d, unit) io" where
  "write_vectored dev blocks bufs =
     io_then cx_checkpoint (
     if length blocks \<noteq> length bufs
     then io_fail (Format (''write_vectored length mismatch: blocks='' @ show_nat (length blocks)
                           @ '' bufs='' @ show_nat (length bufs)))
     else io_get (\<lambda>d.
       case first_outside (block_count dev d) blocks of
         Some block \<Rightarrow> io_fail (block_out_of_range (bn_val block) (block_count dev d))
       | None \<Rightarrow>
           let bs = unat (dev_block_size dev d) in
           if bs = 0 \<and> blocks \<noteq> [] then io_fail (Format ''write_vectored: block size must be nonzero'')
           else case find (\<lambda>buf. length buf \<noteq> bs) bufs of
                  Some buf \<Rightarrow>
                    io_fail (Format (''write_vectored block size mismatch: got='' @ show_nat (length buf)
                                     @ '' expected='' @ show_nat bs))
                | None \<Rightarrow> io_then (write_blocks (write_block dev) (zip blocks bufs)) cx_checkpoint))"

section \<open>The block view of a byte device\<close>

record 'd byte_block_device =
  bb_inner :: 'd
  bb_block_size :: u32
  bb_block_count :: u64

definition bb_new :: "'d byte_device \<Rightarrow> 'd \<Rightarrow> u32 \<Rightarrow> 'd byte_block_device ffs_result" where
  "bb_new dev inner bsize =
     (if bsize = 0 \<or> \<not> is_power_of_two bsize
      then Inl (Format (''invalid block_size='' @ show_nat (unat bsize) @ '' (must be power of two)''))
      else let len = len_bytes dev inner;
               remainder = len mod ucast bsize
           in if remainder \<noteq> 0
              then Inl (Format (''image length is not block-aligned: len_bytes='' @ show_nat (unat len)
                                @ '' block_size='' @ show_nat (unat bsize) @ '' remainder='' @ show_nat (unat remainder)))
              else Inr \<lparr>bb_inner = inner, bb_block_size = bsize, bb_block_count = len div ucast bsize\<rparr>)"

definition on_bytes :: "('d, 'a) io \<Rightarrow> ('d byte_block_device, 'a) io" where
  "on_bytes = io_zoom bb_inner (\<lambda>d s. s\<lparr>bb_inner := d\<rparr>)"

definition bb_offset :: "u64 \<Rightarrow> (byte_offset \<Rightarrow> ('d byte_block_device, 'a) io) \<Rightarrow> ('d byte_block_device, 'a) io" where
  "bb_offset block k =
     io_get (\<lambda>d. io_option (checked_mul block (ucast (bb_block_size d))) (Format ''block offset overflow'')
       (\<lambda>off. k (ByteOffset off)))"

definition bb_run :: "block_number \<Rightarrow> u64 \<Rightarrow> (byte_offset \<Rightarrow> ('d byte_block_device, 'a) io) \<Rightarrow> ('d byte_block_device, 'a) io" where
  "bb_run start count k =
     io_option (checked_add (bn_val start) count) (Format ''block range overflow'') (\<lambda>end.
     io_get (\<lambda>d.
       if bb_block_count d < end
       then io_fail (Format (''block range out of range: start='' @ show_nat (unat (bn_val start)) @ '' count=''
                             @ show_nat (unat count) @ '' block_count='' @ show_nat (unat (bb_block_count d))))
       else bb_offset (bn_val start) k))"

definition bb_read_block :: "'d byte_device \<Rightarrow> block_number \<Rightarrow> ('d byte_block_device, bytes) io" where
  "bb_read_block dev block =
     io_then cx_checkpoint (
     io_get (\<lambda>d.
       if bb_block_count d \<le> bn_val block then io_fail (block_out_of_range (bn_val block) (bb_block_count d))
       else bb_offset (bn_val block) (\<lambda>off.
            io_bind (on_bytes (read_exact_at_volatile dev off (unat (bb_block_size d)))) (\<lambda>buf.
            io_then cx_checkpoint (io_return buf)))))"

definition bb_read_contiguous_blocks ::
  "'d byte_device \<Rightarrow> block_number \<Rightarrow> bytes list \<Rightarrow> ('d byte_block_device, bytes list) io" where
  "bb_read_contiguous_blocks dev start bufs =
     io_then cx_checkpoint (
     if bufs = [] then io_then cx_checkpoint (io_return [])
     else io_option (try_from_nat (length bufs)) (Format ''block count does not fit u64'') (\<lambda>count.
          bb_run start count (\<lambda>off.
          io_get (\<lambda>d.
            let bs = unat (bb_block_size d) in
            if usize_max < length bufs * bs then io_fail (Format ''contiguous read length overflow'')
            else if preserves_read_vectored dev \<and> (\<forall>buf \<in> set bufs. length buf = bs)
            then io_bind (on_bytes (read_vectored_exact_at dev off (map length bufs))) (\<lambda>bufs.
                 io_then cx_checkpoint (io_return bufs))
            else io_bind (on_bytes (read_exact_at dev off (length bufs * bs))) (\<lambda>read_buf.
                 io_then cx_checkpoint (io_return (chunks bs read_buf)))))))"

definition bb_read_contiguous_into ::
  "'d byte_device \<Rightarrow> block_number \<Rightarrow> usize \<Rightarrow> ('d byte_block_device, bytes) io" where
  "bb_read_contiguous_into dev start n =
     io_then cx_checkpoint (
     io_get (\<lambda>d.
       let bs = unat (bb_block_size d) in
       if bs = 0 \<or> n mod bs \<noteq> 0
       then io_fail (Format ''read_contiguous_into: dst length must be a multiple of block size'')
       else if n = 0 then io_then cx_checkpoint (io_return [])
       else bb_run start (of_nat (n div bs)) (\<lambda>off.
            io_bind (on_bytes (read_exact_at dev off n)) (\<lambda>buf.
            io_then cx_checkpoint (io_return buf)))))"

definition bb_write_block :: "'d byte_device \<Rightarrow> block_number \<Rightarrow> bytes \<Rightarrow> ('d byte_block_device, unit) io" where
  "bb_write_block dev block data =
     io_then cx_checkpoint (
     io_get (\<lambda>d.
       if length data \<noteq> unat (bb_block_size d)
       then io_fail (Format (''write_block data size mismatch: got='' @ show_nat (length data)
                             @ '' expected='' @ show_nat (unat (bb_block_size d))))
       else if bb_block_count d \<le> bn_val block then io_fail (block_out_of_range (bn_val block) (bb_block_count d))
       else bb_offset (bn_val block) (\<lambda>off. io_then (on_bytes (write_all_at dev off data)) cx_checkpoint)))"

definition bb_write_run ::
  "block_number \<Rightarrow> nat \<Rightarrow> (byte_offset \<Rightarrow> ('d byte_block_device, unit) io) \<Rightarrow> ('d byte_block_device, unit) io" where
  "bb_write_run start total_len k =
     io_then cx_checkpoint (
     io_get (\<lambda>d.
       let bs = unat (bb_block_size d) in
       if bs = 0 \<or> total_len mod bs \<noteq> 0
       then io_fail (Format ''write_contiguous_blocks: data length must be a multiple of block size'')
       else if total_len = 0 then cx_checkpoint
       else bb_run start (of_nat (total_len div bs)) (\<lambda>off. io_then (k off) cx_checkpoint)))"

definition bb_write_contiguous_blocks ::
  "'d byte_device \<Rightarrow> block_number \<Rightarrow> bytes \<Rightarrow> ('d byte_block_device, unit) io" where
  "bb_write_contiguous_blocks dev start data =
     bb_write_run start (length data) (\<lambda>off. on_bytes (write_all_at dev off data))"

definition bb_write_contiguous_blocks_vectored ::
  "'d byte_device \<Rightarrow> block_number \<Rightarrow> bytes list \<Rightarrow> ('d byte_block_device, unit) io" where
  "bb_write_contiguous_blocks_vectored dev start pieces =
     bb_write_run start (sum_list (map length pieces)) (\<lambda>off. on_bytes (write_vectored_all_at dev off pieces))"

definition byte_block_device :: "'d byte_device \<Rightarrow> 'd byte_block_device block_device" where
  "byte_block_device dev =
     \<lparr>read_block = bb_read_block dev, supports_contiguous_reads = supports_vectored_reads dev,
      read_contiguous_blocks = bb_read_contiguous_blocks dev,
      read_contiguous_into = bb_read_contiguous_into dev, write_block = bb_write_block dev,
      rmw_block = default_rmw_block (bb_read_block dev) (bb_write_block dev),
      rmw_block_bitmap_or = default_rmw_block_bitmap (bb_read_block dev) (bb_write_block dev),
      rmw_block_bitmap_delta = default_rmw_block_bitmap (bb_read_block dev) (bb_write_block dev),
      read_merge_ancestor_at_snapshot = default_read_merge_ancestor (bb_read_block dev),
      supports_contiguous_writes = True,
      write_contiguous_blocks_vectored = bb_write_contiguous_blocks_vectored dev,
      write_contiguous_blocks = bb_write_contiguous_blocks dev,
      dev_block_size = bb_block_size, block_count = bb_block_count,
      block_sync = on_bytes (dev_sync dev)\<rparr>"

end
