(* ===== verification/Device_Law.thy ===== *)
theory Device_Law
  imports Byte_Device
begin

text \<open>
  The contract of byte devices and its proof for the file device. A read returns the bytes of
  the device, a write replaces exactly its range, and a failed write leaves every byte either
  old or new; the default vectored methods inherit the contract of the scalar ones.
\<close>

section \<open>The contract\<close>

definition holds :: "('d \<Rightarrow> bool) \<Rightarrow> ('d \<Rightarrow> 'c) \<Rightarrow> 'c \<Rightarrow> 'd \<Rightarrow> bool" where
  "holds ok content c d \<longleftrightarrow> ok d \<and> content d = c"

definition reads :: "bytes \<Rightarrow> byte_offset \<Rightarrow> usize \<Rightarrow> bytes \<Rightarrow> bool" where
  "reads c off n bs \<longleftrightarrow>
     (n \<noteq> 0 \<longrightarrow> unat (off_val off) + n \<le> length c)
   \<and> bs = segment c (unat (off_val off)) (unat (off_val off) + n)"

definition written :: "bytes \<Rightarrow> byte_offset \<Rightarrow> bytes \<Rightarrow> bytes \<Rightarrow> bool" where
  "written c off bs c' \<longleftrightarrow>
     (bs \<noteq> [] \<longrightarrow> unat (off_val off) + length bs \<le> length c) \<and> c' = blit c (unat (off_val off)) bs"

definition torn :: "bytes \<Rightarrow> byte_offset \<Rightarrow> bytes \<Rightarrow> bytes \<Rightarrow> bool" where
  "torn c off bs c' \<longleftrightarrow>
     length c' = length c
   \<and> (\<forall>i < length c. c' ! i = c ! i
        \<or> (unat (off_val off) \<le> i \<and> i < unat (off_val off) + length bs \<and> c' ! i = bs ! (i - unat (off_val off))))"

lemma torn_refl [simp]: "torn c off bs c"
  by (simp add: torn_def)

lemma written_length: "written c off bs c' \<Longrightarrow> length c' = length c"
  by (cases "bs = []") (simp_all add: written_def blit_def)

lemma reads_length: "reads c off n bs \<Longrightarrow> length bs = n"
  by (cases "n = 0") (auto simp: reads_def)

lemma written_nth:
  assumes "written c off bs c'" "i < length c"
  shows "c' ! i = (if unat (off_val off) \<le> i \<and> i < unat (off_val off) + length bs
    then bs ! (i - unat (off_val off)) else c ! i)"
  using assms nth_blit [of "unat (off_val off)" bs c i] by (cases "bs = []") (auto simp: written_def)

lemma written_Nil [simp]: "written c off [] c' \<longleftrightarrow> c' = c"
  by (simp add: written_def blit_def)

lemma written_torn: "written c off bs c' \<Longrightarrow> torn c off bs c'"
  by (auto simp: torn_def written_nth written_length)

locale device_contract =
  fixes dev :: "'d byte_device" and ok :: "'d \<Rightarrow> bool" and content :: "'d \<Rightarrow> bytes"
  assumes content_length: "ok d \<Longrightarrow> length (content d) = unat (len_bytes dev d)"
    and read_law: "triple (holds ok content c) (read_exact_at dev off n)
      (\<lambda>bs d. holds ok content c d \<and> reads c off n bs) (holds ok content c)"
    and read_volatile_law: "triple (holds ok content c) (read_exact_at_volatile dev off n)
      (\<lambda>bs d. holds ok content c d \<and> reads c off n bs) (holds ok content c)"
    and read_vectored_law: "triple (holds ok content c) (read_vectored_exact_at dev off lens)
      (\<lambda>bss d. holds ok content c d \<and> map length bss = lens \<and> reads c off (sum_list lens) (concat bss))
      (holds ok content c)"
    and write_law: "triple (holds ok content c) (write_all_at dev off bs)
      (\<lambda>_ d. ok d \<and> written c off bs (content d)) (\<lambda>d. ok d \<and> torn c off bs (content d))"
    and write_vectored_law: "triple (holds ok content c) (write_vectored_all_at dev off bss)
      (\<lambda>_ d. ok d \<and> written c off (concat bss) (content d)) (\<lambda>d. ok d \<and> torn c off (concat bss) (content d))"
    and sync_law: "triple (holds ok content c) (dev_sync dev) (\<lambda>_. holds ok content c)
      (\<lambda>d. ok d \<and> length (content d) = length c)"
    and discard_law: "triple (holds ok content c) (discard dev off len)
      (\<lambda>_ d. ok d \<and> written c off (replicate (unat len) 0) (content d)) (holds ok content c)"

section \<open>The default methods\<close>

lemma sum_checked_spec:
  "sum_checked acc ns = Some s \<Longrightarrow> unat s = unat acc + sum_list ns"
proof (induction acc ns rule: sum_checked.induct)
  case (2 acc n ns)
  from "2.prems" obtain len t where l: "try_from_nat n = Some len" "checked_add acc len = Some t"
    "sum_checked t ns = Some s" by (auto split: option.splits)
  then have "unat s = unat t + sum_list ns" by (rule "2.IH")
  with checked_add_SomeD [OF l(2)] try_from_nat_SomeD [OF l(1)] show ?case by simp
qed simp

lemma reads_append:
  assumes "reads c (ByteOffset a) m xs" "reads c (ByteOffset b) n ys" "unat b = unat a + m"
  shows "reads c (ByteOffset a) (m + n) (xs @ ys)"
  using assms segment_append_adjacent [of "unat a" "unat a + m" "unat a + m + n" c]
  by (auto simp: reads_def add.assoc)

lemma reads_zero [simp]: "reads c off 0 bs \<longleftrightarrow> bs = []"
  by (auto simp: reads_def)

lemma read_pieces_law:
  assumes read: "\<And>off n. triple P (read off n) (\<lambda>bs d. P d \<and> reads c off n bs) P"
  shows "triple P (read_pieces read off ns)
    (\<lambda>bss d. P d \<and> map length bss = ns \<and> reads c (ByteOffset off) (sum_list ns) (concat bss)) P"
proof (induction ns arbitrary: off)
  case (Cons n ns)
  show ?case
  proof (cases "n = 0")
    case True
    then show ?thesis by (auto intro!: triple_bind [OF Cons.IH] triple_return)
  next
    case False
    have step: "triple (\<lambda>d. P d \<and> reads c (ByteOffset off) n piece)
        (io_bind (read_pieces read nx ns) (\<lambda>rest. io_return (piece # rest)))
        (\<lambda>bss d. P d \<and> map length bss = n # ns \<and> reads c (ByteOffset off) (n + sum_list ns) (concat bss)) P"
      if "unat nx = unat off + n" for nx piece
    proof (rule triple_assume [where A = "reads c (ByteOffset off) n piece"])
      assume piece: "reads c (ByteOffset off) n piece"
      show "triple (\<lambda>d. P d \<and> reads c (ByteOffset off) n piece)
        (io_bind (read_pieces read nx ns) (\<lambda>rest. io_return (piece # rest)))
        (\<lambda>bss d. P d \<and> map length bss = n # ns \<and> reads c (ByteOffset off) (n + sum_list ns) (concat bss)) P"
        by (rule triple_bind_conseq [OF Cons.IH [of nx]])
          (use piece that in \<open>auto intro!: triple_return reads_append dest: reads_length\<close>)
    qed simp
    have nx: "try_from_nat n = Some v \<Longrightarrow> checked_add off v = Some nx \<Longrightarrow> unat nx = unat off + n" for v nx :: u64
      by (auto dest!: try_from_nat_SomeD checked_add_SomeD)
    have "triple P (read_pieces read off (n # ns))
      (\<lambda>bss d. P d \<and> map length bss = n # ns \<and> reads c (ByteOffset off) (n + sum_list ns) (concat bss)) P"
      unfolding read_pieces.simps if_not_P [OF False]
      by (rule triple_option, rule triple_bind [OF read], rule triple_option, rule step, rule nx) auto
    then show ?thesis by simp
  qed
qed (simp add: triple_return)

lemma no_bytes_read:
  assumes "sum_checked 0 lens = Some 0"
  shows "map (length \<circ> (\<lambda>_. [] :: bytes)) lens = lens" "reads c off (sum_list lens) (concat (map (\<lambda>_. []) lens))"
proof -
  have "sum_list lens = 0" using sum_checked_spec [OF assms] by (simp del: sum_list_eq_0_iff)
  moreover have "concat (map (\<lambda>_. []) ns) = ([] :: bytes)" for ns :: "nat list" by (induction ns) auto
  ultimately show "reads c off (sum_list lens) (concat (map (\<lambda>_. []) lens))" by (metis reads_zero)
  show "map (length \<circ> (\<lambda>_. [] :: bytes)) lens = lens"
    using \<open>sum_list lens = 0\<close> by (auto intro!: nth_equalityI simp: nth_mem)
qed

lemma default_read_vectored_law:
  assumes "\<And>off n. triple P (read off n) (\<lambda>bs d. P d \<and> reads c off n bs) P"
  shows "triple P (default_read_vectored_exact_at dev_len read off lens)
    (\<lambda>bss d. P d \<and> map length bss = lens \<and> reads c off (sum_list lens) (concat bss)) P"
proof -
  have pieces: "triple ((=) d) (io_bind (read_pieces read (off_val off) lens) (\<lambda>pieces. io_then cx_checkpoint (io_return pieces)))
    (\<lambda>bss d. P d \<and> map length bss = lens \<and> reads c off (sum_list lens) (concat bss)) P" if "P d" for d
    by (rule triple_bind_conseq [OF read_pieces_law [where P = P, OF assms]])
      (use that in \<open>auto intro!: triple_rules\<close>)
  show ?thesis
    unfolding default_read_vectored_exact_at_def
    by (auto intro!: triple_rules triple_get pieces simp: no_bytes_read)
qed

lemma default_write_vectored_law:
  assumes "\<And>off bs. triple P (wr off bs) (\<lambda>_ d. ok d \<and> written c off bs (content d)) (\<lambda>d. ok d \<and> torn c off bs (content d))"
    and "\<And>d. P d \<Longrightarrow> ok d \<and> content d = c"
  shows "triple P (default_write_vectored_all_at wr off bss)
    (\<lambda>_ d. ok d \<and> written c off (concat bss) (content d)) (\<lambda>d. ok d \<and> torn c off (concat bss) (content d))"
proof -
  have empty: "sum_checked 0 (map length bss) = Some 0 \<Longrightarrow> concat bss = []"
    by (auto dest!: sum_checked_spec)
  have one: "triple P (case bss of [single] \<Rightarrow> wr off single | _ \<Rightarrow> wr off (concat bss))
      (\<lambda>_ d. ok d \<and> written c off (concat bss) (content d)) (\<lambda>d. ok d \<and> torn c off (concat bss) (content d))"
    using assms(1) [of off "concat bss"] by (cases bss rule: remdups_adj.cases) auto
  show ?thesis
    unfolding default_write_vectored_all_at_def
    by (auto intro!: triple_rules one dest!: assms(2) empty simp del: concat_eq_Nil_conv)
qed

section \<open>The file device\<close>

definition file_ok :: "file_device \<Rightarrow> bool" where
  "file_ok d \<longleftrightarrow> length (f_bytes (fd_file d)) = unat (fd_len d)"

definition file_content :: "file_device \<Rightarrow> bytes" where
  "file_content d = f_bytes (fd_file d)"

abbreviation file_holds :: "bytes \<Rightarrow> file_device \<Rightarrow> bool" where
  "file_holds \<equiv> holds file_ok file_content"

lemma next_outcome_bytes: "next_outcome f = (r, f') \<Longrightarrow> f_bytes f' = f_bytes f \<and> f_durable f' = f_durable f"
  by (auto simp: next_outcome_def split: list.splits)

lemma triple_on_file:
  assumes "\<And>d x f. P d \<Longrightarrow> call (fd_file d) = (Inr x, f) \<Longrightarrow> Q x (d\<lparr>fd_file := f\<rparr>)"
    and "\<And>d e f. P d \<Longrightarrow> call (fd_file d) = (Inl e, f) \<Longrightarrow> E (d\<lparr>fd_file := f\<rparr>)"
  shows "triple P (on_file call) Q E"
  unfolding triple_def on_file_def
proof (intro allI impI)
  fix cx d
  assume "P d"
  then show "case case call (fd_file (snd (cx, d))) of
        (r, f) \<Rightarrow> (map_sum Err id r, fst (cx, d), (snd (cx, d))\<lparr>fd_file := f\<rparr>) of
      (Inr x, _, d') \<Rightarrow> Q x d' | (Inl (Err _), _, d') \<Rightarrow> E d' | (Inl Panic, _, _) \<Rightarrow> False"
    using assms by (cases "call (fd_file d)"; cases "fst (call (fd_file d))") auto
qed

lemma triple_file_range:
  assumes "\<And>end d. P d \<Longrightarrow> unat end = unat (off_val off) + n \<Longrightarrow> end \<le> fd_len d \<Longrightarrow> triple ((=) d) (k end) Q E"
    and "\<And>d. P d \<Longrightarrow> E d"
  shows "triple P (file_range what off n k) Q E"
proof -
  have "unat end = unat (off_val off) + n" if "try_from_nat n = Some len" "checked_add (off_val off) len = Some end" for len "end"
    using try_from_nat_SomeD [OF that(1)] checked_add_SomeD [OF that(2)] by simp
  then show ?thesis
    unfolding file_range_def using assms
    by (auto intro!: triple_option triple_get triple_guard)
qed

lemma sys_read_exact_bytes:
  "sys_read_exact off n f = (r, f') \<Longrightarrow> f_bytes f' = f_bytes f \<and>
     (\<forall>bs. r = Inr bs \<longrightarrow> reads (f_bytes f) (ByteOffset off) n bs)"
  by (auto simp: sys_read_exact_def reads_def split: prod.splits sys_outcome.splits if_splits dest: next_outcome_bytes)

lemma sys_pread_bytes:
  "sys_pread off n f = (r, f') \<Longrightarrow> unat off + n \<le> length (f_bytes f) \<Longrightarrow> f_bytes f' = f_bytes f \<and>
     (\<forall>bs. r = Inr bs \<and> length bs = n \<longrightarrow> reads (f_bytes f) (ByteOffset off) n bs)"
  by (auto simp: sys_pread_def reads_def min_def split: prod.splits sys_outcome.splits if_splits dest: next_outcome_bytes)

lemma file_put_bytes: "off + length bs \<le> length (f_bytes f) \<Longrightarrow> f_bytes (file_put off bs f) = blit (f_bytes f) off bs"
  by (simp add: file_put_def)

lemma torn_prefix:
  assumes "unat (off_val off) + length bs \<le> length c"
  shows "torn c off bs (blit c (unat (off_val off)) (take k bs))"
  using assms by (auto simp: torn_def nth_blit)

lemma sys_write_all_bytes:
  assumes "sys_write_all off bs f = (r, f')" "unat off + length bs \<le> length (f_bytes f)"
  shows "torn (f_bytes f) (ByteOffset off) bs (f_bytes f') \<and> (\<forall>x. r = Inr x \<longrightarrow> written (f_bytes f) (ByteOffset off) bs (f_bytes f'))"
  using assms torn_prefix [of "ByteOffset off" bs "f_bytes f"] torn_prefix [of "ByteOffset off" bs "f_bytes f" "length bs"]
  by (auto simp: sys_write_all_def file_put_def written_def dest!: next_outcome_bytes
      split: prod.splits sys_outcome.splits)

lemma sys_pwrite_bytes:
  assumes "sys_pwrite off bs f = (r, f')" "unat off + length bs \<le> length (f_bytes f)"
  shows "(\<exists>k. f_bytes f' = blit (f_bytes f) (unat off) (take k bs)) \<and>
    (r = Inr (length bs) \<longrightarrow> f_bytes f' = blit (f_bytes f) (unat off) bs)"
proof -
  have "\<exists>k. xs = blit xs (unat off) (take k bs)" for xs by (rule exI [of _ 0]) (simp add: blit_def)
  with assms show ?thesis
    by (auto simp: sys_pwrite_def file_put_def min_def dest!: next_outcome_bytes
        split: prod.splits sys_outcome.splits if_splits intro: exI [of _ "length bs"])
qed

lemma gather_law:
  assumes "unat off + length (pre @ concat bufs) \<le> length c" "unat off + length (pre @ concat bufs) < 2 ^ 64"
  shows "triple (file_holds (blit c (unat off) pre)) (gather_loop off (length pre) bufs)
    (\<lambda>_ d. file_ok d \<and> written c (ByteOffset off) (pre @ concat bufs) (file_content d))
    (\<lambda>d. file_ok d \<and> torn c (ByteOffset off) (pre @ concat bufs) (file_content d))"
  using assms
proof (induction "length bufs" arbitrary: pre bufs rule: less_induct)
  case less
  let ?N = FILE_DEVICE_PREADV_IOV_MAX
  let ?flat = "pre @ concat bufs"
  let ?batch = "concat (take ?N bufs)"
  let ?E = "\<lambda>d. file_ok d \<and> torn c (ByteOffset off) ?flat (file_content d)"
  have flat: "?flat = (pre @ ?batch) @ concat (drop ?N bufs)"
    by (metis append.assoc append_take_drop_id concat_append)
  have fit: "unat off + length pre + length ?batch \<le> length c" using less.prems(1) flat
    by (metis add.assoc add_leD1 length_append)
  have o: "unat (off + of_nat (length pre)) = unat off + length pre"
    using less.prems(2) by (simp add: unat_word_ariths unat_of_nat)
  have prefix: "?E d" if "file_ok d" "file_content d = blit (blit c (unat off) pre) (unat off + length pre) (take k ?batch)" for d k
  proof -
    have "file_content d = blit c (unat off) (pre @ take k ?batch)"
      using that(2) fit by (simp add: blit_append)
    moreover have "pre @ take k ?batch = take (length pre + min k (length ?batch)) ?flat"
      unfolding flat by (simp add: min_def)
    moreover have "torn c (ByteOffset off) ?flat
        (blit c (unat off) (take (length pre + min k (length ?batch)) ?flat))"
      using less.prems(1) by (intro torn_prefix [of "ByteOffset off", simplified]) simp
    ultimately show ?thesis using that(1) by simp
  qed
  have pwrite: "triple (file_holds (blit c (unat off) pre)) (on_file (sys_pwrite (off + of_nat (length pre)) ?batch))
      (\<lambda>n d. ?E d \<and> (n = length ?batch \<longrightarrow> file_holds (blit c (unat off) (pre @ ?batch)) d)) ?E"
  proof -
    have "?E (d\<lparr>fd_file := f\<rparr>) \<and> (r = Inr (length ?batch) \<longrightarrow> file_holds (blit c (unat off) (pre @ ?batch)) (d\<lparr>fd_file := f\<rparr>))"
      if d: "file_holds (blit c (unat off) pre) d" and call: "sys_pwrite (off + of_nat (length pre)) ?batch (fd_file d) = (r, f)"
      for d r f
    proof -
      have "unat (off + of_nat (length pre)) + length ?batch \<le> length (f_bytes (fd_file d))"
        using d fit o by (auto simp: holds_def file_content_def)
      note b = sys_pwrite_bytes [OF call this]
      have len: "file_ok (d\<lparr>fd_file := f\<rparr>)"
        using b d fit o by (auto simp: holds_def file_ok_def file_content_def)
      show ?thesis
        using b d prefix [OF len] len o fit by (auto simp: holds_def file_content_def blit_append)
    qed
    then show ?thesis by (intro triple_on_file) blast+
  qed
  show ?case
  proof (cases "bufs = []")
    case True
    then show ?thesis
      using less.prems(1) by (subst gather_loop.simps) (auto intro!: triple_return simp: holds_def written_def)
  next
    case False
    have more: "triple (\<lambda>d. ?E d \<and> (n = length ?batch \<longrightarrow> file_holds (blit c (unat off) (pre @ ?batch)) d))
        (if n = length ?batch then gather_loop off (length pre + n) (drop ?N bufs)
         else io_fail (Io \<lparr>raw_os_error = None, kind = KWriteZero\<rparr>))
        (\<lambda>_ d. file_ok d \<and> written c (ByteOffset off) ?flat (file_content d)) ?E" for n
    proof (cases "n = length ?batch")
      case True
      have "length (drop ?N bufs) < length bufs" using False by (simp add: FILE_DEVICE_PREADV_IOV_MAX_def)
      from less.hyps [OF this, of "pre @ ?batch"] less.prems flat True show ?thesis
        by (auto elim!: triple_conseq)
    qed (simp add: triple_fail)
    have "?E d" if "file_holds (blit c (unat off) pre) d" for d
      using prefix [of d 0] that by (simp add: holds_def)
    then show ?thesis
      using False by (subst gather_loop.simps) (auto simp: Let_def intro!: triple_if triple_fail triple_bind [OF pwrite] more)
  qed
qed


lemma file_holds_iff: "file_holds c d \<longleftrightarrow> f_bytes (fd_file d) = c \<and> length c = unat (fd_len d)"
  by (auto simp: holds_def file_ok_def file_content_def)

lemma read_file_law:
  "triple (file_holds c) (on_file (sys_read_exact off n))
     (\<lambda>bs d. file_holds c d \<and> reads c (ByteOffset off) n bs) (file_holds c)"
  by (rule triple_on_file) (auto simp: file_holds_iff dest!: sys_read_exact_bytes)

lemma metadata_law: "triple (file_holds c) (on_file sys_metadata) (\<lambda>_. file_holds c) (file_holds c)"
  by (rule triple_on_file)
    (auto simp: file_holds_iff sys_metadata_def dest!: next_outcome_bytes split: prod.splits sys_outcome.splits)

lemma live_len_law: "triple (file_holds c) (live_len d) (\<lambda>_. file_holds c) (file_holds c)"
  by (auto simp: live_len_def intro!: triple_return triple_bind [OF metadata_law])

text \<open>
  A freshly opened device spans the whole file; for a block special the length comes from the
  seek, since its \<open>st_size\<close> is zero.
\<close>

lemma from_file_ok:
  assumes "from_file f writable = Inr d" "length (f_bytes f) < 2 ^ 64"
  shows "file_ok d" "file_content d = f_bytes f"
  using assms
  by (auto simp: from_file_def backing_len_def sys_metadata_def sys_seek_end_def file_ok_def file_content_def
      unat_of_nat dest!: next_outcome_bytes split: prod.splits sum.splits sys_outcome.splits if_splits)

lemma finish_read:
  "triple (\<lambda>d. file_holds c d \<and> reads c off n bs) (io_then cx_checkpoint (io_return bs))
     (\<lambda>bs d. file_holds c d \<and> reads c off n bs) (file_holds c)"
  by (auto intro!: triple_rules)

lemma file_read_law:
  "triple (file_holds c) (file_read_exact_at env off n) (\<lambda>bs d. file_holds c d \<and> reads c off n bs) (file_holds c)"
proof -
  note rd = triple_bind_conseq [OF read_file_law [of c "off_val off"], simplified]
  show ?thesis
    unfolding file_read_exact_at_def
    by (auto intro!: triple_rules triple_file_range triple_get triple_bind_conseq [OF live_len_law] rd finish_read)
qed

lemma file_read_volatile_law:
  "triple (file_holds c) (file_read_exact_at_volatile off n) (\<lambda>bs d. file_holds c d \<and> reads c off n bs) (file_holds c)"
proof -
  note rd = triple_bind_conseq [OF read_file_law [of c "off_val off"], simplified]
  show ?thesis
    unfolding file_read_exact_at_volatile_def
    by (auto intro!: triple_rules triple_file_range rd finish_read)
qed

lemma scatter_spec:
  "length bs = sum_list lens \<Longrightarrow> map length (scatter lens bs) = lens \<and> concat (scatter lens bs) = bs"
  by (induction lens bs rule: scatter.induct) auto

lemma scattered:
  assumes "sum_checked 0 lens = Some s" "reads c off (unat s) bs"
  shows "map length (scatter lens bs) = lens" "reads c off (sum_list lens) (concat (scatter lens bs))"
  using scatter_spec [of bs lens] reads_length [OF assms(2)] sum_checked_spec [OF assms(1)] assms(2) by simp_all

lemma file_read_vectored_law:
  "triple (file_holds c) (file_read_vectored_exact_at env off lens)
     (\<lambda>bss d. file_holds c d \<and> map length bss = lens \<and> reads c off (sum_list lens) (concat bss)) (file_holds c)"
  (is "triple ?P _ ?Q _")
proof -
  have fast: "triple ?P (on_file (sys_pread (off_val off) (unat s)))
      (\<lambda>bs d. ?P d \<and> (length bs = unat s \<longrightarrow> reads c off (unat s) bs)) ?P"
    if "unat (off_val off) + unat s \<le> length c" for s
    by (rule triple_on_file) (use that in \<open>auto simp: file_holds_iff dest!: sys_pread_bytes\<close>)
  note rd = triple_bind_conseq [OF read_file_law [of c "off_val off"], simplified]
  show ?thesis
    unfolding file_read_vectored_exact_at_def
    by (auto intro!: triple_rules triple_file_range triple_get triple_bind_conseq [OF live_len_law] rd
        triple_bind_conseq [OF fast] simp: no_bytes_read scattered)
      (auto simp: file_holds_iff word_le_nat_alt)
qed

lemma triple_dirty:
  assumes "triple P m (\<lambda>x d. Q x (d\<lparr>fd_write_epoch := fd_write_epoch d + 1\<rparr>)) (\<lambda>d. E (d\<lparr>fd_write_epoch := fd_write_epoch d + 1\<rparr>))"
  shows "triple P (dirty m) Q E"
  using assms unfolding triple_def dirty_def by (auto split: prod.splits sum.splits io_fault.splits)

lemma file_write_law:
  "triple (file_holds c) (file_write_all_at off bs)
     (\<lambda>_ d. file_ok d \<and> written c off bs (file_content d)) (\<lambda>d. file_ok d \<and> torn c off bs (file_content d))"
  (is "triple ?P _ ?Q ?E")
proof -
  have E: "?E d" if "?P d" for d using that by (simp add: holds_def)
  have wr: "triple ((=) d) (on_file (sys_write_all (off_val off) bs))
      (\<lambda>x d. ?Q x (d\<lparr>fd_write_epoch := fd_write_epoch d + 1\<rparr>)) (\<lambda>d. ?E (d\<lparr>fd_write_epoch := fd_write_epoch d + 1\<rparr>))"
    if "?P d" "unat (off_val off) + length bs \<le> length c" for d
    by (rule triple_on_file) (use that in \<open>auto simp: file_holds_iff file_ok_def file_content_def torn_def dest!: sys_write_all_bytes\<close>)
  have "triple ((=) d) (io_then (dirty (on_file (sys_write_all (off_val off) bs))) cx_checkpoint) ?Q ?E"
    if "?P d" "unat (off_val off) + length bs \<le> length c" for d
    by (rule triple_then [OF triple_dirty [OF wr [OF that]]], rule triple_checkpoint) (auto intro: written_torn)
  moreover have "unat (off_val off) + length bs \<le> length c"
    if "?P d" "unat end = unat (off_val off) + length bs" "end \<le> fd_len d" for d "end"
    using that by (simp add: file_holds_iff word_le_nat_alt)
  ultimately show ?thesis
    unfolding file_write_all_at_def using E
    by (auto intro!: triple_rules triple_get triple_file_range) (auto simp: holds_def)
qed

lemma file_write_vectored_law:
  "triple (file_holds c) (file_write_vectored_all_at off bss)
     (\<lambda>_ d. file_ok d \<and> written c off (concat bss) (file_content d)) (\<lambda>d. file_ok d \<and> torn c off (concat bss) (file_content d))"
  (is "triple ?P _ ?Q ?E")
proof -
  have E: "?E d" if "?P d" for d using that by (simp add: holds_def)
  have epoch: "file_ok (d\<lparr>fd_write_epoch := x\<rparr>) = file_ok d" "file_content (d\<lparr>fd_write_epoch := x\<rparr>) = file_content d" for d x
    by (simp_all add: file_ok_def file_content_def)
  have "triple ((=) d) (io_then (dirty (gather_loop (off_val off) 0 bss)) cx_checkpoint) ?Q ?E"
    if "?P d" "unat (off_val off) + length (concat bss) \<le> length c" for d
  proof -
    have "length c < 2 ^ 64" using that(1) unsigned_less [of "fd_len d", where 'a = nat] by (auto simp: file_holds_iff)
    then have g: "triple ?P (gather_loop (off_val off) 0 bss) ?Q ?E"
      using gather_law [of "off_val off" "[]" bss c] that(2) by simp
    show ?thesis
      by (rule triple_then [where R = "?Q ()", OF triple_dirty], rule triple_conseq [OF g])
        (use that(1) in \<open>auto simp: epoch intro!: triple_checkpoint intro: written_torn\<close>)
  qed
  moreover have "unat (off_val off) + length (concat bss) \<le> length c"
    if "?P d" "sum_checked 0 (map length bss) = Some t" "unat end = unat (off_val off) + unat t" "end \<le> fd_len d" for d "end" t
    using that sum_checked_spec [OF that(2)] by (simp add: file_holds_iff word_le_nat_alt length_concat)
  moreover have "concat bss = []" if "sum_checked 0 (map length bss) = Some 0"
    using sum_checked_spec [OF that] by auto
  ultimately show ?thesis
    unfolding file_write_vectored_all_at_def using E
    by (auto intro!: triple_rules triple_get triple_file_range simp del: concat_eq_Nil_conv) (auto simp: holds_def)
qed

lemma file_sync_law: "triple (file_holds c) (file_sync env) (\<lambda>_. file_holds c) (file_holds c)"
proof -
  have "triple (file_holds c) (on_file sys_sync_data) (\<lambda>_. file_holds c) (file_holds c)"
    by (rule triple_on_file) (auto simp: file_holds_iff sys_sync_data_def dest!: next_outcome_bytes
        split: prod.splits sys_outcome.splits)
  then have "triple ((=) d) (io_then (on_file sys_sync_data) (
            io_then (io_modify (\<lambda>d'. d'\<lparr>fd_flushes_issued := fd_flushes_issued d' + 1,
                                    fd_synced_epoch := max (fd_synced_epoch d') (fd_write_epoch d)\<rparr>))
            cx_checkpoint)) (\<lambda>_. file_holds c) (file_holds c)" if "file_holds c d" for d
    by (rule triple_then_conseq)
      (use that in \<open>auto intro!: triple_then [where R = "file_holds c", OF triple_modify] triple_checkpoint simp: file_holds_iff\<close>)
  moreover have "triple ((=) d) (io_then (io_modify (\<lambda>d. d\<lparr>fd_flushes_elided := fd_flushes_elided d + 1\<rparr>)) cx_checkpoint)
      (\<lambda>_. file_holds c) (file_holds c)" if "file_holds c d" for d
    by (rule triple_then [where R = "file_holds c", OF triple_modify])
      (use that in \<open>auto intro!: triple_checkpoint simp: file_holds_iff\<close>)
  ultimately show ?thesis
    unfolding file_sync_def by (auto intro!: triple_rules triple_get)
qed

lemma sys_punch_hole_bytes:
  assumes "sys_punch_hole off len f = (r, f')" "unat off + unat len \<le> length (f_bytes f)"
  shows "f_bytes f' = (case r of Inl _ \<Rightarrow> f_bytes f | Inr _ \<Rightarrow> blit (f_bytes f) (unat off) (replicate (unat len) 0))"
proof -
  obtain oc f0 where oc: "next_outcome f = (oc, f0)" by (metis surj_pair)
  have f0: "f_bytes f0 = f_bytes f" using next_outcome_bytes [OF oc] by simp
  then have hole: "map (\<lambda>i. if unat off \<le> i \<and> i < unat off + unat len then 0 else f_bytes f0 ! i) [0..<length (f_bytes f)]
      = blit (f_bytes f) (unat off) (replicate (unat len) 0)"
    using assms(2) by (intro nth_equalityI) (auto simp: nth_blit)
  from f0 show ?thesis using assms(1) by (cases oc) (auto simp: sys_punch_hole_def oc hole)
qed

lemma file_discard_law:
  "triple (file_holds c) (file_discard off len)
     (\<lambda>_ d. file_ok d \<and> written c off (replicate (unat len) 0) (file_content d)) (file_holds c)"
  (is "triple ?P _ ?Q _")
proof -
  have punch: "triple ((=) d) (io_then (on_file (sys_punch_hole (off_val off) len))
                 (io_modify (\<lambda>d. d\<lparr>fd_write_epoch := fd_write_epoch d + 1\<rparr>))) ?Q ?P"
    if "?P d" "unat (off_val off) + unat len \<le> length c" for d
    by (rule triple_then [where R = "?Q ()", OF triple_on_file])
      (use that in \<open>auto simp: file_holds_iff file_ok_def file_content_def written_def
        intro!: triple_modify dest!: sys_punch_hole_bytes\<close>)
  have "unat (off_val off) + unat len \<le> length c" and "end - off_val off = len"
    if "?P d" "checked_add (off_val off) len = Some end" "end \<le> fd_len d" for d "end"
    using that checked_add_SomeD [OF that(2)]
    by (auto simp: file_holds_iff word_le_nat_alt arith_defs split: if_splits)
  with punch show ?thesis
    unfolding file_discard_def
    by (auto intro!: triple_rules triple_get split: option.split simp: not_less)
qed

interpretation file_dev: device_contract "file_byte_device env" file_ok file_content
  by unfold_locales
    (simp_all add: file_byte_device_def file_read_law file_read_volatile_law file_read_vectored_law file_write_law
      file_write_vectored_law file_discard_law, simp add: file_ok_def file_content_def,
      auto intro: triple_conseq [OF file_sync_law] simp: holds_def)

text \<open>
  A steady device keeps its bytes when a sync fails. A file is steady: what a crash may lose is
  the business of the disk under it, not of the bytes that reads return.
\<close>

locale steady_device = device_contract +
  assumes steady_sync_law: "triple (holds ok content c) (dev_sync dev) (\<lambda>_. holds ok content c) (holds ok content c)"

interpretation file_steady: steady_device "file_byte_device env" file_ok file_content
  by unfold_locales (simp add: file_byte_device_def file_sync_law)

end
