(* ===== verification/Block_Law.thy ===== *)
theory Block_Law
  imports Block_Device Device_Law
begin

text \<open>
  The contract of block devices: blocks of one size, reads that return them, writes that replace
  exactly the addressed blocks. The default multi-block methods inherit it from the scalar ones,
  and the block view of a byte device meets it whenever the byte device meets its own contract.
\<close>

section \<open>The contract\<close>

text \<open>Every block outside a run keeps its value.\<close>

definition outside_run :: "nat \<Rightarrow> nat \<Rightarrow> bytes list \<Rightarrow> bytes list \<Rightarrow> bool" where
  "outside_run start k v v' \<longleftrightarrow>
     length v' = length v \<and> (\<forall>j < length v. j < start \<or> start + k \<le> j \<longrightarrow> v' ! j = v ! j)"

lemma outside_run_refl [simp]: "outside_run start k v v"
  by (simp add: outside_run_def)

abbreviation bnum :: "block_number \<Rightarrow> nat" where
  "bnum b \<equiv> unat (bn_val b)"

locale block_scalar =
  fixes read :: "block_number \<Rightarrow> ('d, bytes) io" and wr :: "block_number \<Rightarrow> bytes \<Rightarrow> ('d, unit) io"
    and bsize :: "'d \<Rightarrow> u32" and count :: "'d \<Rightarrow> u64" and ok :: "'d \<Rightarrow> bool" and blocks :: "'d \<Rightarrow> bytes list" and n :: nat
  assumes block_size_pos: "0 < n"
    and block_geometry: "ok d \<Longrightarrow> unat (bsize d) = n \<and> length (blocks d) = unat (count d) \<and> (\<forall>b \<in> set (blocks d). length b = n)"
    and read_block_law: "bnum b < length v \<Longrightarrow> triple (holds ok blocks v) (read b)
      (\<lambda>buf d. holds ok blocks v d \<and> buf = v ! bnum b) (holds ok blocks v)"
    and write_block_law: "bnum b < length v \<Longrightarrow> length data = n \<Longrightarrow> triple (holds ok blocks v) (wr b data)
      (\<lambda>_. holds ok blocks (v[bnum b := data])) (\<lambda>d. ok d \<and> outside_run (bnum b) 1 v (blocks d))"

text \<open>A whole device: the ranged operations and the flush on top of the scalar ones.\<close>

locale block_contract =
  block_scalar "read_block bd" "write_block bd" "dev_block_size bd" "block_count bd" ok blocks n
  for bd :: "'d block_device" and ok :: "'d \<Rightarrow> bool" and blocks :: "'d \<Rightarrow> bytes list" and n :: nat +
  assumes read_run_law: "bnum start + length bufs \<le> length v \<Longrightarrow>
      triple (holds ok blocks v) (read_contiguous_blocks bd start bufs)
        (\<lambda>bufs' d. holds ok blocks v d \<and> bufs' = segment v (bnum start) (bnum start + length bufs)) (holds ok blocks v)"
    and read_into_law: "bnum start + k \<le> length v \<Longrightarrow>
      triple (holds ok blocks v) (read_contiguous_into bd start (k * n))
        (\<lambda>bs d. holds ok blocks v d \<and> bs = concat (segment v (bnum start) (bnum start + k))) (holds ok blocks v)"
    and write_run_law: "bnum start + length data div n \<le> length v \<Longrightarrow> n dvd length data \<Longrightarrow>
      triple (holds ok blocks v) (write_contiguous_blocks bd start data)
        (\<lambda>_. holds ok blocks (blit v (bnum start) (chunks n data)))
        (\<lambda>d. ok d \<and> outside_run (bnum start) (length data div n) v (blocks d))"
    and block_sync_law: "triple (holds ok blocks v) (block_sync bd) (\<lambda>_. holds ok blocks v)
      (\<lambda>d. ok d \<and> length (blocks d) = length v)"

section \<open>Default methods\<close>

lemma run_blocks_bnum:
  assumes "bnum start + k \<le> len" "len < 2 ^ 64" "i < k"
  shows "bnum (run_blocks start k ! i) = bnum start + i"
  using assms by (simp add: run_blocks_def unat_word_ariths unat_of_nat)

lemma length_run_blocks [simp]: "length (run_blocks start k) = k"
  by (simp add: run_blocks_def)

lemma run_blocks_numbers:
  "bnum start + k \<le> len \<Longrightarrow> len < 2 ^ 64 \<Longrightarrow> map bnum (run_blocks start k) = [bnum start..<bnum start + k]"
  using run_blocks_bnum [of start k len] by (intro nth_equalityI) simp_all

lemma triple_default_run:
  assumes "\<And>d. P d \<Longrightarrow> E d" "bnum start + m \<le> len" "len < 2 ^ 64" "triple P k Q E"
  shows "triple P (default_run count what start m k) Q E"
proof -
  have "triple ((=) d) k Q E" if "P d" for d using triple_at [OF assms(4) that] .
  then show ?thesis
    unfolding default_run_def
    by (intro triple_option) (auto split: option.split intro!: triple_option triple_get triple_guard assms)
qed

text \<open>Writes of a list of blocks, as a fold of updates.\<close>

definition put_blocks :: "(block_number \<times> bytes) list \<Rightarrow> bytes list \<Rightarrow> bytes list" where
  "put_blocks ps v = fold (\<lambda>(b, data) v. v[bnum b := data]) ps v"

lemma length_put_blocks [simp]: "length (put_blocks ps v) = length v"
  by (induction ps arbitrary: v) (auto simp: put_blocks_def)

lemma put_blocks_Cons [simp]: "put_blocks ((b, data) # ps) v = put_blocks ps (v[bnum b := data])"
  by (simp add: put_blocks_def)

lemma put_blocks_outside: "j \<notin> bnum ` fst ` set ps \<Longrightarrow> put_blocks ps v ! j = v ! j"
  by (induction ps arbitrary: v) (auto simp: put_blocks_def)

lemma blit_Cons: "s < length v \<Longrightarrow> blit v s (x # xs) = blit (v[s := x]) (Suc s) xs"
  by (simp add: blit_def take_Suc_conv_app_nth)

lemma put_blocks_run:
  assumes "map bnum bl = [s..<s + length ds]" "s + length ds \<le> length v"
  shows "put_blocks (zip bl ds) v = blit v s ds"
  using assms
proof (induction ds arbitrary: bl s v)
  case (Cons d ds)
  then obtain b bl' where bl: "bl = b # bl'" by (cases bl) auto
  have b: "bnum b = s" "map bnum bl' = [Suc s..<Suc s + length ds]" using Cons.prems(1)
    unfolding bl by (simp_all add: upt_conv_Cons del: upt_Suc)
  show ?case using Cons.IH [OF b(2), of "v[s := d]"] Cons.prems(2) by (simp add: bl b(1) blit_Cons)
qed (simp add: put_blocks_def)

context block_scalar
begin

abbreviation shows_blocks :: "bytes list \<Rightarrow> 'd \<Rightarrow> bool" where
  "shows_blocks \<equiv> holds ok blocks"

lemma small_count: "ok d \<Longrightarrow> length (blocks d) < 2 ^ 64"
  using block_geometry unsigned_less [of "count d", where 'a = nat] by simp

lemma read_blocks_law:
  "\<forall>b \<in> set bl. bnum b < length v \<Longrightarrow>
     triple (shows_blocks v) (read_blocks read n bl) (\<lambda>bufs d. shows_blocks v d \<and> bufs = map (\<lambda>b. v ! bnum b) bl) (shows_blocks v)"
proof (induction bl)
  case (Cons b bl)
  have IH: "triple (shows_blocks v) (read_blocks read n bl)
      (\<lambda>bufs d. shows_blocks v d \<and> bufs = map (\<lambda>b. v ! bnum b) bl) (shows_blocks v)"
    using Cons by simp
  have "triple (\<lambda>d. shows_blocks v d \<and> buf = v ! bnum b)
      (if length buf \<noteq> n then io_fail (wrong_read_size (length buf) n)
       else io_bind (read_blocks read n bl) (\<lambda>bufs. io_return (buf # bufs)))
      (\<lambda>bufs d. shows_blocks v d \<and> bufs = map (\<lambda>b. v ! bnum b) (b # bl)) (shows_blocks v)" for buf
    by (rule triple_assume [where A = "buf = v ! bnum b"], simp, rule triple_guard, simp,
        rule triple_bind_conseq [OF IH]) (auto intro: triple_return)
  then show ?case unfolding read_blocks.simps
    using Cons.prems by (intro triple_bind [OF read_block_law]) simp_all
qed (simp add: triple_return)

lemma segment_map_blocks:
  assumes "bnum start + k \<le> length v" "length v < 2 ^ 64"
  shows "map (\<lambda>b. v ! bnum b) (run_blocks start k) = segment v (bnum start) (bnum start + k)"
  using assms run_blocks_bnum [OF assms] by (intro nth_equalityI) simp_all

lemma run_in_range:
  assumes "bnum start + k \<le> len" "len < 2 ^ 64"
  shows "\<forall>b \<in> set (run_blocks start k). bnum b < len"
  using run_blocks_bnum [OF assms] assms(1) by (auto simp: in_set_conv_nth)

lemma default_read_run_law:
  assumes r: "bnum start + length bufs \<le> length v"
  shows "triple (shows_blocks v) (default_read_contiguous_blocks bsize count read start bufs)
    (\<lambda>bufs' d. shows_blocks v d \<and> bufs' = segment v (bnum start) (bnum start + length bufs)) (shows_blocks v)"
  unfolding default_read_contiguous_blocks_def Let_def
proof (rule triple_checkpoint_then, assumption, rule triple_get, goal_cases)
  case (1 d)
  then have d: "unat (bsize d) = n" "length v < 2 ^ 64" using block_geometry small_count by (auto simp: holds_def)
  note body = triple_bind [OF read_blocks_law [OF run_in_range [OF r d(2)]], of "\<lambda>bufs. io_then cx_checkpoint (io_return bufs)"]
  show ?case unfolding d
    by (rule triple_guard, simp add: 1, rule triple_at [where P = "shows_blocks v", OF _ 1], rule triple_default_run [OF _ r d(2)], assumption, rule body)
      (auto intro!: triple_rules simp: segment_map_blocks [OF r d(2)])
qed

lemma default_read_into_law:
  assumes r: "bnum start + k \<le> length v"
  shows "triple (shows_blocks v) (default_read_contiguous_into bsize count read start (k * n))
    (\<lambda>bs d. shows_blocks v d \<and> bs = concat (segment v (bnum start) (bnum start + k))) (shows_blocks v)"
  unfolding default_read_contiguous_into_def Let_def
proof (rule triple_checkpoint_then, assumption, rule triple_get, goal_cases)
  case (1 d)
  then have d: "unat (bsize d) = n" "length v < 2 ^ 64" using block_geometry small_count by (auto simp: holds_def)
  have k: "k * n div n = k" using block_size_pos by simp
  note body = triple_bind [OF read_blocks_law [OF run_in_range [OF r d(2)]], of "\<lambda>bufs. io_then cx_checkpoint (io_return (concat bufs))"]
  show ?case unfolding d k
    by (rule triple_guard, simp add: 1, rule triple_at [where P = "shows_blocks v", OF _ 1], rule triple_default_run [OF _ r d(2)], assumption, rule body)
      (auto intro!: triple_rules simp: segment_map_blocks [OF r d(2)])
qed

lemma write_blocks_law:
  assumes "\<forall>(b, data) \<in> set ps. bnum b < length v \<and> length data = n"
  shows "triple (shows_blocks v) (write_blocks wr ps) (\<lambda>_. shows_blocks (put_blocks ps v))
    (\<lambda>d. ok d \<and> length (blocks d) = length v \<and> (\<forall>j < length v. j \<notin> bnum ` fst ` set ps \<longrightarrow> blocks d ! j = v ! j))"
  using assms
proof (induction ps arbitrary: v)
  case Nil
  then show ?case by (auto simp: put_blocks_def intro: triple_return)
next
  case (Cons p ps)
  obtain b data where p: "p = (b, data)" by (cases p)
  have b: "bnum b < length v" "length data = n" using Cons.prems by (auto simp: p)
  show ?case unfolding p write_blocks.simps put_blocks_Cons
  proof (rule triple_then_conseq [OF write_block_law [OF b]])
    show "ok d \<and> length (blocks d) = length v \<and> (\<forall>j < length v. j \<notin> bnum ` fst ` set ((b, data) # ps) \<longrightarrow> blocks d ! j = v ! j)"
      if "ok d \<and> outside_run (bnum b) 1 v (blocks d)" for d
      using that by (auto simp: outside_run_def Suc_le_eq)
    show "triple (shows_blocks (v[bnum b := data])) (write_blocks wr ps)
      (\<lambda>_. shows_blocks (put_blocks ps (v[bnum b := data])))
      (\<lambda>d. ok d \<and> length (blocks d) = length v \<and> (\<forall>j < length v. j \<notin> bnum ` fst ` set ((b, data) # ps) \<longrightarrow> blocks d ! j = v ! j))"
      using Cons.prems by (intro triple_conseq [OF Cons.IH]) auto
  qed
qed

lemma default_write_run_law:
  assumes r: "bnum start + length data div n \<le> length v" "n dvd length data"
  shows "triple (shows_blocks v) (default_write_contiguous_blocks bsize count wr start data)
    (\<lambda>_. shows_blocks (blit v (bnum start) (chunks n data)))
    (\<lambda>d. ok d \<and> outside_run (bnum start) (length data div n) v (blocks d))"
  unfolding default_write_contiguous_blocks_def Let_def
proof (rule triple_checkpoint_then, simp add: holds_def, rule triple_get, goal_cases)
  case (1 d)
  then have d: "unat (bsize d) = n" "length v < 2 ^ 64" using block_geometry small_count by (auto simp: holds_def)
  let ?k = "length data div n" and ?ds = "chunks n data"
  let ?ps = "zip (run_blocks start ?k) ?ds"
  have ds: "length ?ds = ?k" "\<forall>x \<in> set ?ds. length x = n"
    using chunks_exact(1) [OF r(2) block_size_pos] chunks_lengths [OF r(2) block_size_pos] by auto
  have ps: "\<forall>(b, x) \<in> set ?ps. bnum b < length v \<and> length x = n"
    using run_in_range [OF r(1) d(2)] ds(2) by (auto dest: set_zip_leftD set_zip_rightD)
  have put: "put_blocks ?ps v = blit v (bnum start) ?ds"
    using run_blocks_numbers [OF r(1) d(2)] ds(1) r(1) by (intro put_blocks_run) simp_all
  have fst: "bnum ` fst ` set ?ps = {bnum start..<bnum start + ?k}"
  proof -
    have "map fst ?ps = run_blocks start ?k" using ds(1) by simp
    then have "bnum ` fst ` set ?ps = set (map bnum (run_blocks start ?k))" by (metis image_image image_set)
    then show ?thesis using run_blocks_numbers [OF r(1) d(2)] by simp
  qed
  have body: "triple (shows_blocks v) (io_then (write_blocks wr ?ps) cx_checkpoint)
      (\<lambda>_. shows_blocks (blit v (bnum start) ?ds)) (\<lambda>d. ok d \<and> outside_run (bnum start) ?k v (blocks d))"
  proof (rule triple_then_conseq [OF write_blocks_law [OF ps]])
    show "ok d \<and> outside_run (bnum start) ?k v (blocks d)"
      if "ok d \<and> length (blocks d) = length v \<and> (\<forall>j < length v. j \<notin> bnum ` fst ` set ?ps \<longrightarrow> blocks d ! j = v ! j)" for d
      using that unfolding fst by (auto simp: outside_run_def)
    show "triple (shows_blocks (put_blocks ?ps v)) cx_checkpoint (\<lambda>_. shows_blocks (blit v (bnum start) ?ds))
        (\<lambda>d. ok d \<and> outside_run (bnum start) ?k v (blocks d))"
      unfolding put using r(1) ds(1)
      by (intro triple_checkpoint) (auto simp: holds_def outside_run_def nth_blit)
  qed
  show ?case unfolding d
    by (rule triple_guard, use 1 in \<open>simp add: holds_def\<close>, rule triple_at [where P = "shows_blocks v", OF _ 1],
        rule triple_default_run [OF _ r(1) d(2) body]) (simp add: holds_def)
qed

lemma default_rmw_block_law:
  assumes b: "bnum b < length v" and patch: "\<And>data. patch (v ! bnum b) = Inr data \<Longrightarrow> length data = n"
  shows "triple (shows_blocks v) (default_rmw_block read wr b ranges patch)
    (\<lambda>_ d. \<exists>data. patch (v ! bnum b) = Inr data \<and> shows_blocks (v[bnum b := data]) d)
    (\<lambda>d. ok d \<and> outside_run (bnum b) 1 v (blocks d))"
proof -
  let ?E = "\<lambda>d. ok d \<and> outside_run (bnum b) 1 v (blocks d)"
  let ?Q = "\<lambda>_ d. \<exists>data. patch (v ! bnum b) = Inr data \<and> shows_blocks (v[bnum b := data]) d"
  have E: "?E d" if "shows_blocks v d" for d using that by (simp add: holds_def)
  have "triple (shows_blocks v) (case patch (v ! bnum b) of Inl e \<Rightarrow> io_fail e
      | Inr data \<Rightarrow> if data = v ! bnum b then io_return () else wr b data) ?Q ?E"
  proof (cases "patch (v ! bnum b)")
    case (Inl e)
    then show ?thesis using E by (auto intro: triple_fail)
  next
    case (Inr data)
    have "triple (shows_blocks v) (wr b data) ?Q ?E"
      by (rule triple_conseq [OF write_block_law [OF b patch [OF Inr]]]) (use Inr in auto)
    then show ?thesis using Inr by (auto intro!: triple_return)
  qed
  then show ?thesis unfolding default_rmw_block_def by (rule triple_bind_value [OF read_block_law [OF b] _ E])
qed

lemma default_rmw_bitmap_law:
  assumes b: "bnum b < length v" and patch: "\<And>data. patch (v ! bnum b) = Inr data \<Longrightarrow> length data = n"
  shows "triple (shows_blocks v) (default_rmw_block_bitmap read wr b patch)
    (\<lambda>_ d. \<exists>data. patch (v ! bnum b) = Inr data \<and> shows_blocks (v[bnum b := data]) d)
    (\<lambda>d. ok d \<and> outside_run (bnum b) 1 v (blocks d))"
  unfolding default_rmw_block_bitmap_def
proof (rule triple_bind_value [OF read_block_law [OF b]])
  let ?E = "\<lambda>d. ok d \<and> outside_run (bnum b) 1 v (blocks d)"
  let ?Q = "\<lambda>_ d. \<exists>data. patch (v ! bnum b) = Inr data \<and> shows_blocks (v[bnum b := data]) d"
  show "triple (shows_blocks v) (case patch (v ! bnum b) of Inl e \<Rightarrow> io_fail e | Inr data \<Rightarrow> wr b data) ?Q ?E"
    using triple_conseq [OF write_block_law [OF b patch], of _ "shows_blocks v" ?Q ?E]
    by (cases "patch (v ! bnum b)") (auto intro!: triple_fail simp: holds_def)
  show "?E d" if "shows_blocks v d" for d using that by (simp add: holds_def)
qed

end

context block_contract
begin

lemma first_outside_None: "first_outside c bl = None \<longleftrightarrow> (\<forall>b \<in> set bl. bn_val b < c)"
  by (auto simp: first_outside_def find_None_iff not_le)

lemma read_vectored_law:
  "triple (shows_blocks v) (read_vectored bd bl bufs)
     (\<lambda>bufs' d. shows_blocks v d \<and> bufs' = map (\<lambda>b. v ! bnum b) bl) (shows_blocks v)"
  unfolding read_vectored_def Let_def
proof (rule triple_checkpoint_then, assumption, rule triple_guard, assumption, rule triple_get, goal_cases)
  case (1 d)
  then have d: "unat (dev_block_size bd d) = n" "length v = unat (block_count bd d)"
    using block_geometry by (auto simp: holds_def)
  show ?case
  proof (cases "first_outside (block_count bd d) bl")
    case None
    then have "\<forall>b \<in> set bl. bnum b < length v" unfolding first_outside_None d by (simp add: word_less_nat_alt)
    note body = triple_bind [OF read_blocks_law [OF this], of "\<lambda>bufs. io_then cx_checkpoint (io_return bufs)"]
    show ?thesis unfolding None d option.case
      by (rule triple_guard, use 1 in simp, rule triple_at [where P = "shows_blocks v"], rule body)
        (use 1 in \<open>auto intro!: triple_rules\<close>)
  qed (use 1 in \<open>auto intro: triple_fail\<close>)
qed

lemma write_vectored_law:
  "triple (shows_blocks v) (write_vectored bd bl bufs)
     (\<lambda>_. shows_blocks (put_blocks (zip bl bufs) v))
     (\<lambda>d. ok d \<and> length (blocks d) = length v \<and> (\<forall>j < length v. j \<notin> bnum ` set bl \<longrightarrow> blocks d ! j = v ! j))"
  unfolding write_vectored_def Let_def
proof (rule triple_checkpoint_then, simp add: holds_def, rule triple_guard, simp add: holds_def, rule triple_get, goal_cases)
  case (1 d)
  then have d: "unat (dev_block_size bd d) = n" "length v = unat (block_count bd d)"
    using block_geometry by (auto simp: holds_def)
  let ?E = "\<lambda>d. ok d \<and> length (blocks d) = length v \<and> (\<forall>j < length v. j \<notin> bnum ` set bl \<longrightarrow> blocks d ! j = v ! j)"
  have E: "?E d" using 1(2) by (simp add: holds_def)
  show ?case
  proof (cases "first_outside (block_count bd d) bl")
    case None
    then have bl: "\<forall>b \<in> set bl. bnum b < length v" unfolding first_outside_None d by (simp add: word_less_nat_alt)
    show ?thesis
    proof (cases "find (\<lambda>buf. length buf \<noteq> n) bufs")
      case find: None
      then have "\<forall>(b, x) \<in> set (zip bl bufs). bnum b < length v \<and> length x = n"
        using bl by (auto simp: find_None_iff dest: set_zip_leftD set_zip_rightD)
      note body = write_blocks_law [OF this]
      have fst: "fst ` set (zip bl bufs) = set bl" using 1(1) by (metis image_set map_fst_zip)
      have "triple (shows_blocks v) (io_then (write_blocks (write_block bd) (zip bl bufs)) cx_checkpoint)
          (\<lambda>_. shows_blocks (put_blocks (zip bl bufs) v)) ?E"
        using put_blocks_outside [of _ "zip bl bufs" v]
        by (intro triple_then [OF body [unfolded fst]] triple_checkpoint) (auto simp: holds_def fst)
      then show ?thesis unfolding None d(1) find option.case
        by (intro triple_guard triple_at [where P = "shows_blocks v"]) (use E 1 in auto)
    qed (use None E d in \<open>auto intro!: triple_fail\<close>)
  qed (use E in \<open>auto intro: triple_fail\<close>)
qed

end

section \<open>The block view of a byte device\<close>

definition bb_ok :: "('d \<Rightarrow> bool) \<Rightarrow> ('d \<Rightarrow> bytes) \<Rightarrow> nat \<Rightarrow> 'd byte_block_device \<Rightarrow> bool" where
  "bb_ok ok content n d \<longleftrightarrow>
     ok (bb_inner d) \<and> unat (bb_block_size d) = n \<and> 0 < n
   \<and> length (content (bb_inner d)) = unat (bb_block_count d) * n"

definition bb_blocks :: "('d \<Rightarrow> bytes) \<Rightarrow> 'd byte_block_device \<Rightarrow> bytes list" where
  "bb_blocks content d = chunks (unat (bb_block_size d)) (content (bb_inner d))"

lemma bb_new_ok:
  assumes "bb_new dev inner bsize = Inr d" "ok inner" "length (content inner) = unat (len_bytes dev inner)"
  shows "bb_ok ok content (unat bsize) d" "content (bb_inner d) = content inner"
proof -
  have b: "bsize \<noteq> 0" "len_bytes dev inner mod ucast bsize = 0"
    and d: "d = \<lparr>bb_inner = inner, bb_block_size = bsize, bb_block_count = len_bytes dev inner div ucast bsize\<rparr>"
    using assms(1) by (auto simp: bb_new_def Let_def split: if_splits)
  have "unat (ucast bsize :: u64) = unat bsize" by simp
  moreover have "unat (len_bytes dev inner mod ucast bsize) = 0" using b(2) by simp
  ultimately have "unat (len_bytes dev inner) mod unat bsize = 0" by (simp add: unat_mod)
  then show "bb_ok ok content (unat bsize) d"
    using assms(2,3) b(1) by (auto simp: bb_ok_def d unat_div unat_gt_0 word_neq_0_conv)
  show "content (bb_inner d) = content inner" by (simp add: d)
qed

context device_contract
begin

abbreviation bb_at :: "nat \<Rightarrow> bytes \<Rightarrow> 'd byte_block_device \<Rightarrow> bool" where
  "bb_at n \<equiv> holds (bb_ok ok content n) (\<lambda>d. content (bb_inner d))"

lemma bb_atD:
  assumes "bb_at n c d"
  shows "unat (bb_block_size d) = n" "0 < n" "length c = unat (bb_block_count d) * n" "length c < 2 ^ 64"
    "bb_blocks content d = chunks n c" "n dvd length c" "n < 2 ^ 32"
  using assms content_length unsigned_less [of "bb_block_size d", where 'a = nat]
    unsigned_less [of "len_bytes dev (bb_inner d)", where 'a = nat] by (auto simp: holds_def bb_ok_def bb_blocks_def)

lemma on_bytes_law:
  assumes "triple (holds ok content c) m (\<lambda>x d. Q x d) E"
    and "\<And>x e d. bb_at n c d \<Longrightarrow> Q x e \<Longrightarrow> Q' x (d\<lparr>bb_inner := e\<rparr>)"
    and "\<And>e d. bb_at n c d \<Longrightarrow> E e \<Longrightarrow> E' (d\<lparr>bb_inner := e\<rparr>)"
  shows "triple (bb_at n c) (on_bytes m) Q' E'"
  unfolding on_bytes_def
  by (rule triple_zoom, rule triple_conseq [OF assms(1)]) (auto simp: holds_def bb_ok_def intro: assms(2,3) [unfolded holds_def bb_ok_def])

lemma bb_offset_law:
  assumes "\<And>off. unat (off_val off) = unat block * n \<Longrightarrow> triple (bb_at n c) (k off) Q E" and "\<And>d. bb_at n c d \<Longrightarrow> E d"
  shows "triple (bb_at n c) (bb_offset block k) Q E"
  unfolding bb_offset_def
proof (rule triple_get)
  fix d
  assume d: "bb_at n c d"
  have "unat off = unat block * n" if "checked_mul block (ucast (bb_block_size d)) = Some off" for off :: u64
    using checked_mul_SomeD [OF that] bb_atD(1) [OF d] by simp
  then show "triple ((=) d) (io_option (checked_mul block (ucast (bb_block_size d))) (Format ''block offset overflow'')
      (\<lambda>off. k (ByteOffset off))) Q E"
    using d by (intro triple_option triple_at [where P = "bb_at n c"] assms) auto
qed

lemma on_bytes_read:
  "triple (bb_at n c) (on_bytes (read_exact_at dev off k)) (\<lambda>bs d. bb_at n c d \<and> reads c off k bs) (bb_at n c)"
  "triple (bb_at n c) (on_bytes (read_exact_at_volatile dev off k)) (\<lambda>bs d. bb_at n c d \<and> reads c off k bs) (bb_at n c)"
  "triple (bb_at n c) (on_bytes (read_vectored_exact_at dev off lens))
     (\<lambda>bss d. bb_at n c d \<and> map length bss = lens \<and> reads c off (sum_list lens) (concat bss)) (bb_at n c)"
  by (rule on_bytes_law [OF read_law [of c]] on_bytes_law [OF read_volatile_law [of c]] on_bytes_law [OF read_vectored_law [of c]];
      auto simp: holds_def bb_ok_def)+

lemma bb_at_write:
  assumes "bb_at n c d" "ok e" "length (content e) = length c"
  shows "bb_at n (content e) (d\<lparr>bb_inner := e\<rparr>)"
  using assms by (auto simp: holds_def bb_ok_def)

lemma bb_at_written:
  assumes "bb_at n c d" "ok e \<and> written c off bs (content e)"
  shows "written c off bs (blit c (unat (off_val off)) bs) \<and> bb_at n (blit c (unat (off_val off)) bs) (d\<lparr>bb_inner := e\<rparr>)"
proof -
  have "content e = blit c (unat (off_val off)) bs" using assms(2) by (simp add: written_def)
  then show ?thesis using assms(2) bb_at_write [OF assms(1)] written_length by metis
qed

lemma bb_at_torn:
  assumes "bb_at n c d" "ok e \<and> torn c off bs (content e)"
  shows "\<exists>c'. torn c off bs c' \<and> bb_at n c' (d\<lparr>bb_inner := e\<rparr>)"
  using assms bb_at_write [OF assms(1)] by (auto simp: torn_def)

lemma on_bytes_write:
  "triple (bb_at n c) (on_bytes (write_all_at dev off bs))
     (\<lambda>_ d. written c off bs (blit c (unat (off_val off)) bs) \<and> bb_at n (blit c (unat (off_val off)) bs) d)
     (\<lambda>d. \<exists>c'. torn c off bs c' \<and> bb_at n c' d)"
  "triple (bb_at n c) (on_bytes (write_vectored_all_at dev off bss))
     (\<lambda>_ d. written c off (concat bss) (blit c (unat (off_val off)) (concat bss))
        \<and> bb_at n (blit c (unat (off_val off)) (concat bss)) d)
     (\<lambda>d. \<exists>c'. torn c off (concat bss) c' \<and> bb_at n c' d)"
  by (rule on_bytes_law [OF write_law [of c]] on_bytes_law [OF write_vectored_law [of c]];
      rule bb_at_written bb_at_torn; assumption)+

lemma bb_sync_law:
  "triple (bb_at n c) (on_bytes (dev_sync dev)) (\<lambda>_. bb_at n c) (\<lambda>d. \<exists>c'. length c' = length c \<and> bb_at n c' d)"
  by (rule on_bytes_law [OF sync_law [of c]]) (auto simp: holds_def bb_ok_def)

lemma block_span:
  assumes "bb_at n c d" "\<not> bb_block_count d \<le> bn_val b"
  shows "bnum b * n + n \<le> length c"
proof -
  have "(bnum b + 1) * n \<le> unat (bb_block_count d) * n"
    using assms(2) by (intro mult_le_mono1) (simp add: word_le_nat_alt)
  then show ?thesis using bb_atD(3) [OF assms(1)] by simp
qed

lemma bb_read_law:
  "triple (bb_at n c) (bb_read_block dev b)
     (\<lambda>buf d. bb_at n c d \<and> bnum b * n + n \<le> length c \<and> buf = segment c (bnum b * n) (bnum b * n + n)) (bb_at n c)"
  unfolding bb_read_block_def
proof (rule triple_checkpoint_then, assumption, rule triple_get, rule triple_guard, goal_cases)
  case (2 d)
  note span = block_span [OF 2]
  show ?case unfolding bb_atD(1) [OF 2(1)]
    by (rule triple_at [where P = "bb_at n c", OF _ 2(1)], rule bb_offset_law, rule triple_bind [OF on_bytes_read(2)])
      (auto intro!: triple_rules span simp: reads_def)
qed simp

lemma bb_run_law:
  assumes k: "\<And>off. unat (off_val off) = bnum start * n \<Longrightarrow> (bnum start + unat cnt) * n \<le> length c \<Longrightarrow> triple (bb_at n c) (k off) Q E"
    and E: "\<And>d. bb_at n c d \<Longrightarrow> E d"
  shows "triple (bb_at n c) (bb_run start cnt k) Q E"
  unfolding bb_run_def
proof (rule triple_option [OF triple_get E], rule triple_guard, goal_cases)
  case (2 e d)
  have "unat e \<le> unat (bb_block_count d)" using 2(3) by (simp add: not_less word_le_nat_alt)
  then have "(bnum start + unat cnt) * n \<le> length c"
    unfolding bb_atD(3) [OF 2(2)] using checked_add_SomeD [OF 2(1)] by (intro mult_le_mono1) simp
  then show ?case by (intro triple_at [where P = "bb_at n c", OF _ 2(2)] bb_offset_law k E)
qed (auto intro: E)

lemma bb_read_run_law:
  "triple (bb_at n c) (bb_read_contiguous_blocks dev start bufs)
     (\<lambda>bss d. bb_at n c d \<and> (bufs \<noteq> [] \<longrightarrow> (bnum start + length bufs) * n \<le> length c)
        \<and> bss = chunks n (segment c (bnum start * n) (bnum start * n + length bufs * n))) (bb_at n c)"
proof (cases "bufs = []")
  case True
  then show ?thesis by (auto simp: bb_read_contiguous_blocks_def intro!: triple_rules)
next
  case False
  show ?thesis unfolding bb_read_contiguous_blocks_def if_not_P [OF False]
  proof (rule triple_checkpoint_then, assumption, rule triple_option, rule bb_run_law, rule triple_get, goal_cases)
    case (1 count off d)
    note D = bb_atD [OF 1(4)]
    have cnt: "unat count = length bufs" using try_from_nat_SomeD [OF 1(1)] by simp
    let ?Q = "\<lambda>bss d. bb_at n c d \<and> (bufs \<noteq> [] \<longrightarrow> (bnum start + length bufs) * n \<le> length c)
        \<and> bss = chunks n (segment c (bnum start * n) (bnum start * n + length bufs * n))"
    have vec: "triple (bb_at n c) (io_bind (on_bytes (read_vectored_exact_at dev off (map length bufs)))
        (\<lambda>bufs. io_then cx_checkpoint (io_return bufs))) ?Q (bb_at n c)" if all: "\<forall>buf \<in> set bufs. length buf = n"
    proof (rule triple_bind [OF on_bytes_read(3)])
      have sum: "sum_list (map length bufs) = length bufs * n"
        using all by (induction bufs) auto
      fix bss :: "bytes list"
      have "chunks n (concat bss) = bss" if "map length bss = map length bufs"
      proof (rule chunks_concat [OF D(2)])
        show "\<forall>b \<in> set bss. length b = n" using that all by (metis (mono_tags) image_iff list.set_map)
      qed
      then show "triple (\<lambda>d. bb_at n c d \<and> map length bss = map length bufs
          \<and> reads c off (sum_list (map length bufs)) (concat bss)) (io_then cx_checkpoint (io_return bss)) ?Q (bb_at n c)"
        using 1(2,3) cnt unfolding sum by (auto intro!: triple_rules simp: reads_def)
    qed
    have flat: "triple (bb_at n c) (io_bind (on_bytes (read_exact_at dev off (length bufs * n)))
        (\<lambda>read_buf. io_then cx_checkpoint (io_return (chunks n read_buf)))) ?Q (bb_at n c)"
      using 1(2,3) cnt by (intro triple_bind [OF on_bytes_read(1)]) (auto intro!: triple_rules simp: reads_def)
    show ?case unfolding Let_def D(1)
      using vec flat 1(4) by (intro triple_guard triple_if triple_at [where P = "bb_at n c", OF _ 1(4)]) auto
  qed auto
qed

lemma bb_read_into_law:
  "triple (bb_at n c) (bb_read_contiguous_into dev start k)
     (\<lambda>bs d. bb_at n c d \<and> (k \<noteq> 0 \<longrightarrow> bnum start * n + k \<le> length c)
        \<and> bs = segment c (bnum start * n) (bnum start * n + k)) (bb_at n c)"
  unfolding bb_read_contiguous_into_def
proof (rule triple_checkpoint_then, assumption, rule triple_get, goal_cases)
  case (1 d)
  let ?Q = "\<lambda>bs d. bb_at n c d \<and> (k \<noteq> 0 \<longrightarrow> bnum start * n + k \<le> length c)
      \<and> bs = segment c (bnum start * n) (bnum start * n + k)"
  have "triple (bb_at n c) (bb_run start (of_nat (k div n)) (\<lambda>off. io_bind (on_bytes (read_exact_at dev off k))
      (\<lambda>buf. io_then cx_checkpoint (io_return buf)))) ?Q (bb_at n c)"
    by (rule bb_run_law, rule triple_bind [OF on_bytes_read(1)]) (auto intro!: triple_rules simp: reads_def)
  then show ?case unfolding Let_def bb_atD(1) [OF 1] using 1
    by (intro triple_guard triple_if triple_at [where P = "bb_at n c", OF _ 1]) (auto intro!: triple_rules)
qed

text \<open>A failed write leaves every block outside its range alone.\<close>

abbreviation bb_broken :: "nat \<Rightarrow> bytes \<Rightarrow> nat \<Rightarrow> bytes \<Rightarrow> 'd byte_block_device \<Rightarrow> bool" where
  "bb_broken n c start data d \<equiv> \<exists>off c'. unat (off_val off) = start * n \<and> torn c off data c' \<and> bb_at n c' d"

lemma bb_broken_refl: "bb_at n c d \<Longrightarrow> start * n < 2 ^ 64 \<Longrightarrow> bb_broken n c start data d"
  by (rule exI [of _ "ByteOffset (of_nat (start * n))"], rule exI [of _ c]) (simp add: unat_of_nat del: of_nat_mult)

lemma bb_write_run_law:
  assumes k: "\<And>off. unat (off_val off) = bnum start * n \<Longrightarrow> triple (bb_at n c) (k off)
    (\<lambda>_ d. written c off data (blit c (unat (off_val off)) data) \<and> bb_at n (blit c (unat (off_val off)) data) d)
    (\<lambda>d. \<exists>c'. torn c off data c' \<and> bb_at n c' d)"
    and small: "bnum start * n < 2 ^ 64"
  shows "triple (bb_at n c) (bb_write_run start (length data) k)
    (\<lambda>_ d. (data \<noteq> [] \<longrightarrow> bnum start * n + length data \<le> length c) \<and> bb_at n (blit c (bnum start * n) data) d)
    (bb_broken n c (bnum start) data)"
  unfolding bb_write_run_def
proof (rule triple_checkpoint_then, rule bb_broken_refl [OF _ small], assumption, rule triple_get, goal_cases)
  case (1 d)
  let ?Q = "\<lambda>_ d. (data \<noteq> [] \<longrightarrow> bnum start * n + length data \<le> length c) \<and> bb_at n (blit c (bnum start * n) data) d"
  have "triple (bb_at n c) (io_then (k off) cx_checkpoint) ?Q (bb_broken n c (bnum start) data)"
    if off: "unat (off_val off) = bnum start * n" for off
  proof (rule triple_then_conseq [OF k [OF off]])
    show "triple (\<lambda>d. written c off data (blit c (unat (off_val off)) data) \<and> bb_at n (blit c (unat (off_val off)) data) d)
        cx_checkpoint ?Q (bb_broken n c (bnum start) data)"
    proof (rule triple_checkpoint)
      fix d
      assume d: "written c off data (blit c (unat (off_val off)) data) \<and> bb_at n (blit c (unat (off_val off)) data) d"
      then show "bb_broken n c (bnum start) data d" using off written_torn by blast
      show "?Q () d" using d off by (simp add: written_def)
    qed
  qed (use off in auto)
  then have "triple (bb_at n c) (bb_run start (of_nat (length data div n)) (\<lambda>off. io_then (k off) cx_checkpoint)) ?Q
      (bb_broken n c (bnum start) data)"
    by (intro bb_run_law) (assumption | rule bb_broken_refl [OF _ small])+
  moreover have "triple (bb_at n c) cx_checkpoint ?Q (bb_broken n c (bnum start) data)" if "length data = 0"
    using that by (intro triple_checkpoint bb_broken_refl [OF _ small]) auto
  ultimately show ?case unfolding Let_def bb_atD(1) [OF 1] using bb_broken_refl [OF 1 small]
    by (intro triple_guard triple_if triple_at [where P = "bb_at n c", OF _ 1]) auto
qed

lemma bb_holds_iff:
  "holds (bb_ok ok content n) (bb_blocks content) v d \<longleftrightarrow> bb_at n (concat v) d \<and> (\<forall>b \<in> set v. length b = n)"
proof
  assume "holds (bb_ok ok content n) (bb_blocks content) v d"
  then have d: "bb_at n (content (bb_inner d)) d" and v: "v = bb_blocks content d" by (auto simp: holds_def)
  note D = bb_atD [OF d]
  have "concat v = content (bb_inner d)" unfolding v D(5) using D(2) by simp
  then show "bb_at n (concat v) d \<and> (\<forall>b \<in> set v. length b = n)"
    using d chunks_lengths [OF D(6,2)] unfolding v D(5) by auto
next
  assume a: "bb_at n (concat v) d \<and> (\<forall>b \<in> set v. length b = n)"
  then have "bb_blocks content d = v" using bb_atD(2,5) chunks_concat by metis
  then show "holds (bb_ok ok content n) (bb_blocks content) v d" using a by (simp add: holds_def)
qed

end

text \<open>Positions in a concatenation of blocks of one size.\<close>

lemma drop_blocks: "\<forall>b \<in> set v. length b = n \<Longrightarrow> drop (i * n) (concat v) = concat (drop i v)"
  by (induction v arbitrary: i) (auto simp: drop_Cons split: nat.split)

lemma take_blocks: "\<forall>b \<in> set v. length b = n \<Longrightarrow> take (i * n) (concat v) = concat (take i v)"
  by (induction v arbitrary: i) (auto simp: take_Cons split: nat.split)

lemma segment_blocks:
  "\<forall>b \<in> set v. length b = n \<Longrightarrow> segment (concat v) (i * n) (i * n + k * n) = concat (segment v i (i + k))"
  by (simp add: segment_def drop_blocks take_blocks [of "drop i v"] in_set_dropD)

lemma length_blocks: "\<forall>b \<in> set v. length b = n \<Longrightarrow> length (concat v) = length v * n"
  by (induction v) auto

lemma blit_blocks:
  assumes "\<forall>b \<in> set v. length b = n" "n dvd length data" "0 < n" "i + length data div n \<le> length v"
  shows "concat (blit v i (chunks n data)) = blit (concat v) (i * n) data"
proof -
  have "i * n + length data = (i + length data div n) * n" using assms(2) by (simp add: add_mult_distrib)
  then show ?thesis using assms
    by (simp add: blit_def take_blocks chunks_exact(1) drop_blocks del: add_mult_distrib)
qed

context device_contract
begin

lemma bb_state:
  assumes "holds (bb_ok ok content n) (bb_blocks content) v d"
  shows "bb_at n (concat v) d" "\<forall>b \<in> set v. length b = n" "0 < n" "length (concat v) = length v * n"
    "length v * n < 2 ^ 64"
proof -
  show d: "bb_at n (concat v) d" and v: "\<forall>b \<in> set v. length b = n" using assms by (simp_all add: bb_holds_iff)
  show len: "length (concat v) = length v * n" by (rule length_blocks [OF v])
  show "0 < n" "length v * n < 2 ^ 64" using bb_atD(2,4) [OF d] unfolding len by auto
qed

lemma bb_triple:
  assumes "\<forall>b \<in> set v. length b = n \<Longrightarrow> 0 < n \<Longrightarrow> length v * n < 2 ^ 64 \<Longrightarrow> triple (bb_at n (concat v)) m Q E"
  shows "triple (holds (bb_ok ok content n) (bb_blocks content) v) m Q E"
proof (rule triple_pointwise)
  fix d assume "holds (bb_ok ok content n) (bb_blocks content) v d"
  note d = bb_state [OF this]
  show "triple ((=) d) m Q E" by (rule triple_at [OF assms [OF d(2,3,5)] d(1)])
qed

lemma bb_outside:
  assumes "bb_broken n (concat v) start data d" "\<forall>b \<in> set v. length b = n" "n dvd length data"
  shows "bb_ok ok content n d \<and> outside_run start (length data div n) v (bb_blocks content d)"
proof -
  obtain off c' where c': "unat (off_val off) = start * n" "torn (concat v) off data c'" "bb_at n c' d" using assms(1) by blast
  note D = bb_atD [OF c'(3)]
  have len: "length c' = length v * n" using c'(2) length_blocks [OF assms(2)] by (simp add: torn_def)
  have bl: "length (chunks n c') = length v" "\<And>j. j < length v \<Longrightarrow> chunks n c' ! j = segment c' (j * n) (j * n + n)"
    using chunks_exact [OF D(6,2)] len D(2) by auto
  have "chunks n c' ! j = v ! j" if j: "j < length v" "j < start \<or> start + length data div n \<le> j" for j
  proof -
    have fit: "j * n + n \<le> length v * n" using j(1) by (metis Suc_leI add.commute mult_Suc mult_le_mono1)
    have out: "p < start * n \<or> start * n + length data \<le> p" if "j * n \<le> p" "p < j * n + n" for p
      using j(2)
    proof
      assume "j < start"
      then have "(j + 1) * n \<le> start * n" by (intro mult_le_mono1) simp
      then show ?thesis using that by simp
    next
      assume "start + length data div n \<le> j"
      then have "(start + length data div n) * n \<le> j * n" by (rule mult_le_mono1)
      then show ?thesis using that assms(3) by (simp add: add_mult_distrib)
    qed
    have "segment c' (j * n) (j * n + n) = segment (concat v) (j * n) (j * n + n)"
    proof (rule segment_eqI)
      show "c' ! p = concat v ! p" if "j * n \<le> p" "p < j * n + n" "p < length c'" for p
        using c'(1,2) out [OF that(1,2)] that(3) len length_blocks [OF assms(2)] by (auto simp: torn_def)
    qed (use len length_blocks [OF assms(2)] in simp)
    also have "\<dots> = v ! j" using segment_blocks [OF assms(2), of j 1] j(1) by (simp add: segment_def take_Suc_conv_app_nth hd_drop_conv_nth take_Suc)
    finally show ?thesis using bl(2) j(1) by simp
  qed
  then show ?thesis using c'(3) bl(1) by (simp add: outside_run_def D(5) holds_def)
qed

abbreviation bb_shows :: "nat \<Rightarrow> bytes list \<Rightarrow> 'd byte_block_device \<Rightarrow> bool" where
  "bb_shows n \<equiv> holds (bb_ok ok content n) (bb_blocks content)"

lemma bb_showsI: "bb_at n (concat v) d \<Longrightarrow> \<forall>b \<in> set v. length b = n \<Longrightarrow> bb_shows n v d"
  by (simp add: bb_holds_iff)

lemma bb_read_block_shows:
  assumes "bnum b < length v"
  shows "triple (bb_shows n v) (bb_read_block dev b) (\<lambda>buf d. bb_shows n v d \<and> buf = v ! bnum b) (bb_shows n v)"
proof (rule bb_triple)
  assume v: "\<forall>b \<in> set v. length b = n"
  have "segment (concat v) (bnum b * n) (bnum b * n + n) = v ! bnum b"
    using segment_blocks [OF v, of "bnum b" 1] assms by (simp add: segment_def take_Suc hd_drop_conv_nth)
  then show "triple (bb_at n (concat v)) (bb_read_block dev b) (\<lambda>buf d. bb_shows n v d \<and> buf = v ! bnum b) (bb_shows n v)"
    using v by (intro triple_conseq [OF bb_read_law]) (auto intro: bb_showsI)
qed

lemma bb_read_run_shows:
  "triple (bb_shows n v) (bb_read_contiguous_blocks dev start bufs)
     (\<lambda>bss d. bb_shows n v d \<and> bss = segment v (bnum start) (bnum start + length bufs)) (bb_shows n v)"
proof (rule bb_triple)
  assume v: "\<forall>b \<in> set v. length b = n" and n: "0 < n"
  have "chunks n (segment (concat v) (bnum start * n) (bnum start * n + length bufs * n)) = segment v (bnum start) (bnum start + length bufs)"
    unfolding segment_blocks [OF v] using v by (intro chunks_concat n) (auto simp: segment_def dest: in_set_takeD in_set_dropD)
  then show "triple (bb_at n (concat v)) (bb_read_contiguous_blocks dev start bufs)
     (\<lambda>bss d. bb_shows n v d \<and> bss = segment v (bnum start) (bnum start + length bufs)) (bb_shows n v)"
    using v by (intro triple_conseq [OF bb_read_run_law]) (auto intro: bb_showsI)
qed

lemma bb_read_into_shows:
  "triple (bb_shows n v) (bb_read_contiguous_into dev start (k * n))
     (\<lambda>bs d. bb_shows n v d \<and> bs = concat (segment v (bnum start) (bnum start + k))) (bb_shows n v)"
proof (rule bb_triple)
  assume v: "\<forall>b \<in> set v. length b = n"
  show "triple (bb_at n (concat v)) (bb_read_contiguous_into dev start (k * n))
     (\<lambda>bs d. bb_shows n v d \<and> bs = concat (segment v (bnum start) (bnum start + k))) (bb_shows n v)"
    using v segment_blocks [OF v] by (intro triple_conseq [OF bb_read_into_law]) (auto intro: bb_showsI)
qed

lemma bb_write_shows:
  assumes r: "bnum start + length data div n \<le> length v" "n dvd length data"
    and m: "0 < n \<Longrightarrow> bnum start * n < 2 ^ 64 \<Longrightarrow> \<forall>b \<in> set v. length b = n \<Longrightarrow> triple (bb_at n (concat v)) m
      (\<lambda>_ d. bb_at n (blit (concat v) (bnum start * n) data) d) (bb_broken n (concat v) (bnum start) data)"
  shows "triple (bb_shows n v) m (\<lambda>_. bb_shows n (blit v (bnum start) (chunks n data)))
    (\<lambda>d. bb_ok ok content n d \<and> outside_run (bnum start) (length data div n) v (bb_blocks content d))"
proof (rule bb_triple)
  assume v: "\<forall>b \<in> set v. length b = n" and n: "0 < n" and small: "length v * n < 2 ^ 64"
  have "bnum start * n \<le> length v * n" using r(1) by (intro mult_le_mono1) simp
  then have s: "bnum start * n < 2 ^ 64" using small by (rule le_less_trans)
  have all: "\<forall>b \<in> set (blit v (bnum start) (chunks n data)). length b = n"
    using v chunks_lengths [OF r(2) n] by (auto simp: blit_def dest: in_set_takeD in_set_dropD)
  show "triple (bb_at n (concat v)) m (\<lambda>_. bb_shows n (blit v (bnum start) (chunks n data)))
    (\<lambda>d. bb_ok ok content n d \<and> outside_run (bnum start) (length data div n) v (bb_blocks content d))"
    by (rule triple_conseq [OF m [OF n s v]])
      (auto intro!: bb_showsI all bb_outside [OF _ v r(2)] simp: blit_blocks [OF v r(2) n r(1)])
qed

lemma bb_write_run_shows:
  assumes r: "bnum start + length data div n \<le> length v" "n dvd length data"
  shows "triple (bb_shows n v) (bb_write_contiguous_blocks dev start data)
    (\<lambda>_. bb_shows n (blit v (bnum start) (chunks n data)))
    (\<lambda>d. bb_ok ok content n d \<and> outside_run (bnum start) (length data div n) v (bb_blocks content d))"
  unfolding bb_write_contiguous_blocks_def
  by (rule bb_write_shows [OF r], rule triple_conseq [OF bb_write_run_law [OF on_bytes_write(1)]]) auto

lemma bb_write_run_vectored_shows:
  assumes r: "bnum start + length (concat bss) div n \<le> length v" "n dvd length (concat bss)"
  shows "triple (bb_shows n v) (bb_write_contiguous_blocks_vectored dev start bss)
    (\<lambda>_. bb_shows n (blit v (bnum start) (chunks n (concat bss))))
    (\<lambda>d. bb_ok ok content n d \<and> outside_run (bnum start) (length (concat bss) div n) v (bb_blocks content d))"
  unfolding bb_write_contiguous_blocks_vectored_def length_concat [symmetric]
  by (rule bb_write_shows [OF r], rule triple_conseq [OF bb_write_run_law [OF on_bytes_write(2)]]) auto

lemma bb_write_block_law:
  assumes "bnum b * n < 2 ^ 64"
  shows "triple (bb_at n c) (bb_write_block dev b data)
    (\<lambda>_. bb_at n (blit c (bnum b * n) data)) (bb_broken n c (bnum b) data)"
  unfolding bb_write_block_def
proof (rule triple_checkpoint_then, rule bb_broken_refl [OF _ assms], assumption, rule triple_get, goal_cases)
  case (1 d)
  have E: "bb_broken n c (bnum b) data d" if "bb_at n c d" for d by (rule bb_broken_refl [OF that assms])
  have "triple (bb_at n c) (io_then (on_bytes (write_all_at dev off data)) cx_checkpoint)
      (\<lambda>_. bb_at n (blit c (bnum b * n) data)) (bb_broken n c (bnum b) data)" if off: "unat (off_val off) = bnum b * n" for off
  proof (rule triple_then_conseq [OF on_bytes_write(1)])
    show "triple (\<lambda>d. written c off data (blit c (unat (off_val off)) data) \<and> bb_at n (blit c (unat (off_val off)) data) d)
        cx_checkpoint (\<lambda>_. bb_at n (blit c (bnum b * n) data)) (bb_broken n c (bnum b) data)"
      using off written_torn by (intro triple_checkpoint) (blast, simp)
  qed (use off in auto)
  then show ?case using 1 E by (intro triple_guard triple_at [where P = "bb_at n c", OF _ 1] bb_offset_law) auto
qed

lemma bb_write_block_shows:
  assumes b: "bnum b < length v" "length data = n"
  shows "triple (bb_shows n v) (bb_write_block dev b data)
    (\<lambda>_. bb_shows n (v[bnum b := data]))
    (\<lambda>d. bb_ok ok content n d \<and> outside_run (bnum b) 1 v (bb_blocks content d))"
proof (cases "n = 0")
  case False
  have one: "chunks n data = [data]" "length data div n = 1" using b(2) False by (auto simp: chunks.simps [of n data])
  have "blit v (bnum b) [data] = v[bnum b := data]" using blit_Cons [OF b(1), of data "[]"] by simp
  moreover have "triple (bb_shows n v) (bb_write_block dev b data) (\<lambda>_. bb_shows n (blit v (bnum b) (chunks n data)))
      (\<lambda>d. bb_ok ok content n d \<and> outside_run (bnum b) (length data div n) v (bb_blocks content d))"
    using b one by (intro bb_write_shows bb_write_block_law) auto
  ultimately show ?thesis unfolding one by simp
qed (simp add: triple_def holds_def bb_ok_def)

lemma bb_sync_shows:
  "triple (bb_shows n v) (on_bytes (dev_sync dev)) (\<lambda>_. bb_shows n v)
     (\<lambda>d. bb_ok ok content n d \<and> length (bb_blocks content d) = length v)"
proof (rule bb_triple)
  assume v: "\<forall>b \<in> set v. length b = n" and n: "0 < n"
  have len: "length (bb_blocks content d) = length v" if "length c' = length (concat v)" "bb_at n c' d" for c' d
    using bb_atD(5) [OF that(2)] chunks_exact(1) [OF bb_atD(6) [OF that(2)] n] that(1) length_blocks [OF v] n by simp
  show "triple (bb_at n (concat v)) (on_bytes (dev_sync dev)) (\<lambda>_. bb_shows n v)
     (\<lambda>d. bb_ok ok content n d \<and> length (bb_blocks content d) = length v)"
  proof (rule triple_conseq [OF bb_sync_law])
    show "bb_ok ok content n d \<and> length (bb_blocks content d) = length v"
      if "\<exists>c'. length c' = length (concat v) \<and> bb_at n c' d" for d
      using that len by (auto simp: holds_def)
  qed (auto intro: bb_showsI [OF _ v])
qed

lemma bb_geometry:
  assumes "bb_ok ok content n d"
  shows "unat (bb_block_size d) = n \<and> length (bb_blocks content d) = unat (bb_block_count d) \<and> (\<forall>b \<in> set (bb_blocks content d). length b = n)"
proof -
  have "bb_at n (content (bb_inner d)) d" using assms by (simp add: holds_def)
  note D = bb_atD [OF this]
  show ?thesis unfolding D(1,5) using chunks_exact(1) [OF D(6,2)] chunks_lengths [OF D(6,2)] D(2,3) by simp
qed

lemma bb_contract:
  assumes "0 < n"
  shows "block_contract (byte_block_device dev) (bb_ok ok content n) (bb_blocks content) n"
  using assms
proof (unfold_locales, unfold byte_block_device_def block_device.simps)
  fix d assume "bb_ok ok content n d"
  then show "unat (bb_block_size d) = n \<and> length (bb_blocks content d) = unat (bb_block_count d)
      \<and> (\<forall>b \<in> set (bb_blocks content d). length b = n)" by (rule bb_geometry)
qed (simp_all only: bb_read_block_shows bb_read_run_shows bb_read_into_shows bb_write_run_shows bb_write_block_shows bb_sync_shows)

end

text \<open>A steady block device keeps its blocks when a flush fails; the view of a steady device is steady.\<close>

locale steady_blocks = block_contract +
  assumes steady_flush_law: "triple (holds ok blocks v) (block_sync bd) (\<lambda>_. holds ok blocks v) (holds ok blocks v)"

context steady_device
begin

lemma bb_steady_flush: "triple (bb_shows n v) (on_bytes (dev_sync dev)) (\<lambda>_. bb_shows n v) (bb_shows n v)"
proof (rule bb_triple)
  assume v: "\<forall>b \<in> set v. length b = n"
  have "triple (bb_at n (concat v)) (on_bytes (dev_sync dev)) (\<lambda>_. bb_at n (concat v)) (bb_at n (concat v))"
    by (rule on_bytes_law [OF steady_sync_law [of "concat v"]]) (auto simp: holds_def bb_ok_def)
  then show "triple (bb_at n (concat v)) (on_bytes (dev_sync dev)) (\<lambda>_. bb_shows n v) (bb_shows n v)"
    by (rule triple_conseq) (auto intro: bb_showsI [OF _ v])
qed

lemma bb_steady:
  assumes "0 < n"
  shows "steady_blocks (byte_block_device dev) (bb_ok ok content n) (bb_blocks content) n"
  by (intro steady_blocks.intro steady_blocks_axioms.intro bb_contract assms)
    (simp add: byte_block_device_def bb_steady_flush)

end

text \<open>The block view of a file.\<close>

interpretation file_blocks: block_contract "byte_block_device (file_byte_device env)"
  "bb_ok file_ok file_content (Suc n)" "bb_blocks file_content" "Suc n"
  by (rule file_dev.bb_contract) simp

interpretation file_blocks_steady: steady_blocks "byte_block_device (file_byte_device env)"
  "bb_ok file_ok file_content (Suc n)" "bb_blocks file_content" "Suc n"
  by (rule file_steady.bb_steady) simp

end
