(* ===== verification/Mvcc_Flush.thy ===== *)
theory Mvcc_Flush
  imports Mvcc_Store Block_Law
begin

text \<open>
  Flushing of the version store to a block device (\<open>ffs-mvcc/src/store.rs\<close>): the newest visible
  version of every block committed after a watermark is written, runs of consecutive blocks with
  one ranged write each, and the device is synced.
\<close>

section \<open>The flush\<close>

record flush_run =
  run_start :: block_number
  run_next :: u64
  run_buf :: bytes

definition flush_candidate ::
  "'f host \<Rightarrow> commit_seq \<Rightarrow> commit_seq \<Rightarrow> block_version list \<Rightarrow> bytes option" where
  "flush_candidate h snap_high flushed_through vs =
     (case newest_visible_index vs snap_high of
        None \<Rightarrow> None
      | Some idx \<Rightarrow>
          if bv_commit_seq (vs ! idx) \<le> flushed_through then None
          else resolve_data_with h vs idx)"

definition write_run :: "'d block_device \<Rightarrow> flush_run option \<Rightarrow> ('d, unit) io" where
  "write_run dev run =
     (case run of
        None \<Rightarrow> io_return ()
      | Some r \<Rightarrow> write_contiguous_blocks dev (run_start r) (run_buf r))"

fun flush_loop ::
  "'f host \<Rightarrow> 'd block_device \<Rightarrow> commit_seq \<Rightarrow> commit_seq \<Rightarrow> (block_number \<times> block_version list) list
   \<Rightarrow> flush_run option \<Rightarrow> usize \<Rightarrow> ('d, flush_run option \<times> usize) io" where
  "flush_loop h dev snap_high flushed_through [] run flushed = io_return (run, flushed)"
| "flush_loop h dev snap_high flushed_through ((block, vs) # rest) run flushed =
     (case flush_candidate h snap_high flushed_through vs of
        None \<Rightarrow> flush_loop h dev snap_high flushed_through rest run flushed
      | Some data \<Rightarrow>
          let following = saturating_add (bn_val block) 1
          in case run of
               Some r \<Rightarrow>
                 if bn_val block = run_next r
                 then flush_loop h dev snap_high flushed_through rest
                        (Some (r\<lparr>run_next := following, run_buf := run_buf r @ data\<rparr>)) (flushed + 1)
                 else io_then (write_run dev run)
                        (flush_loop h dev snap_high flushed_through rest
                          (Some \<lparr>run_start = block, run_next = following, run_buf = data\<rparr>) (flushed + 1))
             | None \<Rightarrow>
                 flush_loop h dev snap_high flushed_through rest
                   (Some \<lparr>run_start = block, run_next = following, run_buf = data\<rparr>) (flushed + 1))"

definition flush_to_device_after ::
  "'f host \<Rightarrow> 'd block_device \<Rightarrow> commit_seq \<Rightarrow> 'f mvcc_store \<Rightarrow> ('d, usize \<times> commit_seq) io" where
  "flush_to_device_after h dev flushed_through st =
     (let snap_high = high (current_snapshot st)
      in if snap_high \<le> flushed_through then io_return (0, snap_high)
         else io_bind (flush_loop h dev snap_high flushed_through (versions st) None 0) (\<lambda>(run, flushed).
              io_then (write_run dev run) (
              io_then (if 0 < flushed then block_sync dev else io_return ())
                (io_return (flushed, snap_high)))))"

definition flush_to_device :: "'f host \<Rightarrow> 'd block_device \<Rightarrow> 'f mvcc_store \<Rightarrow> ('d, usize) io" where
  "flush_to_device h dev st =
     io_bind (flush_to_device_after h dev (CommitSeq 0) st) (\<lambda>(flushed, _). io_return flushed)"

end
