(* ===== verification/Flush_Law.thy ===== *)
theory Flush_Law
  imports Mvcc_Flush Store_Ops
begin

text \<open>
  What a flush does to the device: coalesced ranged writes equal one write per block, the device
  ends with the newest version of every block, and eviction of durable chains is not observable
  afterwards by a reader at or above the eviction bound.
\<close>

section \<open>Candidates and runs\<close>

definition candidates ::
  "'f host \<Rightarrow> commit_seq \<Rightarrow> commit_seq \<Rightarrow> (block_number \<times> block_version list) list \<Rightarrow> (block_number \<times> bytes) list" where
  "candidates h snap_high flushed_through es =
     List.map_filter (\<lambda>(b, vs). map_option (Pair b) (flush_candidate h snap_high flushed_through vs)) es"

lemma candidates_simps [simp]:
  "candidates h s ft [] = []"
  "candidates h s ft ((b, vs) # es) =
     (case flush_candidate h s ft vs of None \<Rightarrow> candidates h s ft es | Some data \<Rightarrow> (b, data) # candidates h s ft es)"
  by (auto simp: candidates_def map_filter_def split: option.split)

text \<open>A pending run stands for the writes of its blocks.\<close>

definition run_is :: "nat \<Rightarrow> nat \<Rightarrow> flush_run option \<Rightarrow> (block_number \<times> bytes) list \<Rightarrow> bool" where
  "run_is n len run ps \<longleftrightarrow>
     (case run of
        None \<Rightarrow> ps = []
      | Some r \<Rightarrow> \<exists>ds. ps = zip (run_blocks (run_start r) (length ds)) ds \<and> run_buf r = concat ds
          \<and> (\<forall>x \<in> set ds. length x = n) \<and> bnum (run_start r) + length ds \<le> len
          \<and> unat (run_next r) = bnum (run_start r) + length ds)"

lemma put_blocks_append: "put_blocks (xs @ ys) v = put_blocks ys (put_blocks xs v)"
  by (simp add: put_blocks_def)

lemma saturating_next: "unat b < len \<Longrightarrow> len < 2 ^ 64 \<Longrightarrow> unat (saturating_add b (1 :: u64)) = unat b + 1"
  by (simp add: saturating_add_def unat_word_ariths)

lemma run_is_single:
  assumes "bnum b < len" "len < 2 ^ 64" "length data = n"
  shows "run_is n len (Some \<lparr>run_start = b, run_next = saturating_add (bn_val b) 1, run_buf = data\<rparr>) [(b, data)]"
  using assms by (auto simp: run_is_def run_blocks_def saturating_next intro!: exI [of _ "[data]"])

lemma run_is_extend:
  assumes "run_is n len (Some r) ps" "bn_val b = run_next r" "bnum b < len" "len < 2 ^ 64" "length data = n"
  shows "run_is n len (Some (r\<lparr>run_next := saturating_add (bn_val b) 1, run_buf := run_buf r @ data\<rparr>)) (ps @ [(b, data)])"
proof -
  obtain ds where ds: "ps = zip (run_blocks (run_start r) (length ds)) ds" "run_buf r = concat ds"
    "\<forall>x \<in> set ds. length x = n" "bnum (run_start r) + length ds \<le> len" "unat (run_next r) = bnum (run_start r) + length ds"
    using assms(1) by (auto simp: run_is_def)
  have "run_next r = bn_val (run_start r) + of_nat (length ds)"
    using ds(4,5) assms(4) by (simp add: word_unat_eq_iff unat_word_ariths unat_of_nat)
  then have "b = BlockNumber (bn_val (run_start r) + of_nat (length ds))" using assms(2) by (cases b) simp
  then have "zip (run_blocks (run_start r) (length (ds @ [data]))) (ds @ [data]) = ps @ [(b, data)]"
    using ds(1) by (simp add: run_blocks_def)
  then show ?thesis
    using ds assms by (auto simp: run_is_def saturating_next intro!: exI [of _ "ds @ [data]"])
qed

context block_contract
begin

lemma write_run_pending:
  assumes r: "run_is n (length v) run ps" and small: "length v < 2 ^ 64"
  shows "triple (shows_blocks v) (write_run bd run) (\<lambda>_. shows_blocks (put_blocks ps v))
    (\<lambda>d. ok d \<and> length (blocks d) = length v \<and> (\<forall>j < length v. j \<notin> bnum ` fst ` set ps \<longrightarrow> blocks d ! j = v ! j))"
proof (cases run)
  case None
  then show ?thesis using r by (auto simp: write_run_def run_is_def put_blocks_def intro: triple_return)
next
  case (Some r')
  obtain ds where ds: "ps = zip (run_blocks (run_start r') (length ds)) ds" "run_buf r' = concat ds"
    "\<forall>x \<in> set ds. length x = n" "bnum (run_start r') + length ds \<le> length v"
    using r Some by (auto simp: run_is_def)
  have len: "length (concat ds) = length ds * n" using ds(3) by (rule length_blocks)
  have data: "length (run_buf r') div n = length ds" "n dvd length (run_buf r')" "chunks n (run_buf r') = ds"
    using len block_size_pos chunks_concat [OF block_size_pos ds(3)] by (simp_all add: ds(2))
  note nums = run_blocks_numbers [OF ds(4) small]
  have put: "put_blocks ps v = blit v (bnum (run_start r')) ds" unfolding ds(1) using nums ds(4) by (rule put_blocks_run)
  have "map fst ps = run_blocks (run_start r') (length ds)" by (simp add: ds(1))
  then have keys: "bnum ` fst ` set ps = {bnum (run_start r')..<bnum (run_start r') + length ds}"
    using nums by (metis image_image image_set set_upt)
  show ?thesis unfolding write_run_def Some option.case put keys
    by (rule triple_conseq [OF write_run_law [of "run_start r'" "run_buf r'" v]])
      (use ds(4) data in \<open>auto simp: outside_run_def not_le\<close>)
qed

text \<open>After the loop: the writes \<open>qs\<close> are on the device except for those of the pending run.\<close>

definition loop_post ::
  "bytes list \<Rightarrow> (block_number \<times> bytes) list \<Rightarrow> usize \<Rightarrow> flush_run option \<times> usize \<Rightarrow> 'd \<Rightarrow> bool" where
  "loop_post v qs m res d \<longleftrightarrow>
     (\<exists>v' ps'. shows_blocks v' d \<and> length v' = length v \<and> run_is n (length v) (fst res) ps'
        \<and> put_blocks ps' v' = put_blocks qs v \<and> set ps' \<subseteq> set qs
        \<and> (\<forall>j < length v. j \<notin> bnum ` fst ` set qs \<longrightarrow> v' ! j = v ! j) \<and> snd res = m)"

definition loop_error :: "bytes list \<Rightarrow> (block_number \<times> bytes) list \<Rightarrow> 'd \<Rightarrow> bool" where
  "loop_error v qs d \<longleftrightarrow>
     ok d \<and> length (blocks d) = length v \<and> (\<forall>j < length v. j \<notin> bnum ` fst ` set qs \<longrightarrow> blocks d ! j = v ! j)"

lemma loop_after_write:
  assumes "triple (shows_blocks (put_blocks ps v)) m (loop_post (put_blocks ps v) qs k) (loop_error (put_blocks ps v) qs)"
  shows "triple (shows_blocks (put_blocks ps v)) m (loop_post v (ps @ qs) k) (loop_error v (ps @ qs))"
proof (rule triple_conseq [OF assms])
  have split: "bnum ` fst ` set (ps @ qs) = bnum ` fst ` set ps \<union> bnum ` fst ` set qs" by (simp add: image_Un)
  have out: "put_blocks ps v ! j = v ! j" if "j \<notin> bnum ` fst ` set ps \<union> bnum ` fst ` set qs" for j
    using that by (intro put_blocks_outside) simp
  show "loop_post v (ps @ qs) k x d" if post: "loop_post (put_blocks ps v) qs k x d" for x d
  proof -
    obtain v' ps' where v': "shows_blocks v' d" "length v' = length v" "run_is n (length v) (fst x) ps'"
      "put_blocks ps' v' = put_blocks qs (put_blocks ps v)" "set ps' \<subseteq> set qs"
      "\<forall>j < length v. j \<notin> bnum ` fst ` set qs \<longrightarrow> v' ! j = put_blocks ps v ! j" "snd x = k"
      using post unfolding loop_post_def by auto
    have "\<forall>j < length v. j \<notin> bnum ` fst ` set (ps @ qs) \<longrightarrow> v' ! j = v ! j" using v'(6) out unfolding split by simp
    then show ?thesis unfolding loop_post_def put_blocks_append
      using v' by (intro exI [of _ v'] exI [of _ ps']) auto
  qed
  show "loop_error v (ps @ qs) d" if "loop_error (put_blocks ps v) qs d" for d
    using that out unfolding loop_error_def split by simp
qed

lemma flush_loop_law:
  assumes "\<forall>(b, data) \<in> set (candidates h s ft es). bnum b < length v \<and> length data = n"
    and "run_is n (length v) run ps" "length v < 2 ^ 64"
  shows "triple (shows_blocks v) (flush_loop h bd s ft es run fl)
    (loop_post v (ps @ candidates h s ft es) (fl + length (candidates h s ft es))) (loop_error v (ps @ candidates h s ft es))"
  using assms
proof (induction es arbitrary: v run ps fl)
  case Nil
  then show ?case unfolding loop_post_def flush_loop.simps
    by (intro triple_return exI [of _ v] exI [of _ ps]) simp
next
  case (Cons e es)
  obtain b vs where e: "e = (b, vs)" by (cases e)
  show ?case
  proof (cases "flush_candidate h s ft vs")
    case None
    then show ?thesis using Cons.IH [of v run ps fl] Cons.prems by (simp add: e)
  next
    case (Some data)
    then have b: "bnum b < length v" "length data = n" using Cons.prems(1) by (auto simp: e)
    let ?one = "Some \<lparr>run_start = b, run_next = saturating_add (bn_val b) 1, run_buf = data\<rparr>"
    have all: "\<forall>(b, data) \<in> set (candidates h s ft es). bnum b < length v \<and> length data = n"
      using Cons.prems(1) Some by (auto simp: e)
    note single = run_is_single [OF b(1) Cons.prems(3) b(2)]
    show ?thesis
    proof (cases run)
      case None
      then show ?thesis
        using Cons.IH [OF all single Cons.prems(3), of "fl + 1"] Cons.prems(2) Some
        by (simp add: e run_is_def Let_def add.assoc)
    next
      case r: (Some r)
      show ?thesis
      proof (cases "bn_val b = run_next r")
        case True
        from Cons.IH [OF all run_is_extend [OF Cons.prems(2) [unfolded r] True b(1) Cons.prems(3) b(2)] Cons.prems(3), of "fl + 1"]
        show ?thesis using True Some by (simp add: e r Let_def add.assoc)
      next
        case False
        have IH: "triple (shows_blocks (put_blocks ps v)) (flush_loop h bd s ft es ?one (fl + 1))
          (loop_post (put_blocks ps v) ([(b, data)] @ candidates h s ft es) (fl + 1 + length (candidates h s ft es)))
          (loop_error (put_blocks ps v) ([(b, data)] @ candidates h s ft es))"
          using all single Cons.prems(3) by (intro Cons.IH) simp_all
        have "triple (shows_blocks v) (io_then (write_run bd run) (flush_loop h bd s ft es ?one (fl + 1)))
          (loop_post v (ps @ [(b, data)] @ candidates h s ft es) (fl + 1 + length (candidates h s ft es)))
          (loop_error v (ps @ [(b, data)] @ candidates h s ft es))"
          by (rule triple_then_conseq [OF write_run_pending [OF Cons.prems(2,3)] _ _ loop_after_write [OF IH]])
            (auto simp: loop_error_def image_Un)
        then show ?thesis using False Some by (simp add: e r Let_def add.assoc)
      qed
    qed
  qed
qed

lemma flush_after_law:
  assumes fit: "\<forall>(b, data) \<in> set (candidates h (high (current_snapshot st)) ft (versions st)). bnum b < length v \<and> length data = n"
    and new: "ft < high (current_snapshot st)"
  defines "qs \<equiv> candidates h (high (current_snapshot st)) ft (versions st)"
  shows "triple (shows_blocks v) (flush_to_device_after h bd ft st)
    (\<lambda>res d. shows_blocks (put_blocks qs v) d \<and> res = (length qs, high (current_snapshot st)))
    (\<lambda>d. ok d \<and> length (blocks d) = length v)"
proof (rule triple_pointwise)
  fix d
  assume d: "shows_blocks v d"
  then have small: "length v < 2 ^ 64" using small_count by (auto simp: holds_def)
  let ?s = "high (current_snapshot st)"
  let ?E = "\<lambda>d. ok d \<and> length (blocks d) = length v"
  let ?Q = "\<lambda>res d. shows_blocks (put_blocks qs v) d \<and> res = (length qs, ?s)"
  have loop: "triple (shows_blocks v) (flush_loop h bd ?s ft (versions st) None 0) (loop_post v qs (length qs)) (loop_error v qs)"
    using flush_loop_law [OF fit _ small, of None "[]" 0] by (simp add: run_is_def qs_def)
  have finish: "triple (shows_blocks (put_blocks qs v))
      (io_then (if 0 < fl then block_sync bd else io_return ()) (io_return (length qs, ?s))) ?Q ?E" for fl :: nat
    by (rule triple_then_conseq [where R = "shows_blocks (put_blocks qs v)" and E' = ?E and P' = "shows_blocks (put_blocks qs v)"])
      (auto intro!: triple_return triple_conseq [OF block_sync_law [of "put_blocks qs v"]])
  have rest: "triple (loop_post v qs (length qs) (run, fl)) (io_then (write_run bd run) (
      io_then (if 0 < fl then block_sync bd else io_return ()) (io_return (fl, ?s)))) ?Q ?E" for run fl
  proof (rule triple_pointwise)
    fix d
    assume "loop_post v qs (length qs) (run, fl) d"
    then obtain v' ps' where v': "shows_blocks v' d" "length v' = length v" "run_is n (length v') run ps'"
      "put_blocks ps' v' = put_blocks qs v" "fl = length qs" by (auto simp: loop_post_def)
    have small': "length v' < 2 ^ 64" using small v'(2) by simp
    show "triple ((=) d) (io_then (write_run bd run) (
      io_then (if 0 < fl then block_sync bd else io_return ()) (io_return (fl, ?s)))) ?Q ?E"
      unfolding v'(5) using write_run_pending [OF v'(3) small'] v'(1,2,4)
      by (intro triple_then_conseq [OF write_run_pending [OF v'(3) small'] _ _ finish [of "length qs", folded v'(4)], unfolded v'(4)]) auto
  qed
  show "triple ((=) d) (flush_to_device_after h bd ft st) ?Q ?E"
    unfolding flush_to_device_after_def Let_def
    using new d by (auto intro!: triple_at [where P = "shows_blocks v"] triple_bind_conseq [OF loop] rest simp: loop_error_def)
qed

end

section \<open>The store over the device\<close>

text \<open>
  A read at a snapshot goes to the version store first and to the device when the store has no
  visible version. The device is clean through a watermark when it holds the newest version of
  every chain whose newest version is not past the watermark.
\<close>

definition read_through :: "'f host \<Rightarrow> 'f mvcc_store \<Rightarrow> bytes list \<Rightarrow> commit_seq \<Rightarrow> nat \<Rightarrow> bytes" where
  "read_through h st v s i =
     (case version_bytes_at h st (BlockNumber (of_nat i)) s of None \<Rightarrow> v ! i | Some data \<Rightarrow> data)"

definition overlay :: "'f host \<Rightarrow> 'f mvcc_store \<Rightarrow> bytes list \<Rightarrow> bytes list" where
  "overlay h st v = map (read_through h st v (high (current_snapshot st))) [0..<length v]"

definition clean_through :: "'f host \<Rightarrow> 'f mvcc_store \<Rightarrow> commit_seq \<Rightarrow> bytes list \<Rightarrow> bool" where
  "clean_through h st ft v \<longleftrightarrow>
     (\<forall>i < length v. \<forall>vs. bt_get (versions st) (BlockNumber (of_nat i)) = Some vs \<longrightarrow> bv_commit_seq (last vs) \<le> ft
        \<longrightarrow> chain_value h vs = Some (v ! i))"

lemma clean_at_zero: "chains_ok h st \<Longrightarrow> clean_through h st (CommitSeq 0) v"
  unfolding clean_through_def chains_ok_def chain_ok_def
  by (metis commit_seq.sel last_in_set less_eq_commit_seq_def not_less)

lemma put_blocks_lookup:
  assumes "distinct (map fst ps)" "i < length v" "length v < 2 ^ 64"
  shows "put_blocks ps v ! i = (case map_of ps (BlockNumber (of_nat i)) of None \<Rightarrow> v ! i | Some data \<Rightarrow> data)"
  using assms
proof (induction ps arbitrary: v)
  case (Cons p ps)
  obtain b data where p: "p = (b, data)" by (cases p)
  have i: "unat (of_nat i :: u64) = i" using Cons.prems by (simp add: unat_of_nat)
  have key: "b = BlockNumber (of_nat i) \<longleftrightarrow> bnum b = i"
    using i by (cases b) (auto simp: word_unat_eq_iff)
  have fresh: "map_of ps b = None" using Cons.prems(1) by (simp add: p map_of_eq_None_iff)
  have IH: "put_blocks ps (v[bnum b := data]) ! i =
      (case map_of ps (BlockNumber (of_nat i)) of None \<Rightarrow> v[bnum b := data] ! i | Some data \<Rightarrow> data)"
    using Cons.prems by (intro Cons.IH) (simp_all add: p)
  show ?case
  proof (cases "bnum b = i")
    case True
    then have "b = BlockNumber (of_nat i)" using key by simp
    then show ?thesis using IH fresh True Cons.prems(2) by (simp add: p)
  next
    case False
    then show ?thesis using IH key by (simp add: p split: option.split)
  qed
qed (simp add: put_blocks_def)

lemma candidates_keys: "fst ` set (candidates h s ft es) \<subseteq> fst ` set es"
  by (induction es) (force split: option.splits)+

lemma candidates_lookup:
  "distinct (map fst es) \<Longrightarrow> map_of (candidates h s ft es) b = Option.bind (map_of es b) (flush_candidate h s ft)"
proof (induction es)
  case (Cons e es)
  obtain k vs where e: "e = (k, vs)" by (cases e)
  have "map_of es k = None" "map_of (candidates h s ft es) k = None"
    using Cons.prems candidates_keys [of h s ft es] by (auto simp: e map_of_eq_None_iff)
  then show ?case using Cons by (auto simp: e split: option.split)
qed simp

lemma candidates_distinct: "distinct (map fst es) \<Longrightarrow> distinct (map fst (candidates h s ft es))"
proof (induction es)
  case (Cons e es)
  then show ?case using candidates_keys [of h s ft es] by (cases e) (auto split: option.split)
qed simp

text \<open>Every version of the store is visible at the current snapshot.\<close>

lemma all_visible:
  assumes "chain_ok h b nc vs"
  shows "visible (CommitSeq (saturating_sub nc 1)) vs = vs"
proof -
  have "x \<le> saturating_sub nc 1" if "x < nc" for x :: u64
  proof -
    have "unat x + 1 \<le> unat nc" using that by (simp add: word_less_nat_alt)
    moreover from this have "1 \<le> nc" by (simp add: word_le_nat_alt)
    ultimately show ?thesis by (simp add: saturating_sub_def word_le_nat_alt unat_sub)
  qed
  then show ?thesis using assms by (auto simp: visible_def chain_ok_def less_eq_commit_seq_def)
qed

lemma candidate_current:
  assumes "chain_ok h b (next_commit st) vs"
  shows "flush_candidate h (high (current_snapshot st)) ft vs = (if bv_commit_seq (last vs) \<le> ft then None else chain_value h vs)"
proof -
  have vs: "vs \<noteq> []" "sorted_wrt (<) (map bv_commit_seq vs)" using assms by (auto simp: chain_ok_def ascending_def)
  have all: "takeWhile (\<lambda>v. bv_commit_seq v \<le> high (current_snapshot st)) vs = vs"
    using all_visible [OF assms] by (simp add: visible_def current_snapshot_def)
  have "newest_visible_index vs (high (current_snapshot st)) = Some (length vs - 1)"
    unfolding newest_visible_index_def newest_visible_takeWhile [OF vs(2)] all
    using vs(1) by (simp add: checked_sub_usize_def Suc_le_eq)
  then show ?thesis using vs(1) by (simp add: flush_candidate_def last_conv_nth chain_value_full)
qed

lemma read_current:
  assumes "chains_ok h st"
  shows "version_bytes_at h st b (high (current_snapshot st)) = Option.bind (bt_get (versions st) b) (chain_value h)"
proof (cases "bt_get (versions st) b")
  case (Some vs)
  then have ok: "chain_ok h b (next_commit st) vs" using assms by (simp add: chains_ok_def)
  show ?thesis using Some all_visible [OF ok] by (simp add: version_bytes_at_value [OF assms] chain_of_def current_snapshot_def)
qed (simp add: version_bytes_at_def)

lemma chain_ok_value:
  assumes "chain_ok h b nc vs"
  obtains data where "chain_value h vs = Some data"
proof -
  have "vs \<noteq> []" "\<forall>i < length vs. chain_value h (take (Suc i) vs) \<noteq> None" using assms by (auto simp: chain_ok_def)
  then have "chain_value h (take (Suc (length vs - 1)) vs) \<noteq> None" by (metis diff_less length_greater_0_conv less_numeral_extra(1))
  then show thesis using \<open>vs \<noteq> []\<close> that by auto
qed

lemma flushed_overlay:
  assumes st: "chains_ok h st" and clean: "clean_through h st ft v" and small: "length v < 2 ^ 64"
  shows "put_blocks (candidates h (high (current_snapshot st)) ft (versions st)) v = overlay h st v"
proof (rule nth_equalityI)
  fix i
  assume "i < length (put_blocks (candidates h (high (current_snapshot st)) ft (versions st)) v)"
  then have i: "i < length v" by simp
  let ?b = "BlockNumber (of_nat i)"
  have dist: "distinct (map fst (versions st))" using st by (simp add: chains_ok_def bt_inv_distinct)
  have "put_blocks (candidates h (high (current_snapshot st)) ft (versions st)) v ! i =
    (case Option.bind (bt_get (versions st) ?b) (flush_candidate h (high (current_snapshot st)) ft) of None \<Rightarrow> v ! i | Some data \<Rightarrow> data)"
    by (simp add: put_blocks_lookup [OF candidates_distinct [OF dist] i small] candidates_lookup [OF dist])
  also have "\<dots> = overlay h st v ! i"
  proof (cases "bt_get (versions st) ?b")
    case None
    then show ?thesis using i by (simp add: overlay_def read_through_def read_current [OF st])
  next
    case (Some vs)
    then have vs: "chain_ok h ?b (next_commit st) vs" using st by (simp add: chains_ok_def)
    show ?thesis using Some i clean
      by (auto simp: overlay_def read_through_def read_current [OF st] candidate_current [OF vs] clean_through_def)
  qed
  finally show "put_blocks (candidates h (high (current_snapshot st)) ft (versions st)) v ! i = overlay h st v ! i" .
qed (simp add: overlay_def)

lemma overlay_clean:
  assumes st: "chains_ok h st"
  shows "clean_through h st ft (overlay h st v)"
  unfolding clean_through_def
proof (intro allI impI)
  fix i vs
  assume i: "i < length (overlay h st v)" and vs: "bt_get (versions st) (BlockNumber (of_nat i)) = Some vs"
  obtain data where "chain_value h vs = Some data" using st vs chain_ok_value by (metis chains_ok_def)
  then show "chain_value h vs = Some (overlay h st v ! i)"
    using i vs by (simp add: overlay_def read_through_def read_current [OF st])
qed

lemma ascending_last:
  assumes "ascending vs" "w \<in> set vs"
  shows "bv_commit_seq w \<le> bv_commit_seq (last vs)"
proof (cases vs rule: rev_cases)
  case (snoc xs x)
  then show ?thesis using assms by (auto simp: ascending_snoc intro: less_imp_le)
qed (use assms in simp)

text \<open>Eviction is not observable at or above its bound.\<close>

lemma evict_read:
  assumes st: "chains_ok h st" and clean: "clean_through h st D v" and s: "evict_bound D st \<le> s" and i: "i < length v"
  shows "read_through h (snd (evict_durable_chains D st)) v s i = read_through h st v s i"
proof -
  let ?b = "BlockNumber (of_nat i)" and ?st = "snd (evict_durable_chains D st)"
  have inv: "bt_inv (versions st)" using st by (simp add: chains_ok_def)
  show ?thesis
  proof (cases "\<exists>vs. bt_get (versions st) ?b = Some vs \<and> durable_chain (physical_versions st) (evict_bound D st) (?b, vs)")
    case True
    then obtain vs where vs: "bt_get (versions st) ?b = Some vs" "bv_commit_seq (last vs) \<le> evict_bound D st"
      by (auto simp: durable_chain_def)
    have "evict_bound D st \<le> D" by (simp add: evict_bound_def split: option.split)
    then have data: "chain_value h vs = Some (v ! i)" using vs clean i by (auto simp: clean_through_def)
    have ok: "chain_ok h ?b (next_commit st) vs" using st vs(1) by (simp add: chains_ok_def)
    have "bv_commit_seq w \<le> s" if "w \<in> set vs" for w
    proof -
      have "bv_commit_seq w \<le> bv_commit_seq (last vs)"
        using ok that by (intro ascending_last) (auto simp: chain_ok_def)
      then show ?thesis using vs(2) s by (meson order_trans)
    qed
    then have "visible s vs = vs" by (simp add: visible_def)
    then have "version_bytes_at h st ?b s = Some (v ! i)" using vs(1) data by (simp add: version_bytes_at_value [OF st] chain_of_def)
    moreover have "version_bytes_at h ?st ?b s = None"
      using True inv by (auto simp: version_bytes_at_def evict_fields bt_get_filter split: option.splits)
    ultimately show ?thesis by (simp add: read_through_def)
  next
    case False
    then have "bt_get (versions ?st) ?b = bt_get (versions st) ?b"
      using inv by (auto simp: evict_fields bt_get_filter split: option.split)
    then show ?thesis by (simp add: read_through_def version_bytes_at_def)
  qed
qed

lemma overlay_flushed:
  assumes st: "chains_ok h st" and clean: "clean_through h st ft v" and ft: "high (current_snapshot st) \<le> ft"
  shows "overlay h st v = v"
proof (rule nth_equalityI)
  fix i
  assume "i < length (overlay h st v)"
  then have i: "i < length v" by (simp add: overlay_def)
  show "overlay h st v ! i = v ! i"
  proof (cases "bt_get (versions st) (BlockNumber (of_nat i))")
    case None
    then show ?thesis using i by (simp add: overlay_def read_through_def read_current [OF st])
  next
    case (Some vs)
    then have ok: "chain_ok h (BlockNumber (of_nat i)) (next_commit st) vs" using st by (simp add: chains_ok_def)
    then have "last vs \<in> set (visible (high (current_snapshot st)) vs)"
      using all_visible [OF ok] by (simp add: current_snapshot_def chain_ok_def)
    then have "bv_commit_seq (last vs) \<le> ft" using ft by (auto simp: visible_def dest!: set_takeWhileD)
    then have "chain_value h vs = Some (v ! i)" using clean i Some by (simp add: clean_through_def)
    then show ?thesis using i Some by (simp add: overlay_def read_through_def read_current [OF st])
  qed
qed (simp add: overlay_def)

section \<open>The flush law\<close>

context block_contract
begin

lemma flush_law:
  assumes st: "chains_ok h st" and clean: "clean_through h st ft v"
    and fit: "\<forall>(b, data) \<in> set (candidates h (high (current_snapshot st)) ft (versions st)). bnum b < length v \<and> length data = n"
  shows "triple (shows_blocks v) (flush_to_device_after h bd ft st)
    (\<lambda>res d. shows_blocks (overlay h st v) d \<and> snd res = high (current_snapshot st))
    (\<lambda>d. ok d \<and> length (blocks d) = length v)"
proof (rule triple_pointwise)
  fix d
  assume d: "shows_blocks v d"
  then have "length v < 2 ^ 64" using small_count by (auto simp: holds_def)
  note over = flushed_overlay [OF st clean this]
  show "triple ((=) d) (flush_to_device_after h bd ft st)
    (\<lambda>res d. shows_blocks (overlay h st v) d \<and> snd res = high (current_snapshot st))
    (\<lambda>d. ok d \<and> length (blocks d) = length v)"
  proof (cases "ft < high (current_snapshot st)")
    case True
    show ?thesis
      by (rule triple_at [where P = "shows_blocks v", OF triple_conseq [OF flush_after_law [OF fit True]] d]) (auto simp: over)
  next
    case False
    then have "overlay h st v = v" by (simp add: overlay_flushed [OF st clean])
    then show ?thesis using False d
      by (auto simp: flush_to_device_after_def Let_def intro!: triple_return)
  qed
qed

end

end
