(* ===== verification/Snapshot_Registry.thy ===== *)
theory Snapshot_Registry
  imports Ffs_Types "HOL-Library.Multiset"
begin

text \<open>
  \<open>SnapshotRegistry\<close> (\<open>ffs-mvcc/src/lib.rs\<close>) with the lock-free watermark of \<open>rcu.rs\<close>: reference
  counts of active snapshots outside the version store. A registry refines a multiset of
  snapshots; the watermark read without a lock is the least of them.
\<close>

section \<open>The lock-free watermark\<close>

definition WATERMARK_EMPTY :: u64 where
  "WATERMARK_EMPTY = - 1"

definition watermark_load :: "u64 \<Rightarrow> u64 option" where
  "watermark_load v = (if v = WATERMARK_EMPTY then None else Some v)"

section \<open>The registry\<close>

text \<open>Times are nanoseconds of a monotonic clock, given to the operations that read it.\<close>

record snapshot_registry =
  sr_active :: "(commit_seq, u64) btree_map"
  sr_oldest_registered_at :: "nat option"
  sr_stall_threshold_secs :: u64
  sr_acquired_total :: u64
  sr_released_total :: u64
  sr_atomic_watermark :: u64

definition sr_new :: snapshot_registry where
  "sr_new = \<lparr>sr_active = [], sr_oldest_registered_at = None, sr_stall_threshold_secs = 60,
             sr_acquired_total = 0, sr_released_total = 0, sr_atomic_watermark = WATERMARK_EMPTY\<rparr>"

definition with_stall_threshold :: "u64 \<Rightarrow> snapshot_registry" where
  "with_stall_threshold secs = sr_new\<lparr>sr_stall_threshold_secs := secs\<rparr>"

definition sr_watermark :: "snapshot_registry \<Rightarrow> commit_seq option" where
  "sr_watermark r = (case sr_active r of [] \<Rightarrow> None | (s, _) # _ \<Rightarrow> Some s)"

text \<open>\<open>register\<close> in the order of its writes: the counted entry, then the watermark word.\<close>

definition register_entry :: "nat \<Rightarrow> snapshot \<Rightarrow> snapshot_registry \<Rightarrow> snapshot_registry" where
  "register_entry now snap r =
     (let n = (case bt_get (sr_active r) (high snap) of Some n \<Rightarrow> n | None \<Rightarrow> 0);
          active = bt_insert (high snap) (saturating_add n 1) (sr_active r);
          r = r\<lparr>sr_active := active\<rparr>
      in if length active = 1 \<or> sr_oldest_registered_at r = None
         then r\<lparr>sr_oldest_registered_at := Some now\<rparr> else r)"

definition register_publish :: "snapshot_registry \<Rightarrow> snapshot_registry" where
  "register_publish r =
     (case sr_active r of (s, _) # _ \<Rightarrow> r\<lparr>sr_atomic_watermark := seq_val s\<rparr> | [] \<Rightarrow> r)"

definition sr_register :: "nat \<Rightarrow> snapshot \<Rightarrow> snapshot_registry \<Rightarrow> snapshot_registry" where
  "sr_register now snap r =
     (let r = register_publish (register_entry now snap r)
      in r\<lparr>sr_acquired_total := saturating_add (sr_acquired_total r) 1\<rparr>)"

definition sr_release :: "nat \<Rightarrow> snapshot \<Rightarrow> snapshot_registry \<Rightarrow> bool \<times> snapshot_registry" where
  "sr_release now snap r =
     (case bt_get (sr_active r) (high snap) of
        None \<Rightarrow> (False, r)
      | Some n \<Rightarrow>
          let was_oldest = (sr_watermark r = Some (high snap));
              count_after = saturating_sub n 1;
              active = (if count_after = 0 then bt_remove (high snap) (sr_active r)
                        else bt_insert (high snap) count_after (sr_active r));
              clear_oldest = (count_after = 0 \<and> active = []);
              reset_oldest = (count_after = 0 \<and> active \<noteq> [] \<and> was_oldest);
              r = r\<lparr>sr_active := active,
                    sr_atomic_watermark := (case active of (s, _) # _ \<Rightarrow> seq_val s | [] \<Rightarrow> WATERMARK_EMPTY)\<rparr>;
              r = (if clear_oldest then r\<lparr>sr_oldest_registered_at := None\<rparr>
                   else if reset_oldest then r\<lparr>sr_oldest_registered_at := Some now\<rparr> else r)
          in (True, r\<lparr>sr_released_total := saturating_add (sr_released_total r) 1\<rparr>))"

definition watermark_lockfree :: "snapshot_registry \<Rightarrow> commit_seq option" where
  "watermark_lockfree r = map_option CommitSeq (watermark_load (sr_atomic_watermark r))"

definition sr_active_count :: "snapshot_registry \<Rightarrow> usize" where
  "sr_active_count r = fold (\<lambda>(_, n) total. saturating_add_usize total (unat n)) (sr_active r) 0"

definition distinct_count :: "snapshot_registry \<Rightarrow> usize" where
  "distinct_count r = length (sr_active r)"

definition check_stalls :: "nat \<Rightarrow> snapshot_registry \<Rightarrow> nat option" where
  "check_stalls now r =
     (case (sr_oldest_registered_at r, sr_watermark r) of
        (Some registered_at, Some _) \<Rightarrow>
          let elapsed = (now - registered_at) div 10 ^ 9
          in if unat (sr_stall_threshold_secs r) \<le> elapsed then Some elapsed else None
      | _ \<Rightarrow> None)"

text \<open>
  \<open>SnapshotHandle\<close>: acquiring registers its snapshot, dropping it releases the snapshot. The
  \<open>debug_assert!\<close> in \<open>drop\<close> is absent from release builds and from the model.
\<close>

definition sr_acquire :: "nat \<Rightarrow> snapshot \<Rightarrow> snapshot_registry \<Rightarrow> snapshot \<times> snapshot_registry" where
  "sr_acquire now snap r = (snap, sr_register now snap r)"

definition handle_drop :: "nat \<Rightarrow> snapshot \<Rightarrow> snapshot_registry \<Rightarrow> snapshot_registry" where
  "handle_drop now snap r = snd (sr_release now snap r)"

section \<open>The multiset of registered snapshots\<close>

text \<open>Acquiring a handle registers its snapshot; dropping the handle releases it.\<close>

datatype registry_op = Register nat snapshot | Release nat snapshot

fun run_registry :: "registry_op \<Rightarrow> snapshot_registry \<Rightarrow> snapshot_registry" where
  "run_registry (Register now snap) r = sr_register now snap r"
| "run_registry (Release now snap) r = snd (sr_release now snap r)"

fun spec_registry :: "registry_op \<Rightarrow> commit_seq multiset \<Rightarrow> commit_seq multiset" where
  "spec_registry (Register now snap) M = M + {#high snap#}"
| "spec_registry (Release now snap) M = M - {#high snap#}"

definition refs :: "snapshot_registry \<Rightarrow> commit_seq \<Rightarrow> nat" where
  "refs r s = (case bt_get (sr_active r) s of None \<Rightarrow> 0 | Some n \<Rightarrow> unat n)"

definition registry_ok :: "snapshot_registry \<Rightarrow> bool" where
  "registry_ok r \<longleftrightarrow>
     bt_inv (sr_active r) \<and> (\<forall>s n. bt_get (sr_active r) s = Some n \<longrightarrow> 0 < n)
   \<and> sr_atomic_watermark r = (case sr_active r of [] \<Rightarrow> WATERMARK_EMPTY | (s, _) # _ \<Rightarrow> seq_val s)
   \<and> (sr_oldest_registered_at r = None \<longleftrightarrow> sr_active r = [])"

lemma registry_ok_new: "registry_ok sr_new"
  by (simp add: registry_ok_def sr_new_def bt_inv_def)

lemma bt_insert_nonempty [simp]: "bt_insert k v m \<noteq> []"
  by (cases "(k, v, m)" rule: bt_insert.cases) auto

lemma sat_add_pos: "0 < saturating_add n (1 :: u64)"
  using saturating_add_ge [of n 1] by (cases "n = 0") (auto simp: arith_defs word_gt_0)

lemma unat_sat_add_one: "unat n + 1 < 2 ^ 64 \<Longrightarrow> unat (saturating_add n (1 :: u64)) = unat n + 1"
  by (simp add: arith_defs unat_word_ariths)

definition registered :: "snapshot \<Rightarrow> snapshot_registry \<Rightarrow> (commit_seq, u64) btree_map" where
  "registered snap r =
     bt_insert (high snap)
       (saturating_add (case bt_get (sr_active r) (high snap) of Some n \<Rightarrow> n | None \<Rightarrow> 0) 1) (sr_active r)"

lemma registered_nonempty [simp]: "registered snap r \<noteq> []"
  by (simp add: registered_def)

lemma register_fields:
  "sr_active (sr_register now snap r) = registered snap r"
  "sr_atomic_watermark (sr_register now snap r) = seq_val (fst (hd (registered snap r)))"
  "sr_oldest_registered_at (sr_register now snap r) \<noteq> None"
  by (auto simp: sr_register_def register_publish_def register_entry_def registered_def [symmetric]
      Let_def split: list.split)

lemma sr_register_ok:
  assumes "registry_ok r"
  shows "registry_ok (sr_register now snap r)"
proof -
  have "bt_inv (registered snap r)" "\<forall>s n. bt_get (registered snap r) s = Some n \<longrightarrow> 0 < n"
    using assms sat_add_pos by (auto simp: registered_def registry_ok_def)
  then show ?thesis
    using registered_nonempty [of snap r] unfolding registry_ok_def register_fields
    by (auto split: list.split simp: register_fields)
qed

lemma register_refs:
  assumes "registry_ok r" and "refs r (high snap) + 1 < 2 ^ 64"
  shows "refs (sr_register now snap r) = (refs r)(high snap := refs r (high snap) + 1)"
proof -
  have "bt_inv (sr_active r)" using assms by (simp add: registry_ok_def)
  then show ?thesis
    using assms(2)
    by (auto simp: refs_def fun_eq_iff register_fields registered_def unat_sat_add_one split: option.splits)
qed

lemma release_active:
  "sr_active (snd (sr_release now snap r)) =
     (case bt_get (sr_active r) (high snap) of
        None \<Rightarrow> sr_active r
      | Some n \<Rightarrow> if saturating_sub n 1 = 0 then bt_remove (high snap) (sr_active r)
                  else bt_insert (high snap) (saturating_sub n 1) (sr_active r))"
  by (simp add: sr_release_def Let_def split: option.split)

lemma release_watermark:
  "bt_get (sr_active r) (high snap) = Some n \<Longrightarrow>
     sr_atomic_watermark (snd (sr_release now snap r)) =
       (case sr_active (snd (sr_release now snap r)) of [] \<Rightarrow> WATERMARK_EMPTY | (s, _) # _ \<Rightarrow> seq_val s)"
  by (auto simp: sr_release_def Let_def split: list.split)

lemma release_oldest:
  assumes "registry_ok r"
  shows "sr_oldest_registered_at (snd (sr_release now snap r)) = None
           \<longleftrightarrow> sr_active (snd (sr_release now snap r)) = []"
  using assms by (auto simp: sr_release_def registry_ok_def Let_def split: option.split)

lemma sr_release_ok:
  assumes "registry_ok r"
  shows "registry_ok (snd (sr_release now snap r))"
proof (cases "bt_get (sr_active r) (high snap)")
  case None
  then show ?thesis using assms by (simp add: sr_release_def)
next
  case (Some n)
  have "bt_inv (sr_active r)" "\<forall>s n. bt_get (sr_active r) s = Some n \<longrightarrow> 0 < n"
    using assms by (auto simp: registry_ok_def)
  then show ?thesis
    unfolding registry_ok_def release_watermark [OF Some] release_oldest [OF assms]
    using Some by (auto simp: release_active word_gt_0 split: if_splits)
qed

lemma release_refs:
  assumes "registry_ok r"
  shows "refs (snd (sr_release now snap r)) = (refs r)(high snap := refs r (high snap) - 1)"
proof -
  have "bt_inv (sr_active r)" using assms by (simp add: registry_ok_def)
  then show ?thesis
    by (auto simp: refs_def fun_eq_iff release_active unat_saturating_sub unat_eq_0 [symmetric]
        split: option.splits if_splits)
qed

lemma release_reports:
  "registry_ok r \<Longrightarrow> fst (sr_release now snap r) \<longleftrightarrow> 0 < refs r (high snap)"
  by (auto simp: sr_release_def refs_def registry_ok_def Let_def word_gt_0 unat_gt_0 split: option.split)

definition registry_of :: "commit_seq multiset \<Rightarrow> snapshot_registry \<Rightarrow> bool" where
  "registry_of M r \<longleftrightarrow> registry_ok r \<and> refs r = count M"

lemma registry_of_step:
  assumes "registry_of M r" and "size M + 1 < 2 ^ 64"
  shows "registry_of (spec_registry x M) (run_registry x r)"
proof (cases x)
  case (Register now snap)
  have "count M (high snap) \<le> size M" by (rule count_le_size)
  then have "refs (sr_register now snap r) = (count M)(high snap := count M (high snap) + 1)"
    using assms register_refs [of r snap now] by (simp add: registry_of_def)
  then show ?thesis
    using assms Register by (auto simp: registry_of_def sr_register_ok fun_eq_iff)
next
  case (Release now snap)
  then show ?thesis
    using assms by (auto simp: registry_of_def sr_release_ok release_refs fun_eq_iff)
qed

lemma spec_registry_size: "size (spec_registry x M) \<le> size M + 1"
  by (cases x) (auto simp: size_Diff_singleton_if)

lemma registry_of_run:
  "registry_of M r \<Longrightarrow> size M + length ops < 2 ^ 64
     \<Longrightarrow> registry_of (fold spec_registry ops M) (fold run_registry ops r)"
proof (induction ops arbitrary: M r)
  case (Cons x ops)
  then show ?case
    using registry_of_step [of M r x] spec_registry_size [of x M] by (auto intro!: Cons.IH)
qed simp

lemma registry_of_new: "registry_of {#} sr_new"
  using registry_ok_new by (simp add: registry_of_def refs_def fun_eq_iff) (simp add: sr_new_def)

lemma registry_of_watermark:
  assumes "registry_of M r"
  shows "sr_watermark r = (if M = {#} then None else Some (Min (set_mset M)))"
proof -
  have inv: "bt_inv (sr_active r)" and pos: "\<And>s n. bt_get (sr_active r) s = Some n \<Longrightarrow> 0 < n"
    using assms by (auto simp: registry_of_def registry_ok_def)
  have dom: "set_mset M = fst ` set (sr_active r)"
  proof (intro set_eqI)
    fix s
    have "s \<in># M \<longleftrightarrow> 0 < refs r s" using assms by (simp add: registry_of_def count_greater_zero_iff)
    also have "\<dots> \<longleftrightarrow> bt_get (sr_active r) s \<noteq> None"
      using pos by (auto simp: refs_def unat_gt_0 word_gt_0 split: option.split)
    finally show "s \<in># M \<longleftrightarrow> s \<in> fst ` set (sr_active r)" by (simp add: bt_get_None_iff)
  qed
  show ?thesis
  proof (cases "sr_active r")
    case Nil
    then show ?thesis using dom by (simp add: sr_watermark_def)
  next
    case (Cons e m)
    have "Min (set_mset M) = fst e"
      unfolding dom Cons using inv Cons by (cases e) (force intro!: Min_eqI simp: bt_inv_Cons)
    moreover have "M \<noteq> {#}" using dom Cons by auto
    ultimately show ?thesis using Cons by (cases e) (simp add: sr_watermark_def)
  qed
qed

lemma lockfree_watermark:
  assumes "registry_ok r" and "CommitSeq (- 1) \<notin> fst ` set (sr_active r)"
  shows "watermark_lockfree r = sr_watermark r"
  using assms
  by (auto simp: watermark_lockfree_def watermark_load_def sr_watermark_def registry_ok_def
      WATERMARK_EMPTY_def commit_seq.expand split: list.split)

lemma registry_of_active: "registry_of M r \<Longrightarrow> s \<in> fst ` set (sr_active r) \<Longrightarrow> s \<in># M"
proof -
  assume M: "registry_of M r" and "s \<in> fst ` set (sr_active r)"
  then obtain n where n: "bt_get (sr_active r) s = Some n" using bt_get_None_iff [of "sr_active r" s] by auto
  have "n \<noteq> 0" using M n by (auto simp: registry_of_def registry_ok_def)
  then have "0 < refs r s" using n by (simp add: refs_def unat_gt_0)
  then show ?thesis using M by (simp add: registry_of_def)
qed

lemma spec_registry_members:
  "s \<in># fold spec_registry ops M \<Longrightarrow> s \<in># M \<or> (\<exists>now snap. Register now snap \<in> set ops \<and> s = high snap)"
proof (induction ops arbitrary: M)
  case (Cons x ops)
  have "s \<in># spec_registry x M \<Longrightarrow> s \<in># M \<or> (\<exists>now snap. x = Register now snap \<and> s = high snap)"
    by (cases x) (auto dest: in_diffD)
  with Cons.IH [of "spec_registry x M"] Cons.prems show ?case by auto
qed simp

text \<open>
  While \<open>register\<close> has inserted an entry older than the rest and not yet stored the watermark, a
  lock-free reader sees the former minimum, which is newer than the true one.
\<close>

lemma lockfree_lags_in_register:
  assumes "registry_ok r" "sr_watermark r = Some wm" "wm \<noteq> CommitSeq (- 1)" "high snap < wm"
  shows "watermark_lockfree (register_entry now snap r) = Some wm
    \<and> sr_watermark (register_entry now snap r) = Some (high snap)"
proof -
  obtain c m where r: "sr_active r = (wm, c) # m" using assms(2) by (auto simp: sr_watermark_def split: list.splits)
  then have w: "sr_atomic_watermark r = seq_val wm" using assms(1) by (simp add: registry_ok_def)
  have "watermark_lockfree (register_entry now snap r) = watermark_lockfree r"
    by (simp add: watermark_lockfree_def register_entry_def Let_def)
  moreover have "watermark_lockfree r = Some wm"
    using w assms(3) by (cases wm) (simp add: watermark_lockfree_def watermark_load_def WATERMARK_EMPTY_def)
  moreover have "sr_watermark (register_entry now snap r) = Some (high snap)"
    using assms(4) r by (simp add: sr_watermark_def register_entry_def Let_def)
  ultimately show ?thesis by simp
qed

section \<open>The registry implements the multiset\<close>

text \<open>
  C38: After any sequence of registrations and releases, of fewer than 2^64 operations and none at
  the reserved sequence number u64::MAX, the watermark read without a lock and the one read under
  the lock are both the least snapshot of the multiset of registrations not yet released (none if
  there is none), and a further release reports exactly whether its snapshot is still registered.
\<close>

theorem registry_refines_multiset:
  assumes "length ops < 2 ^ 64"
    and "\<forall>now snap. Register now snap \<in> set ops \<longrightarrow> high snap \<noteq> CommitSeq (- 1)"
  defines "r \<equiv> fold run_registry ops sr_new" and "M \<equiv> fold spec_registry ops {#}"
  shows "watermark_lockfree r = sr_watermark r
    \<and> sr_watermark r = (if M = {#} then None else Some (Min (set_mset M)))
    \<and> (fst (sr_release now snap r) \<longleftrightarrow> high snap \<in># M)"
proof -
  have of_M: "registry_of M r" using registry_of_run [OF registry_of_new, of ops] assms(1) by (simp add: r_def M_def)
  then have ok: "registry_ok r" and refs: "refs r = count M" by (auto simp: registry_of_def)
  have "CommitSeq (- 1) \<notin> fst ` set (sr_active r)"
    using registry_of_active [OF of_M] spec_registry_members [of _ ops "{#}"] assms(2) unfolding M_def by fastforce
  then show ?thesis
    using lockfree_watermark [OF ok] registry_of_watermark [OF of_M] release_reports [OF ok] refs
    by (simp add: count_greater_zero_iff)
qed

theorem registry_refines_multiset_witness:
  "(let ops = [Register 0 \<lparr>high = CommitSeq 7\<rparr>, Register 1 \<lparr>high = CommitSeq 5\<rparr>, Register 2 \<lparr>high = CommitSeq 5\<rparr>,
       Release 3 \<lparr>high = CommitSeq 5\<rparr>]
    in watermark_lockfree (fold run_registry ops sr_new) = Some (CommitSeq 5)
     \<and> fst (sr_release 4 \<lparr>high = CommitSeq 5\<rparr> (fold run_registry ops sr_new)))"
  using registry_refines_multiset [of "[Register 0 \<lparr>high = CommitSeq 7\<rparr>, Register 1 \<lparr>high = CommitSeq 5\<rparr>,
      Register 2 \<lparr>high = CommitSeq 5\<rparr>, Release 3 \<lparr>high = CommitSeq 5\<rparr>]" 4 "\<lparr>high = CommitSeq 5\<rparr>"]
  by (simp add: Let_def min_def less_eq_commit_seq_def)

end
