(* ===== verification/Mvcc_Device.thy ===== *)
theory Mvcc_Device
  imports Flush_Law Snapshot_Registry
begin

text \<open>
  \<open>MvccBlockDevice\<close> (\<open>ffs-mvcc/src/lib.rs\<close>), the block device that shows a version store over a
  base device, and \<open>StoreBackedMvccFlushLifecycle\<close>, which pins snapshots while dirty blocks are
  written back. The store and the registry are shared; the state of the device holds their
  current values.
\<close>

section \<open>The device\<close>

datatype snapshot_ownership = Inline snapshot | Handle snapshot | Unregistered snapshot

record ('f, 'd) mvcc_device =
  md_base :: 'd
  md_store :: "'f mvcc_store"
  md_registry :: snapshot_registry
  md_ownership :: snapshot_ownership
  md_read_your_writes :: bool

definition md_new ::
  "'d \<Rightarrow> 'f mvcc_store \<Rightarrow> snapshot_registry \<Rightarrow> snapshot \<Rightarrow> ('f, 'd) mvcc_device" where
  "md_new base st reg snap =
     \<lparr>md_base = base, md_store = register_snapshot snap st, md_registry = reg, md_ownership = Inline snap,
      md_read_your_writes = False\<rparr>"

definition md_new_unregistered ::
  "'d \<Rightarrow> 'f mvcc_store \<Rightarrow> snapshot_registry \<Rightarrow> snapshot \<Rightarrow> ('f, 'd) mvcc_device" where
  "md_new_unregistered base st reg snap =
     \<lparr>md_base = base, md_store = st, md_registry = reg, md_ownership = Unregistered snap,
      md_read_your_writes = False\<rparr>"

definition with_read_your_writes :: "('f, 'd) mvcc_device \<Rightarrow> ('f, 'd) mvcc_device" where
  "with_read_your_writes d = d\<lparr>md_read_your_writes := True\<rparr>"

definition md_with_registry ::
  "nat \<Rightarrow> 'd \<Rightarrow> 'f mvcc_store \<Rightarrow> snapshot \<Rightarrow> snapshot_registry \<Rightarrow> ('f, 'd) mvcc_device" where
  "md_with_registry now base st snap reg =
     (case sr_acquire now snap reg of (handle, reg) \<Rightarrow>
        \<lparr>md_base = base, md_store = st, md_registry = reg, md_ownership = Handle handle, md_read_your_writes = False\<rparr>)"

definition md_snapshot :: "('f, 'd) mvcc_device \<Rightarrow> snapshot" where
  "md_snapshot d = (case md_ownership d of Inline s \<Rightarrow> s | Handle s \<Rightarrow> s | Unregistered s \<Rightarrow> s)"

definition read_snapshot :: "('f, 'd) mvcc_device \<Rightarrow> snapshot" where
  "read_snapshot d = (if md_read_your_writes d then current_snapshot (md_store d) else md_snapshot d)"

definition reads_base_directly :: "('f, 'd) mvcc_device \<Rightarrow> bool" where
  "reads_base_directly d \<longleftrightarrow>
     (case md_ownership d of Unregistered _ \<Rightarrow> True | _ \<Rightarrow> False) \<and> \<not> md_read_your_writes d"

text \<open>Dropping the device releases its inline snapshot, or drops its handle.\<close>

definition md_drop :: "nat \<Rightarrow> ('f, 'd) mvcc_device \<Rightarrow> ('f, 'd) mvcc_device" where
  "md_drop now d =
     (case md_ownership d of
        Inline snap \<Rightarrow> d\<lparr>md_store := snd (release_snapshot snap (md_store d))\<rparr>
      | Handle snap \<Rightarrow> d\<lparr>md_registry := handle_drop now snap (md_registry d)\<rparr>
      | Unregistered _ \<Rightarrow> d)"

definition on_base :: "('d, 'a) io \<Rightarrow> (('f, 'd) mvcc_device, 'a) io" where
  "on_base = io_zoom md_base (\<lambda>b d. d\<lparr>md_base := b\<rparr>)"

section \<open>Reads\<close>

definition md_read_block :: "'f host \<Rightarrow> 'd block_device \<Rightarrow> block_number \<Rightarrow> (('f, 'd) mvcc_device, bytes) io" where
  "md_read_block h bd block =
     io_get (\<lambda>d.
       if reads_base_directly d then on_base (read_block bd block)
       else case read_visible h (md_store d) block (read_snapshot d) of
              Some buf \<Rightarrow> io_return buf
            | None \<Rightarrow> on_base (read_block bd block))"

definition visible_run :: "'f host \<Rightarrow> ('f, 'd) mvcc_device \<Rightarrow> block_number \<Rightarrow> nat \<Rightarrow> bytes option list" where
  "visible_run h d start n =
     map (\<lambda>block. read_visible h (md_store d) block (read_snapshot d)) (run_blocks start n)"

text \<open>
  A range with some visible versions: those are taken from the store, and every maximal run of
  other blocks is one ranged read of the base device.
\<close>

function fill_blocks ::
  "(block_number \<Rightarrow> bytes list \<Rightarrow> ('s, bytes list) io) \<Rightarrow> u64 \<Rightarrow> (bytes option \<times> bytes) list \<Rightarrow> ('s, bytes list) io" where
  "fill_blocks rd block [] = io_return []"
| "fill_blocks rd block ((Some buf, _) # rest) =
     io_bind (fill_blocks rd (block + 1) rest) (\<lambda>bufs. io_return (buf # bufs))"
| "fill_blocks rd block ((None, old) # rest) =
     (let run = old # map snd (takeWhile (\<lambda>e. fst e = None) rest)
      in io_bind (rd (BlockNumber block) run) (\<lambda>bufs.
         io_bind (fill_blocks rd (block + of_nat (length run)) (dropWhile (\<lambda>e. fst e = None) rest)) (\<lambda>bufs'.
         io_return (bufs @ bufs'))))"
  by pat_completeness auto
termination
  by (relation "measure (\<lambda>(_, _, es). length es)") (auto simp: less_Suc_eq_le length_dropWhile_le)

definition md_read_contiguous_blocks ::
  "'f host \<Rightarrow> 'd block_device \<Rightarrow> block_number \<Rightarrow> bytes list \<Rightarrow> (('f, 'd) mvcc_device, bytes list) io" where
  "md_read_contiguous_blocks h bd start bufs =
     (if bufs = [] then io_return []
      else io_option (try_from_nat (length bufs)) (Format ''block count does not fit u64'') (\<lambda>n.
           io_option (checked_add (bn_val start) n) (Format ''block range overflow'') (\<lambda>_.
           io_get (\<lambda>d.
             if reads_base_directly d then on_base (read_contiguous_blocks bd start bufs)
             else let visible = visible_run h d start (length bufs)
                  in if list_all (\<lambda>v. v = None) visible then on_base (read_contiguous_blocks bd start bufs)
                     else fill_blocks (\<lambda>block run. on_base (read_contiguous_blocks bd block run))
                            (bn_val start) (zip visible bufs)))))"

text \<open>
  The same into one destination buffer, where a version of another length than a block panics in
  \<open>copy_from_slice\<close>.
\<close>

function fill_into ::
  "(block_number \<Rightarrow> usize \<Rightarrow> ('s, bytes) io) \<Rightarrow> nat \<Rightarrow> u64 \<Rightarrow> bytes option list \<Rightarrow> ('s, bytes) io" where
  "fill_into rd bs block [] = io_return []"
| "fill_into rd bs block (Some buf # rest) =
     (if length buf \<noteq> bs then io_panic
      else io_bind (fill_into rd bs (block + 1) rest) (\<lambda>tail. io_return (buf @ tail)))"
| "fill_into rd bs block (None # rest) =
     (let run = Suc (length (takeWhile (\<lambda>v. v = None) rest))
      in io_bind (rd (BlockNumber block) (run * bs)) (\<lambda>head.
         io_bind (fill_into rd bs (block + of_nat run) (dropWhile (\<lambda>v. v = None) rest)) (\<lambda>tail.
         io_return (head @ tail))))"
  by pat_completeness auto
termination
  by (relation "measure (\<lambda>(_, _, _, vs). length vs)") (auto simp: less_Suc_eq_le length_dropWhile_le)

definition md_read_contiguous_into ::
  "'f host \<Rightarrow> 'd block_device \<Rightarrow> block_number \<Rightarrow> usize \<Rightarrow> (('f, 'd) mvcc_device, bytes) io" where
  "md_read_contiguous_into h bd start len =
     io_get (\<lambda>d.
       let bs = unat (dev_block_size bd (md_base d)) in
       if bs = 0 \<or> len mod bs \<noteq> 0
       then io_fail (Format ''read_contiguous_into: dst length must be a multiple of block size'')
       else if len = 0 then io_return []
       else io_option (try_from_nat (len div bs)) (Format ''block range exceeds u64'') (\<lambda>n.
            io_option (checked_add (bn_val start) n) (Format ''block range overflow'') (\<lambda>_.
            if reads_base_directly d then on_base (read_contiguous_into bd start len)
            else let visible = visible_run h d start (len div bs)
                 in if list_all (\<lambda>v. v = None) visible then on_base (read_contiguous_into bd start len)
                    else fill_into (\<lambda>block n. on_base (read_contiguous_into bd block n)) bs (bn_val start) visible)))"

section \<open>Writes\<close>

definition debug_seq :: "commit_seq \<Rightarrow> string" where
  "debug_seq s = ''CommitSeq('' @ show_nat (unat (seq_val s)) @ '')''"

fun commit_error_text :: "commit_error \<Rightarrow> string" where
  "commit_error_text (Conflict block snap observed) =
     ''first-committer-wins conflict on block '' @ show_nat (unat (bn_val block)) @ '': snapshot='' @ debug_seq snap
     @ '', observed='' @ debug_seq observed"
| "commit_error_text (SsiConflict pivot read_at wrote_at other) =
     ''SSI: two-edge dangerous structure detected via block '' @ show_nat (unat (bn_val pivot))
     @ '' (this txn read it at '' @ debug_seq read_at @ '', concurrent txn TxnId('' @ show_nat (unat (txn_val other))
     @ '') wrote it at '' @ debug_seq wrote_at @ '')''"
| "commit_error_text (ChainBackpressure block chain_len cap critical_len wm) =
     ''version chain backpressure on block '' @ show_nat (unat (bn_val block)) @ '': len='' @ show_nat chain_len
     @ '', cap='' @ show_nat cap @ '', critical='' @ show_nat critical_len @ '', watermark='' @ debug_seq wm"
| "commit_error_text (DurabilityFailure detail) = ''commit durability failure: '' @ detail"

definition md_write_block ::
  "'f host \<Rightarrow> timing \<Rightarrow> block_number \<Rightarrow> bytes \<Rightarrow> (('f, 'd) mvcc_device, unit) io" where
  "md_write_block h tm block data =
     io_get (\<lambda>d.
       if reads_base_directly d
       then io_fail (UnsupportedFeature ''unregistered MVCC block device is read-only'')
       else case begin_txn (md_store d) of (txn, st) \<Rightarrow>
            case commit_txn h tm (stage_write txn block data) st of (r, st) \<Rightarrow>
              io_then (io_modify (\<lambda>d. d\<lparr>md_store := st\<rparr>))
                (case r of
                   Inr _ \<Rightarrow> io_return ()
                 | Inl (Fails err) \<Rightarrow> io_fail (Format (commit_error_text err))
                 | Inl Panics \<Rightarrow> io_panic))"

definition mvcc_block_device ::
  "'f host \<Rightarrow> timing \<Rightarrow> 'd block_device \<Rightarrow> ('f, 'd) mvcc_device block_device" where
  "mvcc_block_device h tm bd =
     (let bsize = (\<lambda>d. dev_block_size bd (md_base d));
          bcount = (\<lambda>d. block_count bd (md_base d));
          rd = md_read_block h bd;
          wr = md_write_block h tm;
          wr_run = default_write_contiguous_blocks bsize bcount wr
      in \<lparr>read_block = rd, supports_contiguous_reads = supports_contiguous_reads bd,
          read_contiguous_blocks = md_read_contiguous_blocks h bd,
          read_contiguous_into = md_read_contiguous_into h bd, write_block = wr,
          rmw_block = default_rmw_block rd wr,
          rmw_block_bitmap_or = default_rmw_block_bitmap rd wr,
          rmw_block_bitmap_delta = default_rmw_block_bitmap rd wr,
          read_merge_ancestor_at_snapshot = default_read_merge_ancestor rd,
          supports_contiguous_writes = False,
          write_contiguous_blocks_vectored = default_write_contiguous_blocks_vectored wr_run,
          write_contiguous_blocks = wr_run, dev_block_size = bsize, block_count = bcount,
          block_sync = on_base (block_sync bd)\<rparr>)"

section \<open>Flush pins\<close>

record 'f flush_lifecycle =
  fl_store :: "'f mvcc_store"
  active_flush_pins :: u64
  acquired_flush_pins :: u64
  released_flush_pins :: u64

datatype flush_pin_token = NoopPin | StorePin snapshot

definition flush_lifecycle_new :: "'f mvcc_store \<Rightarrow> 'f flush_lifecycle" where
  "flush_lifecycle_new st =
     \<lparr>fl_store = st, active_flush_pins = 0, acquired_flush_pins = 0, released_flush_pins = 0\<rparr>"

definition pin_for_flush ::
  "block_number \<Rightarrow> commit_seq \<Rightarrow> 'f flush_lifecycle \<Rightarrow> flush_pin_token ffs_result \<times> 'f flush_lifecycle" where
  "pin_for_flush block seq l =
     (if seq = CommitSeq 0 then (Inr NoopPin, l)
      else let snap = \<lparr>high = seq\<rparr>
           in (Inr (StorePin snap),
               l\<lparr>fl_store := register_snapshot snap (fl_store l),
                 active_flush_pins := saturating_add (active_flush_pins l) 1,
                 acquired_flush_pins := saturating_add (acquired_flush_pins l) 1\<rparr>))"

fun drop_flush_pin :: "flush_pin_token \<Rightarrow> 'f flush_lifecycle \<Rightarrow> 'f flush_lifecycle" where
  "drop_flush_pin NoopPin l = l"
| "drop_flush_pin (StorePin snap) l =
     l\<lparr>fl_store := snd (release_snapshot snap (fl_store l)),
       active_flush_pins := (case checked_sub (active_flush_pins l) 1 of None \<Rightarrow> active_flush_pins l | Some n \<Rightarrow> n),
       released_flush_pins := saturating_add (released_flush_pins l) 1\<rparr>"

end
