(* ===== verification/Mvcc_Law.thy ===== *)
theory Mvcc_Law
  imports Mvcc_Device Store_Props
begin

text \<open>
  The versioned device over any base device that meets the block contract: with read-your-writes
  it is itself such a device, whose blocks are the newest versions over those of the base, and no
  operation panics. A flush and the eviction of flushed chains do not change them; a device with
  a fixed snapshot is not protected from a flush.
\<close>

section \<open>Contents\<close>

lemma block_of_bnum [simp]: "BlockNumber (of_nat (bnum b)) = b"
  by (cases b) simp

lemma read_through_block:
  "read_through h st v s (bnum b) = (case version_bytes_at h st b s of None \<Rightarrow> v ! bnum b | Some data \<Rightarrow> data)"
  by (simp add: read_through_def)

definition current_fits :: "'f host \<Rightarrow> nat \<Rightarrow> nat \<Rightarrow> 'f mvcc_store \<Rightarrow> bool" where
  "current_fits h len n st \<longleftrightarrow>
     (\<forall>b data. bnum b < len \<longrightarrow> version_bytes_at h st b (high (current_snapshot st)) = Some data \<longrightarrow> length data = n)"

definition md_ok ::
  "'f host \<Rightarrow> ('d \<Rightarrow> bool) \<Rightarrow> ('d \<Rightarrow> bytes list) \<Rightarrow> nat \<Rightarrow> ('f, 'd) mvcc_device \<Rightarrow> bool" where
  "md_ok h ok blocks n d \<longleftrightarrow>
     ok (md_base d) \<and> store_ok h (md_store d) \<and> md_read_your_writes d
   \<and> current_fits h (length (blocks (md_base d))) n (md_store d)"

definition md_blocks :: "'f host \<Rightarrow> ('d \<Rightarrow> bytes list) \<Rightarrow> ('f, 'd) mvcc_device \<Rightarrow> bytes list" where
  "md_blocks h blocks d = overlay h (md_store d) (blocks (md_base d))"

lemma length_overlay [simp]: "length (overlay h st v) = length v"
  by (simp add: overlay_def)

lemma overlay_nth: "i < length v \<Longrightarrow> overlay h st v ! i = read_through h st v (high (current_snapshot st)) i"
  by (simp add: overlay_def)

definition pick :: "bytes option \<Rightarrow> bytes \<Rightarrow> bytes" where
  "pick v base = (case v of None \<Rightarrow> base | Some buf \<Rightarrow> buf)"

lemma pick_simps [simp]: "pick None base = base" "pick (Some buf) base = buf"
  by (simp_all add: pick_def)

lemma map2_pick_none:
  "list_all (\<lambda>v. v = None) vs \<Longrightarrow> length vs \<le> length ws \<Longrightarrow> map2 pick vs ws = take (length vs) ws"
  by (intro nth_equalityI) (simp_all add: list_all_length)

lemma map2_pick_run:
  "length vs + length rest \<le> length ws \<Longrightarrow> list_all (\<lambda>v. v = None) vs \<Longrightarrow>
     map2 pick (vs @ rest) ws = take (length vs) ws @ map2 pick rest (drop (length vs) ws)"
  using map2_pick_none [of vs "take (length vs) ws"] by (simp add: zip_append1)

lemma drop_next:
  fixes block :: u64
  assumes "unat block + k \<le> len" "len < 2 ^ 64"
  shows "unat (block + of_nat k) = unat block + k"
  using assms by (simp add: unat_word_ariths unat_of_nat)

section \<open>A write is a commit of one block\<close>

lemma stage_one:
  "stage_write (transaction_new ident snap) b data =
     (transaction_new ident snap)\<lparr>txn_staged := [(b, \<lparr>sw_bytes = data, sw_proof = Unsafe, sw_base = None\<rparr>)]\<rparr>"
  by (simp add: stage_write_def stage_write_with_proof_def insert_staged_write_def staged_write_pos_def
      binary_search_by_def transaction_new_def)

definition write_txn :: "'f mvcc_store \<Rightarrow> block_number \<Rightarrow> bytes \<Rightarrow> transaction" where
  "write_txn st b data = stage_write (fst (begin_txn st)) b data"

lemma write_txn_fields:
  "txn_staged (write_txn st b data) = [(b, \<lparr>sw_bytes = data, sw_proof = Unsafe, sw_base = None\<rparr>)]"
  "txn_snapshot (write_txn st b data) = current_snapshot st" "txn_ok (write_txn st b data)"
  unfolding write_txn_def begin_txn_def fst_conv stage_one
  by (simp_all add: txn_ok_def transaction_new_def bt_inv_def)

lemma latest_le_current:
  assumes "store_ok h st"
  shows "latest_commit_seq st b \<le> high (current_snapshot st)"
proof (cases "bt_get (versions st) b")
  case (Some vs)
  then have ok: "chain_ok h b (next_commit st) vs" using assms by (simp add: store_ok_def chains_ok_def)
  then have "last vs \<in> set (visible (high (current_snapshot st)) vs)" "vs \<noteq> []"
    using all_visible [OF ok] by (simp_all add: current_snapshot_def chain_ok_def)
  then show ?thesis using Some by (auto simp: latest_commit_seq_def visible_def dest: set_takeWhileD)
qed (simp add: latest_commit_seq_def less_eq_commit_seq_def)

text \<open>No staged block of the transaction has a version newer than its snapshot.\<close>

definition unconflicted :: "transaction \<Rightarrow> 'f mvcc_store \<Rightarrow> block_number list \<Rightarrow> bool" where
  "unconflicted txn st bs \<longleftrightarrow> (\<forall>b \<in> set bs. latest_commit_seq st b \<le> high (txn_snapshot txn))"

lemma unconflicted_frame: "preflight_frame st st' \<Longrightarrow> unconflicted txn st' bs = unconflicted txn st bs"
  by (simp add: unconflicted_def preflight_frame_def same_data_def latest_commit_seq_def)

lemma preflight_loop_calm:
  "unconflicted txn st bs \<Longrightarrow> fst (preflight_loop h tm txn eff rm cap c m bs st) \<noteq> Inl Panics"
proof (induction bs arbitrary: c m st)
  case (Cons b bs)
  have nc: "\<not> high (txn_snapshot txn) < latest_commit_seq st b"
    using Cons.prems by (simp add: unconflicted_def not_less)
  obtain r st1 where p: "pressure_step h rm c m b cap st = (r, st1)" by (cases "pressure_step h rm c m b cap st")
  have "unconflicted txn st1 bs"
    using pressure_step_frame [of st h rm c m b cap] p Cons.prems unconflicted_frame [of st st1 txn bs]
    by (simp add: unconflicted_def)
  moreover have "r \<noteq> Inl Panics"
    using p by (auto simp: pressure_step_def split: option.splits prod.splits sum.splits)
  ultimately show ?case using nc p Cons.IH by (auto split: sum.split)
qed simp

lemma merge_loop_calm:
  "unconflicted txn st (map fst ws) \<Longrightarrow> merge_loop h st txn eff ws m = Inr m"
  by (induction ws arbitrary: m) (auto simp: unconflicted_def)

lemma commit_calm:
  assumes "unconflicted txn st (map fst (txn_staged txn))"
  shows "fst (commit_txn h tm txn st) \<noteq> Inl Panics"
proof -
  have a: "unconflicted txn (attempt st) (map fst (txn_staged txn))"
    using assms unconflicted_frame [OF attempt_core(2)] by blast
  obtain r st1 where p: "preflight_fcw h tm txn (attempt st) = (r, st1)" by (cases "preflight_fcw h tm txn (attempt st)")
  have "fst (preflight_fcw h tm txn (attempt st)) \<noteq> Inl Panics"
    using preflight_loop_calm [OF a] by (auto simp: preflight_fcw_def Let_def split: sum.split prod.split) (metis fst_conv)
  then have r: "r \<noteq> Inl Panics" by (simp add: p)
  have "unconflicted txn st1 (map fst (txn_staged txn))"
    using a preflight_frame [of "attempt st" h tm txn] p unconflicted_frame by (metis snd_conv)
  from merge_loop_calm [OF this] have "fst (apply_fcw_commit h txn st1) \<noteq> Inl Panics"
    by (auto simp: apply_fcw_commit_def next_commit_seq_def split: sum.split option.split)
  then have "fst (commit_fcw_internal h tm txn (attempt st)) \<noteq> Inl Panics"
    using r by (auto simp: commit_fcw_internal_def p split: sum.split)
  then show ?thesis
    by (auto simp: commit_txn_def finish_commit_def split: prod.split sum.split commit_fault.split)
qed

lemma write_commit:
  assumes "lossless h" "store_ok h st" "begin_txn st = (txn, st0)" "commit_txn h tm (stage_write txn b data) st0 = (r, st')"
  shows "store_ok h st'" "r \<noteq> Inl Panics"
    "r = Inr seq \<Longrightarrow> read_visible h st' c (current_snapshot st')
       = (if c = b then Some data else read_visible h st c (current_snapshot st))"
    "r = Inl e \<Longrightarrow> read_visible h st' c (current_snapshot st') = read_visible h st c (current_snapshot st)"
proof -
  have txn: "stage_write txn b data = write_txn st b data" using assms(3) by (simp add: write_txn_def)
  have core: "same_core st st0" using bookkeeping_core(1) [of st] assms(3) by simp
  have ok0: "store_ok h st0" using same_core_cong(1) [OF core] assms(2) by blast
  have same: "current_snapshot st0 = current_snapshot st" "versions st0 = versions st"
    using core by (auto simp: same_core_def same_data_def current_snapshot_def)
  then have rd: "read_visible h st0 c s = read_visible h st c s" for c s by (simp add: read_visible_def)
  note fields = write_txn_fields [of st b data]
  have out: "commit_outcome h (write_txn st b data) st0 r st'"
    using commit_txn_outcome [OF assms(1) ok0 fields(3)] assms(4) unfolding txn by blast
  show "store_ok h st'" using out ok0 fields(3) by (rule outcome_ok)
  have latest: "latest_commit_seq st0 b \<le> high (txn_snapshot (write_txn st b data))"
    using latest_le_current [OF ok0, of b] by (simp add: fields(2) same(1))
  then show "r \<noteq> Inl Panics"
    using commit_calm [of "write_txn st b data" st0 h tm] assms(4) unfolding txn by (simp add: unconflicted_def fields(1))
  show "read_visible h st' c (current_snapshot st') = read_visible h st c (current_snapshot st)" if "r = Inl e"
    using out that same
    by (auto simp: commit_outcome_def preflight_frame_def same_data_def read_visible_def current_snapshot_def)
  show "read_visible h st' c (current_snapshot st') = (if c = b then Some data else read_visible h st c (current_snapshot st))"
    if "r = Inr seq"
  proof -
    note v = commit_visible [OF ok0 fields(3) out [unfolded that]]
    show ?thesis using v(3) [of c] v(4) [of b] latest by (simp add: v(2) fields(1) rd same(1))
  qed
qed

section \<open>Reads through the store\<close>

context block_contract
begin

text \<open>The device differs from \<open>d\<close> at most in the state of its base, which still shows \<open>w\<close>.\<close>

definition over :: "('f, 'd) mvcc_device \<Rightarrow> bytes list \<Rightarrow> ('f, 'd) mvcc_device \<Rightarrow> bool" where
  "over d w d' \<longleftrightarrow> shows_blocks w (md_base d') \<and> d' = d\<lparr>md_base := md_base d'\<rparr>"

lemma over_base:
  assumes "triple (shows_blocks w) m (\<lambda>x b. shows_blocks w b \<and> x = a) (shows_blocks w)"
  shows "triple (over d w) (on_base m) (\<lambda>x d'. over d w d' \<and> x = a) (over d w)"
  unfolding on_base_def
proof (rule triple_zoom)
  fix s
  assume s: "over d w s"
  have keep: "over d w (s\<lparr>md_base := b\<rparr>)" if "shows_blocks w b" for b
  proof -
    have "s = d\<lparr>md_base := md_base s\<rparr>" using s by (simp add: over_def)
    then have "s\<lparr>md_base := b\<rparr> = d\<lparr>md_base := b\<rparr>" by (metis mvcc_device.update_convs(1) mvcc_device.surjective)
    then show ?thesis using that by (simp add: over_def)
  qed
  show "triple ((=) (md_base s)) m (\<lambda>x b. over d w (s\<lparr>md_base := b\<rparr>) \<and> x = a) (\<lambda>b. over d w (s\<lparr>md_base := b\<rparr>))"
    by (rule triple_conseq [OF assms]) (use s keep in \<open>auto simp: over_def\<close>)
qed

lemma fill_blocks_law:
  fixes d :: "('f, 'd) mvcc_device"
  assumes "unat block + length es \<le> length w" "length w < 2 ^ 64"
  shows "triple (over d w) (fill_blocks (\<lambda>b run. on_base (read_contiguous_blocks bd b run)) block es)
    (\<lambda>bufs d'. over d w d' \<and> bufs = map2 pick (map fst es) (drop (unat block) w)) (over d w)"
  using assms
proof (induction "\<lambda>b run. on_base (read_contiguous_blocks bd b run) :: (('f, 'd) mvcc_device, bytes list) io" block es
    rule: fill_blocks.induct)
  case (1 block)
  then show ?case by (simp add: triple_return)
next
  case (2 block buf old rest)
  have nxt: "unat (block + 1) = unat block + 1" using 2(2,3) drop_next [of block 1 "length w"] by simp
  have "drop (unat block) w = w ! unat block # drop (unat block + 1) w" using 2(2) by (simp add: Cons_nth_drop_Suc)
  then show ?case unfolding fill_blocks.simps
    using 2 nxt by (intro triple_bind_value [OF 2(1)]) (auto intro: triple_return)
next
  case (3 block old rest)
  let ?none = "\<lambda>e :: bytes option \<times> bytes. fst e = None"
  let ?run = "old # map snd (takeWhile ?none rest)" and ?rest = "dropWhile ?none rest"
  have len: "length ?run + length ?rest = length ((None, old) # rest)"
    by (metis add_Suc length_Cons length_append length_map takeWhile_dropWhile_id)
  have nxt: "unat (block + of_nat (length ?run)) = unat block + length ?run"
    using 3(2,3) len by (intro drop_next [of _ _ "length w"]) auto
  have read: "triple (over d w) (on_base (read_contiguous_blocks bd (BlockNumber block) ?run))
      (\<lambda>bufs d'. over d w d' \<and> bufs = take (length ?run) (drop (unat block) w)) (over d w)"
    by (rule over_base, rule triple_conseq [OF read_run_law [of "BlockNumber block" ?run w]])
      (use 3(2) len in \<open>auto simp: segment_def\<close>)
  have "map fst ((None, old) # rest) = (None # map fst (takeWhile ?none rest)) @ map fst ?rest"
    by (metis append_Cons map_append takeWhile_dropWhile_id list.simps(9) fst_conv)
  moreover have "list_all (\<lambda>v. v = None) (None # map fst (takeWhile ?none rest))"
    by (auto simp: list_all_iff dest: set_takeWhileD)
  ultimately have val: "map2 pick (map fst ((None, old) # rest)) (drop (unat block) w) =
      take (length ?run) (drop (unat block) w) @ map2 pick (map fst ?rest) (drop (unat block + length ?run) w)"
    using map2_pick_run [of "None # map fst (takeWhile ?none rest)" "map fst ?rest" "drop (unat block) w"] 3(2) len
    by (simp add: add.commute)
  have tail: "triple (over d w) (fill_blocks (\<lambda>b run. on_base (read_contiguous_blocks bd b run)) (block + of_nat (length ?run)) ?rest)
      (\<lambda>bufs d'. over d w d' \<and> bufs = map2 pick (map fst ?rest) (drop (unat block + length ?run) w)) (over d w)"
    using 3(1) [OF refl] 3(2,3) len nxt by simp
  show ?case unfolding fill_blocks.simps Let_def val
    by (rule triple_bind_value [OF read], rule triple_bind_value [OF tail]) (auto intro: triple_return)
qed

lemma fill_gap:
  fixes d :: "('f, 'd) mvcc_device"
  assumes "unat block + length (None # rest) \<le> length w" "length w < 2 ^ 64"
    and "\<forall>buf. Some buf \<in> set (None # rest) \<longrightarrow> length buf = n"
    and "\<And>vs block. length vs < length (None # rest) \<Longrightarrow> unat block + length vs \<le> length w \<Longrightarrow> length w < 2 ^ 64
      \<Longrightarrow> \<forall>buf. Some buf \<in> set vs \<longrightarrow> length buf = n \<Longrightarrow>
      triple (over d w) (fill_into (\<lambda>b k. on_base (read_contiguous_into bd b k)) n block vs)
        (\<lambda>bs d'. over d w d' \<and> bs = concat (map2 pick vs (drop (unat block) w))) (over d w)"
  shows "triple (over d w) (fill_into (\<lambda>b k. on_base (read_contiguous_into bd b k)) n block (None # rest))
    (\<lambda>bs d'. over d w d' \<and> bs = concat (map2 pick (None # rest) (drop (unat block) w))) (over d w)"
proof -
  let ?none = "\<lambda>v :: bytes option. v = None"
  let ?run = "Suc (length (takeWhile ?none rest))" and ?rest = "dropWhile ?none rest"
  have len: "?run + length ?rest = length (None # rest)"
    by (metis add_Suc length_Cons length_append takeWhile_dropWhile_id)
  have nxt: "unat (block + of_nat ?run) = unat block + ?run"
    using assms(1,2) len by (intro drop_next [of _ _ "length w"]) auto
  have read: "triple (over d w) (on_base (read_contiguous_into bd (BlockNumber block) (?run * n)))
      (\<lambda>bs d'. over d w d' \<and> bs = concat (take ?run (drop (unat block) w))) (over d w)"
    by (rule over_base, rule triple_conseq [OF read_into_law [of "BlockNumber block" ?run w]])
      (use assms(1) len in \<open>auto simp: segment_def\<close>)
  have "None # rest = (None # takeWhile ?none rest) @ ?rest" by simp
  moreover have "list_all ?none (None # takeWhile ?none rest)" by (auto simp: list_all_iff dest: set_takeWhileD)
  ultimately have val: "map2 pick (None # rest) (drop (unat block) w) =
      take ?run (drop (unat block) w) @ map2 pick ?rest (drop (unat block + ?run) w)"
    using map2_pick_run [of "None # takeWhile ?none rest" ?rest "drop (unat block) w"] assms(1) len
    by (simp add: add.commute)
  have tail: "triple (over d w) (fill_into (\<lambda>b k. on_base (read_contiguous_into bd b k)) n (block + of_nat ?run) ?rest)
      (\<lambda>bs d'. over d w d' \<and> bs = concat (map2 pick ?rest (drop (unat block + ?run) w))) (over d w)"
    using assms(4) [of ?rest "block + of_nat ?run"] assms(1-3) len nxt by (auto simp: less_Suc_eq_le length_dropWhile_le dest: set_dropWhileD)
  show ?thesis unfolding fill_into.simps Let_def val
    by (rule triple_bind_value [OF read], rule triple_bind_value [OF tail]) (auto intro: triple_return)
qed

lemma fill_into_law:
  fixes d :: "('f, 'd) mvcc_device"
  assumes "unat block + length vs \<le> length w" "length w < 2 ^ 64" "\<forall>buf. Some buf \<in> set vs \<longrightarrow> length buf = n"
  shows "triple (over d w) (fill_into (\<lambda>b k. on_base (read_contiguous_into bd b k)) n block vs)
    (\<lambda>bs d'. over d w d' \<and> bs = concat (map2 pick vs (drop (unat block) w))) (over d w)"
  using assms
proof (induction vs arbitrary: block rule: measure_induct_rule [of length])
  case (less vs)
  let ?fill = "fill_into (\<lambda>b k. on_base (read_contiguous_into bd b k)) n :: _ \<Rightarrow> _ \<Rightarrow> (('f, 'd) mvcc_device, bytes) io"
  show ?case
  proof (cases vs)
    case Nil
    then show ?thesis by (simp add: triple_return)
  next
    case (Cons x rest)
    show ?thesis
    proof (cases x)
      case (Some buf)
      have nxt: "unat (block + 1) = unat block + 1" using less(2,3) drop_next [of block 1 "length w"] by (simp add: Cons)
      have drop: "drop (unat block) w = w ! unat block # drop (unat block + 1) w"
        using less(2) by (simp add: Cons Cons_nth_drop_Suc)
      have IH: "triple (over d w) (?fill (block + 1) rest)
          (\<lambda>bs d'. over d w d' \<and> bs = concat (map2 pick rest (drop (unat (block + 1)) w))) (over d w)"
        by (rule less(1)) (use less(2-4) nxt in \<open>auto simp: Cons\<close>)
      have buf: "length buf = n" using less(4) by (simp add: Cons Some)
      have "triple (over d w) (io_bind (?fill (block + 1) rest) (\<lambda>tail. io_return (buf @ tail)))
          (\<lambda>bs d'. over d w d' \<and> bs = buf @ concat (map2 pick rest (drop (unat block + 1) w))) (over d w)"
        by (rule triple_bind_value [OF IH]) (auto simp: nxt intro: triple_return)
      then show ?thesis using buf by (simp add: Cons Some drop)
    next
      case None
      then have vs: "vs = None # rest" by (simp add: Cons)
      show ?thesis unfolding vs
      proof (rule fill_gap)
        fix vs' :: "bytes option list" and block :: u64
        assume "length vs' < length (None # rest)" "unat block + length vs' \<le> length w" "length w < 2 ^ 64"
          "\<forall>buf. Some buf \<in> set vs' \<longrightarrow> length buf = n"
        then show "triple (over d w) (?fill block vs')
            (\<lambda>bs d'. over d w d' \<and> bs = concat (map2 pick vs' (drop (unat block) w))) (over d w)"
          unfolding vs [symmetric] by (rule less(1))
      qed (use less(2-4) vs in auto)
    qed
  qed
qed

section \<open>The versioned device as a block device\<close>

abbreviation md_holds :: "'f host \<Rightarrow> bytes list \<Rightarrow> ('f, 'd) mvcc_device \<Rightarrow> bool" where
  "md_holds h v \<equiv> holds (md_ok h ok blocks n) (md_blocks h blocks) v"

lemma over_self: "md_ok h ok blocks n d \<Longrightarrow> over d (blocks (md_base d)) d"
  by (simp add: over_def md_ok_def holds_def)

lemma over_holds:
  assumes "md_holds h v d" "over d (blocks (md_base d)) d'"
  shows "md_holds h v d'"
proof -
  have b: "shows_blocks (blocks (md_base d)) (md_base d')" and e: "d' = d\<lparr>md_base := md_base d'\<rparr>"
    using assms(2) by (simp_all add: over_def)
  have "md_store d' = md_store d" "md_read_your_writes d' = md_read_your_writes d" by (subst e, simp)+
  then show ?thesis using assms(1) b by (simp add: holds_def md_ok_def md_blocks_def)
qed

lemma triple_over:
  assumes "md_holds h v d"
    and "triple (over d (blocks (md_base d))) m (\<lambda>x d'. over d (blocks (md_base d)) d' \<and> x = a) (over d (blocks (md_base d)))"
    and "a = a'"
  shows "triple ((=) d) m (\<lambda>x d'. md_holds h v d' \<and> x = a') (md_holds h v)"
proof (rule triple_conseq [OF assms(2)])
  have "md_ok h ok blocks n d" using assms(1) by (simp add: holds_def)
  then show "over d (blocks (md_base d)) d'" if "d = d'" for d' using over_self that by blast
qed (use over_holds [OF assms(1)] assms(3) in auto)

lemma md_holdsD:
  assumes "md_holds h v d"
  shows "length (blocks (md_base d)) = length v" "length v < 2 ^ 64" "\<not> reads_base_directly d"
    "read_snapshot d = current_snapshot (md_store d)" "ok (md_base d)" "store_ok h (md_store d)"
    "bnum b < length v \<Longrightarrow> v ! bnum b = pick (read_visible h (md_store d) b (read_snapshot d)) (blocks (md_base d) ! bnum b)"
    "bnum b < length v \<Longrightarrow> read_visible h (md_store d) b (read_snapshot d) = Some buf \<Longrightarrow> length buf = n"
proof -
  have v: "v = overlay h (md_store d) (blocks (md_base d))" and okd: "md_ok h ok blocks n d"
    using assms by (simp_all add: holds_def md_blocks_def)
  show *: "length (blocks (md_base d)) = length v" "ok (md_base d)" "store_ok h (md_store d)"
    using v okd by (simp_all add: md_ok_def)
  show "length v < 2 ^ 64" using small_count [OF *(2)] *(1) by simp
  show "\<not> reads_base_directly d" and r: "read_snapshot d = current_snapshot (md_store d)"
    using okd by (simp_all add: md_ok_def reads_base_directly_def read_snapshot_def)
  show "v ! bnum b = pick (read_visible h (md_store d) b (read_snapshot d)) (blocks (md_base d) ! bnum b)" if "bnum b < length v"
  proof -
    have "v ! bnum b = read_through h (md_store d) (blocks (md_base d)) (high (current_snapshot (md_store d))) (bnum b)"
      unfolding v by (rule overlay_nth) (use that *(1) in simp)
    then show ?thesis unfolding r read_visible_bytes_at read_through_block by (simp add: pick_def)
  qed
  show "length buf = n" if "bnum b < length v" "read_visible h (md_store d) b (read_snapshot d) = Some buf"
    using okd that *(1) unfolding r read_visible_bytes_at by (simp add: md_ok_def current_fits_def)
qed

lemma visible_run_values:
  assumes "md_holds h v d" "bnum start + k \<le> length v"
  shows "map2 pick (visible_run h d start k) (drop (bnum start) (blocks (md_base d))) = segment v (bnum start) (bnum start + k)"
    and "Some buf \<in> set (visible_run h d start k) \<Longrightarrow> length buf = n"
proof -
  note d = md_holdsD [OF assms(1)]
  note num = run_blocks_bnum [OF assms(2) d(2)]
  show "map2 pick (visible_run h d start k) (drop (bnum start) (blocks (md_base d))) = segment v (bnum start) (bnum start + k)"
  proof (rule nth_equalityI)
    fix i
    assume "i < length (map2 pick (visible_run h d start k) (drop (bnum start) (blocks (md_base d))))"
    then have i: "i < k" by (simp add: visible_run_def)
    then show "map2 pick (visible_run h d start k) (drop (bnum start) (blocks (md_base d))) ! i
        = segment v (bnum start) (bnum start + k) ! i"
      using assms(2) d(1) num [OF i] d(7) [of "run_blocks start k ! i"] by (simp add: visible_run_def)
  qed (use assms(2) d(1) in \<open>simp add: visible_run_def\<close>)
  show "length buf = n" if "Some buf \<in> set (visible_run h d start k)"
    using that run_in_range [OF assms(2) d(2)] d(8) by (auto simp: visible_run_def)
qed

lemma md_read_law:
  assumes "bnum b < length v"
  shows "triple (md_holds h v) (md_read_block h bd b) (\<lambda>buf d. md_holds h v d \<and> buf = v ! bnum b) (md_holds h v)"
  unfolding md_read_block_def
proof (rule triple_get)
  fix d
  assume d: "md_holds h v d"
  note f = md_holdsD [OF d]
  have base: "triple ((=) d) (on_base (read_block bd b)) (\<lambda>buf d'. md_holds h v d' \<and> buf = v ! bnum b) (md_holds h v)"
    if "read_visible h (md_store d) b (read_snapshot d) = None"
    by (rule triple_over [OF d over_base [OF read_block_law]]) (use f(1) f(7) [OF assms] assms that in simp_all)
  show "triple ((=) d) (if reads_base_directly d then on_base (read_block bd b)
      else case read_visible h (md_store d) b (read_snapshot d) of
        Some buf \<Rightarrow> io_return buf | None \<Rightarrow> on_base (read_block bd b))
    (\<lambda>buf d'. md_holds h v d' \<and> buf = v ! bnum b) (md_holds h v)"
    using f(3) f(7) [OF assms] d base by (auto intro!: triple_return split: option.split)
qed

lemma md_read_run_law:
  assumes r: "bnum start + length bufs \<le> length v"
  shows "triple (md_holds h v) (md_read_contiguous_blocks h bd start bufs)
    (\<lambda>bufs' d. md_holds h v d \<and> bufs' = segment v (bnum start) (bnum start + length bufs)) (md_holds h v)"
  unfolding md_read_contiguous_blocks_def
proof (rule triple_if)
  show "triple (md_holds h v) (io_return [])
      (\<lambda>bufs' d. md_holds h v d \<and> bufs' = segment v (bnum start) (bnum start + length bufs)) (md_holds h v)" if "bufs = []"
    using that by (auto intro: triple_return simp: segment_def)
next
  assume ne: "bufs \<noteq> []"
  show "triple (md_holds h v) (io_option (try_from_nat (length bufs)) (Format ''block count does not fit u64'') (\<lambda>n.
           io_option (checked_add (bn_val start) n) (Format ''block range overflow'') (\<lambda>_.
           io_get (\<lambda>d.
             if reads_base_directly d then on_base (read_contiguous_blocks bd start bufs)
             else let visible = visible_run h d start (length bufs)
                  in if list_all (\<lambda>v. v = None) visible then on_base (read_contiguous_blocks bd start bufs)
                     else fill_blocks (\<lambda>block run. on_base (read_contiguous_blocks bd block run))
                            (bn_val start) (zip visible bufs)))))
    (\<lambda>bufs' d. md_holds h v d \<and> bufs' = segment v (bnum start) (bnum start + length bufs)) (md_holds h v)"
  proof (intro triple_option triple_get)
    fix d
    assume d: "md_holds h v d"
    note f = md_holdsD [OF d] and vis = visible_run_values [OF d r]
    let ?w = "blocks (md_base d)" and ?vis = "visible_run h d start (length bufs)"
    have len: "length ?vis = length bufs" by (simp add: visible_run_def)
    have base: "triple (over d ?w) (on_base (read_contiguous_blocks bd start bufs))
        (\<lambda>bufs' d'. over d ?w d' \<and> bufs' = segment ?w (bnum start) (bnum start + length bufs)) (over d ?w)"
      by (rule over_base, rule read_run_law) (use r f(1) in simp)
    have same: "segment ?w (bnum start) (bnum start + length bufs) = segment v (bnum start) (bnum start + length bufs)"
      if "list_all (\<lambda>v. v = None) ?vis"
      using map2_pick_none [OF that, of "drop (bnum start) ?w"] vis(1) len r f(1) by (simp add: segment_def)
    have fill: "triple (over d ?w) (fill_blocks (\<lambda>block run. on_base (read_contiguous_blocks bd block run)) (bn_val start) (zip ?vis bufs))
        (\<lambda>bufs' d'. over d ?w d' \<and> bufs' = segment v (bnum start) (bnum start + length bufs)) (over d ?w)"
      using fill_blocks_law [of "bn_val start" "zip ?vis bufs" ?w d] r f(1,2) len vis(1) by simp
    show "triple ((=) d) (if reads_base_directly d then on_base (read_contiguous_blocks bd start bufs)
             else let visible = ?vis
                  in if list_all (\<lambda>v. v = None) visible then on_base (read_contiguous_blocks bd start bufs)
                     else fill_blocks (\<lambda>block run. on_base (read_contiguous_blocks bd block run))
                            (bn_val start) (zip visible bufs))
      (\<lambda>bufs' d. md_holds h v d \<and> bufs' = segment v (bnum start) (bnum start + length bufs)) (md_holds h v)"
      using f(3) triple_over [OF d base same] triple_over [OF d fill refl] by (simp add: Let_def)
  qed auto
qed

lemma md_read_into_law:
  assumes r: "bnum start + k \<le> length v"
  shows "triple (md_holds h v) (md_read_contiguous_into h bd start (k * n))
    (\<lambda>bs d. md_holds h v d \<and> bs = concat (segment v (bnum start) (bnum start + k))) (md_holds h v)"
  unfolding md_read_contiguous_into_def Let_def
proof (rule triple_get)
  fix d
  assume d: "md_holds h v d"
  note f = md_holdsD [OF d] and vis = visible_run_values [OF d r]
  have bs: "unat (dev_block_size bd (md_base d)) = n" using block_geometry [OF f(5)] by simp
  let ?w = "blocks (md_base d)" and ?vis = "visible_run h d start k"
  let ?Q = "\<lambda>bs d. md_holds h v d \<and> bs = concat (segment v (bnum start) (bnum start + k))"
  have len: "length ?vis = k" by (simp add: visible_run_def)
  have base: "triple (over d ?w) (on_base (read_contiguous_into bd start (k * n)))
      (\<lambda>bs d'. over d ?w d' \<and> bs = concat (segment ?w (bnum start) (bnum start + k))) (over d ?w)"
    by (rule over_base, rule read_into_law) (use r f(1) in simp)
  have same: "concat (segment ?w (bnum start) (bnum start + k)) = concat (segment v (bnum start) (bnum start + k))"
    if "list_all (\<lambda>v. v = None) ?vis"
    using map2_pick_none [OF that, of "drop (bnum start) ?w"] vis(1) len r f(1) by (simp add: segment_def)
  have fill: "triple (over d ?w) (fill_into (\<lambda>b k. on_base (read_contiguous_into bd b k)) n (bn_val start) ?vis)
      (\<lambda>bs d'. over d ?w d' \<and> bs = concat (segment v (bnum start) (bnum start + k))) (over d ?w)"
    using fill_into_law [of "bn_val start" ?vis ?w d] r f(1,2) len vis by simp
  have opt: "triple ((=) d) (io_option x e (\<lambda>m. io_option (y m) e' (\<lambda>_. m'))) ?Q (md_holds h v)"
    if "triple ((=) d) m' ?Q (md_holds h v)" for x e and y :: "u64 \<Rightarrow> u64 option" and e' m'
    using that d by (intro triple_option) auto
  have "k = 0 \<or> k * n \<noteq> 0" using block_size_pos by auto
  then show "triple ((=) d) (if unat (dev_block_size bd (md_base d)) = 0 \<or> k * n mod unat (dev_block_size bd (md_base d)) \<noteq> 0
      then io_fail (Format ''read_contiguous_into: dst length must be a multiple of block size'')
      else if k * n = 0 then io_return []
      else io_option (try_from_nat (k * n div unat (dev_block_size bd (md_base d)))) (Format ''block range exceeds u64'') (\<lambda>m.
           io_option (checked_add (bn_val start) m) (Format ''block range overflow'') (\<lambda>_.
           if reads_base_directly d then on_base (read_contiguous_into bd start (k * n))
           else if list_all (\<lambda>v. v = None) (visible_run h d start (k * n div unat (dev_block_size bd (md_base d))))
           then on_base (read_contiguous_into bd start (k * n))
           else fill_into (\<lambda>block n. on_base (read_contiguous_into bd block n)) (unat (dev_block_size bd (md_base d)))
             (bn_val start) (visible_run h d start (k * n div unat (dev_block_size bd (md_base d)))))))
    ?Q (md_holds h v)"
    unfolding bs using block_size_pos d
    using f(3) opt [OF triple_over [OF d base same]] opt [OF triple_over [OF d fill refl]]
    by (elim disjE) (auto intro!: triple_return)
qed

lemma md_holdsI:
  assumes "ok (md_base d)" "store_ok h (md_store d)" "md_read_your_writes d" "length (blocks (md_base d)) = length v"
    and "\<And>b. bnum b < length v \<Longrightarrow>
      v ! bnum b = pick (read_visible h (md_store d) b (current_snapshot (md_store d))) (blocks (md_base d) ! bnum b)"
    and "\<And>b buf. bnum b < length v \<Longrightarrow> read_visible h (md_store d) b (current_snapshot (md_store d)) = Some buf \<Longrightarrow> length buf = n"
  shows "md_holds h v d"
proof -
  have "length v < 2 ^ 64" using small_count [OF assms(1)] assms(4) by simp
  then have num: "bnum (BlockNumber (of_nat i)) = i" if "i < length v" for i using that by (simp add: unat_of_nat)
  have "overlay h (md_store d) (blocks (md_base d)) = v"
  proof (rule nth_equalityI)
    fix i
    assume "i < length (overlay h (md_store d) (blocks (md_base d)))"
    then have i: "i < length v" using assms(4) by simp
    then show "overlay h (md_store d) (blocks (md_base d)) ! i = v ! i"
      using assms(4) assms(5) [of "BlockNumber (of_nat i)"] num [OF i]
      by (simp add: overlay_nth read_through_def read_visible_bytes_at pick_def split: option.split)
  qed (use assms(4) in simp)
  then show ?thesis
    using assms by (auto simp: holds_def md_ok_def md_blocks_def current_fits_def read_visible_bytes_at)
qed

lemma md_write_law:
  assumes "lossless h" and b: "bnum b < length v" and data: "length data = n"
  shows "triple (md_holds h v) (md_write_block h tm b data) (\<lambda>_. md_holds h (v[bnum b := data])) (md_holds h v)"
  unfolding md_write_block_def
proof (rule triple_get)
  fix d
  assume d: "md_holds h v d"
  note f = md_holdsD [OF d]
  have ryw: "md_read_your_writes d" using d by (simp add: holds_def md_ok_def)
  obtain txn st0 where t: "begin_txn (md_store d) = (txn, st0)" by (cases "begin_txn (md_store d)")
  obtain r st' where c: "commit_txn h tm (stage_write txn b data) st0 = (r, st')"
    by (cases "commit_txn h tm (stage_write txn b data) st0")
  note w = write_commit [OF assms(1) f(6) t c]
  have "md_holds h v (d\<lparr>md_store := st'\<rparr>)" if "r = Inl e" for e
    by (rule md_holdsI) (use f w(1) w(4) [OF that] ryw in simp_all)
  moreover have "md_holds h (v[bnum b := data]) (d\<lparr>md_store := st'\<rparr>)" if "r = Inr seq" for seq
  proof (rule md_holdsI)
    fix b'
    assume "bnum b' < length (v[bnum b := data])"
    moreover have "bnum b = bnum b' \<longleftrightarrow> b' = b" by (metis block_of_bnum)
    ultimately show "v[bnum b := data] ! bnum b' =
        pick (read_visible h (md_store (d\<lparr>md_store := st'\<rparr>)) b' (current_snapshot (md_store (d\<lparr>md_store := st'\<rparr>))))
          (blocks (md_base (d\<lparr>md_store := st'\<rparr>)) ! bnum b')"
      using f(4) f(7) [of b'] w(3) [OF that, of b'] b by (simp add: nth_list_update)
  qed (use f w(1) w(3) [OF that] ryw data in \<open>auto split: if_splits\<close>)
  ultimately show "triple ((=) d) (if reads_base_directly d
       then io_fail (UnsupportedFeature ''unregistered MVCC block device is read-only'')
       else case begin_txn (md_store d) of (txn, st) \<Rightarrow>
            case commit_txn h tm (stage_write txn b data) st of (r, st) \<Rightarrow>
              io_then (io_modify (\<lambda>d. d\<lparr>md_store := st\<rparr>))
                (case r of
                   Inr _ \<Rightarrow> io_return ()
                 | Inl (Fails err) \<Rightarrow> io_fail (Format (commit_error_text err))
                 | Inl Panics \<Rightarrow> io_panic))
    (\<lambda>_. md_holds h (v[bnum b := data])) (md_holds h v)"
    using f(3) w(2) unfolding t c prod.case
    by (auto intro!: triple_then [where R = "(=) (d\<lparr>md_store := st'\<rparr>)"] triple_modify triple_return triple_fail
        split: sum.split commit_fault.split)
qed

lemma md_geometry:
  assumes "md_ok h ok blocks n d"
  shows "unat (dev_block_size bd (md_base d)) = n \<and> length (md_blocks h blocks d) = unat (block_count bd (md_base d))
    \<and> (\<forall>b \<in> set (md_blocks h blocks d). length b = n)"
proof -
  have b: "ok (md_base d)" using assms by (simp add: md_ok_def)
  note g = block_geometry [OF b]
  have fits: "length data = n" if "i < length (blocks (md_base d))"
    "version_bytes_at h (md_store d) (BlockNumber (of_nat i)) (high (current_snapshot (md_store d))) = Some data" for i data
  proof -
    have "bnum (BlockNumber (of_nat i)) = i" using that(1) small_count [OF b] by (simp add: unat_of_nat)
    then show ?thesis using assms that unfolding md_ok_def current_fits_def by metis
  qed
  have "length (md_blocks h blocks d ! i) = n" if "i < length (blocks (md_base d))" for i
    using that g fits [OF that] by (auto simp: md_blocks_def overlay_nth read_through_def split: option.split)
  then have "\<forall>b \<in> set (md_blocks h blocks d). length b = n"
    by (auto simp: md_blocks_def in_set_conv_nth)
  then show ?thesis using g by (simp add: md_blocks_def)
qed

lemma md_write_shows:
  assumes "lossless h" "bnum b < length v" "length data = n"
  shows "triple (md_holds h v) (md_write_block h tm b data) (\<lambda>_. md_holds h (v[bnum b := data]))
    (\<lambda>d. md_ok h ok blocks n d \<and> outside_run (bnum b) 1 v (md_blocks h blocks d))"
  by (rule triple_conseq [OF md_write_law [OF assms]]) (auto simp: holds_def)

lemma md_sync_law:
  "triple (md_holds h v) (on_base (block_sync bd)) (\<lambda>_. md_holds h v)
     (\<lambda>d. md_ok h ok blocks n d \<and> length (md_blocks h blocks d) = length v)"
  unfolding on_base_def
proof (rule triple_zoom)
  fix d
  assume d: "md_holds h v d"
  note f = md_holdsD [OF d]
  have over: "md_holds h v (d\<lparr>md_base := b\<rparr>)" if "shows_blocks (blocks (md_base d)) b" for b
    by (rule over_holds [OF d]) (use that in \<open>simp add: over_def\<close>)
  have ok: "md_ok h ok blocks n (d\<lparr>md_base := b\<rparr>)" if "ok b" "length (blocks b) = length (blocks (md_base d))" for b
    using d that by (simp add: holds_def md_ok_def)
  show "triple ((=) (md_base d)) (block_sync bd) (\<lambda>_ b. md_holds h v (d\<lparr>md_base := b\<rparr>))
      (\<lambda>b. md_ok h ok blocks n (d\<lparr>md_base := b\<rparr>) \<and> length (md_blocks h blocks (d\<lparr>md_base := b\<rparr>)) = length v)"
    by (rule triple_conseq [OF block_sync_law [of "blocks (md_base d)"]])
      (use f(1,5) over ok in \<open>auto simp: holds_def md_blocks_def\<close>)
qed

lemma mvcc_contract:
  assumes "lossless h"
  shows "block_contract (mvcc_block_device h tm bd) (md_ok h ok blocks n) (md_blocks h blocks) n"
proof -
  have scalar: "block_scalar (md_read_block h bd) (md_write_block h tm) (\<lambda>d. dev_block_size bd (md_base d))
      (\<lambda>d. block_count bd (md_base d)) (md_ok h ok blocks n) (md_blocks h blocks) n"
    by unfold_locales (rule block_size_pos md_geometry md_read_law md_write_shows [OF assms]; assumption)+
  show ?thesis
  proof (intro block_contract.intro block_contract_axioms.intro, unfold mvcc_block_device_def Let_def block_device.simps)
  qed (rule scalar, (rule md_read_run_law md_read_into_law block_scalar.default_write_run_law [OF scalar] md_sync_law; assumption?)+)
qed

end

context steady_blocks
begin

lemma md_steady_flush: "triple (md_holds h v) (on_base (block_sync bd)) (\<lambda>_. md_holds h v) (md_holds h v)"
  unfolding on_base_def
proof (rule triple_zoom)
  fix d
  assume d: "md_holds h v d"
  have "md_holds h v (d\<lparr>md_base := b\<rparr>)" if "shows_blocks (blocks (md_base d)) b" for b
    by (rule over_holds [OF d]) (use that in \<open>simp add: over_def\<close>)
  then show "triple ((=) (md_base d)) (block_sync bd) (\<lambda>_ b. md_holds h v (d\<lparr>md_base := b\<rparr>))
      (\<lambda>b. md_holds h v (d\<lparr>md_base := b\<rparr>))"
    by (intro triple_conseq [OF steady_flush_law [of "blocks (md_base d)"]])
      (use md_holdsD [OF d] in \<open>auto simp: holds_def\<close>)
qed

lemma mvcc_steady:
  assumes "lossless h"
  shows "steady_blocks (mvcc_block_device h tm bd) (md_ok h ok blocks n) (md_blocks h blocks) n"
  by (intro steady_blocks.intro steady_blocks_axioms.intro mvcc_contract assms)
    (simp add: mvcc_block_device_def Let_def md_steady_flush)

end

end
