(* ===== verification/Block_History.thy ===== *)
theory Block_History
  imports Block_Law
begin

text \<open>
  Histories of operations on a block device and the array of blocks they stand for: whatever
  device meets the block contract and is steady, a history that succeeds returns what the array
  returns and leaves what the array leaves, and one that fails spares every block that the failing
  operation does not write.
\<close>

datatype block_op =
    ReadBlock block_number
  | ReadRun block_number nat
  | WriteBlock block_number bytes
  | WriteRun block_number bytes
  | SyncBlocks

fun exec_op :: "'d block_device \<Rightarrow> block_op \<Rightarrow> ('d, bytes list) io" where
  "exec_op bd (ReadBlock b) = io_bind (read_block bd b) (\<lambda>buf. io_return [buf])"
| "exec_op bd (ReadRun start k) = read_contiguous_blocks bd start (replicate k [])"
| "exec_op bd (WriteBlock b data) = io_then (write_block bd b data) (io_return [])"
| "exec_op bd (WriteRun start data) = io_then (write_contiguous_blocks bd start data) (io_return [])"
| "exec_op bd SyncBlocks = io_then (block_sync bd) (io_return [])"

fun exec_ops :: "'d block_device \<Rightarrow> block_op list \<Rightarrow> ('d, bytes list) io" where
  "exec_ops bd [] = io_return []"
| "exec_ops bd (op # ops) =
     io_bind (exec_op bd op) (\<lambda>out. io_bind (exec_ops bd ops) (\<lambda>outs. io_return (out @ outs)))"

fun array_op :: "nat \<Rightarrow> block_op \<Rightarrow> bytes list \<Rightarrow> bytes list \<times> bytes list" where
  "array_op n (ReadBlock b) v = ([v ! bnum b], v)"
| "array_op n (ReadRun start k) v = (segment v (bnum start) (bnum start + k), v)"
| "array_op n (WriteBlock b data) v = ([], v[bnum b := data])"
| "array_op n (WriteRun start data) v = ([], blit v (bnum start) (chunks n data))"
| "array_op n SyncBlocks v = ([], v)"

fun array_ops :: "nat \<Rightarrow> block_op list \<Rightarrow> bytes list \<Rightarrow> bytes list \<times> bytes list" where
  "array_ops n [] v = ([], v)"
| "array_ops n (op # ops) v =
     (case array_op n op v of (out, v) \<Rightarrow> case array_ops n ops v of (outs, v) \<Rightarrow> (out @ outs, v))"

text \<open>Operations inside a device of \<open>len\<close> blocks of \<open>n\<close> bytes.\<close>

fun op_fits :: "nat \<Rightarrow> nat \<Rightarrow> block_op \<Rightarrow> bool" where
  "op_fits n len (ReadBlock b) \<longleftrightarrow> bnum b < len"
| "op_fits n len (ReadRun start k) \<longleftrightarrow> bnum start + k \<le> len"
| "op_fits n len (WriteBlock b data) \<longleftrightarrow> bnum b < len \<and> length data = n"
| "op_fits n len (WriteRun start data) \<longleftrightarrow> n dvd length data \<and> bnum start + length data div n \<le> len"
| "op_fits n len SyncBlocks \<longleftrightarrow> True"

lemma array_op_length [simp]:
  "0 < n \<Longrightarrow> op_fits n (length v) op \<Longrightarrow> length (snd (array_op n op v)) = length v"
  by (cases op) (auto simp: chunks_exact)

text \<open>
  What a failing operation leaves of the blocks: a read or a flush leaves all of them, a write
  those outside the run it addresses.
\<close>

fun op_spares :: "nat \<Rightarrow> block_op \<Rightarrow> bytes list \<Rightarrow> bytes list \<Rightarrow> bool" where
  "op_spares n (WriteBlock b data) v v' \<longleftrightarrow> outside_run (bnum b) 1 v v'"
| "op_spares n (WriteRun start data) v v' \<longleftrightarrow> outside_run (bnum start) (length data div n) v v'"
| "op_spares n (ReadBlock b) v v' \<longleftrightarrow> v' = v"
| "op_spares n (ReadRun start k) v v' \<longleftrightarrow> v' = v"
| "op_spares n SyncBlocks v v' \<longleftrightarrow> v' = v"

text \<open>One operation of the history failed, the earlier ones took effect and the later ones never ran.\<close>

definition stops_in :: "nat \<Rightarrow> block_op list \<Rightarrow> bytes list \<Rightarrow> bytes list \<Rightarrow> bool" where
  "stops_in n ops v v' \<longleftrightarrow>
     (\<exists>k < length ops. op_spares n (ops ! k) (snd (array_ops n (take k ops) v)) v')"

lemma stops_here: "op_spares n op v v' \<Longrightarrow> stops_in n (op # ops) v v'"
  unfolding stops_in_def by (rule exI [of _ 0]) simp

lemma stops_later:
  assumes "stops_in n ops (snd (array_op n op v)) v'"
  shows "stops_in n (op # ops) v v'"
proof -
  obtain k where "k < length ops" "op_spares n (ops ! k) (snd (array_ops n (take k ops) (snd (array_op n op v)))) v'"
    using assms by (auto simp: stops_in_def)
  then show ?thesis unfolding stops_in_def by (intro exI [of _ "Suc k"]) (simp add: case_prod_unfold)
qed

context steady_blocks
begin

lemma exec_op_law:
  assumes "op_fits n (length v) op"
  shows "triple (shows_blocks v) (exec_op bd op)
    (\<lambda>out d. shows_blocks (snd (array_op n op v)) d \<and> out = fst (array_op n op v))
    (\<lambda>d. ok d \<and> op_spares n op v (blocks d))"
proof (cases op)
  case (ReadBlock b)
  then have "bnum b < length v" using assms by simp
  from read_block_law [OF this] show ?thesis
    unfolding ReadBlock exec_op.simps array_op.simps fst_conv snd_conv
    by (rule triple_bind_value) (auto intro: triple_return simp: holds_def)
next
  case (ReadRun start k)
  then show ?thesis
    using assms by (auto intro!: triple_conseq [OF read_run_law [of start "replicate k []" v]] simp: holds_def)
next
  case (WriteBlock b data)
  then show ?thesis
    using assms
    by (auto intro!: triple_then_conseq [OF write_block_law [of b v data]] triple_return)
next
  case (WriteRun start data)
  then show ?thesis
    using assms
    by (auto intro!: triple_then_conseq [OF write_run_law [of start data v]] triple_return)
next
  case SyncBlocks
  then show ?thesis
    by (auto intro!: triple_then_conseq [OF steady_flush_law [of v]] triple_return simp: holds_def)
qed

lemma exec_ops_law:
  assumes "\<forall>op \<in> set ops. op_fits n (length v) op"
  shows "triple (shows_blocks v) (exec_ops bd ops)
    (\<lambda>outs d. shows_blocks (snd (array_ops n ops v)) d \<and> outs = fst (array_ops n ops v))
    (\<lambda>d. ok d \<and> stops_in n ops v (blocks d))"
  using assms
proof (induction ops arbitrary: v)
  case Nil
  then show ?case by (simp add: triple_return)
next
  case (Cons op ops)
  obtain out v' where e: "array_op n op v = (out, v')" by (cases "array_op n op v")
  obtain outs v'' where e': "array_ops n ops v' = (outs, v'')" by (cases "array_ops n ops v'")
  have len: "length v' = length v" using array_op_length [of n v op] block_size_pos Cons.prems e by simp
  have "triple (shows_blocks v') (exec_ops bd ops) (\<lambda>os d. shows_blocks v'' d \<and> os = outs)
      (\<lambda>d. ok d \<and> stops_in n ops v' (blocks d))"
    using Cons.IH [of v'] Cons.prems len e' by simp
  then have IH: "triple (shows_blocks v') (exec_ops bd ops) (\<lambda>os d. shows_blocks v'' d \<and> os = outs)
      (\<lambda>d. ok d \<and> stops_in n (op # ops) v (blocks d))"
    by (rule triple_conseq) (use stops_later [of n ops op v] e in auto)
  have "triple (shows_blocks v) (exec_op bd op) (\<lambda>os d. shows_blocks v' d \<and> os = out)
      (\<lambda>d. ok d \<and> op_spares n op v (blocks d))"
    using exec_op_law [of v op] Cons.prems e by simp
  then have one: "triple (shows_blocks v) (exec_op bd op) (\<lambda>os d. shows_blocks v' d \<and> os = out)
      (\<lambda>d. ok d \<and> stops_in n (op # ops) v (blocks d))"
    by (rule triple_conseq) (auto intro: stops_here)
  show ?case unfolding exec_ops.simps array_ops.simps e e' prod.case
    by (rule triple_bind_value [OF one], rule triple_bind_value [OF IH]) (auto intro: triple_return)
qed

end

end
