(* ===== verification/Volume_Device.thy ===== *)
theory Volume_Device
  imports Device_Law
begin

text \<open>
  \<open>VolumeDevice\<close> (\<open>ffs-block/src/lib.rs\<close>): a bounded slice of a byte device with sector
  geometry. Writes that are not aligned to sectors are staged by reading the sectors at the
  edges of the range. The wrapper over any device that meets \<open>device_contract\<close> meets it again,
  with the slice as its content, and changes no byte outside the slice.
\<close>

section \<open>The volume\<close>

definition VOLUME_DEVICE_RMW_STRIPES :: usize where
  "VOLUME_DEVICE_RMW_STRIPES = 64"

definition DEFAULT_VOLUME_SECTOR_SIZE :: u32 where
  "DEFAULT_VOLUME_SECTOR_SIZE = 512"

definition is_supported_sector_size :: "u32 \<Rightarrow> bool" where
  "is_supported_sector_size sz \<longleftrightarrow> 512 \<le> sz \<and> sz \<le> 65536 \<and> sz AND (sz - 1) = 0"

definition validate_volume_sector_sizes :: "u32 \<Rightarrow> u32 \<Rightarrow> unit ffs_result" where
  "validate_volume_sector_sizes logical physical =
     (if \<not> is_supported_sector_size logical
      then Inl (Format (''invalid logical sector size '' @ show_nat (unat logical)
                  @ '': expected power of two in 512..=65536''))
      else if \<not> is_supported_sector_size physical \<or> physical < logical
      then Inl (Format (''invalid physical sector size '' @ show_nat (unat physical)
                  @ '': expected power of two in '' @ show_nat (unat logical) @ ''..=65536''))
      else Inr ())"

record 'd volume_device =
  vd_device :: 'd
  vd_base :: u64
  vd_length :: u64
  vd_logical_sector_size :: u32
  vd_physical_sector_size :: u32
  vd_read_only :: bool
  vd_rmw_operations :: u64
  vd_passthrough_writes :: u64

definition volume_with_mode ::
  "'d byte_device \<Rightarrow> 'd \<Rightarrow> u64 \<Rightarrow> u64 \<Rightarrow> u32 \<Rightarrow> u32 \<Rightarrow> bool \<Rightarrow> 'd volume_device ffs_result" where
  "volume_with_mode dev d base len logical physical read_only =
     (case validate_volume_sector_sizes logical physical of
        Inl err \<Rightarrow> Inl err
      | Inr _ \<Rightarrow>
          (case checked_add base len of
             None \<Rightarrow> Inl (Format ''volume range overflows u64'')
           | Some end \<Rightarrow>
               if len_bytes dev d < end
               then Inl (Format (''volume range ['' @ show_nat (unat base) @ '', '' @ show_nat (unat end)
                           @ '') exceeds backing length '' @ show_nat (unat (len_bytes dev d))))
               else Inr \<lparr>vd_device = d, vd_base = base, vd_length = len, vd_logical_sector_size = logical,
                         vd_physical_sector_size = physical, vd_read_only = read_only,
                         vd_rmw_operations = 0, vd_passthrough_writes = 0\<rparr>))"

definition volume_new ::
  "'d byte_device \<Rightarrow> 'd \<Rightarrow> u64 \<Rightarrow> u64 \<Rightarrow> u32 \<Rightarrow> u32 \<Rightarrow> 'd volume_device ffs_result" where
  "volume_new dev d base len logical physical = volume_with_mode dev d base len logical physical False"

definition volume_new_read_only ::
  "'d byte_device \<Rightarrow> 'd \<Rightarrow> u64 \<Rightarrow> u64 \<Rightarrow> u32 \<Rightarrow> u32 \<Rightarrow> 'd volume_device ffs_result" where
  "volume_new_read_only dev d base len logical physical = volume_with_mode dev d base len logical physical True"

definition volume_from_range ::
  "'d byte_device \<Rightarrow> 'd \<Rightarrow> u64 \<Rightarrow> u64 option \<Rightarrow> bool \<Rightarrow> 'd volume_device ffs_result" where
  "volume_from_range dev d base len read_only =
     (case (case len of Some explicit \<Rightarrow> Some explicit | None \<Rightarrow> checked_sub (len_bytes dev d) base) of
        None \<Rightarrow> Inl (Format (''volume base '' @ show_nat (unat base) @ '' exceeds backing length ''
                        @ show_nat (unat (len_bytes dev d))))
      | Some resolved \<Rightarrow>
          volume_with_mode dev d base resolved DEFAULT_VOLUME_SECTOR_SIZE DEFAULT_VOLUME_SECTOR_SIZE read_only)"

text \<open>The locks taken by a write, in the order they are taken.\<close>

definition stripe_indices_for_sectors :: "u64 \<Rightarrow> u64 \<Rightarrow> usize list" where
  "stripe_indices_for_sectors first_sector last_sector =
     (let span = saturating_add (saturating_sub last_sector first_sector) 1
      in if of_nat VOLUME_DEVICE_RMW_STRIPES \<le> span then [0..<VOLUME_DEVICE_RMW_STRIPES]
         else remdups_adj (sort (map (\<lambda>sector. sector mod VOLUME_DEVICE_RMW_STRIPES)
                [unat first_sector..<Suc (unat last_sector)])))"

definition on_volume :: "('d, 'a) io \<Rightarrow> ('d volume_device, 'a) io" where
  "on_volume = io_zoom vd_device (\<lambda>d v. v\<lparr>vd_device := d\<rparr>)"

definition volume_range ::
  "string \<Rightarrow> byte_offset \<Rightarrow> usize \<Rightarrow> ('d volume_device \<Rightarrow> u64 \<Rightarrow> u64 \<Rightarrow> ('d volume_device, 'a) io) \<Rightarrow> ('d volume_device, 'a) io" where
  "volume_range what off n k =
     io_option (try_from_nat n) (Format (''volume '' @ what @ '' length overflows u64'')) (\<lambda>len.
     io_option (checked_add (off_val off) len) (Format (''volume '' @ what @ '' range overflows u64'')) (\<lambda>rel_end.
     io_get (\<lambda>v.
       if vd_length v < rel_end
       then io_fail (out_of_bounds (''volume '' @ what) off n ''volume_len'' (vd_length v))
       else k v len rel_end)))"

definition volume_read_exact_at :: "'d byte_device \<Rightarrow> byte_offset \<Rightarrow> usize \<Rightarrow> ('d volume_device, bytes) io" where
  "volume_read_exact_at dev off n =
     io_then cx_checkpoint (
     volume_range ''read'' off n (\<lambda>v len rel_end.
       if n = 0 then io_then cx_checkpoint (io_return [])
       else io_option (checked_add (vd_base v) (off_val off)) (Format ''volume physical read offset overflows u64'') (\<lambda>phys.
            io_bind (on_volume (read_exact_at dev (ByteOffset phys) n)) (\<lambda>bs.
            io_then cx_checkpoint (io_return bs)))))"

text \<open>
  The staging buffer of an unaligned write: the sectors at its edges are read, the others are
  zero until the data is copied over them.
\<close>

definition stage_window ::
  "'d byte_device \<Rightarrow> 'd volume_device \<Rightarrow> u64 \<Rightarrow> u64 \<Rightarrow> u64 \<Rightarrow> u64 \<Rightarrow> u64 \<Rightarrow> usize \<Rightarrow> usize \<Rightarrow> u64
   \<Rightarrow> ('d volume_device, bytes) io" where
  "stage_window dev v first_sector last_sector window_start window_end rel_end window_len head_pad phys_window_start =
     (let sector_bytes = ucast (vd_logical_sector_size v);
          stage = replicate window_len 0
      in if first_sector = last_sector
         then on_volume (read_exact_at dev (ByteOffset phys_window_start) window_len)
         else
           io_bind (if 0 < head_pad
                    then let head_read_len = min (unat (vd_logical_sector_size v)) window_len
                         in io_bind (on_volume (read_exact_at dev (ByteOffset phys_window_start) head_read_len))
                              (\<lambda>head. io_return (blit stage 0 head))
                    else io_return stage) (\<lambda>stage.
           if rel_end < window_end
           then let tail_rel_start = last_sector * sector_bytes;
                    tail_offset = unat (tail_rel_start - window_start)
                in io_option (checked_add (vd_base v) tail_rel_start)
                     (Format ''volume physical tail RMW offset overflows u64'') (\<lambda>phys_tail_start.
                   io_bind (on_volume (read_exact_at dev (ByteOffset phys_tail_start) (window_len - tail_offset)))
                     (\<lambda>tail. io_return (blit stage tail_offset tail)))
           else io_return stage))"

definition volume_rmw :: "'d byte_device \<Rightarrow> 'd volume_device \<Rightarrow> u64 \<Rightarrow> u64 \<Rightarrow> bytes \<Rightarrow> ('d volume_device, unit) io" where
  "volume_rmw dev v off rel_end buf =
     (let sector_bytes = ucast (vd_logical_sector_size v);
          first_sector = off div sector_bytes;
          last_sector = (rel_end - 1) div sector_bytes;
          window_start = first_sector * sector_bytes;
          window_end = min ((last_sector + 1) * sector_bytes) (vd_length v);
          window_len = unat (window_end - window_start);
          head_pad = unat (off - window_start)
      in io_option (checked_add (vd_base v) window_start) (Format ''volume physical RMW offset overflows u64'') (\<lambda>phys_window_start.
         io_bind (stage_window dev v first_sector last_sector window_start window_end rel_end window_len head_pad
                    phys_window_start) (\<lambda>stage.
         io_then (on_volume (write_all_at dev (ByteOffset phys_window_start) (blit stage head_pad buf))) (
         io_then (io_modify (\<lambda>v. v\<lparr>vd_rmw_operations := vd_rmw_operations v + 1\<rparr>)) cx_checkpoint))))"

definition volume_passthrough :: "'d byte_device \<Rightarrow> u64 \<Rightarrow> bytes \<Rightarrow> ('d volume_device, unit) io" where
  "volume_passthrough dev phys buf =
     io_then (on_volume (write_all_at dev (ByteOffset phys) buf)) (
     io_then (io_modify (\<lambda>v. v\<lparr>vd_passthrough_writes := vd_passthrough_writes v + 1\<rparr>)) cx_checkpoint)"

definition volume_write_all_at :: "'d byte_device \<Rightarrow> byte_offset \<Rightarrow> bytes \<Rightarrow> ('d volume_device, unit) io" where
  "volume_write_all_at dev off buf =
     io_then cx_checkpoint (
     io_get (\<lambda>v. if vd_read_only v then io_fail ReadOnly else
     volume_range ''write'' off (length buf) (\<lambda>v len rel_end.
       if buf = [] then io_then cx_checkpoint (io_return ())
       else
         let sector_bytes = ucast (vd_logical_sector_size v)
         in io_option (checked_add (vd_base v) (off_val off)) (Format ''volume physical write offset overflows u64'') (\<lambda>phys.
            if off_val off mod sector_bytes = 0 \<and> len mod sector_bytes = 0
            then volume_passthrough dev phys buf
            else volume_rmw dev v (off_val off) rel_end buf))))"

definition volume_sync :: "'d byte_device \<Rightarrow> ('d volume_device, unit) io" where
  "volume_sync dev =
     io_then cx_checkpoint (
     io_get (\<lambda>v. if vd_read_only v then io_return () else on_volume (dev_sync dev)))"

definition volume_byte_device :: "'d byte_device \<Rightarrow> 'd volume_device byte_device" where
  "volume_byte_device dev =
     \<lparr>len_bytes = vd_length, supports_vectored_reads = False, preserves_read_exact_at = False, preserves_read_vectored = False,
      read_exact_at = volume_read_exact_at dev, read_exact_at_volatile = volume_read_exact_at dev,
      read_vectored_exact_at = default_read_vectored_exact_at vd_length (volume_read_exact_at dev),
      write_all_at = volume_write_all_at dev,
      write_vectored_all_at = default_write_vectored_all_at (volume_write_all_at dev),
      dev_sync = volume_sync dev, supports_discard = (\<lambda>_. False), discard = default_discard\<rparr>"

end
