(* ===== verification/Volume_Law.thy ===== *)
theory Volume_Law
  imports Volume_Device
begin

text \<open>
  The volume device meets the device contract: the arithmetic of the staging window, the effect
  of the staged read-modify-write, the translation between the volume and the device below it,
  the interpretation on volumes of files, and the order of the locks a write takes.
\<close>

section \<open>Geometry of the staging window\<close>

lemma window_arith:
  fixes off rel_end len :: u64 and ls :: u32
  assumes ls: "512 \<le> ls" "ls \<le> 65536" and e: "unat rel_end = unat off + n" "0 < n"
    and L: "rel_end \<le> len" "unat len + 65536 < 2 ^ 64"
  defines "sb \<equiv> ucast ls :: u64" and "S \<equiv> unat ls"
  shows "unat (off div sb * sb) = unat off div S * S"
    and "unat ((rel_end - 1) div sb * sb) = (unat rel_end - 1) div S * S"
    and "unat (min (((rel_end - 1) div sb + 1) * sb) len) = min (((unat rel_end - 1) div S + 1) * S) (unat len)"
    and "0 < S" and "off div sb = (rel_end - 1) div sb \<longleftrightarrow> unat off div S = (unat rel_end - 1) div S"
proof -
  have S: "512 \<le> S" "S \<le> 65536" using ls by (simp_all add: S_def word_le_nat_alt)
  have sb: "unat sb = S" by (simp add: sb_def S_def)
  have rel: "unat (rel_end - 1) = unat rel_end - 1"
    using e by (subst unat_sub) (auto simp: word_le_nat_alt)
  have div: "unat (x div sb) = unat x div S" for x by (simp add: unat_div sb)
  have small: "unat x div S * S \<le> unat x" for x :: u64 by simp
  have less: "unat x < 2 ^ 64" for x :: u64 using unsigned_less [of x] by simp
  have mul: "unat (x div sb * sb) = unat x div S * S" for x
  proof -
    have "unat (x div sb) * unat sb < 2 ^ LENGTH(64)"
      using le_less_trans [OF small [of x] less [of x]] by (simp add: div sb)
    then have "unat (x div sb * sb) = unat (x div sb) * unat sb" by (simp only: unat_mult_lem)
    then show ?thesis by (simp add: div sb)
  qed
  show "unat (off div sb * sb) = unat off div S * S" by (rule mul)
  show "unat ((rel_end - 1) div sb * sb) = (unat rel_end - 1) div S * S" using mul rel by simp
  show "0 < S" using S by simp
  show "off div sb = (rel_end - 1) div sb \<longleftrightarrow> unat off div S = (unat rel_end - 1) div S"
    using div rel by (metis word_unat_eq_iff)
  let ?l = "(unat rel_end - 1) div S"
  have "?l * S \<le> unat rel_end - 1" by simp
  then have "?l * S + S < 2 ^ 64" using S L(2) L(1) [unfolded word_le_nat_alt] by linarith
  then have bound: "(?l + 1) * S < 2 ^ 64" by (simp add: add_mult_distrib add.commute)
  have l1: "unat ((rel_end - 1) div sb + 1) = ?l + 1"
  proof -
    have "(?l + 1) * 1 \<le> (?l + 1) * S" using S by (intro mult_le_mono2) simp
    from le_less_trans [OF this bound] have "?l + 1 < 2 ^ 64" by simp
    then show ?thesis by (subst unat_add_no_overflow) (simp_all add: div rel)
  qed
  have "unat ((rel_end - 1) div sb + 1) * unat sb < 2 ^ LENGTH(64)" using bound by (simp only: l1 sb) simp
  then have "unat (((rel_end - 1) div sb + 1) * sb) = unat ((rel_end - 1) div sb + 1) * unat sb" by (simp only: unat_mult_lem)
  then have "unat (((rel_end - 1) div sb + 1) * sb) = (?l + 1) * S" by (simp only: l1 sb)
  then show "unat (min (((rel_end - 1) div sb + 1) * sb) len) = min ((?l + 1) * S) (unat len)"
    by (simp add: min_def word_le_nat_alt)
qed


lemma window_bounds:
  fixes off rel_end S len n :: nat
  assumes "0 < S" "rel_end = off + n" "0 < n" "rel_end \<le> len"
  defines "ws \<equiv> off div S * S" and "ts \<equiv> (rel_end - 1) div S * S"
    and "we \<equiv> min (((rel_end - 1) div S + 1) * S) len"
  shows "ws \<le> off" "off < ws + S" "rel_end \<le> we" "we \<le> len" "ts < rel_end" "ws \<le> ts" "ts < we"
proof -
  show "ws \<le> off" "we \<le> len" by (simp_all add: ws_def we_def)
  show "off < ws + S" using assms(1) dividend_less_div_times [of S off] by (simp add: ws_def add.commute)
  show ts: "ts < rel_end" using assms(2,3) by (simp add: ts_def le_less_trans [OF div_times_less_eq_dividend])
  have "off div S \<le> (rel_end - 1) div S" using assms(2,3) by (intro div_le_mono) simp
  then show "ws \<le> ts" by (simp add: ws_def ts_def)
  have "rel_end - 1 < ((rel_end - 1) div S + 1) * S"
    using assms(1) dividend_less_div_times [of S "rel_end - 1"] by (simp add: add.commute)
  with assms(2-4) show "rel_end \<le> we" by (simp add: we_def)
  with ts show "ts < we" by simp
qed

text \<open>
  A staging buffer is good when it agrees with the device outside the bytes that the write
  replaces; writing it back then has the effect of the write.
\<close>

definition staged :: "bytes \<Rightarrow> nat \<Rightarrow> nat \<Rightarrow> nat \<Rightarrow> nat \<Rightarrow> bytes \<Rightarrow> bool" where
  "staged c start wl head n st \<longleftrightarrow>
     length st = wl \<and> (\<forall>i < wl. i < head \<or> head + n \<le> i \<longrightarrow> st ! i = c ! (start + i))"

lemma staged_nth:
  assumes "staged c start wl head (length bs) st" "head + length bs \<le> wl" "i < wl"
  shows "blit st head bs ! i = (if head \<le> i \<and> i < head + length bs then bs ! (i - head) else c ! (start + i))"
  using assms by (auto simp: staged_def nth_blit)

lemma staged_write:
  assumes st: "staged c (unat (off_val w)) wl head (length bs) st" and fit: "head + length bs \<le> wl"
    and off: "unat (off_val off) = unat (off_val w) + head" and "unat (off_val w) + wl \<le> length c"
  shows "written c w (blit st head bs) c' \<Longrightarrow> written c off bs c'"
    and "torn c w (blit st head bs) c' \<Longrightarrow> torn c off bs c'"
proof -
  let ?w = "unat (off_val w)"
  have len: "length (blit st head bs) = wl" using st fit by (simp add: staged_def)
  have nth: "blit st head bs ! (i - ?w) = (if ?w + head \<le> i \<and> i < ?w + head + length bs
      then bs ! (i - (?w + head)) else c ! i)" if "?w \<le> i" "i < ?w + wl" for i
  proof -
    obtain k where "i = ?w + k" "k < wl" using \<open>?w \<le> i\<close> \<open>i < ?w + wl\<close> by (metis le_Suc_ex nat_add_left_cancel_less)
    then show ?thesis using staged_nth [OF st fit, of k] by (simp add: add.assoc)
  qed
  show "torn c off bs c'" if "torn c w (blit st head bs) c'"
    unfolding torn_def
  proof (intro conjI allI impI)
    show "length c' = length c" using that by (simp add: torn_def)
    fix i assume "i < length c"
    with that consider "c' ! i = c ! i" | "?w \<le> i" "i < ?w + wl" "c' ! i = blit st head bs ! (i - ?w)"
      unfolding torn_def len by blast
    then show "c' ! i = c ! i \<or> unat (off_val off) \<le> i \<and> i < unat (off_val off) + length bs
        \<and> c' ! i = bs ! (i - unat (off_val off))"
      by cases (simp, use nth [of i] in \<open>simp add: off split: if_splits\<close>)
  qed
  show "written c off bs c'" if "written c w (blit st head bs) c'"
  proof (cases "wl = 0")
    case False
    have "c' = blit c (unat (off_val off)) bs"
      using written_length [OF that] written_nth [OF that] assms(4) fit off nth
      by (intro nth_equalityI) (auto simp: nth_blit len)
    then show ?thesis using assms(4) fit off by (simp add: written_def)
  qed (use that fit len in auto)
qed


section \<open>The contract of the volume\<close>

definition vol_frame :: "'d volume_device \<Rightarrow> 'd volume_device \<Rightarrow> bool" where
  "vol_frame v v' \<longleftrightarrow> vd_base v' = vd_base v \<and> vd_length v' = vd_length v
     \<and> vd_logical_sector_size v' = vd_logical_sector_size v \<and> vd_read_only v' = vd_read_only v"

definition vol_geometry :: "('d \<Rightarrow> bytes) \<Rightarrow> 'd volume_device \<Rightarrow> bool" where
  "vol_geometry content v \<longleftrightarrow>
     unat (vd_base v) + unat (vd_length v) \<le> length (content (vd_device v))
   \<and> is_supported_sector_size (vd_logical_sector_size v) \<and> unat (vd_length v) + 65536 < 2 ^ 64"

definition vol_ok :: "('d \<Rightarrow> bool) \<Rightarrow> ('d \<Rightarrow> bytes) \<Rightarrow> 'd volume_device \<Rightarrow> bool" where
  "vol_ok ok content v \<longleftrightarrow> ok (vd_device v) \<and> vol_geometry content v"

definition vol_content :: "('d \<Rightarrow> bytes) \<Rightarrow> 'd volume_device \<Rightarrow> bytes" where
  "vol_content content v =
     segment (content (vd_device v)) (unat (vd_base v)) (unat (vd_base v) + unat (vd_length v))"

definition inner_holds ::
  "('d \<Rightarrow> bool) \<Rightarrow> ('d \<Rightarrow> bytes) \<Rightarrow> 'd volume_device \<Rightarrow> (bytes \<Rightarrow> bool) \<Rightarrow> 'd volume_device \<Rightarrow> bool" where
  "inner_holds ok content v C v' \<longleftrightarrow> vol_frame v v' \<and> ok (vd_device v') \<and> C (content (vd_device v'))"

lemma inner_holds_mono: "inner_holds ok content v C v' \<Longrightarrow> (\<And>c. C c \<Longrightarrow> C' c) \<Longrightarrow> inner_holds ok content v C' v'"
  by (simp add: inner_holds_def)

lemma inner_holds_counters [simp]:
  "inner_holds ok content v C (v'\<lparr>vd_passthrough_writes := n\<rparr>) = inner_holds ok content v C v'"
  "inner_holds ok content v C (v'\<lparr>vd_rmw_operations := n\<rparr>) = inner_holds ok content v C v'"
  by (simp_all add: inner_holds_def vol_frame_def)

lemma torn_length: "torn c off bs c' \<Longrightarrow> length c' = length c"
  by (simp add: torn_def)

lemma vol_content_length: "vol_ok ok content v \<Longrightarrow> length (vol_content content v) = unat (vd_length v)"
  by (auto simp: vol_ok_def vol_geometry_def vol_content_def)

lemma slice_reads:
  assumes "b + l \<le> length c" "unat (off_val phys) = b + unat (off_val off)" "unat (off_val off) + n \<le> l" "reads c phys n bs"
  shows "reads (segment c b (b + l)) off n bs"
  using assms by (auto simp: reads_def add.assoc intro!: nth_equalityI)

lemma slice_torn:
  assumes "b + l \<le> length c" "unat (off_val phys) = b + unat (off_val off)" "unat (off_val off) + length bs \<le> l" "torn c phys bs c'"
  shows "torn (segment c b (b + l)) off bs (segment c' b (b + l))"
  unfolding torn_def
proof (intro conjI allI impI)
  show "length (segment c' b (b + l)) = length (segment c b (b + l))" using assms by (simp add: torn_def)
  fix i assume i: "i < length (segment c b (b + l))"
  then have "b + i < length c" "i < l" using assms(1) by simp_all
  with assms(4) consider "c' ! (b + i) = c ! (b + i)"
    | "unat (off_val phys) \<le> b + i" "b + i < unat (off_val phys) + length bs" "c' ! (b + i) = bs ! (b + i - unat (off_val phys))"
    unfolding torn_def by blast
  then show "segment c' b (b + l) ! i = segment c b (b + l) ! i \<or> unat (off_val off) \<le> i \<and>
      i < unat (off_val off) + length bs \<and> segment c' b (b + l) ! i = bs ! (i - unat (off_val off))"
    using assms \<open>i < l\<close> by cases (auto simp: torn_def)
qed

lemma slice_written:
  assumes "b + l \<le> length c" "unat (off_val phys) = b + unat (off_val off)" "unat (off_val off) + length bs \<le> l" "written c phys bs c'"
  shows "written (segment c b (b + l)) off bs (segment c' b (b + l))"
  using assms written_length [OF assms(4)] written_nth [OF assms(4)]
  by (auto simp: written_def [of "segment c b (b + l)"] nth_blit intro!: nth_equalityI)


context device_contract
begin

lemma on_volume_read:
  "triple (inner_holds ok content v ((=) c)) (on_volume (read_exact_at dev off n))
     (\<lambda>bs v'. inner_holds ok content v ((=) c) v' \<and> reads c off n bs) (inner_holds ok content v ((=) c))"
  unfolding on_volume_def
  by (rule triple_zoom, rule triple_conseq [OF read_law [of c]])
    (auto simp: inner_holds_def holds_def vol_frame_def)

lemma on_volume_write:
  "triple (inner_holds ok content v ((=) c)) (on_volume (write_all_at dev off bs))
     (\<lambda>_. inner_holds ok content v (written c off bs)) (inner_holds ok content v (torn c off bs))"
  unfolding on_volume_def
  by (rule triple_zoom, rule triple_conseq [OF write_law [of c]])
    (auto simp: inner_holds_def holds_def vol_frame_def)

lemma stage_window_law:
  fixes off rel_end :: u64 and v :: "'d volume_device"
  assumes geo: "is_supported_sector_size (vd_logical_sector_size v)" "unat (vd_length v) + 65536 < 2 ^ 64"
    and e: "unat rel_end = unat off + n" "0 < n" "rel_end \<le> vd_length v"
    and pw: "unat pw = unat (vd_base v) + unat off div unat (vd_logical_sector_size v) * unat (vd_logical_sector_size v)"
    and fit: "unat (vd_base v) + unat (vd_length v) \<le> length c"
  defines "sb \<equiv> ucast (vd_logical_sector_size v) :: u64"
  defines "ws \<equiv> off div sb * sb"
  defines "we \<equiv> min (((rel_end - 1) div sb + 1) * sb) (vd_length v)"
  shows "triple (inner_holds ok content v ((=) c))
    (stage_window dev v (off div sb) ((rel_end - 1) div sb) ws we rel_end (unat (we - ws)) (unat (off - ws)) pw)
    (\<lambda>st v'. inner_holds ok content v ((=) c) v' \<and> staged c (unat pw) (unat (we - ws)) (unat (off - ws)) n st)
    (inner_holds ok content v ((=) c))"
proof -
  let ?I = "inner_holds ok content v ((=) c)"
  let ?S = "unat (vd_logical_sector_size v)"
  have ls: "512 \<le> vd_logical_sector_size v" "vd_logical_sector_size v \<le> 65536"
    using geo(1) by (simp_all add: is_supported_sector_size_def)
  note w = window_arith [OF ls e(1,2) e(3) geo(2), folded sb_def]
  let ?tl = "(rel_end - 1) div sb * sb"
  have WS: "unat ws = unat off div ?S * ?S" using w(1) by (simp add: ws_def)
  have WE: "unat we = min (((unat rel_end - 1) div ?S + 1) * ?S) (unat (vd_length v))" using w(3) by (simp add: we_def)
  note b = window_bounds [OF w(4) e(1,2) e(3) [unfolded word_le_nat_alt], folded WS WE w(2)]
  have wl: "unat (we - ws) = unat we - unat ws" and hp: "unat (off - ws) = unat off - unat ws"
    and to: "unat (?tl - ws) = unat ?tl - unat ws"
    using b by (simp_all add: unat_sub word_le_nat_alt)
  let ?wl = "unat we - unat ws"
  let ?hp = "unat off - unat ws"
  have "unat pw = unat (vd_base v) + unat ws" using pw WS by simp
  then have le: "unat ws \<le> unat off" "unat off < unat ws + ?S" "unat rel_end \<le> unat we" "unat ws \<le> unat ?tl"
    "unat ?tl < unat rel_end" "unat pw + ?wl \<le> length c" "0 < ?wl" "unat pw = unat (vd_base v) + unat ws"
    using b e(1,2) fit by simp_all
  let ?hd = "\<lambda>st. length st = ?wl \<and> (\<forall>i < ?wl. i < ?hp \<longrightarrow> st ! i = c ! (unat pw + i))"
  let ?head = "\<lambda>st v'. ?I v' \<and> ?hd st"
  let ?done = "\<lambda>st v'. ?I v' \<and> staged c (unat pw) ?wl ?hp n st"
  have whole: "staged c (unat pw) ?wl ?hp n bs" if "reads c (ByteOffset pw) ?wl bs" for bs
    using that le by (auto simp: reads_def staged_def)
  have head: "triple ?I (if 0 < ?hp
        then let m = min ?S ?wl in io_bind (on_volume (read_exact_at dev (ByteOffset pw) m)) (\<lambda>hd. io_return (blit (replicate ?wl 0) 0 hd))
        else io_return (replicate ?wl 0)) ?head ?I"
    using le by (auto simp: Let_def reads_def nth_blit intro!: triple_rules triple_bind [OF on_volume_read])
  have tail: "triple (?head st) (if rel_end < we
        then io_option (checked_add (vd_base v) ?tl) (Format ''volume physical tail RMW offset overflows u64'') (\<lambda>pt.
             io_bind (on_volume (read_exact_at dev (ByteOffset pt) (?wl - (unat ?tl - unat ws)))) (\<lambda>tail. io_return (blit st (unat ?tl - unat ws) tail)))
        else io_return st) ?done ?I" for st
  proof (rule triple_assume [where A = "?hd st"])
    assume hd: "?hd st"
    have "staged c (unat pw) ?wl ?hp n (blit st (unat ?tl - unat ws) tail)"
      if "reads c (ByteOffset pt) (?wl - (unat ?tl - unat ws)) tail" "checked_add (vd_base v) ?tl = Some pt" for pt tail
      using that hd le e checked_add_SomeD [OF that(2)] by (auto simp: reads_def staged_def nth_blit) (simp_all add: ac_simps)
    moreover have "staged c (unat pw) ?wl ?hp n st" if "\<not> rel_end < we"
      using that hd le e by (auto simp: staged_def word_less_nat_alt)
    ultimately show ?thesis
      by (intro triple_rules triple_bind_conseq [OF on_volume_read]) auto
  qed simp
  show ?thesis
    unfolding stage_window_def Let_def wl hp sb_def [symmetric] to
    by (rule triple_if, rule triple_conseq [OF on_volume_read], simp, use whole in blast, simp)
      (rule triple_bind [OF head [unfolded Let_def] tail])
qed

lemma rmw_law:
  fixes off rel_end :: u64 and v :: "'d volume_device"
  assumes geo: "is_supported_sector_size (vd_logical_sector_size v)" "unat (vd_length v) + 65536 < 2 ^ 64"
    "unat (vd_base v) + unat (vd_length v) \<le> length c"
    and e: "unat rel_end = unat off + length bs" "bs \<noteq> []" "rel_end \<le> vd_length v"
    and phys: "unat phys = unat (vd_base v) + unat off"
  shows "triple (inner_holds ok content v ((=) c)) (volume_rmw dev v off rel_end bs)
    (\<lambda>_. inner_holds ok content v (written c (ByteOffset phys) bs))
    (inner_holds ok content v (torn c (ByteOffset phys) bs))"
proof -
  define sb :: u64 where "sb = ucast (vd_logical_sector_size v)"
  define ws where "ws = off div sb * sb"
  define we where "we = min (((rel_end - 1) div sb + 1) * sb) (vd_length v)"
  let ?I = "inner_holds ok content v"
  have ls: "512 \<le> vd_logical_sector_size v" "vd_logical_sector_size v \<le> 65536" and n: "0 < length bs"
    using geo(1) e(2) by (simp_all add: is_supported_sector_size_def)
  note w = window_arith [OF ls e(1) n e(3) geo(2), folded sb_def, folded ws_def we_def]
  note b = window_bounds [OF w(4) e(1) n e(3) [unfolded word_le_nat_alt], folded w(1-3)]
  have wl: "unat (we - ws) = unat we - unat ws" and hp: "unat (off - ws) = unat off - unat ws"
    using b by (simp_all add: unat_sub word_le_nat_alt)
  have "triple (?I ((=) c)) (io_bind (stage_window dev v (off div sb) ((rel_end - 1) div sb) ws we rel_end
        (unat (we - ws)) (unat (off - ws)) pw)
      (\<lambda>stage. io_then (on_volume (write_all_at dev (ByteOffset pw) (blit stage (unat (off - ws)) bs)))
         (io_then (io_modify (\<lambda>v. v\<lparr>vd_rmw_operations := vd_rmw_operations v + 1\<rparr>)) cx_checkpoint)))
      (\<lambda>_. ?I (written c (ByteOffset phys) bs)) (?I (torn c (ByteOffset phys) bs))"
    if pw: "checked_add (vd_base v) ws = Some pw" for pw
  proof -
  have pw': "unat pw = unat (vd_base v) + unat ws" using checked_add_SomeD [OF pw] .
  note st = stage_window_law [OF geo(1,2) e(1) n e(3) pw' [unfolded w(1)] geo(3), folded sb_def, folded ws_def we_def]
  have wb: "written c (ByteOffset pw) (blit st (unat (off - ws)) bs) c' \<Longrightarrow> written c (ByteOffset phys) bs c'"
    "torn c (ByteOffset pw) (blit st (unat (off - ws)) bs) c' \<Longrightarrow> torn c (ByteOffset phys) bs c'"
    if "staged c (unat pw) (unat (we - ws)) (unat (off - ws)) (length bs) st" for st c'
    using staged_write [of c "ByteOffset pw" "unat (we - ws)" "unat (off - ws)" bs st "ByteOffset phys" c'] that
      b geo(3) e(1) wl hp pw' phys by auto
  show ?thesis
  proof (rule triple_bind_conseq [OF st])
    fix st
    show "triple (\<lambda>v'. ?I ((=) c) v' \<and> staged c (unat pw) (unat (we - ws)) (unat (off - ws)) (length bs) st)
        (io_then (on_volume (write_all_at dev (ByteOffset pw) (blit st (unat (off - ws)) bs)))
         (io_then (io_modify (\<lambda>v. v\<lparr>vd_rmw_operations := vd_rmw_operations v + 1\<rparr>)) cx_checkpoint))
        (\<lambda>_. ?I (written c (ByteOffset phys) bs)) (?I (torn c (ByteOffset phys) bs))"
    proof (rule triple_assume [where A = "staged c (unat pw) (unat (we - ws)) (unat (off - ws)) (length bs) st"])
      assume good: "staged c (unat pw) (unat (we - ws)) (unat (off - ws)) (length bs) st"
      show ?thesis
        by (rule triple_then_conseq [OF on_volume_write [of v c]])
          (auto intro!: triple_then [where R = "?I (written c (ByteOffset phys) bs)", OF triple_modify] triple_checkpoint
            intro: inner_holds_mono wb [OF good] written_torn)
    qed simp
  qed (auto elim: inner_holds_mono)
  qed
  then show ?thesis
    unfolding volume_rmw_def Let_def sb_def [symmetric] ws_def [symmetric] we_def [symmetric]
    by (intro triple_option) (auto elim: inner_holds_mono)
qed

lemma volume_write_inner:
  assumes v: "ok (vd_device v)" "content (vd_device v) = c" "vol_geometry content v"
  shows "triple ((=) v) (volume_write_all_at dev off bs)
    (\<lambda>_. inner_holds ok content v (\<lambda>c'. if bs = [] then c' = c else
       unat (off_val off) + length bs \<le> unat (vd_length v) \<and> written c (ByteOffset (vd_base v + off_val off)) bs c'))
    (inner_holds ok content v (\<lambda>c'. c' = c \<or> bs \<noteq> [] \<and>
       unat (off_val off) + length bs \<le> unat (vd_length v) \<and> torn c (ByteOffset (vd_base v + off_val off)) bs c'))"
  (is "triple _ _ ?Q ?E")
proof -
  have self: "inner_holds ok content v C v \<longleftrightarrow> C c" for C using v by (simp add: inner_holds_def vol_frame_def)
  have geo: "is_supported_sector_size (vd_logical_sector_size v)" "unat (vd_length v) + 65536 < 2 ^ 64"
    "unat (vd_base v) + unat (vd_length v) \<le> length c" using v by (auto simp: vol_geometry_def)
  have go: "triple ((=) v) (volume_passthrough dev phys bs) ?Q ?E" "triple ((=) v) (volume_rmw dev v (off_val off) rel_end bs) ?Q ?E"
    if e: "unat rel_end = unat (off_val off) + length bs" "bs \<noteq> []" "rel_end \<le> vd_length v"
      and "checked_add (vd_base v) (off_val off) = Some phys" for rel_end phys
  proof -
    have phys: "phys = vd_base v + off_val off" "unat phys = unat (vd_base v) + unat (off_val off)"
      using that(4) by (auto simp: arith_defs unat_add_no_overflow split: if_splits)
    have in_range: "unat (off_val off) + length bs \<le> unat (vd_length v)" using e by (simp add: word_le_nat_alt)
    have weaken: "inner_holds ok content v (written c (ByteOffset phys) bs) v' \<Longrightarrow> ?Q x v'"
      "inner_holds ok content v (torn c (ByteOffset phys) bs) v' \<Longrightarrow> ?E v'" for v' x
      using in_range e(2) phys(1) by (auto simp: inner_holds_def)
    show "triple ((=) v) (volume_rmw dev v (off_val off) rel_end bs) ?Q ?E"
      by (rule triple_conseq [OF rmw_law [OF geo e phys(2)]]) (use self weaken in auto)
    show "triple ((=) v) (volume_passthrough dev phys bs) ?Q ?E"
      unfolding volume_passthrough_def
      by (rule triple_then_conseq [OF on_volume_write [of v c]])
        (use self in \<open>auto intro!: triple_then [where R = "inner_holds ok content v (written c (ByteOffset phys) bs)", OF triple_modify]
          triple_checkpoint weaken intro: inner_holds_mono written_torn\<close>)
  qed
  have rel: "unat rel_end = unat (off_val off) + length bs"
    if "try_from_nat (length bs) = Some len" "checked_add (off_val off) len = Some rel_end" for len rel_end
    using try_from_nat_SomeD [OF that(1)] checked_add_SomeD [OF that(2)] by simp
  show ?thesis
    unfolding volume_write_all_at_def volume_range_def Let_def
    by (intro triple_checkpoint_then triple_get_at triple_if triple_fail triple_option triple_return triple_checkpoint go rel)
      (auto simp: self not_less)
qed

lemma volume_read_inner:
  assumes v: "ok (vd_device v)" "content (vd_device v) = c"
  shows "triple ((=) v) (volume_read_exact_at dev off n)
    (\<lambda>bs v'. inner_holds ok content v ((=) c) v' \<and> (if n = 0 then bs = [] else unat (off_val off) + n \<le> unat (vd_length v) \<and>
       unat (vd_base v + off_val off) = unat (vd_base v) + unat (off_val off) \<and> reads c (ByteOffset (vd_base v + off_val off)) n bs))
    (inner_holds ok content v ((=) c))"
  (is "triple _ _ ?Q ?E")
proof -
  have self: "inner_holds ok content v ((=) c) v" using v by (simp add: inner_holds_def vol_frame_def)
  have go: "triple ((=) v) (io_bind (on_volume (read_exact_at dev (ByteOffset phys) n)) (\<lambda>bs. io_then cx_checkpoint (io_return bs))) ?Q ?E"
    if "checked_add (vd_base v) (off_val off) = Some phys" "unat rel_end = unat (off_val off) + n" "n \<noteq> 0" "\<not> vd_length v < rel_end" for phys rel_end
    by (rule triple_bind_conseq [OF on_volume_read [of v c]])
      (use self that in \<open>auto intro!: triple_rules simp: arith_defs not_less word_le_nat_alt unat_add_no_overflow split: if_splits\<close>)
  have rel: "unat rel_end = unat (off_val off) + n"
    if "try_from_nat n = Some len" "checked_add (off_val off) len = Some rel_end" for len rel_end
    using try_from_nat_SomeD [OF that(1)] checked_add_SomeD [OF that(2)] by simp
  show ?thesis
    unfolding volume_read_exact_at_def volume_range_def
    by (intro triple_checkpoint_then triple_get_at triple_if triple_fail triple_option triple_return triple_checkpoint go rel)
      (auto simp: self not_less)
qed

abbreviation vol_holds :: "bytes \<Rightarrow> 'd volume_device \<Rightarrow> bool" where
  "vol_holds \<equiv> holds (vol_ok ok content) (vol_content content)"

lemma vol_holdsD:
  assumes "vol_holds c v"
  shows "ok (vd_device v)" "vol_geometry content v" "vol_content content v = c"
    "unat (vd_base v) + unat (vd_length v) \<le> length (content (vd_device v))"
    "c = segment (content (vd_device v)) (unat (vd_base v)) (unat (vd_base v) + unat (vd_length v))"
  using assms by (auto simp: holds_def vol_ok_def vol_geometry_def vol_content_def)

lemma inner_vol_ok:
  assumes "vol_holds c v" "vol_frame v v'" "ok (vd_device v')" "length (content (vd_device v')) = length (content (vd_device v))"
  shows "vol_ok ok content v'" "vol_content content v' =
    segment (content (vd_device v')) (unat (vd_base v)) (unat (vd_base v) + unat (vd_length v))"
  using assms by (auto simp: holds_def vol_ok_def vol_geometry_def vol_frame_def vol_content_def)

lemma volume_read_law:
  "triple (vol_holds c) (volume_read_exact_at dev off n) (\<lambda>bs v. vol_holds c v \<and> reads c off n bs) (vol_holds c)"
proof (rule triple_pointwise)
  fix v assume v: "vol_holds c v"
  note d = vol_holdsD [OF v]
  have keep: "vol_holds c v'" if "inner_holds ok content v ((=) (content (vd_device v))) v'" for v'
    using inner_vol_ok [OF v, of v'] that d(5) by (auto simp: holds_def inner_holds_def)
  have seg: "reads c off n bs" if "unat (off_val off) + n \<le> unat (vd_length v)"
      "unat (vd_base v + off_val off) = unat (vd_base v) + unat (off_val off)"
      "reads (content (vd_device v)) (ByteOffset (vd_base v + off_val off)) n bs" for bs
    using slice_reads [OF d(4) _ that(1,3)] that(2) d(5) by simp
  show "triple ((=) v) (volume_read_exact_at dev off n) (\<lambda>bs v. vol_holds c v \<and> reads c off n bs) (vol_holds c)"
    by (rule triple_conseq [OF volume_read_inner [OF d(1) refl]]) (use keep seg in \<open>auto split: if_splits\<close>)
qed

lemma volume_write_law:
  "triple (vol_holds c) (volume_write_all_at dev off bs)
    (\<lambda>_ v. vol_ok ok content v \<and> written c off bs (vol_content content v))
    (\<lambda>v. vol_ok ok content v \<and> torn c off bs (vol_content content v))"
proof (rule triple_pointwise)
  fix v assume v: "vol_holds c v"
  note d = vol_holdsD [OF v]
  let ?c = "content (vd_device v)" and ?phys = "ByteOffset (vd_base v + off_val off)"
  have phys: "unat (off_val ?phys) = unat (vd_base v) + unat (off_val off)"
    if "unat (off_val off) + length bs \<le> unat (vd_length v)" "bs \<noteq> []"
  proof -
    have "length ?c < 2 ^ 64" using content_length [OF d(1)] unsigned_less [of "len_bytes dev (vd_device v)", where 'a = nat] by simp
    moreover have "0 < length bs" using that(2) by simp
    ultimately show ?thesis using that(1) d(4) by (simp add: unat_add_no_overflow)
  qed
  have good: "vol_ok ok content v' \<and> written c off bs (vol_content content v')"
    if i: "inner_holds ok content v (\<lambda>c'. if bs = [] then c' = ?c else
       unat (off_val off) + length bs \<le> unat (vd_length v) \<and> written ?c ?phys bs c') v'" for v'
    using inner_vol_ok [OF v, of v'] i slice_written [OF d(4), of ?phys off bs "content (vd_device v')"] phys d(5)
    by (auto simp: inner_holds_def written_length split: if_splits)
  have bad: "vol_ok ok content v' \<and> torn c off bs (vol_content content v')"
    if i: "inner_holds ok content v (\<lambda>c'. c' = ?c \<or> bs \<noteq> [] \<and>
       unat (off_val off) + length bs \<le> unat (vd_length v) \<and> torn ?c ?phys bs c') v'" for v'
    using inner_vol_ok [OF v, of v'] i slice_torn [OF d(4), of ?phys off bs "content (vd_device v')"] phys d(5)
    by (auto simp: inner_holds_def torn_length)
  show "triple ((=) v) (volume_write_all_at dev off bs)
    (\<lambda>_ v. vol_ok ok content v \<and> written c off bs (vol_content content v))
    (\<lambda>v. vol_ok ok content v \<and> torn c off bs (vol_content content v))"
    by (rule triple_conseq [OF volume_write_inner [OF d(1) refl d(2)]]) (use good bad in blast)+
qed

lemma volume_sync_law:
  "triple (vol_holds c) (volume_sync dev) (\<lambda>_. vol_holds c)
     (\<lambda>v. vol_ok ok content v \<and> length (vol_content content v) = length c)"
proof (rule triple_pointwise)
  fix v assume v: "vol_holds c v"
  note d = vol_holdsD [OF v]
  have E: "vol_ok ok content v \<and> length (vol_content content v) = length c" using v by (simp add: holds_def)
  have "triple ((=) v) (on_volume (dev_sync dev)) (\<lambda>_. vol_holds c)
      (\<lambda>v. vol_ok ok content v \<and> length (vol_content content v) = length c)"
    unfolding on_volume_def
    by (rule triple_zoom, rule triple_conseq [OF sync_law [of "content (vd_device v)"]])
      (use d v in \<open>auto simp: holds_def vol_ok_def vol_geometry_def vol_content_def\<close>)
  then show "triple ((=) v) (volume_sync dev) (\<lambda>_. vol_holds c)
      (\<lambda>v. vol_ok ok content v \<and> length (vol_content content v) = length c)"
    unfolding volume_sync_def
    by (intro triple_checkpoint_then triple_get_at triple_if triple_return) (use v E in auto)
qed

lemma volume_write_vectored_law:
  "triple (vol_holds c) (default_write_vectored_all_at (volume_write_all_at dev) off bss)
    (\<lambda>_ v. vol_ok ok content v \<and> written c off (concat bss) (vol_content content v))
    (\<lambda>v. vol_ok ok content v \<and> torn c off (concat bss) (vol_content content v))"
  by (rule default_write_vectored_law [OF volume_write_law]) (simp add: holds_def)

lemma volume_contract: "device_contract (volume_byte_device dev) (vol_ok ok content) (vol_content content)"
  by unfold_locales
    (simp_all add: volume_byte_device_def vol_content_length volume_read_law volume_write_law volume_sync_law
      default_read_vectored_law [OF volume_read_law] volume_write_vectored_law default_discard_def triple_fail)

end

context steady_device
begin

lemma volume_steady_sync: "triple (vol_holds c) (volume_sync dev) (\<lambda>_. vol_holds c) (vol_holds c)"
proof (rule triple_pointwise)
  fix v assume v: "vol_holds c v"
  have "triple ((=) v) (on_volume (dev_sync dev)) (\<lambda>_. vol_holds c) (vol_holds c)"
    unfolding on_volume_def
    by (rule triple_zoom, rule triple_conseq [OF steady_sync_law [of "content (vd_device v)"]])
      (use vol_holdsD [OF v] v in \<open>auto simp: holds_def vol_ok_def vol_geometry_def vol_content_def\<close>)
  then show "triple ((=) v) (volume_sync dev) (\<lambda>_. vol_holds c) (vol_holds c)"
    unfolding volume_sync_def
    by (intro triple_checkpoint_then triple_get_at triple_if triple_return) (use v in auto)
qed

lemma volume_steady: "steady_device (volume_byte_device dev) (vol_ok ok content) (vol_content content)"
  by (intro steady_device.intro steady_device_axioms.intro volume_contract)
    (simp add: volume_byte_device_def volume_steady_sync)

end

text \<open>A volume that the constructor returns is well formed and shows its range of the device.\<close>

lemma volume_with_mode_ok:
  assumes "volume_with_mode dev d base len logical physical read_only = Inr v" "ok d"
    and "length (content d) = unat (len_bytes dev d)" "unat len + 65536 < 2 ^ 64"
  shows "vol_ok ok content v" "vol_content content v = segment (content d) (unat base) (unat base + unat len)"
    "len_bytes (volume_byte_device dev) v = len"
proof -
  obtain e where e: "is_supported_sector_size logical" "checked_add base len = Some e" "e \<le> len_bytes dev d"
    and v: "vd_device v = d" "vd_base v = base" "vd_length v = len" "vd_logical_sector_size v = logical"
    using assms(1)
    by (auto simp: volume_with_mode_def validate_volume_sector_sizes_def not_less split: if_splits sum.splits option.splits)
  have "unat base + unat len \<le> unat (len_bytes dev d)"
    using checked_add_SomeD [OF e(2)] e(3) by (simp add: word_le_nat_alt)
  then show "vol_ok ok content v" using assms(2-4) e(1) by (simp add: vol_ok_def vol_geometry_def v)
  show "vol_content content v = segment (content d) (unat base) (unat base + unat len)" by (simp add: vol_content_def v)
  show "len_bytes (volume_byte_device dev) v = len" by (simp add: volume_byte_device_def v)
qed

interpretation file_volume: device_contract "volume_byte_device (file_byte_device env)"
  "vol_ok file_ok file_content" "vol_content file_content"
  by (rule file_dev.volume_contract)

interpretation file_volume_steady: steady_device "volume_byte_device (file_byte_device env)"
  "vol_ok file_ok file_content" "vol_content file_content"
  by (rule file_steady.volume_steady)

section \<open>The locks of a write\<close>

lemma sorted_remdups_adj: "sorted xs \<Longrightarrow> distinct (remdups_adj xs)" for xs :: "'a::linorder list"
  by (induction xs rule: remdups_adj.induct) auto

lemma stripes_ascending: "sorted_wrt (<) (stripe_indices_for_sectors a b)"
  by (simp add: stripe_indices_for_sectors_def Let_def strict_sorted_iff sorted_remdups_adj del: upt_Suc)

lemma stripes_cover:
  assumes "a \<le> s" "s \<le> b"
  shows "unat s mod VOLUME_DEVICE_RMW_STRIPES \<in> set (stripe_indices_for_sectors a b)"
  using assms by (auto simp: stripe_indices_for_sectors_def Let_def VOLUME_DEVICE_RMW_STRIPES_def word_le_nat_alt
      simp del: upt_Suc)

end
