(* ===== verification/Sector_Fault.thy ===== *)
theory Sector_Fault
  imports Volume_Law
begin

text \<open>
  \<open>SectorFaultDevice\<close> (\<open>ffs-block/src/lib.rs\<close>): a byte device that keeps written sectors in a
  volatile cache until they are synced, injects faults by rules, and loses the cache in a crash.
  Byte positions and sector numbers are naturals here: they are bounded by the length of the
  device, which is a \<open>u64\<close>, and the end of the last sector fits a \<open>u64\<close> for every device that
  leaves a sector below the top of the address space.
\<close>

section \<open>State and rules\<close>

datatype sector_fault_op = FaultRead | FaultWrite | FaultSync

datatype sector_fault_action =
    FailIo
  | ShortTransfer usize
  | TornWrite u64
  | BitRot usize u8

record sector_fault_rule =
  rule_op :: sector_fault_op
  sector_range :: "(nat \<times> nat) option"
  trigger_on_match :: "u64 option"
  rule_action :: sector_fault_action

record 'd sector_fault_device =
  sf_inner :: 'd
  sf_sector_size :: u32
  sf_pending :: "(nat, bytes) btree_map"
  sf_bit_rot :: "(nat, u8) btree_map"
  sf_rules :: "(sector_fault_rule \<times> u64) list"
  sf_read_count :: u64
  sf_write_count :: u64
  sf_sync_count :: u64

definition sf_new :: "'d \<Rightarrow> u32 \<Rightarrow> 'd sector_fault_device ffs_result" where
  "sf_new inner sector_size =
     (case validate_volume_sector_sizes sector_size sector_size of
        Inl err \<Rightarrow> Inl err
      | Inr _ \<Rightarrow>
          Inr \<lparr>sf_inner = inner, sf_sector_size = sector_size, sf_pending = [], sf_bit_rot = [], sf_rules = [],
               sf_read_count = 0, sf_write_count = 0, sf_sync_count = 0\<rparr>)"

definition add_rule :: "sector_fault_rule \<Rightarrow> 'd sector_fault_device \<Rightarrow> 'd sector_fault_device" where
  "add_rule rule d = d\<lparr>sf_rules := sf_rules d @ [(rule, 0)]\<rparr>"

definition clear_rules :: "'d sector_fault_device \<Rightarrow> 'd sector_fault_device" where
  "clear_rules d = d\<lparr>sf_rules := []\<rparr>"

definition inject_bit_rot :: "nat \<Rightarrow> u8 \<Rightarrow> 'd sector_fault_device \<Rightarrow> 'd sector_fault_device" where
  "inject_bit_rot off xor_mask d =
     (if xor_mask = 0 then d\<lparr>sf_bit_rot := bt_remove off (sf_bit_rot d)\<rparr>
      else d\<lparr>sf_bit_rot := bt_insert off
             ((case bt_get (sf_bit_rot d) off of Some m \<Rightarrow> m | None \<Rightarrow> 0) XOR xor_mask) (sf_bit_rot d)\<rparr>)"

definition clear_bit_rot :: "'d sector_fault_device \<Rightarrow> 'd sector_fault_device" where
  "clear_bit_rot d = d\<lparr>sf_bit_rot := []\<rparr>"

definition crash :: "'d sector_fault_device \<Rightarrow> usize \<times> 'd sector_fault_device" where
  "crash d = (length (sf_pending d), d\<lparr>sf_pending := []\<rparr>)"

definition outside :: "(nat \<times> nat) option \<Rightarrow> (nat \<times> nat) option \<Rightarrow> bool" where
  "outside rng span =
     (case (rng, span) of
        (Some (rule_start, rule_end), Some (op_start, op_end)) \<Rightarrow> op_end \<le> rule_start \<or> rule_end \<le> op_start
      | _ \<Rightarrow> False)"

fun match_rules ::
  "sector_fault_op \<Rightarrow> (nat \<times> nat) option \<Rightarrow> (sector_fault_rule \<times> u64) list
   \<Rightarrow> sector_fault_action option \<times> (sector_fault_rule \<times> u64) list" where
  "match_rules op span [] = (None, [])"
| "match_rules op span ((rule, seen) # rest) =
     (if rule_op rule \<noteq> op \<or> outside (sector_range rule) span
      then map_prod id (\<lambda>rules. (rule, seen) # rules) (match_rules op span rest)
      else case trigger_on_match rule of
             None \<Rightarrow> (Some (rule_action rule), (rule, saturating_add seen 1) # rest)
           | Some target \<Rightarrow>
               if target = seen then (Some (rule_action rule), rest)
               else map_prod id (\<lambda>rules. (rule, saturating_add seen 1) # rules) (match_rules op span rest))"

definition match_action ::
  "sector_fault_op \<Rightarrow> (nat \<times> nat) option \<Rightarrow> (sector_fault_action option \<Rightarrow> ('d sector_fault_device, 'a) io)
   \<Rightarrow> ('d sector_fault_device, 'a) io" where
  "match_action op span k =
     io_get (\<lambda>d. case match_rules op span (sf_rules d) of
                   (action, rules) \<Rightarrow> io_then (io_modify (\<lambda>d. d\<lparr>sf_rules := rules\<rparr>)) (k action))"

definition on_inner :: "('d, 'a) io \<Rightarrow> ('d sector_fault_device, 'a) io" where
  "on_inner = io_zoom sf_inner (\<lambda>d s. s\<lparr>sf_inner := d\<rparr>)"

section \<open>Reads and writes\<close>

definition overlay_sector :: "nat \<Rightarrow> nat \<Rightarrow> nat \<Rightarrow> nat \<times> bytes \<Rightarrow> bytes \<Rightarrow> bytes" where
  "overlay_sector sector_bytes off end entry buf =
     (case entry of (sector, data) \<Rightarrow>
        let sec_start = sector * sector_bytes;
            sec_end = sec_start + length data;
            copy_start = max off sec_start;
            copy_end = min end sec_end
        in if copy_start < copy_end
           then blit buf (copy_start - off) (segment data (copy_start - sec_start) (copy_end - sec_start))
           else buf)"

definition rot_byte :: "nat \<Rightarrow> nat \<times> u8 \<Rightarrow> bytes \<Rightarrow> bytes" where
  "rot_byte off entry buf = (case entry of (rot_offset, xor_mask) \<Rightarrow> buf[rot_offset - off := buf ! (rot_offset - off) XOR xor_mask])"

definition read_with_overlay :: "'d byte_device \<Rightarrow> byte_offset \<Rightarrow> usize \<Rightarrow> ('d sector_fault_device, bytes) io" where
  "read_with_overlay dev off n =
     (if n = 0 then io_return []
      else io_bind (on_inner (read_exact_at dev off n)) (\<lambda>buf.
           io_get (\<lambda>d.
             let sector_bytes = unat (sf_sector_size d);
                 start = unat (off_val off);
                 end = start + n;
                 first_sector = start div sector_bytes;
                 last_sector = (end - 1) div sector_bytes;
                 buf = fold (overlay_sector sector_bytes start end)
                         (filter (\<lambda>(sector, _). first_sector \<le> sector \<and> sector \<le> last_sector) (sf_pending d)) buf
             in io_return (fold (rot_byte start)
                  (filter (\<lambda>(rot, _). start \<le> rot \<and> rot < end) (sf_bit_rot d)) buf))))"

definition stage_sector :: "'d byte_device \<Rightarrow> nat \<Rightarrow> bytes \<Rightarrow> nat \<Rightarrow> ('d sector_fault_device, unit) io" where
  "stage_sector dev off buf sector =
     io_get (\<lambda>d.
       let sector_bytes = unat (sf_sector_size d);
           dev_len = unat (len_bytes dev (sf_inner d));
           end = off + length buf;
           sec_start = sector * sector_bytes;
           sec_end = min (sec_start + sector_bytes) dev_len;
           sec_len = sec_end - sec_start;
           copy_start = max off sec_start;
           copy_end = min end sec_end;
           dst_off = copy_start - sec_start;
           src_off = copy_start - off;
           copy_len = copy_end - copy_start;
           piece = segment buf src_off (src_off + copy_len)
       in case bt_get (sf_pending d) sector of
            None \<Rightarrow>
              io_bind (if 0 < dst_off \<or> copy_len < sec_len
                       then on_inner (read_exact_at dev (ByteOffset (of_nat sec_start)) sec_len)
                       else io_return (replicate sec_len 0)) (\<lambda>sector_buf.
              io_modify (\<lambda>d. d\<lparr>sf_pending := bt_insert sector (blit sector_buf dst_off piece) (sf_pending d)\<rparr>))
          | Some sector_buf \<Rightarrow>
              io_modify (\<lambda>d. d\<lparr>sf_pending := bt_insert sector (blit sector_buf dst_off piece) (sf_pending d)\<rparr>))"

fun stage_sectors :: "'d byte_device \<Rightarrow> nat \<Rightarrow> bytes \<Rightarrow> nat list \<Rightarrow> ('d sector_fault_device, unit) io" where
  "stage_sectors dev off buf [] = io_return ()"
| "stage_sectors dev off buf (sector # rest) =
     io_then (stage_sector dev off buf sector) (stage_sectors dev off buf rest)"

definition stage_pending_bytes :: "'d byte_device \<Rightarrow> byte_offset \<Rightarrow> bytes \<Rightarrow> ('d sector_fault_device, unit) io" where
  "stage_pending_bytes dev off buf =
     (if buf = [] then io_return ()
      else io_get (\<lambda>d.
        let sector_bytes = unat (sf_sector_size d);
            start = unat (off_val off);
            end = start + length buf
        in stage_sectors dev start buf [start div sector_bytes..<Suc ((end - 1) div sector_bytes)]))"

definition io_other :: ffs_error where
  "io_other = Io \<lparr>raw_os_error = None, kind = KOther\<rparr>"

definition fault_range ::
  "'d byte_device \<Rightarrow> string \<Rightarrow> byte_offset \<Rightarrow> usize
   \<Rightarrow> ((nat \<times> nat) option \<Rightarrow> ('d sector_fault_device, 'a) io) \<Rightarrow> ('d sector_fault_device, 'a) io" where
  "fault_range dev what off n k =
     io_option (try_from_nat n) (Format (what @ '' length overflows u64'')) (\<lambda>len.
     io_option (checked_add (off_val off) len) (Format (what @ '' range overflows u64'')) (\<lambda>end.
     io_get (\<lambda>d.
       let dev_len = len_bytes dev (sf_inner d);
           sector_bytes = unat (sf_sector_size d)
       in if dev_len < end then io_fail (out_of_bounds what off n ''device_len'' dev_len)
          else k (Some (unat (off_val off) div sector_bytes, (unat end + sector_bytes - 1) div sector_bytes)))))"

text \<open>What an operation does under the action of the rule it matched, or with none.\<close>

definition read_action ::
  "'d byte_device \<Rightarrow> byte_offset \<Rightarrow> usize \<Rightarrow> sector_fault_action option \<Rightarrow> ('d sector_fault_device, bytes) io" where
  "read_action dev off n action =
     (case action of
        None \<Rightarrow> io_bind (read_with_overlay dev off n) (\<lambda>buf. io_then cx_checkpoint (io_return buf))
      | Some FailIo \<Rightarrow> io_fail io_other
      | Some (TornWrite _) \<Rightarrow> io_fail io_other
      | Some (ShortTransfer k) \<Rightarrow>
          io_bind (read_with_overlay dev off (min k n)) (\<lambda>_. io_fail unexpected_eof)
      | Some (BitRot i xor_mask) \<Rightarrow>
          io_bind (read_with_overlay dev off n) (\<lambda>buf.
          io_then cx_checkpoint (io_return (if i < length buf then buf[i := buf ! i XOR xor_mask] else buf))))"

definition fault_read_exact_at :: "'d byte_device \<Rightarrow> byte_offset \<Rightarrow> usize \<Rightarrow> ('d sector_fault_device, bytes) io" where
  "fault_read_exact_at dev off n =
     io_then cx_checkpoint (
     fault_range dev ''read'' off n (\<lambda>span.
       io_then (io_modify (\<lambda>d. d\<lparr>sf_read_count := sf_read_count d + 1\<rparr>)) (
       if n = 0 then io_then cx_checkpoint (io_return [])
       else match_action FaultRead span (read_action dev off n))))"

definition saturating_mul_bytes :: "u64 \<Rightarrow> nat \<Rightarrow> nat" where
  "saturating_mul_bytes sectors sector_bytes = min (unat sectors * sector_bytes) (2 ^ 64 - 1)"

definition write_action ::
  "'d byte_device \<Rightarrow> byte_offset \<Rightarrow> bytes \<Rightarrow> sector_fault_action option \<Rightarrow> ('d sector_fault_device, unit) io" where
  "write_action dev off buf action =
     (case action of
        None \<Rightarrow> io_then (stage_pending_bytes dev off buf) cx_checkpoint
      | Some FailIo \<Rightarrow> io_fail io_other
      | Some (BitRot _ _) \<Rightarrow> io_fail io_other
      | Some (ShortTransfer k) \<Rightarrow>
          io_then (stage_pending_bytes dev off (take k buf)) (io_fail (Io \<lparr>raw_os_error = None, kind = KWriteZero\<rparr>))
      | Some (TornWrite keep) \<Rightarrow>
          io_get (\<lambda>d.
            io_then (stage_pending_bytes dev off (take (saturating_mul_bytes keep (unat (sf_sector_size d))) buf))
              (io_fail io_other)))"

definition fault_write_all_at :: "'d byte_device \<Rightarrow> byte_offset \<Rightarrow> bytes \<Rightarrow> ('d sector_fault_device, unit) io" where
  "fault_write_all_at dev off buf =
     io_then cx_checkpoint (
     fault_range dev ''write'' off (length buf) (\<lambda>span.
       io_then (io_modify (\<lambda>d. d\<lparr>sf_write_count := sf_write_count d + 1\<rparr>)) (
       if buf = [] then io_then cx_checkpoint (io_return ())
       else match_action FaultWrite span (write_action dev off buf))))"

section \<open>Synchronisation\<close>

text \<open>The complete flush takes the cache out first; the partial one removes sector by sector.\<close>

fun flush_sectors :: "'d byte_device \<Rightarrow> nat \<Rightarrow> (nat \<times> bytes) list \<Rightarrow> ('d sector_fault_device, unit) io" where
  "flush_sectors dev sector_bytes [] = io_return ()"
| "flush_sectors dev sector_bytes ((sector, data) # rest) =
     io_then (on_inner (write_all_at dev (ByteOffset (of_nat (sector * sector_bytes))) data))
       (flush_sectors dev sector_bytes rest)"

fun flush_keys :: "'d byte_device \<Rightarrow> nat \<Rightarrow> nat list \<Rightarrow> ('d sector_fault_device, unit) io" where
  "flush_keys dev sector_bytes [] = io_return ()"
| "flush_keys dev sector_bytes (sector # rest) =
     io_get (\<lambda>d. case bt_get (sf_pending d) sector of
       None \<Rightarrow> flush_keys dev sector_bytes rest
     | Some data \<Rightarrow>
         io_then (io_modify (\<lambda>d. d\<lparr>sf_pending := bt_remove sector (sf_pending d)\<rparr>)) (
         io_then (on_inner (write_all_at dev (ByteOffset (of_nat (sector * sector_bytes))) data))
           (flush_keys dev sector_bytes rest)))"

definition flush_partially :: "'d byte_device \<Rightarrow> nat \<Rightarrow> ('d sector_fault_device, unit) io" where
  "flush_partially dev limit =
     io_get (\<lambda>d.
       io_then (flush_keys dev (unat (sf_sector_size d)) (map fst (take limit (sf_pending d)))) (
       io_then (on_inner (dev_sync dev)) (io_fail io_other)))"

definition flush_all :: "'d byte_device \<Rightarrow> ('d sector_fault_device, unit) io" where
  "flush_all dev =
     io_get (\<lambda>d.
       io_then (io_modify (\<lambda>d. d\<lparr>sf_pending := []\<rparr>)) (
       io_then (flush_sectors dev (unat (sf_sector_size d)) (sf_pending d)) (
       io_then (on_inner (dev_sync dev)) cx_checkpoint)))"

definition sync_action ::
  "'d byte_device \<Rightarrow> sector_fault_action option \<Rightarrow> ('d sector_fault_device, unit) io" where
  "sync_action dev action =
     (case action of
        Some FailIo \<Rightarrow> io_fail io_other
      | Some (BitRot _ _) \<Rightarrow> io_fail io_other
      | Some (TornWrite keep) \<Rightarrow> flush_partially dev (unat keep)
      | Some (ShortTransfer k) \<Rightarrow> io_get (\<lambda>d. flush_partially dev (k div unat (sf_sector_size d)))
      | None \<Rightarrow> flush_all dev)"

definition fault_sync :: "'d byte_device \<Rightarrow> ('d sector_fault_device, unit) io" where
  "fault_sync dev =
     io_then cx_checkpoint (
     io_then (io_modify (\<lambda>d. d\<lparr>sf_sync_count := sf_sync_count d + 1\<rparr>)) (
     match_action FaultSync None (sync_action dev)))"

definition fault_byte_device :: "'d byte_device \<Rightarrow> 'd sector_fault_device byte_device" where
  "fault_byte_device dev =
     \<lparr>len_bytes = (\<lambda>d. len_bytes dev (sf_inner d)), supports_vectored_reads = False, preserves_read_exact_at = False, preserves_read_vectored = False,
      read_exact_at = fault_read_exact_at dev, read_exact_at_volatile = fault_read_exact_at dev,
      read_vectored_exact_at = default_read_vectored_exact_at (\<lambda>d. len_bytes dev (sf_inner d)) (fault_read_exact_at dev),
      write_all_at = fault_write_all_at dev,
      write_vectored_all_at = default_write_vectored_all_at (fault_write_all_at dev),
      dev_sync = fault_sync dev, supports_discard = (\<lambda>_. False), discard = default_discard\<rparr>"

end
