(* ===== verification/Fault_Law.thy ===== *)
theory Fault_Law
  imports Sector_Fault
begin

text \<open>
  The fault-injecting device meets the device contract as long as no bit rot is injected. What
  its clients see is the durable content below it with the pending sectors on top; writes leave
  the durable content alone, and a successful sync makes it equal to what is seen.
\<close>

section \<open>The visible content\<close>

definition sf_size :: "'d sector_fault_device \<Rightarrow> nat" where
  "sf_size d = unat (sf_sector_size d)"

definition pending_ok :: "nat \<Rightarrow> nat \<Rightarrow> (nat, bytes) btree_map \<Rightarrow> bool" where
  "pending_ok sz len m \<longleftrightarrow>
     bt_inv m \<and> (\<forall>s data. bt_get m s = Some data \<longrightarrow> s * sz < len \<and> length data = min sz (len - s * sz))"

definition sees :: "nat \<Rightarrow> (nat, bytes) btree_map \<Rightarrow> bytes \<Rightarrow> nat \<Rightarrow> u8" where
  "sees sz m c p = (case bt_get m (p div sz) of None \<Rightarrow> c ! p | Some data \<Rightarrow> data ! (p mod sz))"

definition sf_view :: "('d \<Rightarrow> bytes) \<Rightarrow> 'd sector_fault_device \<Rightarrow> bytes" where
  "sf_view content d =
     map (sees (sf_size d) (sf_pending d) (content (sf_inner d))) [0..<length (content (sf_inner d))]"

definition harmless :: "sector_fault_rule \<Rightarrow> bool" where
  "harmless rule \<longleftrightarrow> rule_op rule = FaultRead \<longrightarrow> (\<forall>i m. rule_action rule \<noteq> BitRot i m)"

definition rot_free :: "(sector_fault_rule \<times> u64) list \<Rightarrow> bool" where
  "rot_free rules \<longleftrightarrow> (\<forall>rule \<in> fst ` set rules. harmless rule)"

definition sf_ok :: "('d \<Rightarrow> bool) \<Rightarrow> ('d \<Rightarrow> bytes) \<Rightarrow> 'd sector_fault_device \<Rightarrow> bool" where
  "sf_ok ok content d \<longleftrightarrow>
     ok (sf_inner d) \<and> is_supported_sector_size (sf_sector_size d)
   \<and> pending_ok (sf_size d) (length (content (sf_inner d))) (sf_pending d)
   \<and> sf_bit_rot d = [] \<and> rot_free (sf_rules d)"

text \<open>The device holds durable content \<open>c\<close> and shows \<open>v\<close>.\<close>

definition sf_state ::
  "('d \<Rightarrow> bool) \<Rightarrow> ('d \<Rightarrow> bytes) \<Rightarrow> nat \<Rightarrow> bytes \<Rightarrow> bytes \<Rightarrow> 'd sector_fault_device \<Rightarrow> bool" where
  "sf_state ok content sz c v d \<longleftrightarrow>
     sf_ok ok content d \<and> sf_size d = sz \<and> content (sf_inner d) = c \<and> sf_view content d = v"

text \<open>Nothing pending: what is seen is what is durable.\<close>

definition sf_clean :: "('d \<Rightarrow> bool) \<Rightarrow> ('d \<Rightarrow> bytes) \<Rightarrow> nat \<Rightarrow> bytes \<Rightarrow> 'd sector_fault_device \<Rightarrow> bool" where
  "sf_clean ok content sz c d \<longleftrightarrow> sf_state ok content sz c c d \<and> sf_pending d = []"

lemma sf_ok_size: "sf_ok ok content d \<Longrightarrow> 0 < sf_size d"
  by (simp add: sf_ok_def is_supported_sector_size_def sf_size_def word_le_nat_alt)

lemma length_sf_view [simp]: "length (sf_view content d) = length (content (sf_inner d))"
  by (simp add: sf_view_def)

lemma div_eq_iff_between: "0 < sz \<Longrightarrow> p div sz = s \<longleftrightarrow> s * sz \<le> p \<and> p < s * sz + sz" for p :: nat
  using dividend_less_div_times [of sz p] by (auto simp: div_nat_eqI add.commute mult.commute)

lemma overlay_spec:
  assumes sz: "0 < sz" and data: "s * sz < len" "length data = min sz (len - s * sz)" and buf: "length buf = n" "off + n \<le> len"
  shows "length (overlay_sector sz off (off + n) (s, data) buf) = n"
    and "k < n \<Longrightarrow> overlay_sector sz off (off + n) (s, data) buf ! k =
      (if (off + k) div sz = s then data ! ((off + k) mod sz) else buf ! k)"
proof -
  define cs where "cs = max off (s * sz)"
  define ce where "ce = min (off + n) (s * sz + length data)"
  define piece where "piece = segment data (cs - s * sz) (ce - s * sz)"
  have eq: "overlay_sector sz off (off + n) (s, data) buf = (if cs < ce then blit buf (cs - off) piece else buf)"
    by (simp add: overlay_sector_def Let_def cs_def ce_def piece_def)
  have piece: "length piece = ce - cs" if "cs < ce" using that by (auto simp: piece_def cs_def ce_def)
  have fit: "cs - off + (ce - cs) \<le> length buf" if "cs < ce" using that buf by (auto simp: cs_def ce_def)
  show "length (overlay_sector sz off (off + n) (s, data) buf) = n"
    using piece fit buf by (simp add: eq)
  assume k: "k < n"
  have mem: "(off + k) div sz = s \<longleftrightarrow> cs \<le> off + k \<and> off + k < ce"
    unfolding div_eq_iff_between [OF sz] using k data buf by (auto simp: cs_def ce_def min_def split: if_splits)
  have md: "(off + k) mod sz = off + k - s * sz" if "(off + k) div sz = s"
    using that by (metis minus_div_mult_eq_mod)
  show "overlay_sector sz off (off + n) (s, data) buf ! k = (if (off + k) div sz = s then data ! ((off + k) mod sz) else buf ! k)"
  proof (cases "cs \<le> off + k \<and> off + k < ce")
    case True
    then have "piece ! (k - (cs - off)) = data ! (off + k - s * sz)"
      by (auto simp: piece_def cs_def ce_def max_def add.commute)
    then show ?thesis using True piece fit k buf md mem by (auto simp: eq nth_blit cs_def)
  next
    case False
    then show ?thesis using piece fit k buf unfolding mem by (auto simp: eq nth_blit cs_def)
  qed
qed

lemma overlay_all:
  assumes "0 < sz" "\<forall>(s, data) \<in> set m. s * sz < len \<and> length data = min sz (len - s * sz)" "distinct (map fst m)"
    "length buf = n" "off + n \<le> len"
  shows "length (fold (overlay_sector sz off (off + n)) m buf) = n \<and>
    (\<forall>k < n. fold (overlay_sector sz off (off + n)) m buf ! k =
      (case bt_get m ((off + k) div sz) of None \<Rightarrow> buf ! k | Some data \<Rightarrow> data ! ((off + k) mod sz)))"
  using assms(2-4)
proof (induction m arbitrary: buf)
  case (Cons e m)
  obtain s data where e: "e = (s, data)" by (cases e)
  let ?b = "overlay_sector sz off (off + n) (s, data) buf"
  have d: "s * sz < len" "length data = min sz (len - s * sz)" using Cons.prems(1) by (auto simp: e)
  note o = overlay_spec [OF assms(1) d Cons.prems(3) assms(5)]
  have "s \<notin> fst ` set m" using Cons.prems(2) by (auto simp: e)
  then have fresh: "bt_get m s = None" by (simp add: map_of_eq_None_iff)
  have "length (fold (overlay_sector sz off (off + n)) m ?b) = n \<and>
    (\<forall>k < n. fold (overlay_sector sz off (off + n)) m ?b ! k =
      (case bt_get m ((off + k) div sz) of None \<Rightarrow> ?b ! k | Some data \<Rightarrow> data ! ((off + k) mod sz)))"
    using Cons.prems(1,2) o(1) by (intro Cons.IH) (auto simp: e)
  then show ?case using o(2) fresh by (auto simp: e split: option.split)
qed simp

lemma bt_get_filter_key: "bt_get (filter (\<lambda>(k, _). P k) m) k = (if P k then bt_get m k else None)"
  by (induction m) auto

lemma rot_free_simps [simp]:
  "rot_free []" "rot_free (e # rules) \<longleftrightarrow> harmless (fst e) \<and> rot_free rules"
  by (auto simp: rot_free_def)

lemma match_rules_rot_free:
  "rot_free rules \<Longrightarrow> match_rules op span rules = (a, rules') \<Longrightarrow>
     rot_free rules' \<and> (op = FaultRead \<longrightarrow> (\<forall>i m. a \<noteq> Some (BitRot i m)))"
  by (induction op span rules arbitrary: a rules' rule: match_rules.induct)
    (auto simp: map_prod_def harmless_def split: if_splits option.splits prod.splits)

lemma sf_stateD:
  assumes "sf_state ok content sz c v d"
  shows "unat (sf_sector_size d) = sz" "sf_bit_rot d = []" "ok (sf_inner d)" "content (sf_inner d) = c" "0 < sz"
    "pending_ok sz (length c) (sf_pending d)" "length v = length c" "rot_free (sf_rules d)"
    "is_supported_sector_size (sf_sector_size d)" "v = map (sees sz (sf_pending d) c) [0..<length c]"
  using assms sf_ok_size [of ok content d] by (auto simp: sf_state_def sf_ok_def sf_size_def sf_view_def)

lemma sf_stateI:
  assumes "unat (sf_sector_size d) = sz" "sf_bit_rot d = []" "ok (sf_inner d)" "content (sf_inner d) = c"
    "pending_ok sz (length c) (sf_pending d)" "rot_free (sf_rules d)" "is_supported_sector_size (sf_sector_size d)"
    "v = map (sees sz (sf_pending d) c) [0..<length c]"
  shows "sf_state ok content sz c v d"
  using assms by (auto simp: sf_state_def sf_ok_def sf_size_def sf_view_def)

lemma sf_state_update:
  "sf_state ok content sz c v d \<Longrightarrow> rot_free rules \<Longrightarrow> sf_state ok content sz c v (d\<lparr>sf_rules := rules\<rparr>)"
  "sf_state ok content sz c v (d\<lparr>sf_read_count := n\<rparr>) = sf_state ok content sz c v d"
  "sf_state ok content sz c v (d\<lparr>sf_write_count := n\<rparr>) = sf_state ok content sz c v d"
  "sf_state ok content sz c v (d\<lparr>sf_sync_count := n\<rparr>) = sf_state ok content sz c v d"
  by (auto simp: sf_state_def sf_ok_def sf_size_def sf_view_def)

lemma sf_clean_iff:
  "sf_clean ok content sz c d \<longleftrightarrow>
     unat (sf_sector_size d) = sz \<and> sf_bit_rot d = [] \<and> ok (sf_inner d) \<and> content (sf_inner d) = c \<and> sf_pending d = []
   \<and> rot_free (sf_rules d) \<and> is_supported_sector_size (sf_sector_size d)"
proof -
  have "map (sees n [] c) [0..<length c] = c" for n c by (rule nth_equalityI) (simp_all add: sees_def)
  then show ?thesis
    by (auto simp: sf_clean_def sf_state_def sf_ok_def sf_size_def sf_view_def pending_ok_def)
qed

text \<open>The effect of a write on one sector of what is seen.\<close>

definition put_sectors :: "nat \<Rightarrow> nat \<Rightarrow> bytes \<Rightarrow> nat set \<Rightarrow> bytes \<Rightarrow> bytes" where
  "put_sectors sz off buf S v =
     map (\<lambda>p. if p div sz \<in> S \<and> off \<le> p \<and> p < off + length buf then buf ! (p - off) else v ! p) [0..<length v]"

lemma put_sectors_none [simp]: "put_sectors sz off buf {} v = v"
  by (auto simp: put_sectors_def intro: nth_equalityI)

lemma put_sectors_Un: "put_sectors sz off buf S (put_sectors sz off buf T v) = put_sectors sz off buf (S \<union> T) v"
  by (auto simp: put_sectors_def intro!: nth_equalityI)

lemma put_sectors_torn: "torn v off buf (put_sectors sz (unat (off_val off)) buf S v)"
  by (simp add: torn_def put_sectors_def)

lemma staged_sector:
  assumes sz: "0 < sz" and fit: "off + length buf \<le> len" "buf \<noteq> []"
    and s: "off div sz \<le> s" "s \<le> (off + length buf - 1) div sz" and old: "length old = min sz (len - s * sz)"
  defines "sec_end \<equiv> min (s * sz + sz) len"
  defines "cs \<equiv> max off (s * sz)" and "ce \<equiv> min (off + length buf) sec_end"
  defines "new \<equiv> blit old (cs - s * sz) (segment buf (cs - off) (cs - off + (ce - cs)))"
  shows "s * sz < len" "length new = min sz (len - s * sz)"
    and "p < len \<Longrightarrow> p div sz = s \<Longrightarrow>
      new ! (p mod sz) = (if off \<le> p \<and> p < off + length buf then buf ! (p - off) else old ! (p mod sz))"
    and "\<not> (0 < cs - s * sz \<or> ce - cs < sec_end - s * sz) \<Longrightarrow> p < len \<Longrightarrow> p div sz = s \<Longrightarrow> off \<le> p \<and> p < off + length buf"
proof -
  have lo: "off < s * sz + sz"
  proof -
    have "off < off div sz * sz + sz" using dividend_less_div_times [OF sz, of off] by (simp add: add.commute)
    also have "\<dots> \<le> s * sz + sz" using s(1) by simp
    finally show ?thesis .
  qed
  have "s * sz \<le> (off + length buf - 1) div sz * sz" using s(2) by simp
  also have "\<dots> \<le> off + length buf - 1" by simp
  finally have hi: "s * sz < off + length buf" using fit(2) by (cases buf) auto
  show start: "s * sz < len" using hi fit(1) by simp
  have pos: "0 < length buf" using fit(2) by simp
  then have "off < len" using fit(1) by linarith
  then have cc: "cs < ce" using lo hi pos sz start by (simp add: cs_def ce_def sec_end_def)
  have csb: "s * sz \<le> cs" "off \<le> cs" by (simp_all add: cs_def)
  have ceb: "ce \<le> off + length buf" "ce \<le> sec_end" "sec_end \<le> s * sz + sz" "sec_end \<le> len"
    unfolding ce_def sec_end_def by (rule min.cobounded1 min.cobounded2)+
  have "cs - off + (ce - cs) \<le> length buf" using cc csb(2) ceb(1) by linarith
  then have piece: "length (segment buf (cs - off) (cs - off + (ce - cs))) = ce - cs" by simp
  have "cs - s * sz + (ce - cs) = ce - s * sz" using cc csb(1) by linarith
  then have room: "cs - s * sz + (ce - cs) \<le> length old" using old ceb(2-4) by (simp add: le_diff_conv)
  show "length new = min sz (len - s * sz)" using piece room old by (simp add: new_def)
  assume p: "p < len" "p div sz = s"
  have md: "p mod sz = p - s * sz" using p(2) by (metis minus_div_mult_eq_mod)
  have mem: "s * sz \<le> p" "p < s * sz + sz" using p(2) div_eq_iff_between [OF sz] by auto
  then have pm: "p mod sz < length old" using p(1) old md by auto
  show "new ! (p mod sz) = (if off \<le> p \<and> p < off + length buf then buf ! (p - off) else old ! (p mod sz))"
  proof -
    have "off \<le> p \<and> p < off + length buf \<longleftrightarrow> cs \<le> p \<and> p < ce"
      using mem p(1) by (simp add: cs_def ce_def sec_end_def)
    moreover have "cs - s * sz \<le> p mod sz \<and> p mod sz < cs - s * sz + (ce - cs) \<longleftrightarrow> cs \<le> p \<and> p < ce"
      using csb mem(1) cc md by arith
    moreover have "segment buf (cs - off) (cs - off + (ce - cs)) ! (p mod sz - (cs - s * sz)) = buf ! (p - off)" if "cs \<le> p" "p < ce"
    proof -
      have "p mod sz - (cs - s * sz) = p - cs" "cs - off + (p - cs) = p - off" using csb that md by arith+
      moreover have "cs - off + (p - cs) < cs - off + (ce - cs)" "cs - off + (ce - cs) \<le> length buf"
        using that csb cc ceb(1) by linarith+
      ultimately show ?thesis by (metis nth_segment)
    qed
    ultimately show ?thesis using nth_blit [OF _ pm, of "cs - s * sz" "segment buf (cs - off) (cs - off + (ce - cs))"] room
      unfolding new_def piece by auto
  qed
  show "off \<le> p \<and> p < off + length buf" if no: "\<not> (0 < cs - s * sz \<or> ce - cs < sec_end - s * sz)"
  proof -
    have "cs = s * sz" "sec_end \<le> ce" using no csb(1) cc by linarith+
    moreover have "p < sec_end" using mem(2) p(1) by (simp add: sec_end_def)
    ultimately show ?thesis using csb(2) ceb(1) mem(1) by linarith
  qed
qed

context device_contract
begin

abbreviation sf_at :: "nat \<Rightarrow> bytes \<Rightarrow> bytes \<Rightarrow> 'd sector_fault_device \<Rightarrow> bool" where
  "sf_at \<equiv> sf_state ok content"

abbreviation sf_clean_at :: "nat \<Rightarrow> bytes \<Rightarrow> 'd sector_fault_device \<Rightarrow> bool" where
  "sf_clean_at \<equiv> sf_clean ok content"

lemma on_inner_read:
  "triple (sf_at sz c v) (on_inner (read_exact_at dev off n)) (\<lambda>bs d. sf_at sz c v d \<and> reads c off n bs) (sf_at sz c v)"
  unfolding on_inner_def
  by (rule triple_zoom, rule triple_conseq [OF read_law [of c]])
    (auto simp: sf_state_def sf_ok_def sf_size_def sf_view_def holds_def)

lemma view_nth:
  assumes "sf_at sz c v d" "p < length c"
  shows "v ! p = sees sz (sf_pending d) c p" "length v = length c"
  using assms by (auto simp: sf_state_def sf_view_def)

lemma overlay_reads:
  assumes d: "sf_at sz c v d" and r: "reads c off n buf" and n: "n \<noteq> 0"
  defines "start \<equiv> unat (off_val off)"
  shows "reads v off n (fold (overlay_sector sz start (start + n))
    (filter (\<lambda>(s, _). start div sz \<le> s \<and> s \<le> (start + n - 1) div sz) (sf_pending d)) buf)"
proof -
  let ?m = "filter (\<lambda>(s, _). start div sz \<le> s \<and> s \<le> (start + n - 1) div sz) (sf_pending d)"
  have sz: "0 < sz" using d sf_ok_size by (auto simp: sf_state_def)
  have inv: "bt_inv (sf_pending d)" and p: "pending_ok sz (length c) (sf_pending d)"
    using d by (auto simp: sf_state_def sf_ok_def pending_ok_def)
  have fit: "start + n \<le> length c" and buf: "length buf = n" "buf = segment c start (start + n)"
    using r n reads_length [OF r] by (auto simp: reads_def start_def)
  have entries: "\<forall>(s, data) \<in> set ?m. s * sz < length c \<and> length data = min sz (length c - s * sz)"
    using p inv by (auto simp: pending_ok_def bt_mem_iff_get)
  have dist: "distinct (map fst ?m)"
    using bt_inv_distinct [OF bt_inv_filter [OF inv, of "\<lambda>(s, _). start div sz \<le> s \<and> s \<le> (start + n - 1) div sz"]] .
  note all = overlay_all [OF sz entries dist buf(1) fit]
  have "bt_get ?m ((start + k) div sz) = bt_get (sf_pending d) ((start + k) div sz)" if "k < n" for k
  proof -
    have "start div sz \<le> (start + k) div sz" "(start + k) div sz \<le> (start + n - 1) div sz"
      using that by (auto intro: div_le_mono)
    then show ?thesis by (simp add: bt_get_filter_key)
  qed
  moreover have "v ! (start + k) = sees sz (sf_pending d) c (start + k)" if "k < n" for k
    using view_nth [OF d, of "start + k"] that fit by simp
  moreover have len: "length v = length c" using view_nth(2) [OF d, of start] n fit by simp
  ultimately have "fold (overlay_sector sz start (start + n)) ?m buf = segment v start (start + n)"
    using all fit buf(2) by (intro nth_equalityI) (auto simp: sees_def split: option.split)
  then show ?thesis using fit len by (simp add: reads_def start_def [symmetric])
qed

lemma read_with_overlay_law:
  "triple (sf_at sz c v) (read_with_overlay dev off n) (\<lambda>bs d. sf_at sz c v d \<and> reads v off n bs) (sf_at sz c v)"
  unfolding read_with_overlay_def Let_def
  by (auto intro!: triple_rules triple_bind [OF on_inner_read] triple_get simp: sf_stateD(1,2)
      intro: overlay_reads [simplified])

text \<open>Staging: the visible bytes of the touched sectors are replaced, the durable content stays.\<close>

lemma put_sector_state:
  assumes d: "sf_at sz c v d" and fit: "off + length buf \<le> length c" "buf \<noteq> []"
    and s: "off div sz \<le> s" "s \<le> (off + length buf - 1) div sz" and old: "length old = min sz (length c - s * sz)"
    and same: "\<And>p. p < length c \<Longrightarrow> p div sz = s \<Longrightarrow> \<not> (off \<le> p \<and> p < off + length buf) \<Longrightarrow> old ! (p mod sz) = v ! p"
  defines "cs \<equiv> max off (s * sz)" and "ce \<equiv> min (off + length buf) (min (s * sz + sz) (length c))"
  shows "sf_at sz c (put_sectors sz off buf {s} v)
    (d\<lparr>sf_pending := bt_insert s (blit old (cs - s * sz) (segment buf (cs - off) (cs - off + (ce - cs)))) (sf_pending d)\<rparr>)"
proof -
  note D = sf_stateD [OF d]
  note N = staged_sector [OF D(5) fit s old, folded cs_def ce_def]
  let ?new = "blit old (cs - s * sz) (segment buf (cs - off) (cs - off + (ce - cs)))"
  have b: "bt_inv (sf_pending d)" using D(6) by (simp add: pending_ok_def)
  have "pending_ok sz (length c) (bt_insert s ?new (sf_pending d))"
    using D(6) N(1,2) by (auto simp: pending_ok_def)
  moreover have "put_sectors sz off buf {s} v = map (sees sz (bt_insert s ?new (sf_pending d)) c) [0..<length c]"
  proof (rule nth_equalityI)
    fix p assume "p < length (put_sectors sz off buf {s} v)"
    then have p: "p < length c" using D(7) by (simp add: put_sectors_def)
    have "v ! p = sees sz (sf_pending d) c p" using p by (subst D(10)) simp
    then show "put_sectors sz off buf {s} v ! p = map (sees sz (bt_insert s ?new (sf_pending d)) c) [0..<length c] ! p"
      using p D(7) N(3) [OF p] same [OF p] b by (auto simp: put_sectors_def sees_def)
  qed (simp add: put_sectors_def D(7))
  ultimately show ?thesis using D by (intro sf_stateI) simp_all
qed

lemma stage_sector_law:
  assumes fit: "off + length buf \<le> length c" "buf \<noteq> []"
    and s: "off div sz \<le> s" "s \<le> (off + length buf - 1) div sz"
  shows "triple (sf_at sz c v) (stage_sector dev off buf s) (\<lambda>_. sf_at sz c (put_sectors sz off buf {s} v)) (sf_at sz c v)"
  unfolding stage_sector_def Let_def
proof (rule triple_get, goal_cases)
  case (1 d)
  note d = this
  note D = sf_stateD [OF d]
  define cs where "cs = max off (s * sz)"
  define ce where "ce = min (off + length buf) (min (s * sz + sz) (length c))"
  define upd where "upd = (\<lambda>old (e :: 'd sector_fault_device). e\<lparr>sf_pending :=
    bt_insert s (blit old (cs - s * sz) (segment buf (cs - off) (cs - off + (ce - cs)))) (sf_pending e)\<rparr>)"
  have len: "unat (len_bytes dev (sf_inner d)) = length c" using content_length [OF D(3)] D(4) by simp
  note put = put_sector_state [OF _ fit s, folded cs_def ce_def]
  have start: "s * sz < length c" "s * sz < 2 ^ 64"
  proof -
    show *: "s * sz < length c" using staged_sector(1) [OF D(5) fit s, of "replicate (min sz (length c - s * sz)) 0"] by simp
    show "s * sz < 2 ^ 64" using * len unsigned_less [of "len_bytes dev (sf_inner d)", where 'a = nat] by simp
  qed
  have n: "min (s * sz + sz) (length c) - s * sz = min sz (length c - s * sz)" by simp
  have md: "p mod sz = p - s * sz" "s * sz \<le> p" "p < s * sz + sz" if "p div sz = s" for p
    using that div_eq_iff_between [OF D(5), of p s] by (auto simp flip: minus_div_mult_eq_mod)
  have read: "triple (\<lambda>e. sf_at sz c v e \<and> reads c (ByteOffset (of_nat (s * sz))) (min sz (length c - s * sz)) old)
      (io_modify (upd old)) (\<lambda>_. sf_at sz c (put_sectors sz off buf {s} v)) (sf_at sz c v)"
    if none: "bt_get (sf_pending d) s = None" for old
  proof (rule triple_modify)
    fix e assume e: "sf_at sz c v e \<and> reads c (ByteOffset (of_nat (s * sz))) (min sz (length c - s * sz)) old"
    then have r: "reads c (ByteOffset (of_nat (s * sz))) (min sz (length c - s * sz)) old" ..
    have a: "unat (of_nat (s * sz) :: u64) = s * sz" using start(2) by (simp only: unat_of_nat) simp
    have "old = segment c (s * sz) (s * sz + min sz (length c - s * sz))" using r a by (simp add: reads_def)
    then have "old ! (p mod sz) = v ! p" if "p < length c" "p div sz = s" for p
      using md [OF that(2)] that none by (subst D(10)) (auto simp: sees_def)
    then show "sf_at sz c (put_sectors sz off buf {s} v) (upd old e)"
      unfolding upd_def using e reads_length [OF r] by (intro put) auto
  qed
  have zero: "triple (sf_at sz c v) (io_modify (upd (replicate (min sz (length c - s * sz)) 0)))
     (\<lambda>_. sf_at sz c (put_sectors sz off buf {s} v)) (sf_at sz c v)"
    if "\<not> (0 < cs - s * sz \<or> ce - cs < min (s * sz + sz) (length c) - s * sz)"
    unfolding upd_def using that staged_sector(4) [OF D(5) fit s, of "replicate (min sz (length c - s * sz)) 0", folded cs_def ce_def]
    by (intro triple_modify put) auto
  note shape = D(1) len cs_def [symmetric] ce_def [symmetric] n
  show ?case
  proof (cases "bt_get (sf_pending d) s")
    case None
    have "triple ((=) d) (io_bind (if 0 < cs - s * sz \<or> ce - cs < min sz (length c - s * sz)
        then on_inner (read_exact_at dev (ByteOffset (of_nat (s * sz))) (min sz (length c - s * sz)))
        else io_return (replicate (min sz (length c - s * sz)) 0)) (\<lambda>old. io_modify (upd old)))
      (\<lambda>_. sf_at sz c (put_sectors sz off buf {s} v)) (sf_at sz c v)"
    proof (cases "0 < cs - s * sz \<or> ce - cs < min sz (length c - s * sz)")
      case True
      then show ?thesis
        by (simp only: if_True) (rule triple_bind_conseq [OF on_inner_read [of sz c v] _ _ read [OF None]], use d in auto)
    next
      case False
      then show ?thesis
        by (simp only: if_False io_bind_return) (rule triple_conseq [OF zero], use d in auto)
    qed
    then show ?thesis unfolding shape None option.case upd_def .
  next
    case (Some old)
    then have "length old = min sz (length c - s * sz)" using D(6) by (simp add: pending_ok_def)
    moreover have "old ! (p mod sz) = v ! p" if "p < length c" "p div sz = s" for p
      using that Some by (subst D(10)) (simp add: sees_def)
    ultimately have "sf_at sz c (put_sectors sz off buf {s} v) (upd old d)" unfolding upd_def by (intro put d) auto
    then show ?thesis unfolding shape Some option.case upd_def by (auto intro: triple_modify)
  qed
qed

lemma stage_sectors_law:
  assumes fit: "off + length buf \<le> length c" "buf \<noteq> []"
    and secs: "set secs \<subseteq> {off div sz..(off + length buf - 1) div sz}"
  shows "triple (sf_at sz c (put_sectors sz off buf S v)) (stage_sectors dev off buf secs)
    (\<lambda>_. sf_at sz c (put_sectors sz off buf (S \<union> set secs) v)) (\<lambda>d. \<exists>T. sf_at sz c (put_sectors sz off buf T v) d)"
  using secs
proof (induction secs arbitrary: S)
  case Nil
  then show ?case by (auto intro: triple_return)
next
  case (Cons s secs)
  have s: "off div sz \<le> s" "s \<le> (off + length buf - 1) div sz" using Cons.prems by auto
  note head = stage_sector_law [OF fit s, of "put_sectors sz off buf S v", unfolded put_sectors_Un]
  have "{s} \<union> S \<union> set secs = S \<union> set (s # secs)" by auto
  with Cons.IH [of "{s} \<union> S"] Cons.prems
  have tail: "triple (sf_at sz c (put_sectors sz off buf ({s} \<union> S) v)) (stage_sectors dev off buf secs)
    (\<lambda>_. sf_at sz c (put_sectors sz off buf (S \<union> set (s # secs)) v)) (\<lambda>d. \<exists>T. sf_at sz c (put_sectors sz off buf T v) d)"
    by simp
  show ?case unfolding stage_sectors.simps by (rule triple_then_conseq [OF head _ _ tail]) auto
qed

text \<open>The device shows \<open>v'\<close>, of which every byte is old or new, and the durable content is still \<open>c\<close>.\<close>

abbreviation sf_torn :: "nat \<Rightarrow> bytes \<Rightarrow> bytes \<Rightarrow> byte_offset \<Rightarrow> bytes \<Rightarrow> 'd sector_fault_device \<Rightarrow> bool" where
  "sf_torn sz c v off buf d \<equiv> \<exists>v'. torn v off buf v' \<and> sf_at sz c v' d"

lemma stage_pending_law:
  assumes fit: "unat (off_val off) + length buf \<le> length c"
  shows "triple (sf_at sz c v) (stage_pending_bytes dev off buf)
    (\<lambda>_. sf_at sz c (blit v (unat (off_val off)) buf)) (sf_torn sz c v off buf)"
proof (cases "buf = []")
  case True
  then show ?thesis by (auto simp: stage_pending_bytes_def intro!: triple_return)
next
  case False
  let ?off = "unat (off_val off)"
  show ?thesis unfolding stage_pending_bytes_def Let_def if_not_P [OF False]
  proof (rule triple_get)
    fix d
    assume d: "sf_at sz c v d"
    note D = sf_stateD [OF d]
    define secs where "secs = [?off div sz..<Suc ((?off + length buf - 1) div sz)]"
    have "set secs \<subseteq> {?off div sz..(?off + length buf - 1) div sz}" by (auto simp: secs_def)
    note law = stage_sectors_law [OF fit False this, where S = "{}" and v = v]
    have "put_sectors sz ?off buf ({} \<union> set secs) v = blit v ?off buf"
    proof (rule nth_equalityI)
      fix p assume "p < length (put_sectors sz ?off buf ({} \<union> set secs) v)"
      moreover have "p div sz \<in> set secs" if "?off \<le> p" "p < ?off + length buf"
      proof -
        have "p \<le> ?off + length buf - 1" using that(2) by linarith
        then show ?thesis using div_le_mono [of ?off p sz] div_le_mono [of p "?off + length buf - 1" sz] that(1)
          by (simp add: secs_def less_Suc_eq_le del: upt_Suc)
      qed
      ultimately show "put_sectors sz ?off buf ({} \<union> set secs) v ! p = blit v ?off buf ! p"
        using fit D(7) nth_blit [of ?off buf v p] by (auto simp: put_sectors_def)
    qed (use fit D(7) in \<open>simp add: put_sectors_def\<close>)
    with law show "triple ((=) d) (stage_sectors dev ?off buf
        [?off div unat (sf_sector_size d)..<Suc ((?off + length buf - 1) div unat (sf_sector_size d))])
      (\<lambda>_. sf_at sz c (blit v ?off buf)) (sf_torn sz c v off buf)"
      unfolding D(1) secs_def [symmetric]
      by (auto elim!: triple_conseq simp: put_sectors_none d intro: put_sectors_torn)
  qed
qed

section \<open>Reads, writes and synchronisation\<close>

lemma match_action_law:
  assumes "\<And>a. (op = FaultRead \<Longrightarrow> \<forall>i m. a \<noteq> Some (BitRot i m)) \<Longrightarrow> triple (sf_at sz c v) (k a) Q E"
  shows "triple (sf_at sz c v) (match_action op span k) Q E"
  unfolding match_action_def
proof (rule triple_get)
  fix d
  assume d: "sf_at sz c v d"
  obtain a rules where m: "match_rules op span (sf_rules d) = (a, rules)" by fastforce
  from match_rules_rot_free [OF sf_stateD(8) [OF d] m]
  have "rot_free rules" "op = FaultRead \<Longrightarrow> \<forall>i m. a \<noteq> Some (BitRot i m)" by auto
  then have "triple ((=) d) (io_then (io_modify (\<lambda>d. d\<lparr>sf_rules := rules\<rparr>)) (k a)) Q E"
    using d by (intro triple_then [where R = "sf_at sz c v", OF triple_modify assms]) (auto simp: sf_state_update(1))
  then show "triple ((=) d) (case match_rules op span (sf_rules d) of
      (action, rules) \<Rightarrow> io_then (io_modify (\<lambda>d. d\<lparr>sf_rules := rules\<rparr>)) (k action)) Q E"
    by (simp add: m)
qed

lemma fault_range_law:
  assumes "\<And>span. unat (off_val off) + n \<le> length c \<Longrightarrow> triple (sf_at sz c v) (k span) Q E"
    and "\<And>d. sf_at sz c v d \<Longrightarrow> E d"
  shows "triple (sf_at sz c v) (fault_range dev what off n k) Q E"
proof -
  have "unat (off_val off) + n \<le> length c"
    if "try_from_nat n = Some len" "checked_add (off_val off) len = Some end" "\<not> len_bytes dev (sf_inner d) < end" "sf_at sz c v d"
    for len "end" d
    using try_from_nat_SomeD [OF that(1)] checked_add_SomeD [OF that(2)] that(3) content_length sf_stateD(3,4) [OF that(4)]
    by (auto simp: word_le_nat_alt not_less)
  then show ?thesis
    unfolding fault_range_def Let_def
    by (intro triple_option triple_get triple_guard assms(2)) (auto intro!: triple_conseq [OF assms(1)] assms(2))
qed

lemma count_law:
  "triple (sf_at sz c v) (io_modify (\<lambda>d. d\<lparr>sf_read_count := sf_read_count d + 1\<rparr>)) (\<lambda>_. sf_at sz c v) E"
  "triple (sf_at sz c v) (io_modify (\<lambda>d. d\<lparr>sf_write_count := sf_write_count d + 1\<rparr>)) (\<lambda>_. sf_at sz c v) E"
  "triple (sf_at sz c v) (io_modify (\<lambda>d. d\<lparr>sf_sync_count := sf_sync_count d + 1\<rparr>)) (\<lambda>_. sf_at sz c v) E"
  by (rule triple_modify, simp add: sf_state_update)+

lemma read_action_law:
  "\<forall>i m. a \<noteq> Some (BitRot i m) \<Longrightarrow>
     triple (sf_at sz c v) (read_action dev off n a) (\<lambda>bs d. sf_at sz c v d \<and> reads v off n bs) (sf_at sz c v)"
  unfolding read_action_def
  by (auto intro!: triple_rules triple_bind [OF read_with_overlay_law] split: option.split sector_fault_action.split)

lemma fault_read_law:
  "triple (sf_at sz c v) (fault_read_exact_at dev off n) (\<lambda>bs d. sf_at sz c v d \<and> reads v off n bs) (sf_at sz c v)"
  unfolding fault_read_exact_at_def
  by (intro triple_checkpoint_then fault_range_law triple_then [OF count_law(1)])
    (auto intro!: triple_rules match_action_law read_action_law)

lemma torn_take: "torn v off (take k buf) v' \<Longrightarrow> torn v off buf v'"
  by (fastforce simp: torn_def)

lemma triple_view_length:
  "(length v = length c \<Longrightarrow> triple (sf_at sz c v) m Q E) \<Longrightarrow> triple (sf_at sz c v) m Q E"
  by (rule triple_assume) (auto dest: sf_stateD(7))

lemma cut_write_law:
  assumes "unat (off_val off) + length buf \<le> length c"
  shows "triple (sf_at sz c v) (io_then (stage_pending_bytes dev off (take k buf)) (io_fail e)) Q (sf_torn sz c v off buf)"
proof (rule triple_view_length, rule triple_then_conseq [OF stage_pending_law [of off "take k buf" c sz v]])
  assume v: "length v = length c"
  show "unat (off_val off) + length (take k buf) \<le> length c" using assms by simp
  show "sf_torn sz c v off buf d" if "sf_torn sz c v off (take k buf) d" for d using that torn_take by blast
  show "triple (sf_at sz c (blit v (unat (off_val off)) (take k buf))) (io_fail e) Q (sf_torn sz c v off buf)"
    using assms torn_prefix [of off buf v k] v by (intro triple_fail) auto
qed auto

lemma write_action_law:
  assumes fit: "unat (off_val off) + length buf \<le> length c"
  shows "triple (sf_at sz c v) (write_action dev off buf a)
    (\<lambda>_. sf_at sz c (blit v (unat (off_val off)) buf)) (sf_torn sz c v off buf)"
proof (rule triple_view_length)
  assume v: "length v = length c"
  have refl: "sf_torn sz c v off buf d" if "sf_at sz c v d" for d using that torn_refl by blast
  have "triple (sf_at sz c v) (io_then (stage_pending_bytes dev off buf) cx_checkpoint)
    (\<lambda>_. sf_at sz c (blit v (unat (off_val off)) buf)) (sf_torn sz c v off buf)"
    using fit torn_prefix [of off buf v "length buf"] v
    by (intro triple_then [OF stage_pending_law [OF fit]] triple_checkpoint) auto
  moreover have "triple (sf_at sz c v)
     (io_get (\<lambda>d. io_then (stage_pending_bytes dev off (take (f d) buf)) (io_fail e)))
     (\<lambda>_. sf_at sz c (blit v (unat (off_val off)) buf)) (sf_torn sz c v off buf)" for f e
    by (rule triple_get, rule triple_conseq [OF cut_write_law [OF fit]]) auto
  ultimately show ?thesis unfolding write_action_def using cut_write_law [OF fit] refl
    by (auto intro!: triple_fail split: option.split sector_fault_action.split)
qed

lemma fault_write_law:
  "triple (sf_at sz c v) (fault_write_all_at dev off buf)
     (\<lambda>_ d. unat (off_val off) + length buf \<le> length c \<and> sf_at sz c (blit v (unat (off_val off)) buf) d)
     (sf_torn sz c v off buf)"
proof -
  have refl: "sf_torn sz c v off buf d" if "sf_at sz c v d" for d using that torn_refl by blast
  have act: "triple (sf_at sz c v) (write_action dev off buf a)
     (\<lambda>_ d. unat (off_val off) + length buf \<le> length c \<and> sf_at sz c (blit v (unat (off_val off)) buf) d)
     (sf_torn sz c v off buf)" if "unat (off_val off) + length buf \<le> length c" for a
    by (rule triple_conseq [OF write_action_law]) (use that in auto)
  show ?thesis unfolding fault_write_all_at_def
    by (rule triple_checkpoint_then, erule refl, rule fault_range_law, rule triple_then [OF count_law(2)], rule triple_if,
        rule triple_checkpoint_then, erule refl, rule triple_return, force,
        rule match_action_law, erule act, erule refl)
qed

lemma inner_write_law:
  "triple (sf_clean_at sz c) (on_inner (write_all_at dev off bs))
     (\<lambda>_ d. written c off bs (blit c (unat (off_val off)) bs) \<and> sf_clean_at sz (blit c (unat (off_val off)) bs) d)
     (\<lambda>d. \<exists>c'. length c' = length c \<and> sf_clean_at sz c' d)"
  unfolding on_inner_def
  by (rule triple_zoom, rule triple_conseq [OF write_law [of c]])
    (auto simp: sf_clean_iff holds_def written_def torn_def)

lemma flush_sectors_law:
  assumes "\<forall>(s, data) \<in> set m. s * sz < length c \<and> length data = min sz (length c - s * sz)" "distinct (map fst m)"
    "0 < sz" "length c < 2 ^ 64"
  shows "triple (sf_clean_at sz c) (flush_sectors dev sz m)
    (\<lambda>_. sf_clean_at sz (map (sees sz m c) [0..<length c])) (\<lambda>d. \<exists>c'. length c' = length c \<and> sf_clean_at sz c' d)"
  using assms(1,2,4)
proof (induction m arbitrary: c)
  case Nil
  have "map (sees sz [] c) [0..<length c] = c" by (rule nth_equalityI) (simp_all add: sees_def)
  then show ?case by (auto intro: triple_return)
next
  case (Cons e m)
  obtain s data where e: "e = (s, data)" by (cases e)
  have data: "s * sz < length c" "length data = min sz (length c - s * sz)" using Cons.prems(1) by (auto simp: e)
  have a: "unat (of_nat (s * sz) :: u64) = s * sz"
    using data(1) Cons.prems(3) by (simp only: unat_of_nat) simp
  let ?c = "blit c (s * sz) data"
  have fit: "s * sz + length data \<le> length c" using data by simp
  have len: "length ?c = length c" using fit by simp
  have "s \<notin> fst ` set m" using Cons.prems(2) by (auto simp: e)
  then have fresh: "bt_get m s = None" by (simp add: bt_get_None_iff)
  have view: "map (sees sz m ?c) [0..<length c] = map (sees sz (e # m) c) [0..<length c]"
  proof (rule map_cong [OF refl])
    fix p assume "p \<in> set [0..<length c]"
    then have p: "p < length c" by simp
    show "sees sz m ?c p = sees sz (e # m) c p"
    proof (cases "p div sz = s")
      case True
      then have "s * sz \<le> p" "p < s * sz + sz" "p mod sz = p - s * sz"
        using div_eq_iff_between [OF assms(3), of p s] by (auto simp flip: minus_div_mult_eq_mod)
      moreover from this have "p < s * sz + length data" using p data(2) by simp
      ultimately show ?thesis using nth_blit [OF fit p] fresh True by (simp add: sees_def e)
    next
      case False
      then have "\<not> (s * sz \<le> p \<and> p < s * sz + length data)"
        using div_eq_iff_between [OF assms(3), of p s] data(2) by auto
      then have "?c ! p = c ! p" using nth_blit [OF fit p] by argo
      then show ?thesis using False by (simp add: sees_def e split: option.split)
    qed
  qed
  have "triple (sf_clean_at sz ?c) (flush_sectors dev sz m)
      (\<lambda>_. sf_clean_at sz (map (sees sz m ?c) [0..<length ?c])) (\<lambda>d. \<exists>c'. length c' = length ?c \<and> sf_clean_at sz c' d)"
    using Cons.prems len by (intro Cons.IH) auto
  then have tail: "triple (sf_clean_at sz ?c) (flush_sectors dev sz m)
      (\<lambda>_. sf_clean_at sz (map (sees sz (e # m) c) [0..<length c])) (\<lambda>d. \<exists>c'. length c' = length c \<and> sf_clean_at sz c' d)"
    unfolding len view .
  have head: "triple (sf_clean_at sz c) (on_inner (write_all_at dev (ByteOffset (of_nat (s * sz))) data))
      (\<lambda>_. sf_clean_at sz ?c) (\<lambda>d. \<exists>c'. length c' = length c \<and> sf_clean_at sz c' d)"
    by (rule triple_conseq [OF inner_write_law [of sz c "ByteOffset (of_nat (s * sz))" data, unfolded byte_offset.sel a]]) auto
  show ?case unfolding e flush_sectors.simps unfolding e [symmetric] by (rule triple_then [OF head tail])
qed

text \<open>The partial flush drops each sector it writes from the cache; only the length is kept.\<close>

abbreviation sf_sized :: "nat \<Rightarrow> 'd sector_fault_device \<Rightarrow> bool" where
  "sf_sized n d \<equiv> sf_ok ok content d \<and> length (content (sf_inner d)) = n"

lemma inner_write_sized: "triple (sf_sized n) (on_inner (write_all_at dev off bs)) (\<lambda>_. sf_sized n) (sf_sized n)"
  unfolding on_inner_def
proof (rule triple_zoom)
  fix d assume "sf_sized n d"
  then show "triple ((=) (sf_inner d)) (write_all_at dev off bs)
      (\<lambda>x e. sf_sized n (d\<lparr>sf_inner := e\<rparr>)) (\<lambda>e. sf_sized n (d\<lparr>sf_inner := e\<rparr>))"
    by (intro triple_conseq [OF write_law [of "content (sf_inner d)"]])
      (auto simp: sf_ok_def sf_size_def holds_def torn_def dest: written_length)
qed

lemma inner_sync_sized: "triple (sf_sized n) (on_inner (dev_sync dev)) (\<lambda>_. sf_sized n) (sf_sized n)"
  unfolding on_inner_def
proof (rule triple_zoom)
  fix d assume "sf_sized n d"
  then show "triple ((=) (sf_inner d)) (dev_sync dev)
      (\<lambda>x e. sf_sized n (d\<lparr>sf_inner := e\<rparr>)) (\<lambda>e. sf_sized n (d\<lparr>sf_inner := e\<rparr>))"
    by (intro triple_conseq [OF sync_law [of "content (sf_inner d)"]]) (auto simp: sf_ok_def sf_size_def holds_def)
qed

lemma flush_keys_law: "triple (sf_sized n) (flush_keys dev sz keys) (\<lambda>_. sf_sized n) (sf_sized n)"
proof (induction keys)
  case (Cons s keys)
  have drop: "triple (sf_sized n) (io_modify (\<lambda>d. d\<lparr>sf_pending := bt_remove s (sf_pending d)\<rparr>)) (\<lambda>_. sf_sized n) (sf_sized n)"
    by (rule triple_modify) (auto simp: sf_ok_def sf_size_def pending_ok_def)
  have "triple (sf_sized n) (io_then (io_modify (\<lambda>d. d\<lparr>sf_pending := bt_remove s (sf_pending d)\<rparr>)) (
      io_then (on_inner (write_all_at dev (ByteOffset (of_nat (s * sz))) data)) (flush_keys dev sz keys)))
      (\<lambda>_. sf_sized n) (sf_sized n)" for data
    by (rule triple_then [OF drop triple_then [OF inner_write_sized Cons.IH]])
  with Cons.IH show ?case
    unfolding flush_keys.simps
    by (intro triple_get triple_at [where P = "sf_sized n"]) (simp_all only: split: option.split, blast)
qed (auto intro: triple_return)

lemma flush_partially_law: "triple (sf_sized n) (flush_partially dev limit) Q (sf_sized n)"
  unfolding flush_partially_def
  by (rule triple_get, erule triple_at [rotated],
      rule triple_then [OF flush_keys_law triple_then [OF inner_sync_sized triple_fail]])

lemma sf_sizedI: "sf_at sz c v d \<Longrightarrow> sf_sized (length c) d"
  by (simp add: sf_state_def)

lemma sf_clean_sized: "sf_clean_at sz c d \<Longrightarrow> sf_sized (length c) d"
  by (simp add: sf_clean_def sf_state_def)

lemma inner_sync_law:
  "triple (sf_clean_at sz c) (on_inner (dev_sync dev)) (\<lambda>_. sf_clean_at sz c) (sf_sized (length c))"
  unfolding on_inner_def
  by (rule triple_zoom, rule triple_conseq [OF sync_law [of c]])
    (auto simp: sf_clean_iff holds_def sf_ok_def pending_ok_def)

lemma flush_all_law:
  "triple (sf_at sz c v) (flush_all dev) (\<lambda>_. sf_clean_at sz v) (sf_sized (length c))"
  unfolding flush_all_def
proof (rule triple_get)
  fix d
  assume d: "sf_at sz c v d"
  note D = sf_stateD [OF d]
  have small: "length c < 2 ^ 64"
    using content_length [OF D(3)] D(4) unsigned_less [of "len_bytes dev (sf_inner d)", where 'a = nat] by simp
  have inv: "bt_inv (sf_pending d)" using D(6) by (simp add: pending_ok_def)
  have m: "\<forall>(s, data) \<in> set (sf_pending d). s * sz < length c \<and> length data = min sz (length c - s * sz)"
    using D(6) inv by (auto simp: pending_ok_def bt_mem_iff_get)
  have dist: "distinct (map fst (sf_pending d))" by (rule bt_inv_distinct [OF inv])
  have take: "triple ((=) d) (io_modify (\<lambda>d. d\<lparr>sf_pending := []\<rparr>)) (\<lambda>_. sf_clean_at sz c) (sf_sized (length c))"
    using D by (intro triple_modify) (auto simp: sf_clean_iff)
  have flush: "triple (sf_clean_at sz c) (flush_sectors dev sz (sf_pending d)) (\<lambda>_. sf_clean_at sz v) (sf_sized (length c))"
    by (rule triple_conseq [OF flush_sectors_law [OF m dist D(5) small], folded D(10)]) (fastforce dest: sf_clean_sized)+
  have finish: "triple (sf_clean_at sz v) (io_then (on_inner (dev_sync dev)) cx_checkpoint)
      (\<lambda>_. sf_clean_at sz v) (sf_sized (length c))"
    using D(7) by (intro triple_then_conseq [OF inner_sync_law] triple_checkpoint) (auto dest: sf_clean_sized)
  show "triple ((=) d) (io_then (io_modify (\<lambda>d. d\<lparr>sf_pending := []\<rparr>)) (
       io_then (flush_sectors dev (unat (sf_sector_size d)) (sf_pending d)) (
       io_then (on_inner (dev_sync dev)) cx_checkpoint))) (\<lambda>_. sf_clean_at sz v) (sf_sized (length c))"
    unfolding D(1) by (rule triple_then [OF take triple_then [OF flush finish]])
qed

lemma fault_sync_law:
  "triple (sf_at sz c v) (fault_sync dev) (\<lambda>_. sf_clean_at sz v) (sf_sized (length c))"
proof -
  have part: "triple (sf_at sz c v) (flush_partially dev n) (\<lambda>_. sf_clean_at sz v) (sf_sized (length c))" for n
    by (rule triple_conseq [OF flush_partially_law]) (auto dest: sf_sizedI)
  have "triple (sf_at sz c v) (sync_action dev a) (\<lambda>_. sf_clean_at sz v) (sf_sized (length c))" for a
    unfolding sync_action_def
    by (auto intro!: triple_fail flush_all_law part triple_get triple_conseq [OF part] dest: sf_sizedI
        split: option.split sector_fault_action.split)
  then show ?thesis unfolding fault_sync_def
    by (intro triple_checkpoint_then triple_then [OF count_law(3)] match_action_law) (auto dest: sf_sizedI)
qed

section \<open>The contract\<close>

abbreviation sf_holds :: "bytes \<Rightarrow> 'd sector_fault_device \<Rightarrow> bool" where
  "sf_holds \<equiv> holds (sf_ok ok content) (sf_view content)"

lemma sf_holds_state: "sf_holds v d \<longleftrightarrow> sf_at (sf_size d) (content (sf_inner d)) v d"
  by (simp add: holds_def sf_state_def)

lemma sf_state_holds: "sf_at sz c v d \<Longrightarrow> sf_holds v d"
  by (simp add: holds_def sf_state_def)

lemma sf_holds_triple:
  assumes "\<And>sz c. triple (sf_at sz c v) m (Q sz c) (E sz c)"
    and "\<And>sz c x d. length c = length v \<Longrightarrow> Q sz c x d \<Longrightarrow> Q' x d" and "\<And>sz c d. length c = length v \<Longrightarrow> E sz c d \<Longrightarrow> E' d"
  shows "triple (sf_holds v) m Q' E'"
proof (rule triple_pointwise)
  fix d assume "sf_holds v d"
  then have d: "sf_at (sf_size d) (content (sf_inner d)) v d" by (simp add: sf_holds_state)
  then have "length (content (sf_inner d)) = length v" using sf_stateD(7) by metis
  then show "triple ((=) d) m Q' E'"
    using assms(2,3) d by (intro triple_conseq [OF assms(1) [of "sf_size d" "content (sf_inner d)"]]) auto
qed

lemma fault_read_holds:
  "triple (sf_holds v) (fault_read_exact_at dev off n) (\<lambda>bs d. sf_holds v d \<and> reads v off n bs) (sf_holds v)"
  by (rule sf_holds_triple [OF fault_read_law]) (auto dest: sf_state_holds)

lemma fault_write_holds:
  "triple (sf_holds v) (fault_write_all_at dev off bs)
     (\<lambda>_ d. sf_ok ok content d \<and> written v off bs (sf_view content d))
     (\<lambda>d. sf_ok ok content d \<and> torn v off bs (sf_view content d))"
  by (rule sf_holds_triple [OF fault_write_law]) (auto simp: sf_state_def written_def)

lemma fault_sync_holds:
  "triple (sf_holds v) (fault_sync dev) (\<lambda>_. sf_holds v)
     (\<lambda>d. sf_ok ok content d \<and> length (sf_view content d) = length v)"
  by (rule sf_holds_triple [OF fault_sync_law]) (auto simp: sf_clean_def dest: sf_state_holds)

lemma fault_length: "sf_ok ok content d \<Longrightarrow> length (sf_view content d) = unat (len_bytes dev (sf_inner d))"
  by (simp add: content_length sf_ok_def)

lemma fault_write_vectored_holds:
  "triple (sf_holds v) (default_write_vectored_all_at (fault_write_all_at dev) off bss)
     (\<lambda>_ d. sf_ok ok content d \<and> written v off (concat bss) (sf_view content d))
     (\<lambda>d. sf_ok ok content d \<and> torn v off (concat bss) (sf_view content d))"
  by (rule default_write_vectored_law [OF fault_write_holds]) (simp add: holds_def)

lemma fault_contract: "device_contract (fault_byte_device dev) (sf_ok ok content) (sf_view content)"
  by unfold_locales
    (simp_all del: length_sf_view add: fault_byte_device_def fault_length fault_read_holds fault_write_holds fault_sync_holds
      default_read_vectored_law [OF fault_read_holds] fault_write_vectored_holds default_discard_def triple_fail)

end

interpretation file_fault: device_contract "fault_byte_device (file_byte_device env)"
  "sf_ok file_ok file_content" "sf_view file_content"
  by (rule file_dev.fault_contract)

text \<open>A crash shows the durable content again.\<close>

lemma crash_state: "sf_state ok content sz c v d \<Longrightarrow> sf_clean ok content sz c (snd (crash d))"
  by (auto simp: sf_clean_iff crash_def dest: sf_stateD)

lemma sf_new_clean:
  assumes "sf_new inner sector_size = Inr d" "ok inner"
  shows "sf_clean ok content (unat sector_size) (content inner) d"
  using assms by (auto simp: sf_clean_iff sf_new_def validate_volume_sector_sizes_def split: sum.splits if_splits)

end
