(* ===== verification/Device_Props.thy ===== *)
theory Device_Props
  imports Mvcc_Law Block_History Volume_Law Fault_Law
begin

text \<open>
  Properties of the stack of devices: the versioned store over the block view of a bounded volume
  of a file.
\<close>

section \<open>The stack\<close>

definition stack_device ::
  "file_tuning \<Rightarrow> 'f host \<Rightarrow> timing \<Rightarrow> ('f, file_device volume_device byte_block_device) mvcc_device block_device" where
  "stack_device env h tm = mvcc_block_device h tm (byte_block_device (volume_byte_device (file_byte_device env)))"

definition stack_ok :: "'f host \<Rightarrow> nat \<Rightarrow> ('f, file_device volume_device byte_block_device) mvcc_device \<Rightarrow> bool" where
  "stack_ok h n =
     md_ok h (bb_ok (vol_ok file_ok file_content) (vol_content file_content) n)
       (bb_blocks (vol_content file_content)) n"

definition stack_blocks :: "'f host \<Rightarrow> ('f, file_device volume_device byte_block_device) mvcc_device \<Rightarrow> bytes list" where
  "stack_blocks h = md_blocks h (bb_blocks (vol_content file_content))"

definition open_stack ::
  "file_tuning \<Rightarrow> os_file \<Rightarrow> u64 \<Rightarrow> u64 \<Rightarrow> u32 \<Rightarrow> u32 \<Rightarrow> 'f mvcc_store \<Rightarrow> snapshot_registry
   \<Rightarrow> ('f, file_device volume_device byte_block_device) mvcc_device ffs_result" where
  "open_stack env f base len sector bsize st reg =
     (case from_file f True of
        Inl e \<Rightarrow> Inl e
      | Inr fd \<Rightarrow>
          (case volume_new (file_byte_device env) fd base len sector sector of
             Inl e \<Rightarrow> Inl e
           | Inr vol \<Rightarrow>
               (case bb_new (volume_byte_device (file_byte_device env)) vol bsize of
                  Inl e \<Rightarrow> Inl e
                | Inr bb \<Rightarrow> Inr (with_read_your_writes (md_new bb st reg (current_snapshot st))))))"

lemma stack_contract:
  assumes "lossless h" "0 < n"
  shows "steady_blocks (stack_device env h tm) (stack_ok h n) (stack_blocks h) n"
  unfolding stack_device_def stack_ok_def stack_blocks_def
  by (rule steady_blocks.mvcc_steady [OF steady_device.bb_steady [OF file_volume_steady.steady_device_axioms assms(2)] assms(1)])

section \<open>Flushes, evictions and fixed snapshots\<close>

text \<open>The newest version of every block lies on the device and has the block size.\<close>

definition store_fits :: "'f host \<Rightarrow> nat \<Rightarrow> nat \<Rightarrow> 'f mvcc_store \<Rightarrow> bool" where
  "store_fits h len n st \<longleftrightarrow>
     (\<forall>b data. version_bytes_at h st b (high (current_snapshot st)) = Some data \<longrightarrow> bnum b < len \<and> length data = n)"

lemma store_fits_candidates:
  assumes st: "chains_ok h st" and fits: "store_fits h len n st"
  shows "\<forall>(b, data) \<in> set (candidates h (high (current_snapshot st)) ft (versions st)). bnum b < len \<and> length data = n"
proof clarify
  fix b data
  assume "(b, data) \<in> set (candidates h (high (current_snapshot st)) ft (versions st))"
  moreover have dist: "distinct (map fst (versions st))" using st by (simp add: chains_ok_def bt_inv_distinct)
  ultimately have "Option.bind (bt_get (versions st) b) (flush_candidate h (high (current_snapshot st)) ft) = Some data"
    using candidates_lookup [OF dist, of h "high (current_snapshot st)" ft b]
      map_of_is_SomeI [OF candidates_distinct [OF dist]] by metis
  then obtain vs where vs: "bt_get (versions st) b = Some vs"
    and data: "flush_candidate h (high (current_snapshot st)) ft vs = Some data" by (auto simp: bind_eq_Some_conv)
  have "chain_ok h b (next_commit st) vs" using st vs by (simp add: chains_ok_def)
  then have "chain_value h vs = Some data" using data by (auto simp: candidate_current split: if_splits)
  then have "version_bytes_at h st b (high (current_snapshot st)) = Some data" using vs by (simp add: read_current [OF st])
  then show "bnum b < len \<and> length data = n" using fits by (simp add: store_fits_def)
qed

lemma flush_result:
  assumes "block_contract bd ok blocks n" "store_ok h st" "ok d" "clean_through h st ft (blocks d)"
    and "store_fits h (length (blocks d)) n st"
    and "flush_to_device_after h bd ft st (cx, d) = (Inr (k, durable), cx', d')"
  shows "ok d'" "blocks d' = overlay h st (blocks d)" "durable = high (current_snapshot st)"
proof -
  have st: "chains_ok h st" using assms(2) by (simp add: store_ok_def)
  note law = block_contract.flush_law [OF assms(1) st assms(4) store_fits_candidates [OF st assms(5)]]
  have "holds ok blocks (overlay h st (blocks d)) d' \<and> durable = high (current_snapshot st)"
    using tripleD(1) [OF law _ assms(6)] assms(3) by (simp add: holds_def)
  then show "ok d'" "blocks d' = overlay h st (blocks d)" "durable = high (current_snapshot st)"
    by (auto simp: holds_def)
qed

lemma evict_clean:
  assumes "chains_ok h st" "clean_through h st D v"
  shows "clean_through h (snd (evict_durable_chains D' st)) D v"
proof -
  have "bt_inv (versions st)" using assms(1) by (simp add: chains_ok_def)
  then show ?thesis
    using assms(2) by (auto simp: clean_through_def evict_fields bt_get_filter split: option.splits if_splits)
qed

text \<open>A read through a device with a fixed snapshot.\<close>

lemma fixed_read:
  assumes "block_contract bd ok blocks n" "ok (md_base d)" "md_ownership d = Inline snap" "\<not> md_read_your_writes d"
    and "bnum b < length (blocks (md_base d))" "md_read_block h bd b (cx, d) = (Inr buf, rest)"
  shows "buf = read_through h (md_store d) (blocks (md_base d)) (high snap) (bnum b)"
proof (cases "read_visible h (md_store d) b snap")
  case None
  then obtain c' b' where r: "read_block bd b (cx, md_base d) = (Inr buf, c', b')"
    using assms(3,4,6)
    by (auto simp: md_read_block_def io_get_def reads_base_directly_def read_snapshot_def md_snapshot_def on_base_def
        io_zoom_def split: prod.splits)
  have "block_scalar (read_block bd) (write_block bd) (dev_block_size bd) (block_count bd) ok blocks n"
    using assms(1) by (rule block_contract.axioms)
  from tripleD(1) [OF block_scalar.read_block_law [OF this assms(5)] _ r] assms(2) have "buf = blocks (md_base d) ! bnum b"
    by (simp add: holds_def)
  then show ?thesis using None by (simp add: read_through_block read_visible_bytes_at)
next
  case (Some data)
  then have "buf = data"
    using assms(3,4,6)
    by (auto simp: md_read_block_def io_get_def reads_base_directly_def read_snapshot_def md_snapshot_def io_return_def)
  then show ?thesis using Some by (simp add: read_through_block read_visible_bytes_at)
qed

section \<open>Concrete devices\<close>

definition sample_file :: file_device where
  "sample_file =
     \<lparr>fd_file = \<lparr>f_bytes = [10, 11, 12, 13], f_durable = [10, 11, 12, 13], f_special = False, f_script = []\<rparr>,
      fd_len = 4, fd_writable = True, fd_block_device = False, fd_write_epoch = 1, fd_synced_epoch = 0,
      fd_flushes_issued = 0, fd_flushes_elided = 0\<rparr>"

definition sample_tuning :: file_tuning where
  "sample_tuning = \<lparr>direct_read_min = 4096, clean_sync_skip = True\<rparr>"

definition empty_store :: "unit mvcc_store" where
  "empty_store = with_compression_policy plain_host dedup_only"

definition written_store :: "unit mvcc_store" where
  "written_store = empty_store
     \<lparr>next_commit := 2, next_txn := 2,
      versions := [(BlockNumber 1, [\<lparr>bv_block = BlockNumber 1, bv_commit_seq = CommitSeq 1,
                     bv_writer = TxnId 1, bv_data = Full [99]\<rparr>])],
      active_snapshots := [(CommitSeq 0, 1)]\<rparr>"

definition sample_volume :: "file_device volume_device" where
  "sample_volume =
     \<lparr>vd_device = sample_file, vd_base = 1, vd_length = 2, vd_logical_sector_size = 512, vd_physical_sector_size = 512,
      vd_read_only = False, vd_rmw_operations = 0, vd_passthrough_writes = 0\<rparr>"

definition sample_stack :: "(unit, file_device volume_device byte_block_device) mvcc_device" where
  "sample_stack =
     with_read_your_writes (md_new \<lparr>bb_inner = sample_volume, bb_block_size = 1, bb_block_count = 2\<rparr>
       empty_store sr_new (current_snapshot empty_store))"

definition sample_blocks :: "file_device byte_block_device" where
  "sample_blocks = \<lparr>bb_inner = sample_file, bb_block_size = 1, bb_block_count = 4\<rparr>"

definition fixed_device :: "(unit, file_device byte_block_device) mvcc_device" where
  "fixed_device = \<lparr>md_base = sample_blocks, md_store = written_store, md_registry = sr_new,
     md_ownership = Inline \<lparr>high = CommitSeq 0\<rparr>, md_read_your_writes = False\<rparr>"

lemmas io_eval = io_return_def io_fail_def io_bind_def io_then_def io_get_def io_modify_def io_option_def io_zoom_def
  cx_checkpoint_def Let_def try_from_nat_def checked_add_def checked_mul_def segment_def usize_max_def upt_rec word_le_nat_alt

lemmas file_eval = file_byte_device_def file_read_exact_at_volatile_def file_read_exact_at_def file_range_def
  on_file_def sys_read_exact_def sys_pread_def next_outcome_def sample_tuning_def live_len_def sys_metadata_def
  file_write_all_at_def dirty_def sys_write_all_def file_put_def file_sync_def sys_sync_data_def sample_file_def
  file_read_vectored_exact_at_def backing_len_def from_file_def

lemmas block_eval = byte_block_device_def bb_read_block_def bb_offset_def on_bytes_def bb_run_def bb_write_run_def
  bb_read_contiguous_blocks_def bb_write_contiguous_blocks_def sample_blocks_def run_blocks_def

lemmas volume_eval = volume_byte_device_def volume_read_exact_at_def volume_range_def on_volume_def sample_volume_def
  default_read_vectored_exact_at_def

lemmas store_eval = empty_store_def written_store_def with_compression_policy_def mvcc_store_new_def dedup_only_def
  newest_visible_index_def newest_visible_index_by_def checked_sub_usize_def resolve_data_with_def resolve_loop.simps
  less_eq_commit_seq_def less_commit_seq_def current_snapshot_def saturating_sub_def read_visible_def
  version_bytes_at_def partition_point_def binary_search_by_def bs_loop.simps

lemma written_store_ok: "store_ok plain_host written_store"
  by (simp add: store_ok_def store_eval chains_ok_def chain_ok_def ascending_def chain_value_def apply_version_def
      snapshots_ok_def log_ok_def bt_inv_def)

lemma sample_blocks_ok:
  "bb_ok file_ok file_content 1 sample_blocks" "bb_blocks file_content sample_blocks = [[10], [11], [12], [13]]"
  by (simp_all add: bb_ok_def bb_blocks_def sample_blocks_def sample_file_def file_ok_def file_content_def chunks.simps)

lemma written_store_fits: "store_fits plain_host 4 1 written_store"
  by (simp add: store_fits_def store_eval)

lemma written_store_clean: "clean_through plain_host written_store (CommitSeq 0) v"
  using written_store_ok by (intro clean_at_zero) (simp add: store_ok_def)

lemma flushed_blocks:
  "\<exists>base'. flush_to_device_after plain_host (byte_block_device (file_byte_device sample_tuning)) (CommitSeq 0) written_store
     ([], sample_blocks) = (Inr (1, CommitSeq 1), [], base')
     \<and> bb_block_size base' = 1 \<and> bb_block_count base' = 4 \<and> fd_len (bb_inner base') = 4
     \<and> length (f_bytes (fd_file (bb_inner base'))) = 4 \<and> f_script (fd_file (bb_inner base')) = []"
  by (simp add: flush_to_device_after_def flush_candidate_def write_run_def store_eval io_eval block_eval file_eval blit_def)

lemma sample_stack_ok:
  "stack_ok plain_host (Suc 0) sample_stack" "stack_blocks plain_host sample_stack = [[11], [12]]"
proof -
  have st: "store_ok plain_host (register_snapshot s empty_store)" for s
    unfolding empty_store_def by (intro register_ok with_policy_ok)
  have "versions (register_snapshot s empty_store) = []" for s by (simp add: register_snapshot_def Let_def store_eval)
  then have vis: "version_bytes_at plain_host (register_snapshot s empty_store) b t = None" for s b t
    by (simp add: version_bytes_at_def)
  show "stack_ok plain_host (Suc 0) sample_stack"
    using st vis by (simp add: stack_ok_def md_ok_def sample_stack_def with_read_your_writes_def md_new_def bb_ok_def
        vol_ok_def vol_geometry_def file_ok_def vol_content_def file_content_def sample_volume_def sample_file_def
        current_fits_def is_supported_sector_size_def)
  show "stack_blocks plain_host sample_stack = [[11], [12]]"
    using vis by (simp add: stack_blocks_def md_blocks_def overlay_def read_through_def sample_stack_def
        with_read_your_writes_def md_new_def bb_blocks_def vol_content_def file_content_def sample_volume_def
        sample_file_def segment_def chunks.simps upt_rec)
qed

lemma sample_run:
  "fst (exec_ops (stack_device sample_tuning plain_host sample_timing)
       [ReadBlock (BlockNumber 0), WriteBlock (BlockNumber 1) [99], ReadBlock (BlockNumber 1)] ([], sample_stack))
     = Inr [[11], [99]]"
  by (simp add: stack_device_def mvcc_block_device_def md_read_block_def reads_base_directly_def read_snapshot_def
      register_snapshot_def on_base_def md_write_block_def begin_txn_def stage_write_def stage_write_with_proof_def
      insert_staged_write_def staged_write_pos_def binary_search_by_def with_read_your_writes_def md_new_def
      commit_txn_def finish_commit_def commit_fcw_internal_def preflight_fcw_def attempt_def
      validate_transaction_id_def transaction_new_def latest_commit_seq_def pressure_step_def
      apply_fcw_commit_def next_commit_seq_def install_one_def push_version_def emit_transaction_commit_def
      effective_policy_def md_read_contiguous_blocks_def visible_run_def version_data_for_def is_identical_to_latest_def
      store_eval io_eval block_eval file_eval volume_eval sample_stack_def)

lemma written_reads:
  "read_visible plain_host written_store (BlockNumber 1) \<lparr>high = CommitSeq 0\<rparr> = None"
  "read_visible plain_host written_store (BlockNumber 1) \<lparr>high = CommitSeq 1\<rparr> = Some [99]"
  by (simp_all add: store_eval)

lemma fixed_reads:
  assumes "bb_block_size base = 1" "bb_block_count base = 4" "fd_len (bb_inner base) = 4"
    "length (f_bytes (fd_file (bb_inner base))) = 4" "f_script (fd_file (bb_inner base)) = []"
  shows "\<exists>buf rest. md_read_block plain_host (byte_block_device (file_byte_device sample_tuning)) (BlockNumber 1)
     ([], fixed_device\<lparr>md_base := base\<rparr>) = (Inr buf, rest)"
  using assms
  by (simp add: md_read_block_def fixed_device_def reads_base_directly_def read_snapshot_def md_snapshot_def on_base_def
      written_reads io_eval block_eval file_eval)

section \<open>Properties\<close>

text \<open>
  C30: opening the stack yields a well-formed device. Whenever a file opens as a device, its range
  as a volume and the volume as blocks, the result meets the invariant of the whole stack, has as
  many blocks as the range holds, each of the block size, and shows the range of the file with
  the versions of the store over it. (Lengths below 2^64 - 65536, a store whose versions have the
  block size.)
\<close>

theorem open_stack_well_formed:
  assumes "open_stack env f base len sector bsize st reg = Inr d"
    and "length (f_bytes f) < 2 ^ 64" "unat len + 65536 < 2 ^ 64"
    and "store_ok h st" "current_fits h (unat len div unat bsize) (unat bsize) st"
  shows "stack_ok h (unat bsize) d
    \<and> length (stack_blocks h d) * unat bsize = unat len
    \<and> stack_blocks h d = overlay h st (chunks (unat bsize) (segment (f_bytes f) (unat base) (unat base + unat len)))"
proof -
  obtain fd vol bb where fd: "from_file f True = Inr fd"
    and vol: "volume_with_mode (file_byte_device env) fd base len sector sector False = Inr vol"
    and bb: "bb_new (volume_byte_device (file_byte_device env)) vol bsize = Inr bb"
    and d: "d = with_read_your_writes (md_new bb st reg (current_snapshot st))"
    using assms(1) by (auto simp: open_stack_def volume_new_def split: sum.splits)
  note f = from_file_ok [OF fd assms(2)]
  have len: "length (file_content fd) = unat (len_bytes (file_byte_device env) fd)"
    using file_dev.content_length [OF f(1)] by simp
  note v = volume_with_mode_ok [where ok = file_ok and content = file_content, OF vol f(1) len assms(3)]
  have vlen: "length (vol_content file_content vol) = unat (len_bytes (volume_byte_device (file_byte_device env)) vol)"
    using file_volume.content_length [OF v(1)] by simp
  note b = bb_new_ok [where ok = "vol_ok file_ok file_content" and content = "vol_content file_content", OF bb v(1) vlen]
  have size: "unat (bb_block_size bb) = unat bsize" "0 < unat bsize" using b(1) by (auto simp: bb_ok_def)
  have bytes: "length (vol_content file_content (bb_inner bb)) = unat len" using b(2) vlen v(3) by simp
  have "unat bsize dvd unat len" using b(1) bytes by (auto simp: bb_ok_def)
  then have count: "length (bb_blocks (vol_content file_content) bb) = unat len div unat bsize"
    using bytes size by (simp add: bb_blocks_def chunks_exact)
  have blocks: "bb_blocks (vol_content file_content) bb
      = chunks (unat bsize) (segment (f_bytes f) (unat base) (unat base + unat len))"
    by (simp add: bb_blocks_def size b(2) v(2) f(2))
  have st: "versions (register_snapshot s st) = versions st" "current_snapshot (register_snapshot s st) = current_snapshot st" for s
    by (simp_all add: register_snapshot_def current_snapshot_def Let_def)
  then have "stack_ok h (unat bsize) d"
    using b(1) assms(4,5) count
    by (simp add: stack_ok_def md_ok_def d with_read_your_writes_def md_new_def register_ok current_fits_def version_bytes_at_def)
  moreover have "stack_blocks h d = overlay h st (bb_blocks (vol_content file_content) bb)"
    by (simp add: stack_blocks_def md_blocks_def d with_read_your_writes_def md_new_def overlay_def read_through_def
        version_bytes_at_def st)
  ultimately show ?thesis using count \<open>unat bsize dvd unat len\<close> by (simp add: blocks)
qed

theorem open_stack_well_formed_witness:
  "\<exists>d. open_stack sample_tuning (fd_file sample_file) 1 2 512 1 empty_store sr_new = Inr d
     \<and> stack_ok plain_host 1 d \<and> stack_blocks plain_host d = [[11], [12]]"
proof -
  have one: "is_power_of_two (1 :: u32)" by code_simp
  obtain d where d: "open_stack sample_tuning (fd_file sample_file) 1 2 512 1 empty_store sr_new = Inr d"
    by (simp add: open_stack_def file_eval sys_seek_end_def volume_new_def volume_with_mode_def
        validate_volume_sector_sizes_def is_supported_sector_size_def checked_add_def bb_new_def volume_byte_device_def one)
  have "store_ok plain_host empty_store" unfolding empty_store_def by (rule with_policy_ok)
  from open_stack_well_formed [OF d _ _ this] d show ?thesis
    by (simp add: sample_file_def current_fits_def store_eval segment_def chunks.simps overlay_def read_through_def upt_rec)
qed

text \<open>
  C3: the stack behaves as an array of blocks. Take any history of reads, ranged reads, writes,
  ranged writes and syncs that stays in range and writes whole blocks. When it succeeds, it
  returns what an array of blocks returns and leaves the blocks of the array. When an operation
  fails or is cancelled, the operations before it have taken effect as on the array, those after
  it never ran, and its own effect is confined: a failing read or sync leaves every block, a failing
  write every block outside the run it addresses. The invariant is kept and nothing panics.
\<close>

theorem device_stack_history:
  assumes "lossless h" "0 < n" "stack_ok h n d" "\<forall>op \<in> set ops. op_fits n (length (stack_blocks h d)) op"
  shows "case exec_ops (stack_device env h tm) ops (cx, d) of
      (Inr outs, _, d') \<Rightarrow> stack_ok h n d' \<and> (outs, stack_blocks h d') = array_ops n ops (stack_blocks h d)
    | (Inl (Err _), _, d') \<Rightarrow> stack_ok h n d' \<and>
        (\<exists>k < length ops. op_spares n (ops ! k) (snd (array_ops n (take k ops) (stack_blocks h d))) (stack_blocks h d'))
    | (Inl Panic, _, _) \<Rightarrow> False"
proof -
  have "triple ((=) d) (exec_ops (stack_device env h tm) ops)
      (\<lambda>outs d'. stack_ok h n d' \<and> (outs, stack_blocks h d') = array_ops n ops (stack_blocks h d))
      (\<lambda>d'. stack_ok h n d' \<and> stops_in n ops (stack_blocks h d) (stack_blocks h d'))"
    by (rule triple_conseq [OF steady_blocks.exec_ops_law [OF stack_contract [OF assms(1,2)] assms(4)]])
      (use assms(3) in \<open>auto simp: holds_def prod_eq_iff\<close>)
  then show ?thesis by (simp add: triple_def stops_in_def)
qed

theorem device_stack_history_witness:
  "\<exists>cx d'. exec_ops (stack_device sample_tuning plain_host sample_timing)
       [ReadBlock (BlockNumber 0), WriteBlock (BlockNumber 1) [99], ReadBlock (BlockNumber 1)] ([], sample_stack)
     = (Inr [[11], [99]], cx, d') \<and> stack_blocks plain_host d' = [[11], [99]]"
proof -
  let ?ops = "[ReadBlock (BlockNumber 0), WriteBlock (BlockNumber 1) [99], ReadBlock (BlockNumber 1)]"
  note ok = sample_stack_ok
  have "\<forall>op \<in> set ?ops. op_fits (Suc 0) (length (stack_blocks plain_host sample_stack)) op" by (simp add: ok(2))
  from device_stack_history [OF plain_lossless _ ok(1) this, of sample_tuning sample_timing "[]"] sample_run
  show ?thesis by (auto simp: ok(2) segment_def split: prod.splits sum.splits)
qed

text \<open>
  C8: flushing and then evicting is invisible to current readers. After a successful flush of the
  versions past the watermark to any device that meets the block contract, the device holds the
  newest version of every block, and reads at the current snapshot are what they were before.
  Evicting the chains that are then durable changes no read of the flushed device at a snapshot at
  or above the eviction bound, in particular none at the current snapshot, and the device stays
  clean through the new watermark, so that the next flush may start from it. What the flush itself
  does to reads at older snapshots is not claimed here.
\<close>

theorem flush_evict_transparent:
  assumes "block_contract bd ok blocks n" "store_ok h st" "ok d" "clean_through h st ft (blocks d)"
    and "store_fits h (length (blocks d)) n st"
    and "flush_to_device_after h bd ft st (cx, d) = (Inr (k, durable), cx', d')"
  defines "st' \<equiv> snd (evict_durable_chains durable st)"
  shows "blocks d' = overlay h st (blocks d)
    \<and> (\<forall>s i. i < length (blocks d) \<and> evict_bound durable st \<le> s \<longrightarrow>
         read_through h st' (blocks d') s i = read_through h st (blocks d') s i)
    \<and> overlay h st' (blocks d') = overlay h st (blocks d)
    \<and> clean_through h st' durable (blocks d')"
proof -
  have st: "chains_ok h st" using assms(2) by (simp add: store_ok_def)
  note f = flush_result [OF assms(1-6)]
  have clean: "clean_through h st durable (blocks d')" unfolding f(2) by (rule overlay_clean [OF st])
  have same: "read_through h st' (blocks d') s i = read_through h st (blocks d') s i"
    if "i < length (blocks d)" "evict_bound durable st \<le> s" for s i
    unfolding st'_def using that f(2) by (intro evict_read [OF st clean]) simp_all
  have cur: "current_snapshot st' = current_snapshot st" by (simp add: st'_def evict_fields current_snapshot_def)
  have bound: "evict_bound durable st \<le> high (current_snapshot st)"
    unfolding f(3) by (simp add: evict_bound_def split: option.split)
  have "overlay h st' (blocks d') = overlay h st (blocks d')"
    using same [OF _ bound] f(2) by (simp add: overlay_def cur)
  also have "\<dots> = blocks d'" using overlay_flushed [OF st clean] f(3) by simp
  finally show ?thesis using f(2) same evict_clean [OF st clean] by (auto simp: st'_def)
qed

theorem flush_evict_transparent_witness:
  "\<exists>base'. flush_to_device_after plain_host (byte_block_device (file_byte_device sample_tuning)) (CommitSeq 0) written_store
       ([], sample_blocks) = (Inr (1, CommitSeq 1), [], base')
     \<and> overlay plain_host (snd (evict_durable_chains (CommitSeq 1) written_store)) (bb_blocks file_content base')
       = [[10], [99], [12], [13]]"
proof -
  obtain base' where f: "flush_to_device_after plain_host (byte_block_device (file_byte_device sample_tuning)) (CommitSeq 0)
      written_store ([], sample_blocks) = (Inr (1, CommitSeq 1), [], base')" using flushed_blocks by auto
  have "overlay plain_host written_store [[10], [11], [12], [13]] = [[10], [99], [12], [13]]"
    by (simp add: overlay_def read_through_def upt_rec store_eval)
  with flush_evict_transparent [OF file_blocks.block_contract_axioms [of sample_tuning 0] written_store_ok _ written_store_clean _ f]
  show ?thesis using f written_store_fits sample_blocks_ok by (auto simp: eval_nat_numeral)
qed

text \<open>
  C31: a flush reaches readers at older snapshots. A device opened at a registered snapshot reads a
  block without a version at that snapshot from the base device, and the flush overwrites the base
  with the newest version, whatever snapshots are registered: the same read returns the old block
  before the flush and data committed after the snapshot once it succeeded.
\<close>

theorem flush_reaches_older_snapshots:
  assumes "block_contract bd ok blocks n" "store_ok h (md_store d)" "ok (md_base d)"
    and "clean_through h (md_store d) ft (blocks (md_base d))" "store_fits h (length (blocks (md_base d))) n (md_store d)"
    and "md_ownership d = Inline snap" "\<not> md_read_your_writes d"
    and "read_visible h (md_store d) b snap = None"
    and "read_visible h (md_store d) b (current_snapshot (md_store d)) = Some data"
    and "md_read_block h bd b (cx1, d) = (Inr before, rest)"
    and "flush_to_device_after h bd ft (md_store d) (cx2, md_base d) = (Inr res, cx3, base')"
    and "md_read_block h bd b (cx4, d\<lparr>md_base := base'\<rparr>) = (Inr after, rest')"
  shows "before = blocks (md_base d) ! bnum b \<and> after = data"
proof -
  obtain k durable where res: "res = (k, durable)" by (cases res)
  note f = flush_result [OF assms(1-5) assms(11) [unfolded res]]
  have data: "version_bytes_at h (md_store d) b (high (current_snapshot (md_store d))) = Some data"
    using assms(9) by (simp add: read_visible_bytes_at)
  then have b: "bnum b < length (blocks (md_base d))" using assms(5) by (auto simp: store_fits_def)
  have "after = read_through h (md_store d) (blocks base') (high snap) (bnum b)"
    using fixed_read [OF assms(1) _ _ _ _ assms(12)] assms(6,7) f(1,2) b by simp
  then show ?thesis
    using fixed_read [OF assms(1,3,6,7) b assms(10)] assms(8) data b
    by (simp add: read_through_block read_visible_bytes_at f(2) overlay_nth)
qed

theorem flush_reaches_older_snapshots_witness:
  "\<exists>base' r1 r2.
     holds_snapshot \<lparr>high = CommitSeq 0\<rparr> (md_store fixed_device)
   \<and> md_read_block plain_host (byte_block_device (file_byte_device sample_tuning)) (BlockNumber 1) ([], fixed_device)
       = (Inr [11], r1)
   \<and> flush_to_device_after plain_host (byte_block_device (file_byte_device sample_tuning)) (CommitSeq 0) (md_store fixed_device)
       ([], md_base fixed_device) = (Inr (1, CommitSeq 1), [], base')
   \<and> md_read_block plain_host (byte_block_device (file_byte_device sample_tuning)) (BlockNumber 1)
       ([], fixed_device\<lparr>md_base := base'\<rparr>) = (Inr [99], r2)"
proof -
  let ?bd = "byte_block_device (file_byte_device sample_tuning)"
  note contract = file_blocks.block_contract_axioms [of sample_tuning 0]
  have md: "md_store fixed_device = written_store" "md_base fixed_device = sample_blocks"
    "md_ownership fixed_device = Inline \<lparr>high = CommitSeq 0\<rparr>" "\<not> md_read_your_writes fixed_device"
    by (simp_all add: fixed_device_def)
  obtain base' where f: "flush_to_device_after plain_host ?bd (CommitSeq 0) (md_store fixed_device) ([], md_base fixed_device)
      = (Inr (1, CommitSeq 1), [], base')"
    and base': "bb_block_size base' = 1" "bb_block_count base' = 4" "fd_len (bb_inner base') = 4"
      "length (f_bytes (fd_file (bb_inner base'))) = 4" "f_script (fd_file (bb_inner base')) = []"
    using flushed_blocks md by auto
  obtain buf' r2 where r2: "md_read_block plain_host ?bd (BlockNumber 1) ([], fixed_device\<lparr>md_base := base'\<rparr>) = (Inr buf', r2)"
    using fixed_reads [OF base'] by auto
  obtain buf r1 where r1: "md_read_block plain_host ?bd (BlockNumber 1) ([], fixed_device) = (Inr buf, r1)"
    using fixed_reads [of sample_blocks] by (auto simp: fixed_device_def sample_blocks_def sample_file_def)
  have "current_snapshot written_store = \<lparr>high = CommitSeq 1\<rparr>" by (simp add: store_eval)
  then have "buf = [11] \<and> buf' = [99]"
    using flush_reaches_older_snapshots [OF contract _ _ _ _ md(3,4) _ _ r1 f r2, of "[99]"]
      written_store_ok written_store_fits written_store_clean sample_blocks_ok written_reads
    by (simp add: md eval_nat_numeral)
  moreover have "holds_snapshot \<lparr>high = CommitSeq 0\<rparr> written_store" by (simp add: holds_snapshot_def store_eval)
  ultimately show ?thesis using r1 f r2 by (auto simp: md)
qed

end
