(* ===== verification/Crash_Props.thy ===== *)
theory Crash_Props
  imports Device_Props
begin

text \<open>
  Crashes of the fault-injecting device: what was shown when a sync succeeded is what is shown
  after a crash, whatever reads and writes were attempted in between.
\<close>

datatype byte_op = ReadAt byte_offset usize | WriteAt byte_offset bytes

text \<open>An attempted operation: its result is ignored and the device goes on, also after a failure.\<close>

fun attempt_op :: "'d byte_device \<Rightarrow> byte_op \<Rightarrow> cx \<times> 'd sector_fault_device \<Rightarrow> cx \<times> 'd sector_fault_device" where
  "attempt_op dev (ReadAt off n) s = snd (fault_read_exact_at dev off n s)"
| "attempt_op dev (WriteAt off bs) s = snd (fault_write_all_at dev off bs s)"

context device_contract
begin

definition sf_durable :: "nat \<Rightarrow> bytes \<Rightarrow> 'd sector_fault_device \<Rightarrow> bool" where
  "sf_durable sz c d \<longleftrightarrow> (\<exists>v. sf_at sz c v d)"

lemma triple_final:
  assumes "triple P m (\<lambda>_. R) R" "P d"
  shows "R (snd (snd (m (cx, d))))"
proof (cases "m (cx, d)")
  case (fields r cx' d')
  note tripleD [OF assms, where cx = cx and cx' = cx' and d' = d']
  with fields show ?thesis by (cases r rule: sum.exhaust; cases "projl r") auto
qed

lemma attempt_durable:
  assumes "sf_durable sz c d"
  shows "sf_durable sz c (snd (attempt_op dev op (cx, d)))"
proof -
  obtain v where v: "sf_at sz c v d" using assms by (auto simp: sf_durable_def)
  have w: "triple (sf_at sz c v) (fault_write_all_at dev off bs) (\<lambda>_. sf_durable sz c) (sf_durable sz c)" for off bs
    by (rule triple_conseq [OF fault_write_law]) (auto simp: sf_durable_def)
  have r: "triple (sf_at sz c v) (fault_read_exact_at dev off n) (\<lambda>_. sf_durable sz c) (sf_durable sz c)" for off n
    by (rule triple_conseq [OF fault_read_law]) (auto simp: sf_durable_def)
  show ?thesis by (cases op) (simp_all add: triple_final [OF w v] triple_final [OF r v])
qed

lemma attempts_durable:
  "sf_durable sz c d \<Longrightarrow> sf_durable sz c (snd (fold (attempt_op dev) ops (cx, d)))"
proof (induction ops arbitrary: cx d)
  case (Cons op ops)
  then show ?case using attempt_durable [OF Cons.prems, of op cx] by (cases "attempt_op dev op (cx, d)") simp
qed simp

lemma crash_after_sync:
  assumes "sf_ok ok content d" "fault_sync dev (cx, d) = (Inr (), cx1, d1)"
  shows "sf_clean ok content (sf_size d) (sf_view content d) (snd (crash (snd (fold (attempt_op dev) ops (cx1, d1)))))"
proof -
  have "sf_at (sf_size d) (content (sf_inner d)) (sf_view content d) d" using assms(1) by (simp add: sf_state_def)
  from tripleD(1) [OF fault_sync_law this assms(2)] have "sf_durable (sf_size d) (sf_view content d) d1"
    by (auto simp: sf_clean_def sf_durable_def)
  from attempts_durable [OF this, of ops cx1] show ?thesis by (auto simp: sf_durable_def intro: crash_state)
qed

end

text \<open>
  C4: a crash restores the last synced content. On a fault-injecting device over a file, without
  injected bit rot but with any other rules, let a sync succeed. After any sequence of attempted
  reads and writes, successful, failed, cancelled or torn, a crash leaves nothing pending and
  shows, and holds in the file, exactly the bytes the device showed when it was synced.
\<close>

theorem crash_restores_synced_content:
  assumes "sf_ok file_ok file_content d" "fault_sync (file_byte_device env) (cx, d) = (Inr (), cx1, d1)"
    "fold (attempt_op (file_byte_device env)) ops (cx1, d1) = (cx2, d2)"
  shows "sf_view file_content (snd (crash d2)) = sf_view file_content d
    \<and> file_content (sf_inner (snd (crash d2))) = sf_view file_content d \<and> sf_pending (snd (crash d2)) = []"
  using file_dev.crash_after_sync [OF assms(1,2), of ops] by (simp add: assms(3) sf_clean_def sf_state_def)

definition sample_fault :: "file_device sector_fault_device" where
  "sample_fault =
     \<lparr>sf_inner = sample_file, sf_sector_size = 512, sf_pending = [(0, [10, 99, 12, 13])], sf_bit_rot = [], sf_rules = [],
      sf_read_count = 0, sf_write_count = 0, sf_sync_count = 0\<rparr>"

theorem crash_restores_synced_content_witness:
  "\<exists>cx1 d1. fault_sync (file_byte_device sample_tuning) ([], sample_fault) = (Inr (), cx1, d1)
     \<and> sf_view file_content (snd (crash (snd (fold (attempt_op (file_byte_device sample_tuning))
           [WriteAt (ByteOffset 2) [7, 7]] (cx1, d1))))) = [10, 99, 12, 13]"
proof -
  have ok: "sf_ok file_ok file_content sample_fault"
    by (simp add: sf_ok_def sample_fault_def sample_file_def file_ok_def file_content_def is_supported_sector_size_def pending_ok_def
        bt_inv_def sf_size_def rot_free_def)
  have view: "sf_view file_content sample_fault = [10, 99, 12, 13]"
    by (simp add: sf_view_def sees_def sample_fault_def sample_file_def file_content_def sf_size_def upt_rec)
  obtain cx1 d1 where s: "fault_sync (file_byte_device sample_tuning) ([], sample_fault)
      = (Inr (), cx1, d1)"
    by (simp add: fault_sync_def sample_fault_def match_action_def sync_action_def flush_all_def on_inner_def io_eval file_eval)
  from crash_restores_synced_content [OF ok s prod.collapse [symmetric], of "[WriteAt (ByteOffset 2) [7, 7]]"] s view
  show ?thesis by auto
qed

end
