(* ===== verification/Volume_Locks.thy ===== *)
theory Volume_Locks
  imports Volume_Law
begin

text \<open>
  Concurrent writers of one volume (\<open>VolumeDevice::write_all_at\<close>, \<open>ffs-block/src/lib.rs\<close>): each
  takes the stripe locks of the sectors it touches one after the other, writes, and drops them.
  A step relation interleaves any number of writers. The locks exclude writers of a common
  sector, and no interleaving of them can block for ever.
\<close>

section \<open>Writers\<close>

text \<open>
  A writer between the bounds checks and the end of its call: the locks it holds, in the order it
  took them, and those it still has to take. With none left to take it is in the section that
  reads and writes the backing device; \<open>Returned\<close> follows the drop of the guards, after a success
  or a failure of the backing device.
\<close>

datatype volume_writer = Locking (held: "usize list") (wanted: "usize list") | Returned

record write_request =
  rq_offset :: u64
  rq_len :: u64

definition first_sector :: "u64 \<Rightarrow> write_request \<Rightarrow> u64" where
  "first_sector sector_bytes rq = rq_offset rq div sector_bytes"

definition last_sector :: "u64 \<Rightarrow> write_request \<Rightarrow> u64" where
  "last_sector sector_bytes rq = (rq_offset rq + rq_len rq - 1) div sector_bytes"

definition begin_write :: "u64 \<Rightarrow> write_request \<Rightarrow> volume_writer" where
  "begin_write sector_bytes rq =
     Locking [] (stripe_indices_for_sectors (first_sector sector_bytes rq) (last_sector sector_bytes rq))"

definition holds_stripe :: "usize \<Rightarrow> volume_writer \<Rightarrow> bool" where
  "holds_stripe stripe w \<longleftrightarrow> (case w of Locking h _ \<Rightarrow> stripe \<in> set h | Returned \<Rightarrow> False)"

inductive lock_step :: "volume_writer list \<Rightarrow> volume_writer list \<Rightarrow> bool" where
  lock: "\<lbrakk>i < length ws; ws ! i = Locking h (stripe # rest); list_all (\<lambda>w. \<not> holds_stripe stripe w) ws\<rbrakk>
    \<Longrightarrow> lock_step ws (ws[i := Locking (h @ [stripe]) rest])"
| drop_guards: "\<lbrakk>i < length ws; ws ! i = Locking h []\<rbrakk> \<Longrightarrow> lock_step ws (ws[i := Returned])"

inductive_cases lock_stepE: "lock_step ws ws'"

section \<open>Progress\<close>

text \<open>The steps a writer still has to make, and the order in which it takes its locks.\<close>

fun steps_left :: "volume_writer \<Rightarrow> nat" where
  "steps_left (Locking _ w) = Suc (length w)"
| "steps_left Returned = 0"

fun ascending :: "volume_writer \<Rightarrow> bool" where
  "ascending (Locking h w) = sorted_wrt (<) (h @ w)"
| "ascending Returned = True"

definition all_steps :: "volume_writer list \<Rightarrow> nat" where
  "all_steps ws = sum_list (map steps_left ws)"

lemma all_steps_update: "i < length ws \<Longrightarrow> all_steps (ws[i := w]) + steps_left (ws ! i) = all_steps ws + steps_left w"
  by (induction ws arbitrary: i) (auto simp: all_steps_def nth_Cons split: nat.split)

lemma lock_step_counts: "lock_step ws ws' \<Longrightarrow> all_steps ws = Suc (all_steps ws')"
proof (induction rule: lock_step.induct)
  case (lock i ws h stripe rest)
  then show ?case using all_steps_update [of i ws "Locking (h @ [stripe]) rest"] by simp
next
  case (drop_guards i ws h)
  then show ?case using all_steps_update [of i ws Returned] by simp
qed

lemma lock_step_length: "lock_step ws ws' \<Longrightarrow> length ws' = length ws"
  by (auto elim: lock_stepE)

lemma lock_step_ascending: "lock_step ws ws' \<Longrightarrow> list_all ascending ws \<Longrightarrow> list_all ascending ws'"
  by (induction rule: lock_step.induct) (force simp: list_all_length nth_list_update)+

lemma steps_left_0: "all_steps ws = 0 \<longleftrightarrow> ws = replicate (length ws) Returned"
  by (induction ws) (auto simp: all_steps_def elim: steps_left.elims)

text \<open>
  Of the writers waiting for a lock, one that waits for the highest stripe is not blocked: a
  writer holding that stripe would wait for a higher one.
\<close>

lemma not_blocked:
  assumes asc: "list_all ascending ws" and left: "0 < all_steps ws"
  shows "\<exists>ws'. lock_step ws ws'"
proof (rule ccontr)
  assume stuck: "\<not> ?thesis"
  define waiting where "waiting = {s. \<exists>h r. Locking h (s # r) \<in> set ws}"
  have busy: "w \<noteq> []" if "Locking h w \<in> set ws" for h w
    using stuck that lock_step.drop_guards by (auto simp: in_set_conv_nth)
  have "finite waiting" by (rule finite_subset [of _ "(\<lambda>w. hd (wanted w)) ` set ws"]) (force simp: waiting_def)+
  moreover have "waiting \<noteq> {}"
  proof -
    have "ws \<noteq> replicate (length ws) Returned" using left steps_left_0 [of ws] by simp
    then obtain h w where "Locking h w \<in> set ws" by (metis replicate_length_same volume_writer.exhaust)
    with busy [OF this] show ?thesis by (cases w) (auto simp: waiting_def)
  qed
  ultimately have top: "Max waiting \<in> waiting" "\<And>s. s \<in> waiting \<Longrightarrow> s \<le> Max waiting" by auto
  then obtain i h r where i: "i < length ws" "ws ! i = Locking h (Max waiting # r)"
    by (auto simp: waiting_def in_set_conv_nth)
  then obtain w where w: "w \<in> set ws" "holds_stripe (Max waiting) w"
    using stuck lock_step.lock [OF i] by (auto simp: list_all_iff)
  then obtain h' s r' where h': "w = Locking h' (s # r')" "Max waiting \<in> set h'"
    using busy by (cases w; cases "wanted w") (auto simp: holds_stripe_def split: volume_writer.splits)
  then have "Max waiting < s" "s \<in> waiting"
    using asc w(1) by (auto simp: list_all_iff waiting_def sorted_wrt_append)
  with top(2) show False by force
qed

lemma begin_ascending: "list_all ascending (map (begin_write sector_bytes) rqs)"
  by (simp add: list_all_iff begin_write_def stripes_ascending)

lemma lock_run:
  "(lock_step ^^ n) ws ws' \<Longrightarrow> list_all ascending ws
    \<Longrightarrow> all_steps ws = n + all_steps ws' \<and> list_all ascending ws' \<and> length ws' = length ws"
  by (induction n arbitrary: ws') (auto dest: lock_step_counts lock_step_ascending lock_step_length)

section \<open>Exclusion\<close>

text \<open>Two writers hold no stripe in common.\<close>

definition exclusive :: "volume_writer list \<Rightarrow> bool" where
  "exclusive ws \<longleftrightarrow> (\<forall>i < length ws. \<forall>j < length ws. i \<noteq> j \<longrightarrow>
     (\<forall>s. holds_stripe s (ws ! i) \<longrightarrow> \<not> holds_stripe s (ws ! j)))"

text \<open>A writer holds and wants the stripes of its request.\<close>

definition for_request :: "u64 \<Rightarrow> write_request \<Rightarrow> volume_writer \<Rightarrow> bool" where
  "for_request sector_bytes rq w \<longleftrightarrow>
     (case w of
        Locking h r \<Rightarrow> h @ r = stripe_indices_for_sectors (first_sector sector_bytes rq) (last_sector sector_bytes rq)
      | Returned \<Rightarrow> True)"

lemma holds_stripe_simps [simp]:
  "holds_stripe s (Locking h r) \<longleftrightarrow> s \<in> set h" "\<not> holds_stripe s Returned"
  by (simp_all add: holds_stripe_def)

lemma exclusive_update:
  assumes "exclusive ws" "\<And>j s. \<lbrakk>j < length ws; j \<noteq> i; holds_stripe s w\<rbrakk> \<Longrightarrow> \<not> holds_stripe s (ws ! j)"
  shows "exclusive (ws[i := w])"
  unfolding exclusive_def
proof (intro allI impI)
  fix j k s
  assume "j < length (ws[i := w])" "k < length (ws[i := w])" "j \<noteq> k" "holds_stripe s (ws[i := w] ! j)"
  then show "\<not> holds_stripe s (ws[i := w] ! k)"
    using assms(1) [unfolded exclusive_def, rule_format, of j k s] assms(2) by (cases "i = j"; cases "i = k") auto
qed

lemma lock_step_exclusive: "lock_step ws ws' \<Longrightarrow> exclusive ws \<Longrightarrow> exclusive ws'"
proof (induction rule: lock_step.induct)
  case (lock i ws h stripe rest)
  then have "\<not> holds_stripe s (ws ! j)" if "j < length ws" "j \<noteq> i" "s \<in> set (stripe # h)" for j s
    using that by (fastforce simp: exclusive_def list_all_length)
  with lock.prems show ?case by (intro exclusive_update) auto
qed (rule exclusive_update, auto)

lemma lock_step_requests:
  "lock_step ws ws' \<Longrightarrow> list_all2 (for_request sector_bytes) rqs ws \<Longrightarrow> list_all2 (for_request sector_bytes) rqs ws'"
  by (induction rule: lock_step.induct) (force simp: list_all2_conv_all_nth for_request_def nth_list_update)+

lemma lock_reach:
  assumes "lock_step\<^sup>*\<^sup>* (map (begin_write sector_bytes) rqs) ws"
  shows "exclusive ws \<and> list_all2 (for_request sector_bytes) rqs ws"
  using assms
proof (induction rule: rtranclp_induct)
  case base
  show ?case by (auto simp: exclusive_def holds_stripe_def begin_write_def list_all2_conv_all_nth for_request_def)
next
  case (step ws ws')
  then show ?case by (blast intro: lock_step_exclusive lock_step_requests)
qed

section \<open>Properties\<close>

lemma stripes_of_sector: "stripe_indices_for_sectors s s = [unat s mod VOLUME_DEVICE_RMW_STRIPES]"
  by (simp add: stripe_indices_for_sectors_def saturating_add_def saturating_sub_def VOLUME_DEVICE_RMW_STRIPES_def
      word_le_nat_alt)

text \<open>
  C7: writers of a volume never deadlock, and all of them return. Whatever their offsets and
  lengths, every interleaving of the lock acquisitions of any number of writers has the same
  number of steps: each sequence of steps made so far is no longer than that, can be continued
  when it is shorter, and has let every writer return when it is complete.
\<close>

theorem volume_writers_all_return:
  assumes "(lock_step ^^ n) (map (begin_write sector_bytes) rqs) ws"
  shows "n \<le> all_steps (map (begin_write sector_bytes) rqs)
    \<and> (n < all_steps (map (begin_write sector_bytes) rqs) \<longrightarrow> (\<exists>ws'. lock_step ws ws'))
    \<and> (n = all_steps (map (begin_write sector_bytes) rqs) \<longrightarrow> ws = replicate (length rqs) Returned)"
  using lock_run [OF assms begin_ascending] not_blocked [of ws] steps_left_0 [of ws] by auto

theorem volume_writers_all_return_witness:
  "let rqs = [\<lparr>rq_offset = 0, rq_len = 4\<rparr>, \<lparr>rq_offset = 100, rq_len = 8\<rparr>] in
    (lock_step ^^ 1) (map (begin_write 512) rqs) [Locking [0] [], Locking [] [0]]
    \<and> all_steps (map (begin_write 512) rqs) = 4 \<and> (\<exists>ws'. lock_step [Locking [0] [], Locking [] [0]] ws')"
proof -
  let ?rqs = "[\<lparr>rq_offset = 0, rq_len = 4\<rparr>, \<lparr>rq_offset = 100, rq_len = 8\<rparr>]"
  have start: "map (begin_write 512) ?rqs = [Locking [] [0], Locking [] [0]]"
    by (simp add: begin_write_def first_sector_def last_sector_def stripes_of_sector VOLUME_DEVICE_RMW_STRIPES_def)
  have step: "(lock_step ^^ 1) (map (begin_write 512) ?rqs) [Locking [0] [], Locking [] [0]]"
    using lock_step.lock [of 0 "[Locking [] [0], Locking [] [0]]" "[]" 0 "[]"] start
    by (simp add: holds_stripe_def eq_OO)
  show ?thesis using step volume_writers_all_return [OF step] start by (simp add: all_steps_def)
qed

text \<open>
  C29: writes to a common sector exclude each other. In every state that any number of writers of
  one volume can reach, two writers that both hold all their locks, and so may be reading and
  writing the backing device, touch no sector in common.
\<close>

theorem volume_sector_exclusion:
  assumes "lock_step\<^sup>*\<^sup>* (map (begin_write sector_bytes) rqs) ws" "i < length rqs" "j < length rqs" "i \<noteq> j"
    and "ws ! i = Locking h []" "ws ! j = Locking h' []"
  shows "{first_sector sector_bytes (rqs ! i)..last_sector sector_bytes (rqs ! i)}
    \<inter> {first_sector sector_bytes (rqs ! j)..last_sector sector_bytes (rqs ! j)} = {}"
proof (rule ccontr)
  assume "\<not> ?thesis"
  then obtain s where "s \<in> {first_sector sector_bytes (rqs ! i)..last_sector sector_bytes (rqs ! i)}"
    "s \<in> {first_sector sector_bytes (rqs ! j)..last_sector sector_bytes (rqs ! j)}" by blast
  then have s: "first_sector sector_bytes (rqs ! k) \<le> s" "s \<le> last_sector sector_bytes (rqs ! k)"
    if "k \<in> {i, j}" for k using that by auto
  have reach: "exclusive ws" "list_all2 (for_request sector_bytes) rqs ws" using lock_reach [OF assms(1)] by auto
  then have len: "length ws = length rqs" by (simp add: list_all2_lengthD)
  have "holds_stripe (unat s mod VOLUME_DEVICE_RMW_STRIPES) (ws ! k)" if "k \<in> {i, j}" for k
    using stripes_cover [OF s [OF that]] list_all2_nthD [OF reach(2), of k] that assms
    by (auto simp: for_request_def holds_stripe_def)
  from this [of i] this [of j] show False using reach(1) assms(2-4) unfolding exclusive_def len by blast
qed

theorem volume_sector_exclusion_witness:
  "{first_sector 512 \<lparr>rq_offset = 0, rq_len = 4\<rparr>..last_sector 512 \<lparr>rq_offset = 0, rq_len = 4\<rparr>}
    \<inter> {first_sector 512 \<lparr>rq_offset = 512, rq_len = 8\<rparr>..last_sector 512 \<lparr>rq_offset = 512, rq_len = 8\<rparr>} = {}"
proof -
  let ?rqs = "[\<lparr>rq_offset = 0, rq_len = 4\<rparr>, \<lparr>rq_offset = 512, rq_len = 8\<rparr>]"
  have start: "map (begin_write 512) ?rqs = [Locking [] [0], Locking [] [1]]"
    by (simp add: begin_write_def first_sector_def last_sector_def stripes_of_sector VOLUME_DEVICE_RMW_STRIPES_def)
  have "lock_step [Locking [] [0], Locking [] [1]] [Locking [0] [], Locking [] [1]]"
    using lock_step.lock [of 0 "[Locking [] [0], Locking [] [1]]" "[]" 0 "[]"] by (simp add: holds_stripe_def)
  moreover have "lock_step [Locking [0] [], Locking [] [1]] [Locking [0] [], Locking [1] []]"
    using lock_step.lock [of 1 "[Locking [0] [], Locking [] [1]]" "[]" 1 "[]"] by (simp add: holds_stripe_def)
  ultimately have "lock_step\<^sup>*\<^sup>* (map (begin_write 512) ?rqs) [Locking [0] [], Locking [1] []]"
    unfolding start by (meson converse_rtranclp_into_rtranclp rtranclp.rtrancl_refl)
  from volume_sector_exclusion [OF this, of 0 1] show ?thesis by simp
qed

end
