(* ===== verification/Clean_Sync.thy ===== *)
theory Clean_Sync
  imports Device_Law
begin

text \<open>
  Concurrent writes and syncs through clones of one \<open>FileByteDevice\<close>
  (\<open>ffs-block/src/lib.rs\<close>, \<open>FileDeviceSyncState\<close>): a step relation over the system calls and the
  atomic operations on the write epoch and the synced epoch, in every interleaving. A sync that
  returns has made durable what was written before it began, also when it elided the system
  call.
\<close>

section \<open>Steps\<close>

text \<open>
  What a thread of the device is doing. A write is between its system call and the bump of the
  write epoch; the position is its place in the order of the write system calls. A sync has
  loaded the write epoch, or has also returned from \<open>sync_data\<close>, or has returned. A sync carries
  the set of the writes that had completed when it loaded the epoch, which no step looks at.
\<close>

datatype device_thread =
    Idle
  | Wrote nat
  | Observed u64 "nat set"
  | Flushed u64 "nat set"
  | Synced "nat set"

text \<open>
  The file counts its write system calls and how many of them are durable. The completed writes
  are listed in the order of their bumps of the write epoch.
\<close>

record shared_device =
  sh_written :: nat
  sh_durable :: nat
  sh_write_epoch :: u64
  sh_synced_epoch :: u64
  sh_completed :: "nat list"
  sh_threads :: "device_thread list"

definition opened :: "nat \<Rightarrow> shared_device" where
  "opened n = \<lparr>sh_written = 0, sh_durable = 0, sh_write_epoch = 1, sh_synced_epoch = 0, sh_completed = [],
     sh_threads = replicate n Idle\<rparr>"

definition goto :: "nat \<Rightarrow> device_thread \<Rightarrow> shared_device \<Rightarrow> shared_device" where
  "goto i t s = s\<lparr>sh_threads := (sh_threads s)[i := t]\<rparr>"

text \<open>
  A thread starts a new call when it is \<open>Idle\<close> or has returned from a sync. The write epoch does
  not wrap around: a device makes fewer than \<open>2 ^ 64 - 1\<close> writes. The kernel may write back at any
  time, and \<open>sync_data\<close> writes back all that was written before it, or fails.
\<close>

inductive device_step :: "bool \<Rightarrow> shared_device \<Rightarrow> shared_device \<Rightarrow> bool" for skip where
  write_call: "\<lbrakk>i < length (sh_threads s); sh_threads s ! i \<in> {Idle} \<union> range Synced\<rbrakk>
    \<Longrightarrow> device_step skip s (goto i (Wrote (sh_written s)) (s\<lparr>sh_written := sh_written s + 1\<rparr>))"
| write_bump: "\<lbrakk>i < length (sh_threads s); sh_threads s ! i = Wrote p; Suc (unat (sh_write_epoch s)) < 2 ^ 64\<rbrakk>
    \<Longrightarrow> device_step skip s (goto i Idle (s\<lparr>sh_write_epoch := sh_write_epoch s + 1,
          sh_completed := sh_completed s @ [p]\<rparr>))"
| observe: "\<lbrakk>i < length (sh_threads s); sh_threads s ! i \<in> {Idle} \<union> range Synced\<rbrakk>
    \<Longrightarrow> device_step skip s (goto i (Observed (sh_write_epoch s) (set (sh_completed s))) s)"
| elide: "\<lbrakk>i < length (sh_threads s); sh_threads s ! i = Observed seen ws; skip; seen = sh_synced_epoch s\<rbrakk>
    \<Longrightarrow> device_step skip s (goto i (Synced ws) s)"
| sync_data: "\<lbrakk>i < length (sh_threads s); sh_threads s ! i = Observed seen ws; skip \<longrightarrow> seen \<noteq> sh_synced_epoch s\<rbrakk>
    \<Longrightarrow> device_step skip s (goto i (Flushed seen ws) (s\<lparr>sh_durable := sh_written s\<rparr>))"
| sync_fails: "\<lbrakk>i < length (sh_threads s); sh_threads s ! i = Observed seen ws; skip \<longrightarrow> seen \<noteq> sh_synced_epoch s\<rbrakk>
    \<Longrightarrow> device_step skip s (goto i Idle s)"
| publish: "\<lbrakk>i < length (sh_threads s); sh_threads s ! i = Flushed seen ws\<rbrakk>
    \<Longrightarrow> device_step skip s (goto i (Synced ws) (s\<lparr>sh_synced_epoch := max (sh_synced_epoch s) seen\<rparr>))"
| write_back: "\<lbrakk>sh_durable s \<le> n; n \<le> sh_written s\<rbrakk> \<Longrightarrow> device_step skip s (s\<lparr>sh_durable := n\<rparr>)"

section \<open>The invariant\<close>

text \<open>The writes that had completed when the write epoch was \<open>e\<close>.\<close>

definition completed_at :: "u64 \<Rightarrow> shared_device \<Rightarrow> nat set" where
  "completed_at e s = set (take (unat e - 1) (sh_completed s))"

fun thread_ok :: "shared_device \<Rightarrow> device_thread \<Rightarrow> bool" where
  "thread_ok s Idle \<longleftrightarrow> True"
| "thread_ok s (Wrote p) \<longleftrightarrow> p < sh_written s"
| "thread_ok s (Observed e ws) \<longleftrightarrow> e \<le> sh_write_epoch s \<and> ws \<subseteq> completed_at e s"
| "thread_ok s (Flushed e ws) \<longleftrightarrow> e \<le> sh_write_epoch s \<and> ws \<subseteq> completed_at e s \<and> completed_at e s \<subseteq> {..<sh_durable s}"
| "thread_ok s (Synced ws) \<longleftrightarrow> ws \<subseteq> {..<sh_durable s}"

definition epochs_ok :: "shared_device \<Rightarrow> bool" where
  "epochs_ok s \<longleftrightarrow>
     sh_durable s \<le> sh_written s \<and> set (sh_completed s) \<subseteq> {..<sh_written s}
   \<and> unat (sh_write_epoch s) = Suc (length (sh_completed s))
   \<and> sh_synced_epoch s \<le> sh_write_epoch s \<and> completed_at (sh_synced_epoch s) s \<subseteq> {..<sh_durable s}"

definition sync_ok :: "shared_device \<Rightarrow> bool" where
  "sync_ok s \<longleftrightarrow> epochs_ok s \<and> list_all (thread_ok s) (sh_threads s)"

lemma sync_okD:
  assumes "sync_ok s" "i < length (sh_threads s)"
  shows "thread_ok s (sh_threads s ! i)"
  using assms by (simp add: sync_ok_def list_all_length)

lemma list_all_update: "list_all P xs \<Longrightarrow> P x \<Longrightarrow> list_all P (xs[i := x])"
  by (cases "i < length xs") (auto simp: list_all_length nth_list_update)

lemma completed_at_simps [simp]:
  "completed_at e (s\<lparr>sh_written := n\<rparr>) = completed_at e s" "completed_at e (s\<lparr>sh_durable := n\<rparr>) = completed_at e s"
  "completed_at e (s\<lparr>sh_synced_epoch := k\<rparr>) = completed_at e s" "completed_at e (s\<lparr>sh_threads := ts\<rparr>) = completed_at e s"
  by (simp_all add: completed_at_def)

lemma completed_at_append [simp]:
  "unat e \<le> Suc (length (sh_completed s)) \<Longrightarrow>
    completed_at e (s\<lparr>sh_write_epoch := k, sh_completed := sh_completed s @ [p]\<rparr>) = completed_at e s"
  by (simp add: completed_at_def)

lemma completed_at_now: "epochs_ok s \<Longrightarrow> completed_at (sh_write_epoch s) s = set (sh_completed s)"
  by (simp add: completed_at_def epochs_ok_def)

lemma completed_at_written: "epochs_ok s \<Longrightarrow> completed_at e s \<subseteq> {..<sh_written s}"
  by (auto simp: completed_at_def epochs_ok_def dest!: in_set_takeD)

text \<open>
  The state of the device moves forward: a step that loses no write and changes no completed one
  keeps what every thread knows.
\<close>

definition later :: "shared_device \<Rightarrow> shared_device \<Rightarrow> bool" where
  "later s s' \<longleftrightarrow> sh_written s \<le> sh_written s' \<and> sh_durable s \<le> sh_durable s' \<and> sh_write_epoch s \<le> sh_write_epoch s'
     \<and> (\<forall>e \<le> sh_write_epoch s. completed_at e s' = completed_at e s)"

lemma thread_ok_later: "later s s' \<Longrightarrow> thread_ok s t \<Longrightarrow> thread_ok s' t"
  by (cases t) (auto simp: later_def)

lemma thread_ok_goto [simp]: "thread_ok (goto i t s) = thread_ok s"
proof
  show "thread_ok (goto i t s) u = thread_ok s u" for u by (cases u) (simp_all add: goto_def)
qed

lemma epochs_ok_goto [simp]: "epochs_ok (goto i t s) = epochs_ok s"
  by (simp add: epochs_ok_def goto_def)

lemma unat_bump: "Suc (unat e) < 2 ^ 64 \<Longrightarrow> unat (e + 1) = Suc (unat e)" for e :: u64
  by (simp add: unat_word_ariths)

lemma sync_ok_later:
  assumes "sync_ok s" "epochs_ok s'" "later s s'" "sh_threads s' = sh_threads s"
  shows "sync_ok s'"
  using assms thread_ok_later [of s s'] by (auto simp: sync_ok_def list_all_iff)

lemma sync_ok_goto:
  assumes "sync_ok s" "epochs_ok s'" "later s s'" "sh_threads s' = sh_threads s" "thread_ok s' t"
  shows "sync_ok (goto i t s')"
  using sync_ok_later [OF assms(1-4)] assms(5) by (simp add: sync_ok_def) (simp add: goto_def list_all_update)

lemma later_refl: "later s s"
  by (simp add: later_def)

lemma opened_ok: "sync_ok (opened n)"
  by (simp add: sync_ok_def epochs_ok_def opened_def completed_at_def list_all_length)

lemma device_step_ok: "device_step skip s s' \<Longrightarrow> sync_ok s \<Longrightarrow> sync_ok s'"
proof (induction rule: device_step.induct)
  case (write_call i s)
  then show ?case by (intro sync_ok_goto) (auto simp: later_def sync_ok_def epochs_ok_def)
next
  case (write_bump i s p)
  from sync_okD [OF write_bump(4,1)] write_bump show ?case
    by (intro sync_ok_goto) (auto simp: later_def sync_ok_def epochs_ok_def word_le_nat_alt unat_bump)
next
  case (observe i s)
  then show ?case by (intro sync_ok_goto) (auto simp: later_refl sync_ok_def completed_at_now)
next
  case (elide i s seen ws)
  from sync_okD [OF elide(5,1)] elide show ?case by (intro sync_ok_goto) (auto simp: later_refl sync_ok_def epochs_ok_def)
next
  case (sync_data i s seen ws)
  from sync_okD [OF sync_data(4,1)] completed_at_written [of s seen] sync_data show ?case
    by (intro sync_ok_goto) (auto simp: later_def sync_ok_def epochs_ok_def)
next
  case (sync_fails i s seen ws)
  then show ?case by (intro sync_ok_goto) (auto simp: later_refl sync_ok_def)
next
  case (publish i s seen ws)
  from sync_okD [OF publish(3,1)] publish show ?case
    by (intro sync_ok_goto) (auto simp: later_def sync_ok_def epochs_ok_def max_def)
next
  case (write_back s n)
  show ?case by (rule sync_ok_later [OF write_back(3)]) (use write_back in \<open>auto simp: later_def sync_ok_def epochs_ok_def\<close>)
qed

lemma device_run_ok: "(device_step skip)\<^sup>*\<^sup>* s s' \<Longrightarrow> sync_ok s \<Longrightarrow> sync_ok s'"
  by (induction rule: rtranclp_induct) (auto intro: device_step_ok)

section \<open>Property\<close>

text \<open>
  C5: a sync that returns has made durable every write that completed before it. In every
  interleaving of the writes and syncs of any number of threads sharing one device, with or without the
  elision of clean syncs, when a sync has returned successfully, each write whose call had
  returned, successfully or not, when the sync loaded the write epoch is durable, and stays so.
\<close>

theorem sync_covers_completed_writes:
  assumes "(device_step skip)\<^sup>*\<^sup>* (opened n) s" "Synced ws \<in> set (sh_threads s)"
  shows "ws \<subseteq> {..<sh_durable s}"
  using device_run_ok [OF assms(1) opened_ok] assms(2) by (fastforce simp: sync_ok_def list_all_iff)

text \<open>Two threads: one writes and syncs, then the other syncs without a system call.\<close>

theorem sync_covers_completed_writes_witness:
  "\<exists>s. (device_step True)\<^sup>*\<^sup>* (opened 2) s \<and> sh_threads s = [Synced {0}, Synced {0}] \<and> {0} \<subseteq> {..<sh_durable s}"
proof -
  let ?s = "\<lambda>w d e k cs a b. \<lparr>sh_written = w, sh_durable = d, sh_write_epoch = e, sh_synced_epoch = k, sh_completed = cs,
      sh_threads = [a, b]\<rparr> :: shared_device"
  let ?r = "device_step True"
  have start: "opened 2 = ?s 0 0 1 0 [] Idle Idle" by (simp add: opened_def numeral_2_eq_2)
  have 1: "?r (?s 0 0 1 0 [] Idle Idle) (?s 1 0 1 0 [] (Wrote 0) Idle)"
    using device_step.write_call [of 0 "?s 0 0 1 0 [] Idle Idle" True] by (simp add: goto_def)
  have 2: "?r (?s 1 0 1 0 [] (Wrote 0) Idle) (?s 1 0 2 0 [0] Idle Idle)"
    using device_step.write_bump [of 0 "?s 1 0 1 0 [] (Wrote 0) Idle" 0 True] by (simp add: goto_def)
  have 3: "?r (?s 1 0 2 0 [0] Idle Idle) (?s 1 0 2 0 [0] (Observed 2 {0}) Idle)"
    using device_step.observe [of 0 "?s 1 0 2 0 [0] Idle Idle" True] by (simp add: goto_def)
  have 4: "?r (?s 1 0 2 0 [0] (Observed 2 {0}) Idle) (?s 1 1 2 0 [0] (Flushed 2 {0}) Idle)"
    using device_step.sync_data [of 0 "?s 1 0 2 0 [0] (Observed 2 {0}) Idle" 2 "{0}" True] by (simp add: goto_def)
  have 5: "?r (?s 1 1 2 0 [0] (Flushed 2 {0}) Idle) (?s 1 1 2 2 [0] (Synced {0}) Idle)"
    using device_step.publish [of 0 "?s 1 1 2 0 [0] (Flushed 2 {0}) Idle" 2 "{0}" True] by (simp add: goto_def)
  have 6: "?r (?s 1 1 2 2 [0] (Synced {0}) Idle) (?s 1 1 2 2 [0] (Synced {0}) (Observed 2 {0}))"
    using device_step.observe [of 1 "?s 1 1 2 2 [0] (Synced {0}) Idle" True] by (simp add: goto_def)
  have 7: "?r (?s 1 1 2 2 [0] (Synced {0}) (Observed 2 {0})) (?s 1 1 2 2 [0] (Synced {0}) (Synced {0}))"
    using device_step.elide [of 1 "?s 1 1 2 2 [0] (Synced {0}) (Observed 2 {0})" 2 "{0}" True] by (simp add: goto_def)
  have run: "?r\<^sup>*\<^sup>* (opened 2) (?s 1 1 2 2 [0] (Synced {0}) (Synced {0}))"
    unfolding start by (rule converse_rtranclp_into_rtranclp, rule 1, rule converse_rtranclp_into_rtranclp, rule 2,
        rule converse_rtranclp_into_rtranclp, rule 3, rule converse_rtranclp_into_rtranclp, rule 4,
        rule converse_rtranclp_into_rtranclp, rule 5, rule converse_rtranclp_into_rtranclp, rule 6, rule r_into_rtranclp, rule 7)
  from run sync_covers_completed_writes [OF run, of "{0}"] show ?thesis by (intro exI [of _ "?s 1 1 2 2 [0] (Synced {0}) (Synced {0})"]) simp
qed

end
