(* ===== verification/Wal_Format.thy ===== *)
theory Wal_Format
  imports Ffs_Error Ffs_Types Crc_Incremental
begin

text \<open>
  The format of the write-ahead log (\<open>ffs-mvcc/src/wal.rs\<close>): the file header, commit records with
  their length prefix and checksum, and the decoder that classifies the bytes at a position of the
  log. A record decodes exactly when it is the encoding of the decoded commit, and a proper prefix
  of a record asks for more bytes. The checksum of the \<open>crc32c\<close> crate is a parameter.
\<close>

section \<open>Constants and data\<close>

definition WAL_MAGIC :: u32 where "WAL_MAGIC = 0x4D564357"

definition WAL_VERSION :: u16 where "WAL_VERSION = 1"

definition CHECKSUM_TYPE_CRC32C :: u16 where "CHECKSUM_TYPE_CRC32C = 0"

definition HEADER_SIZE :: usize where "HEADER_SIZE = 16"

definition MIN_COMMIT_RECORD_SIZE :: usize where "MIN_COMMIT_RECORD_SIZE = 4 + 1 + 8 + 8 + 4 + 4"

definition RECORD_TYPE_COMMIT :: u8 where "RECORD_TYPE_COMMIT = 1"

record wal_write =
  ww_block :: block_number
  ww_data :: bytes

record wal_commit =
  wc_commit_seq :: commit_seq
  wc_txn_id :: txn_id
  wc_writes :: "wal_write list"

record wal_header =
  wh_magic :: u32
  wh_version :: u16
  wh_checksum_type :: u16

definition wal_header_default :: wal_header where
  "wal_header_default = \<lparr>wh_magic = WAL_MAGIC, wh_version = WAL_VERSION, wh_checksum_type = CHECKSUM_TYPE_CRC32C\<rparr>"

datatype decode_result = Commit wal_commit | NeedMore usize | Corrupted string | EndOfData

section \<open>Reading integers\<close>

text \<open>The left value of a reader is the text of the \<open>FfsError::Format\<close> it fails with.\<close>

definition wal_read :: "string \<Rightarrow> usize \<Rightarrow> bytes \<Rightarrow> usize \<Rightarrow> string + bytes" where
  "wal_read name width bytes offset =
     (case checked_add_usize offset width of
        None \<Rightarrow> Inl (name @ '' offset overflow'')
      | Some stop \<Rightarrow>
          if length bytes < stop
          then Inl (name @ '' out of bounds: offset='' @ show_nat offset @ '', len='' @ show_nat (length bytes))
          else Inr (segment bytes offset stop))"

definition wal_read_le_u16 :: "bytes \<Rightarrow> usize \<Rightarrow> string + u16" where
  "wal_read_le_u16 bytes offset = map_sum id from_le (wal_read ''read_le_u16'' 2 bytes offset)"

definition wal_read_le_u32 :: "bytes \<Rightarrow> usize \<Rightarrow> string + u32" where
  "wal_read_le_u32 bytes offset = map_sum id from_le (wal_read ''read_le_u32'' 4 bytes offset)"

definition wal_read_le_u64 :: "bytes \<Rightarrow> usize \<Rightarrow> string + u64" where
  "wal_read_le_u64 bytes offset = map_sum id from_le (wal_read ''read_le_u64'' 8 bytes offset)"

text \<open>How a \<open>FfsError::Format\<close> prints.\<close>

definition format_text :: "string \<Rightarrow> string" where
  "format_text detail = ''invalid on-disk format: '' @ detail"

section \<open>The file header\<close>

definition encode_header :: "wal_header \<Rightarrow> bytes" where
  "encode_header header =
     (let buf = replicate HEADER_SIZE 0;
          buf = blit buf 0 (u32_to_le (wh_magic header));
          buf = blit buf 4 (u16_to_le (wh_version header))
      in blit buf 6 (u16_to_le (wh_checksum_type header)))"

definition decode_header :: "bytes \<Rightarrow> wal_header ffs_result" where
  "decode_header bytes =
     (if length bytes < HEADER_SIZE
      then Inl (Format (''WAL header too short: '' @ show_nat (length bytes) @ '' bytes, need '' @ show_nat HEADER_SIZE))
      else case wal_read_le_u32 bytes 0 of
        Inl e \<Rightarrow> Inl (Format e)
      | Inr magic \<Rightarrow>
          if magic \<noteq> WAL_MAGIC
          then Inl (Format (''WAL magic mismatch: expected '' @ show_hex010 WAL_MAGIC @ '', got '' @ show_hex010 magic))
          else (case wal_read_le_u16 bytes 4 of
            Inl e \<Rightarrow> Inl (Format e)
          | Inr version \<Rightarrow>
              if version \<noteq> WAL_VERSION
              then Inl (Format (''unsupported WAL version: '' @ show_nat (unat version)
                          @ '' (expected '' @ show_nat (unat WAL_VERSION) @ '')''))
              else (case wal_read_le_u16 bytes 6 of
                Inl e \<Rightarrow> Inl (Format e)
              | Inr checksum_type \<Rightarrow>
                  if checksum_type \<noteq> CHECKSUM_TYPE_CRC32C
                  then Inl (Format (''unsupported WAL checksum type: '' @ show_nat (unat checksum_type)))
                  else Inr \<lparr>wh_magic = magic, wh_version = version, wh_checksum_type = checksum_type\<rparr>)))"

section \<open>Encoding a commit\<close>

fun writes_size :: "usize \<Rightarrow> wal_write list \<Rightarrow> usize option" where
  "writes_size data_size [] = Some data_size"
| "writes_size data_size (w # ws) =
     (case Option.bind (checked_add_usize data_size (8 + 4)) (\<lambda>s. checked_add_usize s (length (ww_data w))) of
        None \<Rightarrow> None
      | Some data_size \<Rightarrow> writes_size data_size ws)"

definition body_size_of :: "usize \<Rightarrow> usize option" where
  "body_size_of data_size =
     Option.bind (checked_add_usize 1 8) (\<lambda>s. Option.bind (checked_add_usize s 8) (\<lambda>s.
     Option.bind (checked_add_usize s 4) (\<lambda>s. Option.bind (checked_add_usize s data_size) (\<lambda>s.
     checked_add_usize s 4))))"

fun encode_writes :: "wal_write list \<Rightarrow> bytes \<Rightarrow> bytes option" where
  "encode_writes [] buf = Some buf"
| "encode_writes (w # ws) buf =
     (case (try_from_nat (length (ww_data w)) :: u32 option) of
        None \<Rightarrow> None
      | Some data_len \<Rightarrow> encode_writes ws (buf @ u64_to_le (bn_val (ww_block w)) @ u32_to_le data_len @ ww_data w))"

definition encode_commit :: "(u32 \<Rightarrow> bytes \<Rightarrow> u32) \<Rightarrow> wal_commit \<Rightarrow> bytes ffs_result" where
  "encode_commit crc32c_append commit =
     (case writes_size 0 (wc_writes commit) of
        None \<Rightarrow> Inl (Format ''commit record size overflow'')
      | Some data_size \<Rightarrow>
     (case body_size_of data_size of
        None \<Rightarrow> Inl (Format ''commit record body size overflow'')
      | Some body_size \<Rightarrow>
     (case checked_add_usize 4 body_size of
        None \<Rightarrow> Inl (Format ''commit record total size overflow'')
      | Some total_size \<Rightarrow>
     (case (try_from_nat body_size :: u32 option) of
        None \<Rightarrow> Inl (Format ''commit record length exceeds u32'')
      | Some record_len \<Rightarrow>
          let buf = u32_to_le record_len @ [RECORD_TYPE_COMMIT] @ u64_to_le (seq_val (wc_commit_seq commit))
                    @ u64_to_le (txn_val (wc_txn_id commit))
          in case (try_from_nat (length (wc_writes commit)) :: u32 option) of
               None \<Rightarrow> Inl (Format ''too many writes in commit'')
             | Some num_writes \<Rightarrow>
                 (case encode_writes (wc_writes commit) (buf @ u32_to_le num_writes) of
                    None \<Rightarrow> Inl (Format ''write data length exceeds u32'')
                  | Some buf \<Rightarrow> Inr (buf @ u32_to_le (crc32c_append 0 (drop 4 buf))))))))"

section \<open>Decoding a commit\<close>

fun decode_writes :: "nat \<Rightarrow> nat \<Rightarrow> bytes \<Rightarrow> usize \<Rightarrow> usize \<Rightarrow> string + (wal_write list \<times> usize)" where
  "decode_writes i 0 body_bytes crc_offset offset = Inr ([], offset)"
| "decode_writes i (Suc k) body_bytes crc_offset offset =
     (case wal_read_le_u64 body_bytes offset of
        Inl e \<Rightarrow> Inl (''failed to read block number '' @ show_nat i @ '': '' @ format_text e)
      | Inr block \<Rightarrow>
     (case wal_read_le_u32 body_bytes (offset + 8) of
        Inl e \<Rightarrow> Inl (''failed to read data length '' @ show_nat i @ '': '' @ format_text e)
      | Inr data_len \<Rightarrow>
          let offset = offset + 8 + 4
          in case checked_add_usize offset (unat data_len) of
               None \<Rightarrow> Inl (''write '' @ show_nat i @ '' data length overflow'')
             | Some data_end \<Rightarrow>
                 if crc_offset < data_end
                 then Inl (''write '' @ show_nat i @ '' data extends past CRC: offset='' @ show_nat offset
                           @ '', len='' @ show_nat (unat data_len) @ '', crc_offset='' @ show_nat crc_offset)
                 else (case decode_writes (Suc i) k body_bytes crc_offset data_end of
                         Inl e \<Rightarrow> Inl e
                       | Inr (ws, offset') \<Rightarrow>
                           Inr (\<lparr>ww_block = BlockNumber block, ww_data = segment body_bytes offset data_end\<rparr> # ws, offset'))))"

definition decode_fields :: "bytes \<Rightarrow> usize \<Rightarrow> decode_result" where
  "decode_fields body_bytes crc_offset =
     (if crc_offset \<le> 0 then Corrupted ''truncated record type''
      else if body_bytes ! 0 \<noteq> RECORD_TYPE_COMMIT
      then Corrupted (''unknown record type: '' @ show_nat (unat (body_bytes ! 0)))
      else case wal_read_le_u64 body_bytes 1 of
        Inl e \<Rightarrow> Corrupted (''failed to read commit_seq: '' @ format_text e)
      | Inr seq \<Rightarrow>
     (case wal_read_le_u64 body_bytes (1 + 8) of
        Inl e \<Rightarrow> Corrupted (''failed to read txn_id: '' @ format_text e)
      | Inr ident \<Rightarrow>
     (case wal_read_le_u32 body_bytes (1 + 8 + 8) of
        Inl e \<Rightarrow> Corrupted (''failed to read num_writes: '' @ format_text e)
      | Inr num_writes \<Rightarrow>
          let offset = 1 + 8 + 8 + 4; max_possible_writes = (crc_offset - offset) div 12
          in if max_possible_writes < unat num_writes
             then Corrupted (''num_writes ('' @ show_nat (unat num_writes) @ '') exceeds body capacity (''
                             @ show_nat max_possible_writes @ '' max)'')
             else (case decode_writes 0 (unat num_writes) body_bytes crc_offset offset of
                     Inl e \<Rightarrow> Corrupted e
                   | Inr (writes, offset) \<Rightarrow>
                       if offset \<noteq> crc_offset
                       then Corrupted (''trailing payload bytes before CRC: '' @ show_nat (crc_offset - offset))
                       else Commit \<lparr>wc_commit_seq = CommitSeq seq, wc_txn_id = TxnId ident, wc_writes = writes\<rparr>))))"

definition decode_body :: "(u32 \<Rightarrow> bytes \<Rightarrow> u32) \<Rightarrow> bytes \<Rightarrow> decode_result" where
  "decode_body crc32c_append body_bytes =
     (if length body_bytes < 4 then Corrupted ''record too short for CRC''
      else let crc_offset = length body_bytes - 4
           in case wal_read_le_u32 body_bytes crc_offset of
                Inl e \<Rightarrow> Corrupted (''failed to read CRC: '' @ format_text e)
              | Inr stored_crc \<Rightarrow>
                  let computed_crc = crc32c_append 0 (take crc_offset body_bytes)
                  in if stored_crc \<noteq> computed_crc
                     then Corrupted (''CRC mismatch: stored '' @ show_hex010 stored_crc
                                     @ '', computed '' @ show_hex010 computed_crc)
                     else decode_fields body_bytes crc_offset)"

definition decode_commit :: "(u32 \<Rightarrow> bytes \<Rightarrow> u32) \<Rightarrow> bytes \<Rightarrow> decode_result" where
  "decode_commit crc32c_append bytes =
     (if bytes = [] then EndOfData
      else if length bytes < 4 then NeedMore 4
      else case wal_read_le_u32 bytes 0 of
        Inl e \<Rightarrow> Corrupted (''failed to read record length: '' @ format_text e)
      | Inr len \<Rightarrow>
          let record_len = unat len
          in if record_len = 0
             then if list_ex (\<lambda>b. b \<noteq> 0) (drop 4 bytes)
                  then Corrupted ''zero record length followed by non-zero tail'' else EndOfData
             else if record_len < MIN_COMMIT_RECORD_SIZE - 4
             then Corrupted (''record length too small: '' @ show_nat record_len @ '' < ''
                             @ show_nat (MIN_COMMIT_RECORD_SIZE - 4))
             else (case checked_add_usize 4 record_len of
                     None \<Rightarrow> Corrupted (''record_len overflows total size: '' @ show_nat record_len)
                   | Some total_size \<Rightarrow>
                       if length bytes < total_size then NeedMore total_size
                       else decode_body crc32c_append (drop 4 (take total_size bytes))))"

definition commit_byte_size :: "bytes \<Rightarrow> usize option" where
  "commit_byte_size bytes =
     (if length bytes < 4 then None
      else case wal_read_le_u32 bytes 0 of
        Inl _ \<Rightarrow> None
      | Inr record_len \<Rightarrow> if record_len = 0 then None else checked_add_usize 4 (unat record_len))"

end
