(* ===== verification/Wal_Law.thy ===== *)
theory Wal_Law
  imports Wal_Format Checksum_Props
begin

text \<open>
  Laws of the log format: a record is its payload between the length and the checksum, decoding
  inverts encoding in both directions, a proper prefix of a record is incomplete, and a small
  corruption of a record is detected.
\<close>

section \<open>The layout of a record\<close>

definition write_bytes :: "wal_write \<Rightarrow> bytes" where
  "write_bytes w = u64_to_le (bn_val (ww_block w)) @ u32_to_le (of_nat (length (ww_data w))) @ ww_data w"

definition payload :: "wal_commit \<Rightarrow> bytes" where
  "payload c = [RECORD_TYPE_COMMIT] @ u64_to_le (seq_val (wc_commit_seq c)) @ u64_to_le (txn_val (wc_txn_id c))
     @ u32_to_le (of_nat (length (wc_writes c))) @ concat (map write_bytes (wc_writes c))"

abbreviation payload_fits :: "wal_commit \<Rightarrow> bool" where
  "payload_fits c \<equiv> length (payload c) + 4 < 2 ^ 32"

definition record_bytes :: "(u32 \<Rightarrow> bytes \<Rightarrow> u32) \<Rightarrow> wal_commit \<Rightarrow> bytes" where
  "record_bytes app c = u32_to_le (of_nat (length (payload c) + 4)) @ payload c @ u32_to_le (app 0 (payload c))"

lemma length_codecs [simp]: "length (u16_to_le a) = 2" "length (u32_to_le b) = 4" "length (u64_to_le c) = 8"
  by (rule u16_codec.encode_length u32_codec.encode_length u64_codec.encode_length)+

lemma length_write_bytes [simp]: "length (write_bytes w) = 12 + length (ww_data w)"
  by (simp add: write_bytes_def)

lemma length_payload: "length (payload c) = length (concat (map write_bytes (wc_writes c))) + 21"
  by (simp add: payload_def)

lemma length_record_bytes: "length (record_bytes app c) = length (payload c) + 8"
  by (simp add: record_bytes_def)

lemma record_bytes_nonempty [simp]: "record_bytes app c \<noteq> []"
  using length_record_bytes [of app c] by auto

lemma write_count_bound: "12 * length ws \<le> length (concat (map write_bytes ws))"
  by (induction ws) auto

lemma write_data_bound: "w \<in> set ws \<Longrightarrow> length (ww_data w) \<le> length (concat (map write_bytes ws))"
  by (induction ws) auto

lemma writes_size_eq:
  "writes_size n ws = (if n + length (concat (map write_bytes ws)) \<le> usize_max \<or> ws = [] then Some (n + length (concat (map write_bytes ws))) else None)"
  by (induction ws arbitrary: n) (auto simp: arith_defs split: option.splits if_splits)

lemma body_size_eq: "body_size_of n = (if n + 25 \<le> usize_max then Some (n + 25) else None)"
  by (auto simp: body_size_of_def arith_defs usize_max_def)

lemma encode_writes_eq:
  "\<forall>w \<in> set ws. length (ww_data w) < 2 ^ 32 \<Longrightarrow> encode_writes ws buf = Some (buf @ concat (map write_bytes ws))"
  by (induction ws arbitrary: buf) (simp_all add: try_from_nat_def write_bytes_def)

lemma encode_commit_eq:
  assumes "payload_fits c"
  shows "encode_commit app c = Inr (record_bytes app c)"
proof -
  let ?n = "length (concat (map write_bytes (wc_writes c)))"
  have n: "?n + 25 < 2 ^ 32" using assms by (simp add: length_payload)
  have "\<forall>w \<in> set (wc_writes c). length (ww_data w) < 2 ^ 32"
    using n write_data_bound [of _ "wc_writes c"] by fastforce
  note ws = encode_writes_eq [OF this]
  have k: "length (wc_writes c) < 2 ^ 32" using n write_count_bound [of "wc_writes c"] by linarith
  have sizes: "writes_size 0 (wc_writes c) = Some ?n" "body_size_of ?n = Some (?n + 25)" "checked_add_usize 4 (?n + 25) = Some (?n + 29)"
    using n by (simp_all add: writes_size_eq body_size_eq arith_defs usize_max_def)
  have "length (payload c) + 4 = ?n + 25" by (simp add: length_payload)
  then show ?thesis using n k
    by (simp add: encode_commit_def sizes ws Let_def try_from_nat_def record_bytes_def del: length_concat) (simp add: payload_def add.commute)
qed

lemma encode_commit_iff: "encode_commit app c = Inr bs \<longleftrightarrow> payload_fits c \<and> bs = record_bytes app c"
proof (cases "payload_fits c")
  case False
  then have "\<not> length (concat (map write_bytes (wc_writes c))) + 25 < 2 ^ 32" by (simp add: length_payload)
  then have "\<exists>e. encode_commit app c = Inl e"
    by (auto simp: encode_commit_def writes_size_eq body_size_eq try_from_nat_def split: option.split)
  with False show ?thesis by auto
qed (auto simp: encode_commit_eq)

section \<open>Decoding\<close>

lemma wal_read_at:
  "length xs = n \<Longrightarrow> off = length pre \<Longrightarrow> length pre + n \<le> usize_max \<Longrightarrow> wal_read nm n (pre @ xs @ post) off = Inr xs"
  by (simp add: wal_read_def arith_defs segment_def)

lemma wal_read_ints:
  assumes "off = length pre" "length pre + 8 \<le> usize_max"
  shows "wal_read_le_u64 (pre @ u64_to_le a @ post) off = Inr a" "wal_read_le_u32 (pre @ u32_to_le b @ post) off = Inr b"
  using assms by (simp_all add: wal_read_le_u64_def wal_read_le_u32_def wal_read_at u64_codec.decode_encode u32_codec.decode_encode)

lemma encode_header_bytes:
  "encode_header header = u32_to_le (wh_magic header) @ u16_to_le (wh_version header) @ u16_to_le (wh_checksum_type header) @ replicate 8 0"
  by (simp add: encode_header_def HEADER_SIZE_def blit_def numeral_eq_Suc)

lemma header_reads:
  "wal_read_le_u32 (encode_header header @ rest) 0 = Inr (wh_magic header)"
  "wal_read_le_u16 (encode_header header @ rest) 4 = Inr (wh_version header)"
  "wal_read_le_u16 (encode_header header @ rest) 6 = Inr (wh_checksum_type header)"
  by (simp_all add: wal_read_le_u32_def wal_read_le_u16_def wal_read_def arith_defs encode_header_bytes segment_def usize_max_def u16_codec.decode_encode u32_codec.decode_encode)

text \<open>Exactly the default header is accepted.\<close>

lemma header_round_trip: "decode_header (encode_header header @ rest) = Inr header \<longleftrightarrow> header = wal_header_default"
proof -
  have "\<not> length (encode_header header @ rest) < HEADER_SIZE" by (simp add: encode_header_bytes HEADER_SIZE_def)
  then show ?thesis
    by (auto simp: decode_header_def header_reads wal_header_default_def)
qed

lemma wal_read_Inr: "wal_read nm n bs off = Inr xs \<longleftrightarrow> off + n \<le> usize_max \<and> off + n \<le> length bs \<and> xs = segment bs off (off + n)"
  by (auto simp: wal_read_def arith_defs)

lemma wal_read_intD:
  "wal_read_le_u32 bs off = Inr b \<Longrightarrow> off + 4 \<le> length bs \<and> segment bs off (off + 4) = u32_to_le b"
  "wal_read_le_u64 bs off = Inr a \<Longrightarrow> off + 8 \<le> length bs \<and> segment bs off (off + 8) = u64_to_le a"
  by (cases "wal_read ''read_le_u32'' 4 bs off"; auto simp: wal_read_le_u32_def wal_read_Inr to_le_from_le)
     (cases "wal_read ''read_le_u64'' 8 bs off"; auto simp: wal_read_le_u64_def wal_read_Inr to_le_from_le)

lemma decode_writes_encoded:
  assumes "crc = length pre + length (concat (map write_bytes ws))" "crc + 4 < 2 ^ 33" "length post = 4"
    and "length (concat (map write_bytes ws)) < 2 ^ 32"
  shows "decode_writes i (length ws) (pre @ concat (map write_bytes ws) @ post) crc (length pre) = Inr (ws, crc)"
  using assms
proof (induction ws arbitrary: pre i)
  case (Cons w ws)
  let ?rest = "concat (map write_bytes ws)"
  define body where "body = pre @ concat (map write_bytes (w # ws)) @ post"
  let ?n = "length (ww_data w)"
  have n: "?n < 2 ^ 32" using Cons.prems(4) by simp
  have small: "length pre + 20 + ?n \<le> usize_max" using Cons.prems by (simp add: usize_max_def)
  have "body = pre @ u64_to_le (bn_val (ww_block w)) @ (u32_to_le (of_nat ?n) @ ww_data w @ ?rest @ post)"
    by (simp add: body_def write_bytes_def)
  then have r1: "wal_read_le_u64 body (length pre) = Inr (bn_val (ww_block w))"
    using small by (simp only: wal_read_ints)
  have "body = (pre @ u64_to_le (bn_val (ww_block w))) @ u32_to_le (of_nat ?n) @ (ww_data w @ ?rest @ post)"
    by (simp add: body_def write_bytes_def)
  then have r2: "wal_read_le_u32 body (length pre + 8) = Inr (of_nat ?n)"
    using small by (simp only:) (rule wal_read_ints, simp_all)
  have len: "unat (of_nat ?n :: u32) = ?n" using n by (simp add: unat_of_nat)
  have seg: "segment body (12 + length pre) (12 + length pre + ?n) = ww_data w"
    by (simp add: body_def segment_def write_bytes_def)
  have ih: "decode_writes (Suc i) (length ws) ((pre @ write_bytes w) @ ?rest @ post) crc (length (pre @ write_bytes w)) = Inr (ws, crc)"
    by (rule Cons.IH) (use Cons.prems in simp_all)
  have le: "12 + length pre + ?n \<le> crc" using Cons.prems(1) by simp
  have eq: "(pre @ write_bytes w) @ ?rest @ post = body" by (simp add: body_def)
  have "decode_writes (Suc i) (length ws) body crc (12 + length pre + ?n) = Inr (ws, crc)"
    using ih unfolding eq by (simp add: add.commute add.left_commute)
  then show ?case
    unfolding body_def [symmetric] using le small
    by (simp add: r1 r2 Let_def arith_defs len seg)
qed simp

lemma wal_read_ints_take:
  assumes "drop off bs = u64_to_le a @ post" "off + 8 \<le> usize_max"
  shows "wal_read_le_u64 bs off = Inr a"
proof -
  have "off + 8 \<le> length bs" using arg_cong [OF assms(1), of length] by simp
  then show ?thesis using assms by (simp add: wal_read_le_u64_def wal_read_def arith_defs segment_def u64_codec.decode_encode)
qed

lemma wal_read_u32_take:
  assumes "drop off bs = u32_to_le a @ post" "off + 4 \<le> usize_max"
  shows "wal_read_le_u32 bs off = Inr a"
proof -
  have "off + 4 \<le> length bs" using arg_cong [OF assms(1), of length] by simp
  then show ?thesis using assms by (simp add: wal_read_le_u32_def wal_read_def arith_defs segment_def u32_codec.decode_encode)
qed

lemma decode_fields_payload:
  assumes "payload_fits c" "length post = 4"
  shows "decode_fields (payload c @ post) (length (payload c)) = Commit c"
proof -
  let ?ws = "concat (map write_bytes (wc_writes c))"
  let ?pre = "[RECORD_TYPE_COMMIT] @ u64_to_le (seq_val (wc_commit_seq c)) @ u64_to_le (txn_val (wc_txn_id c))
     @ u32_to_le (of_nat (length (wc_writes c)))"
  have n: "length ?ws + 25 < 2 ^ 32" using assms by (simp add: length_payload)
  have k: "length (wc_writes c) < 2 ^ 32" "length (wc_writes c) \<le> length ?ws div 12"
    using n write_count_bound [of "wc_writes c"] by linarith+
  have count: "unat (of_nat (length (wc_writes c)) :: u32) = length (wc_writes c)"
    using k(1) by (simp add: unat_of_nat)
  have reads: "wal_read_le_u64 (payload c @ post) (Suc 0) = Inr (seq_val (wc_commit_seq c))"
    "wal_read_le_u64 (payload c @ post) 9 = Inr (txn_val (wc_txn_id c))"
    "wal_read_le_u32 (payload c @ post) 17 = Inr (of_nat (length (wc_writes c)))"
    by (rule wal_read_ints_take wal_read_u32_take, simp add: payload_def, simp add: usize_max_def)+
  have pre: "length ?pre = 21" by simp
  have "decode_writes 0 (length (wc_writes c)) (?pre @ ?ws @ post) (length (payload c)) (length ?pre) = Inr (wc_writes c, length (payload c))"
    by (rule decode_writes_encoded) (use n assms(2) in \<open>simp_all only: length_payload pre, simp_all\<close>)
  then have "decode_writes 0 (length (wc_writes c)) (payload c @ post) (length (payload c)) 21 = Inr (wc_writes c, length (payload c))"
    unfolding pre by (simp add: payload_def)
  moreover have "length (payload c) - 21 = length ?ws" by (simp add: length_payload)
  moreover have "0 < length (payload c)" "(payload c @ post) ! 0 = RECORD_TYPE_COMMIT" by (simp_all add: payload_def)
  moreover have "CommitSeq (seq_val (wc_commit_seq c)) = wc_commit_seq c" "TxnId (txn_val (wc_txn_id c)) = wc_txn_id c"
    by simp_all
  ultimately show ?thesis using k(2) reads
    by (simp add: decode_fields_def Let_def count)
qed

lemma decode_framed:
  assumes "25 \<le> length body" "length body < 2 ^ 32"
  shows "decode_commit app (u32_to_le (of_nat (length body)) @ body @ rest) = decode_body app body"
    "commit_byte_size (u32_to_le (of_nat (length body)) @ body @ rest) = Some (4 + length body)"
proof -
  define bs where "bs = u32_to_le (of_nat (length body)) @ body @ rest"
  have len: "unat (of_nat (length body) :: u32) = length body" using assms(2) by (simp add: unat_of_nat)
  have r: "wal_read_le_u32 bs 0 = Inr (of_nat (length body))"
    by (rule wal_read_u32_take) (simp_all add: bs_def usize_max_def)
  have add: "checked_add_usize 4 (length body) = Some (4 + length body)" using assms(2) by (simp add: arith_defs usize_max_def)
  have body: "drop 4 (take (4 + length body) bs) = body" by (simp add: bs_def)
  have size: "4 + length body \<le> length bs" "bs \<noteq> []" "body \<noteq> []" using assms(1) by (auto simp: bs_def)
  have pos: "(of_nat (length body) :: u32) \<noteq> 0" using len assms(1) by (metis not_numeral_le_zero unat_0)
  show "decode_commit app (u32_to_le (of_nat (length body)) @ body @ rest) = decode_body app body"
    unfolding bs_def [symmetric] using size assms(1)
    by (simp add: decode_commit_def r Let_def len add body MIN_COMMIT_RECORD_SIZE_def)
  show "commit_byte_size (u32_to_le (of_nat (length body)) @ body @ rest) = Some (4 + length body)"
    unfolding bs_def [symmetric] using size assms(1) pos by (simp add: commit_byte_size_def r len add)
qed

lemma decode_body_checked:
  assumes "4 \<le> length body" "length body < 2 ^ 32"
  shows "decode_body app body =
    (let p = take (length body - 4) body; crc = from_le (drop (length body - 4) body)
     in if crc \<noteq> app 0 p
        then Corrupted (''CRC mismatch: stored '' @ show_hex010 crc @ '', computed '' @ show_hex010 (app 0 p))
        else decode_fields body (length body - 4))"
proof -
  have "wal_read_le_u32 body (length body - 4) = Inr (from_le (drop (length body - 4) body))"
    using assms by (simp add: wal_read_le_u32_def wal_read_def arith_defs usize_max_def segment_def)
  then show ?thesis using assms(1) by (simp add: decode_body_def Let_def)
qed

lemma record_framed:
  "record_bytes app c = u32_to_le (of_nat (length (payload c @ u32_to_le (app 0 (payload c))))) @ (payload c @ u32_to_le (app 0 (payload c))) @ []"
  by (simp add: record_bytes_def)

lemma decode_record:
  assumes "payload_fits c"
  shows "decode_commit app (record_bytes app c @ rest) = Commit c"
    "commit_byte_size (record_bytes app c @ rest) = Some (length (record_bytes app c))"
proof -
  let ?p = "payload c" and ?body = "payload c @ u32_to_le (app 0 (payload c))"
  have len: "25 \<le> length ?body" "length ?body < 2 ^ 32" using assms by (simp_all add: length_payload)
  have "decode_body app ?body = Commit c"
    using assms decode_fields_payload [OF assms] by (simp add: decode_body_checked u32_codec.decode_encode)
  then show "decode_commit app (record_bytes app c @ rest) = Commit c"
    "commit_byte_size (record_bytes app c @ rest) = Some (length (record_bytes app c))"
    using decode_framed(1) [OF len, of app rest] decode_framed(2) [OF len, of rest] by (simp_all add: record_bytes_def)
qed

text \<open>A proper prefix of a record asks for the rest of it.\<close>

lemma decode_torn:
  assumes "payload_fits c" "m < length (record_bytes app c)" "0 < m"
  shows "decode_commit app (take m (record_bytes app c)) = NeedMore (if m < 4 then 4 else length (record_bytes app c))"
proof (cases "m < 4")
  case True
  then show ?thesis using assms(2,3) by (auto simp: decode_commit_def)
next
  case False
  let ?p = "payload c" and ?bs = "take m (record_bytes app c)"
  have len: "unat (of_nat (length ?p + 4) :: u32) = length ?p + 4" using assms(1) by (simp only: unat_of_nat) simp
  have r: "wal_read_le_u32 ?bs 0 = Inr (of_nat (length ?p + 4))"
    by (rule wal_read_u32_take [where post = "take (m - 4) (?p @ u32_to_le (app 0 ?p))"])
      (use False in \<open>simp_all add: record_bytes_def usize_max_def\<close>)
  have add: "checked_add_usize 4 (length ?p + 4) = Some (length ?p + 8)" using assms by (simp add: arith_defs usize_max_def)
  have "length ?bs = m" "?bs \<noteq> []" "m < length ?p + 8" "25 \<le> length ?p + 4"
    using assms(2,3) by (auto simp: length_record_bytes length_payload)
  with False show ?thesis
    by (simp add: decode_commit_def r Let_def len [simplified] add [simplified] MIN_COMMIT_RECORD_SIZE_def
        length_record_bytes)
qed

text \<open>Whatever decodes to a commit is the encoding of that commit.\<close>

lemma decode_writes_sound:
  assumes "decode_writes i k body crc off = Inr (ws, off')" "off \<le> crc" "crc \<le> length body"
  shows "length ws = k \<and> off \<le> off' \<and> off' \<le> crc \<and> segment body off off' = concat (map write_bytes ws)"
  using assms
proof (induction k arbitrary: i off ws)
  case (Suc k)
  obtain b n where r: "wal_read_le_u64 body off = Inr b" "wal_read_le_u32 body (off + 8) = Inr n"
    using Suc.prems(1) by (auto simp: Let_def split: sum.splits)
  let ?d = "off + 12 + unat n"
  obtain ws' where d: "?d \<le> crc" "decode_writes (Suc i) k body crc ?d = Inr (ws', off')"
    and ws: "ws = \<lparr>ww_block = BlockNumber b, ww_data = segment body (off + 12) ?d\<rparr> # ws'"
    using Suc.prems(1) r by (auto simp: Let_def arith_defs add.assoc split: sum.splits if_splits option.splits)
  note ih = Suc.IH [OF d(2,1) Suc.prems(3)]
  have len: "length (segment body (off + 12) ?d) = unat n" using d(1) Suc.prems(3) by simp
  have "segment body (off + 12) ?d @ segment body ?d off' = segment body (off + 12) off'"
    "segment body (off + 8) (off + 12) @ segment body (off + 12) off' = segment body (off + 8) off'"
    "segment body off (off + 8) @ segment body (off + 8) off' = segment body off off'"
    by (rule segment_append_adjacent; use ih in simp)+
  then have "segment body off off' = segment body off (off + 8) @ segment body (off + 8) (off + 12) @ segment body (off + 12) ?d @ segment body ?d off'"
    by simp
  moreover have "segment body (off + 8) (off + 12) = u32_to_le n"
    using wal_read_intD(1) [OF r(2)] by (simp add: add.commute)
  ultimately show ?case using ih wal_read_intD(2) [OF r(1)] len
    by (simp add: ws write_bytes_def)
qed simp

lemma decode_fields_sound:
  assumes "decode_fields body crc = Commit c" "21 \<le> crc" "crc \<le> length body"
  shows "take crc body = payload c"
proof -
  obtain seq ident n ws where r: "wal_read_le_u64 body (Suc 0) = Inr seq" "wal_read_le_u64 body 9 = Inr ident"
    "wal_read_le_u32 body 17 = Inr n" "decode_writes 0 (unat n) body crc 21 = Inr (ws, crc)" "body ! 0 = RECORD_TYPE_COMMIT"
    and c: "c = \<lparr>wc_commit_seq = CommitSeq seq, wc_txn_id = TxnId ident, wc_writes = ws\<rparr>"
    using assms(1) by (auto simp: decode_fields_def Let_def split: if_splits sum.splits)
  note ws = decode_writes_sound [OF r(4) assms(2,3)]
  have "segment body 0 1 = [RECORD_TYPE_COMMIT]"
    using r(5) assms by (cases body) (simp_all add: segment_def)
  moreover have "segment body 0 1 @ segment body 1 9 @ segment body 9 17 @ segment body 17 21 @ segment body 21 crc = segment body 0 crc"
    using assms(2) by (simp add: segment_append_adjacent)
  moreover have "of_nat (length ws) = n" using ws by simp
  ultimately have "segment body 0 crc = payload c"
    using wal_read_intD(2) [OF r(1)] wal_read_intD(2) [OF r(2)] wal_read_intD(1) [OF r(3)] ws
    by (simp add: payload_def c)
  then show ?thesis by (simp add: segment_def)
qed

lemma decode_commit_framed:
  assumes "decode_commit app bs = Commit c"
  obtains body rest where "bs = u32_to_le (of_nat (length body)) @ body @ rest" "25 \<le> length body" "length body < 2 ^ 32"
    "decode_body app body = Commit c"
proof -
  obtain len where r: "wal_read_le_u32 bs 0 = Inr len" and size: "4 + unat len \<le> length bs" "25 \<le> unat len"
    and body: "decode_body app (drop 4 (take (4 + unat len) bs)) = Commit c"
    using assms by (auto simp: decode_commit_def Let_def arith_defs MIN_COMMIT_RECORD_SIZE_def split: if_splits sum.splits)
  let ?body = "drop 4 (take (4 + unat len) bs)"
  have len: "length ?body = unat len" using size by simp
  have "take 4 bs = u32_to_le len" using wal_read_intD(1) [OF r] by (simp add: segment_def)
  moreover have "bs = take 4 bs @ ?body @ drop (4 + unat len) bs"
    by (metis append_assoc append_take_drop_id drop_take le_add1 add_diff_cancel_left' take_add take_drop)
  ultimately show thesis
    using that [of ?body "drop (4 + unat len) bs"] size body len unsigned_less [of len, where 'a = nat] by simp
qed

lemma decode_commit_sound:
  assumes "decode_commit app bs = Commit c"
  shows "payload_fits c" "bs = record_bytes app c @ drop (length (record_bytes app c)) bs"
proof -
  obtain body rest where bs: "bs = u32_to_le (of_nat (length body)) @ body @ rest"
    and len: "25 \<le> length body" "length body < 2 ^ 32" and body: "decode_body app body = Commit c"
    using decode_commit_framed [OF assms] .
  let ?n = "length body - 4"
  have crc: "from_le (drop ?n body) = app 0 (take ?n body)" and f: "decode_fields body ?n = Commit c"
    using body len by (auto simp: decode_body_checked Let_def split: if_splits)
  have p: "take ?n body = payload c" using len by (intro decode_fields_sound [OF f]) auto
  have "drop ?n body = u32_to_le (app 0 (payload c))"
    using crc p len to_le_from_le(2) [of "drop ?n body"] by simp
  then have "body = payload c @ u32_to_le (app 0 (payload c))" using p by (metis append_take_drop_id)
  with bs len show "payload_fits c" "bs = record_bytes app c @ drop (length (record_bytes app c)) bs"
    by (simp_all add: record_bytes_def)
qed

section \<open>Corruption\<close>

lemma pack_val: "pack bs = of_nat (le_val bs)"
proof (induction bs)
  case (Cons b bs)
  have "(ucast b :: u32) AND push_bit 8 (pack bs) = 0"
    by (rule bit_word_eqI) (auto simp: bit_simps dest: bit_imp_le_length)
  then have "pack (b # bs) = ucast b + push_bit 8 (pack bs)"
    by (simp add: disjunctive_add_eq_xor)
  then show ?case by (simp add: Cons push_bit_eq_mult mult.commute)
qed simp

lemma pack_le: "pack (u32_to_le w) = w"
  using u32_codec.decode_encode [of w] by (simp add: pack_val from_le_def)

lemma crc_residue:
  assumes "crc32c_crate app"
  shows "fold crc_byte (p @ u32_to_le (app 0 p)) (- 1) = advance 32 (- 1)"
proof -
  let ?r = "fold crc_byte p (- 1)"
  have "app 0 p = NOT ?r" using assms by (simp add: crc32c_crate_def)
  then show ?thesis using fold_crc_pack [of "u32_to_le (app 0 p)" ?r] by (simp add: pack_le)
qed

lemma segment_split: "take i xs @ segment xs i (i + n) @ drop (i + n) xs = xs"
  using append_take_drop_id [of n "drop i xs"] append_take_drop_id [of i xs] by (simp add: segment_def add.commute)

lemma blit_append_right: "length xs \<le> i \<Longrightarrow> blit (xs @ ys) i d = xs @ blit ys (i - length xs) d"
  by (simp add: blit_def add.commute)

text \<open>A burst of at most four changed bytes behind the length of a record is detected.\<close>

lemma decode_burst:
  assumes "crc32c_crate app" "payload_fits c" "4 \<le> i" "i + length d \<le> length (record_bytes app c)"
    and "length d \<le> 4" "d \<noteq> segment (record_bytes app c) i (i + length d)"
  shows "\<exists>msg. decode_commit app (blit (record_bytes app c) i d @ rest) = Corrupted msg"
proof -
  let ?body = "payload c @ u32_to_le (app 0 (payload c))" and ?j = "i - 4"
  define body' where "body' = blit ?body ?j d"
  have len: "?j + length d \<le> length ?body" using assms(3,4) by (simp add: length_record_bytes)
  have len': "length body' = length ?body" unfolding body'_def using len by (rule length_blit)
  have fits: "25 \<le> length body'" "length body' < 2 ^ 32" using assms(2) by (simp_all add: len' length_payload)
  have "blit (record_bytes app c) i d = u32_to_le (of_nat (length ?body)) @ body'"
    unfolding body'_def record_framed append_Nil2 using assms(3) by (subst blit_append_right) simp_all
  then have rec: "blit (record_bytes app c) i d @ rest = u32_to_le (of_nat (length body')) @ body' @ rest"
    by (simp add: len')
  let ?old = "segment ?body ?j (?j + length d)"
  have old: "?old \<noteq> d" "length ?old = length d" using assms(3,6) len by (auto simp: record_bytes_def segment_def)
  have "?body = take ?j ?body @ ?old @ drop (?j + length d) ?body"
    by (simp only: segment_split)
  then have diff: "fold crc_byte body' (- 1) \<noteq> fold crc_byte ?body (- 1)"
    using crc_detects_change [of ?old d "take ?j ?body" "drop (?j + length d) ?body" "- 1"] old assms(5)
    unfolding body'_def blit_def by simp
  let ?p = "take (length body' - 4) body'"
  have "from_le (drop (length body' - 4) body') \<noteq> app 0 ?p"
  proof
    assume "from_le (drop (length body' - 4) body') = app 0 ?p"
    then have "drop (length body' - 4) body' = u32_to_le (app 0 ?p)"
      using to_le_from_le(2) [of "drop (length body' - 4) body'"] fits(1) by simp
    then have "body' = ?p @ u32_to_le (app 0 ?p)" by (metis append_take_drop_id)
    then have "fold crc_byte body' (- 1) = advance 32 (- 1)" using crc_residue [OF assms(1), of ?p] by metis
    with diff crc_residue [OF assms(1), of "payload c"] show False by simp
  qed
  then show ?thesis unfolding rec using fits by (simp add: decode_framed decode_body_checked Let_def)
qed

end
