(* ===== verification/Wal_Replay.thy ===== *)
theory Wal_Replay
  imports Wal_Law Byte_Device
begin

text \<open>
  Replay of the write-ahead log (\<open>ffs-mvcc/src/wal_replay.rs\<close>): the loop that decodes record after
  record, rejects sentinels and commit sequences that do not increase, skips what a checkpoint
  covers, applies the rest, and treats a bad tail by policy. The loop is generic in its source of
  records; \<open>replay\<close> runs it over the bytes of a log in memory, the streaming reader is not modelled. The identifier of the operation,
  which only the log records carry, is left out.
\<close>

section \<open>Policies and reports\<close>

datatype tail_policy = TruncateToLastGood | FailFast

datatype replay_outcome =
    Clean
  | EmptyLog
  | TruncatedTail u64
  | CorruptTail u64 u64
  | MonotonicityViolation u64 u64

fun is_clean :: "replay_outcome \<Rightarrow> bool" where
  "is_clean Clean = True"
| "is_clean EmptyLog = True"
| "is_clean _ = False"

record replay_report =
  rp_outcome :: replay_outcome
  rp_commits_replayed :: u64
  rp_versions_replayed :: u64
  rp_records_discarded :: u64
  rp_last_valid_offset :: u64
  rp_total_data_bytes :: u64
  rp_last_commit_seq :: u64

section \<open>The loop\<close>

text \<open>The local variables of the loop.\<close>

record replay_vars =
  rv_offset :: u64
  rv_commits :: u64
  rv_versions :: u64
  rv_discarded :: u64
  rv_last_decoded :: u64
  rv_last_replayed :: u64
  rv_last_valid :: u64
  rv_outcome :: replay_outcome

definition replay_start :: "u64 \<Rightarrow> replay_vars" where
  "replay_start skip =
     \<lparr>rv_offset = 0, rv_commits = 0, rv_versions = 0, rv_discarded = 0, rv_last_decoded = 0,
      rv_last_replayed = skip, rv_last_valid = 0, rv_outcome = Clean\<rparr>"

definition discard_tail :: "(u64 \<Rightarrow> replay_outcome) \<Rightarrow> replay_vars \<Rightarrow> replay_vars" where
  "discard_tail outcome v =
     (let n = rv_discarded v + 1 in v\<lparr>rv_discarded := n, rv_outcome := outcome n\<rparr>)"

definition bad_tail :: "tail_policy \<Rightarrow> string \<Rightarrow> (u64 \<Rightarrow> replay_outcome) \<Rightarrow> replay_vars \<Rightarrow> ('s, replay_vars) io" where
  "bad_tail policy msg outcome v =
     (if policy = FailFast then io_fail (Format (''WAL replay: '' @ msg @ ''; FailFast policy in effect''))
      else io_return (discard_tail outcome v))"

definition record_size :: "usize option \<Rightarrow> u64 \<Rightarrow> u64 option" where
  "record_size sz room =
     Option.bind (Option.bind sz try_from_nat) (\<lambda>sz. if 0 < sz \<and> sz \<le> room then Some sz else None)"

lemma record_sizeD: "record_size s room = Some n \<Longrightarrow> 0 < n \<and> n \<le> room"
  by (cases s) (auto simp: record_size_def split: if_splits Option.bind_splits)

lemma offset_progress: "off < total_bytes \<Longrightarrow> 0 < n \<Longrightarrow> n \<le> total_bytes - off \<Longrightarrow> unat total_bytes - unat (off + n) < unat total_bytes - unat off"
  for n :: u64
proof -
  assume a: "off < total_bytes" "0 < n" "n \<le> total_bytes - off"
  then have "unat n \<le> unat total_bytes - unat off" by (simp add: word_le_nat_alt unat_sub word_less_nat_alt)
  moreover have "unat (off + n) = unat off + unat n"
    using calculation a(1) unsigned_less [of total_bytes, where 'a = nat] by (intro unat_add_no_overflow) (simp add: word_less_nat_alt)
  ultimately show ?thesis using a by (simp add: word_less_nat_alt)
qed

function replay_loop ::
  "tail_policy \<Rightarrow> u64 \<Rightarrow> u64 \<Rightarrow> (u64 \<Rightarrow> ('s, decode_result \<times> usize option) io) \<Rightarrow> (wal_commit \<Rightarrow> ('s, unit) io)
   \<Rightarrow> ('s, unit) io \<Rightarrow> replay_vars \<Rightarrow> ('s, replay_vars) io" where
  "replay_loop policy total_bytes skip decode apply_fn checkpoint v =
     (if \<not> rv_offset v < total_bytes then io_return v
      else io_then checkpoint (io_bind (decode (rv_offset v)) (\<lambda>(decoded, sz). io_then checkpoint
        (case decoded of
           Commit commit \<Rightarrow>
             (case record_size sz (total_bytes - rv_offset v) of
                None \<Rightarrow> io_fail (Format ''WAL decoder returned invalid record size'')
              | Some sz \<Rightarrow>
                  let record_offset = rv_offset v; seq = seq_val (wc_commit_seq commit);
                      moved = v\<lparr>rv_offset := rv_offset v + sz\<rparr>
                  in if seq = - 1 \<or> txn_val (wc_txn_id commit) = - 1
                     then bad_tail policy (''sentinel value at offset '' @ show_nat (unat record_offset))
                            (\<lambda>n. CorruptTail n record_offset) moved
                     else if seq \<le> rv_last_decoded v
                     then bad_tail policy (''monotonicity violation at offset '' @ show_nat (unat record_offset)
                              @ '' (seq '' @ show_nat (unat seq) @ '' <= '' @ show_nat (unat (rv_last_decoded v)) @ '')'')
                            (\<lambda>_. MonotonicityViolation seq (rv_last_decoded v)) moved
                     else if seq \<le> skip
                     then replay_loop policy total_bytes skip decode apply_fn checkpoint
                            (moved\<lparr>rv_last_decoded := seq, rv_last_valid := rv_offset v + sz\<rparr>)
                     else io_then (apply_fn commit) (io_then checkpoint
                            (replay_loop policy total_bytes skip decode apply_fn checkpoint
                              (moved\<lparr>rv_last_decoded := seq, rv_last_replayed := seq, rv_commits := rv_commits v + 1,
                                 rv_versions := rv_versions v + (case try_from_nat (length (wc_writes commit)) of Some n \<Rightarrow> n | None \<Rightarrow> - 1),
                                 rv_last_valid := rv_offset v + sz\<rparr>))))
         | EndOfData \<Rightarrow> io_return (v\<lparr>rv_last_valid := rv_offset v\<rparr>)
         | NeedMore needed \<Rightarrow>
             bad_tail policy (''truncated record at offset '' @ show_nat (unat (rv_offset v))
                              @ '' (need '' @ show_nat needed @ '' more bytes)'') TruncatedTail v
         | Corrupted msg \<Rightarrow>
             bad_tail policy (''corrupt record at offset '' @ show_nat (unat (rv_offset v)) @ '': '' @ msg)
               (\<lambda>n. CorruptTail n (rv_offset v)) v))))"
  by pat_completeness auto
termination
  by (relation "measure (\<lambda>(policy, total_bytes, skip, decode, apply_fn, checkpoint, v). unat total_bytes - unat (rv_offset v))")
    (auto dest!: record_sizeD intro: offset_progress)

declare replay_loop.simps [simp del]

definition replay_records ::
  "tail_policy \<Rightarrow> u64 \<Rightarrow> u64 \<Rightarrow> (u64 \<Rightarrow> ('s, decode_result \<times> usize option) io) \<Rightarrow> (wal_commit \<Rightarrow> ('s, unit) io)
   \<Rightarrow> ('s, unit) io \<Rightarrow> ('s, replay_report) io" where
  "replay_records policy total_bytes skip decode apply_fn checkpoint =
     io_then checkpoint
       (if total_bytes = 0
        then io_return \<lparr>rp_outcome = EmptyLog, rp_commits_replayed = 0, rp_versions_replayed = 0, rp_records_discarded = 0,
               rp_last_valid_offset = 0, rp_total_data_bytes = total_bytes, rp_last_commit_seq = skip\<rparr>
        else io_bind (replay_loop policy total_bytes skip decode apply_fn checkpoint (replay_start skip)) (\<lambda>v.
             io_then checkpoint
               (io_return \<lparr>rp_outcome = rv_outcome v, rp_commits_replayed = rv_commits v, rp_versions_replayed = rv_versions v,
                  rp_records_discarded = rv_discarded v, rp_last_valid_offset = rv_last_valid v,
                  rp_total_data_bytes = total_bytes, rp_last_commit_seq = rv_last_replayed v\<rparr>)))"

definition replay ::
  "(u32 \<Rightarrow> bytes \<Rightarrow> u32) \<Rightarrow> tail_policy \<Rightarrow> bytes \<Rightarrow> u64 \<Rightarrow> (wal_commit \<Rightarrow> 's \<Rightarrow> 's) \<Rightarrow> ('s, replay_report) io" where
  "replay crc32c_append policy data skip apply_fn =
     replay_records policy (case try_from_nat (length data) of Some n \<Rightarrow> n | None \<Rightarrow> - 1) skip
       (\<lambda>offset. io_return (let tail = drop (unat offset) data in (decode_commit crc32c_append tail, commit_byte_size tail)))
       (\<lambda>commit. io_modify (apply_fn commit)) (io_return ())"

end
