(* ===== verification/Replay_Law.thy ===== *)
theory Replay_Law
  imports Wal_Replay
begin

text \<open>
  What a replay of a log does: it applies the commits of the longest good prefix of the log, those
  a checkpoint covers excepted, and reports the position and the kind of the first bad record.
\<close>

section \<open>The good prefix of a log\<close>

definition rejected :: "u64 \<Rightarrow> wal_commit \<Rightarrow> bool" where
  "rejected prev c \<longleftrightarrow> seq_val (wc_commit_seq c) = - 1 \<or> txn_val (wc_txn_id c) = - 1 \<or> seq_val (wc_commit_seq c) \<le> prev"

fun good_log :: "u64 \<Rightarrow> wal_commit list \<Rightarrow> bool" where
  "good_log prev [] \<longleftrightarrow> True"
| "good_log prev (c # cs) \<longleftrightarrow> payload_fits c \<and> \<not> rejected prev c \<and> good_log (seq_val (wc_commit_seq c)) cs"

definition last_seq :: "u64 \<Rightarrow> wal_commit list \<Rightarrow> u64" where
  "last_seq n cs = (if cs = [] then n else seq_val (wc_commit_seq (last cs)))"

definition log_bytes :: "(u32 \<Rightarrow> bytes \<Rightarrow> u32) \<Rightarrow> wal_commit list \<Rightarrow> bytes" where
  "log_bytes app cs = concat (map (record_bytes app) cs)"

function good_prefix :: "(u32 \<Rightarrow> bytes \<Rightarrow> u32) \<Rightarrow> u64 \<Rightarrow> bytes \<Rightarrow> wal_commit list \<times> bytes" where
  "good_prefix app prev data =
     (case decode_commit app data of
        Commit c \<Rightarrow>
          if rejected prev c then ([], data)
          else (case good_prefix app (seq_val (wc_commit_seq c)) (drop (length (record_bytes app c)) data) of
                  (cs, rest) \<Rightarrow> (c # cs, rest))
      | _ \<Rightarrow> ([], data))"
  by pat_completeness auto
termination
proof (relation "measure (\<lambda>(app, prev, data). length data)")
  fix app prev data c
  assume "decode_commit app data = Commit c"
  from decode_commit_sound(2) [OF this] have "data \<noteq> []" by (metis append_is_Nil_conv record_bytes_nonempty)
  then show "((app, seq_val (wc_commit_seq c), drop (length (record_bytes app c)) data), app, prev, data) \<in> measure (\<lambda>(app, prev, data). length data)"
    by (simp add: length_record_bytes)
qed simp

declare good_prefix.simps [simp del]

text \<open>Where and how the prefix ends.\<close>

definition ending :: "(u32 \<Rightarrow> bytes \<Rightarrow> u32) \<Rightarrow> u64 \<Rightarrow> u64 \<Rightarrow> bytes \<Rightarrow> replay_outcome" where
  "ending app prev off rest =
     (case decode_commit app rest of
        Commit c \<Rightarrow>
          if seq_val (wc_commit_seq c) = - 1 \<or> txn_val (wc_txn_id c) = - 1 then CorruptTail 1 off
          else MonotonicityViolation (seq_val (wc_commit_seq c)) prev
      | EndOfData \<Rightarrow> Clean
      | NeedMore _ \<Rightarrow> TruncatedTail 1
      | Corrupted _ \<Rightarrow> CorruptTail 1 off)"

lemma log_bytes_simps [simp]: "log_bytes app [] = []" "log_bytes app (c # cs) = record_bytes app c @ log_bytes app cs"
  "log_bytes app (cs @ ds) = log_bytes app cs @ log_bytes app ds"
  by (simp_all add: log_bytes_def)

lemma good_prefix_sound:
  assumes "good_prefix app prev data = (cs, rest)"
  shows "data = log_bytes app cs @ rest" "good_log prev cs"
    "\<And>c. decode_commit app rest = Commit c \<Longrightarrow> rejected (last_seq prev cs) c"
proof -
  have "data = log_bytes app cs @ rest \<and> good_log prev cs \<and> (\<forall>c. decode_commit app rest = Commit c \<longrightarrow> rejected (last_seq prev cs) c)"
    using assms
  proof (induction app prev data arbitrary: cs rule: good_prefix.induct)
    case (1 app prev data)
    show ?case
    proof (cases "\<exists>c. decode_commit app data = Commit c \<and> \<not> rejected prev c")
      case True
      then obtain c where c: "decode_commit app data = Commit c" "\<not> rejected prev c" by blast
      obtain cs' rest' where g: "good_prefix app (seq_val (wc_commit_seq c)) (drop (length (record_bytes app c)) data) = (cs', rest')"
        by (cases "good_prefix app (seq_val (wc_commit_seq c)) (drop (length (record_bytes app c)) data)")
      have eq: "cs = c # cs'" "rest = rest'" using "1.prems" c g by (simp_all add: good_prefix.simps [of app prev data])
      from "1.IH" [OF c g [folded eq(2)]] decode_commit_sound [OF c(1)] c(2) show ?thesis
        by (auto simp: eq last_seq_def)
    next
      case False
      then have "cs = []" "rest = data" using "1.prems"
        by (auto simp: good_prefix.simps [of app prev data] split: decode_result.splits if_splits)
      with False show ?thesis by (auto simp: last_seq_def)
    qed
  qed
  then show "data = log_bytes app cs @ rest" "good_log prev cs"
    "\<And>c. decode_commit app rest = Commit c \<Longrightarrow> rejected (last_seq prev cs) c" by blast+
qed

lemma good_prefix_complete:
  assumes "good_log prev cs" "\<And>c. decode_commit app rest = Commit c \<Longrightarrow> rejected (last_seq prev cs) c"
  shows "good_prefix app prev (log_bytes app cs @ rest) = (cs, rest)"
  using assms
proof (induction cs arbitrary: prev)
  case Nil
  then show ?case by (auto simp: good_prefix.simps [of app prev rest] last_seq_def split: decode_result.splits)
next
  case (Cons c cs)
  have "good_prefix app (seq_val (wc_commit_seq c)) (log_bytes app cs @ rest) = (cs, rest)"
    by (rule Cons.IH) (use Cons.prems in \<open>auto simp: last_seq_def split: if_splits\<close>)
  moreover have "decode_commit app (record_bytes app c @ log_bytes app cs @ rest) = Commit c"
    using Cons.prems(1) by (intro decode_record) simp
  ultimately show ?case
    using Cons.prems(1) by (simp add: good_prefix.simps [of app prev "record_bytes app c @ log_bytes app cs @ rest"])
qed

section \<open>The loop over a log in memory\<close>

definition uncovered :: "u64 \<Rightarrow> wal_commit list \<Rightarrow> wal_commit list" where
  "uncovered skip cs = filter (\<lambda>c. skip < seq_val (wc_commit_seq c)) cs"

definition version_total :: "wal_commit list \<Rightarrow> nat" where
  "version_total cs = sum_list (map (length \<circ> wc_writes) cs)"

abbreviation slice_decode :: "(u32 \<Rightarrow> bytes \<Rightarrow> u32) \<Rightarrow> bytes \<Rightarrow> u64 \<Rightarrow> ('s, decode_result \<times> usize option) io" where
  "slice_decode app data \<equiv> (\<lambda>offset. io_return (let tail = drop (unat offset) data in (decode_commit app tail, commit_byte_size tail)))"

abbreviation slice_loop where
  "slice_loop app policy data skip f \<equiv> replay_loop policy (of_nat (length data)) skip (slice_decode app data) (\<lambda>commit. io_modify (f commit)) (io_return ())"

lemma io_then_return: "io_then (io_return ()) k = k"
  by (simp add: io_then_def io_bind_return)

lemma io_then_modify: "io_then (io_modify f) k (cx, s) = k (cx, f s)"
  by (simp add: io_then_def io_bind_def io_modify_def)

text \<open>At the head of the loop nothing has been discarded and the valid data end at the offset.\<close>

definition at_head :: "bytes \<Rightarrow> replay_vars \<Rightarrow> bool" where
  "at_head pre v \<longleftrightarrow> rv_offset v = of_nat (length pre) \<and> rv_last_valid v = rv_offset v \<and> rv_outcome v = Clean \<and> rv_discarded v = 0"

lemma slice_offset:
  assumes "length (pre @ rest) < 2 ^ 64" "at_head pre v"
  shows "unat (rv_offset v) = length pre" "rv_offset v < of_nat (length (pre @ rest)) \<longleftrightarrow> rest \<noteq> []"
proof -
  show off: "unat (rv_offset v) = length pre" using assms by (simp add: at_head_def unat_of_nat)
  have "unat (of_nat (length (pre @ rest)) :: u64) = length (pre @ rest)" using assms(1) by (simp only: unat_of_nat) simp
  then show "rv_offset v < of_nat (length (pre @ rest)) \<longleftrightarrow> rest \<noteq> []"
    unfolding word_less_nat_alt off by simp
qed

text \<open>One round over a good record.\<close>

definition after_record :: "u64 \<Rightarrow> nat \<Rightarrow> wal_commit \<Rightarrow> replay_vars \<Rightarrow> replay_vars" where
  "after_record skip n c v =
     (let seq = seq_val (wc_commit_seq c); v1 = v\<lparr>rv_offset := rv_offset v + of_nat n, rv_last_decoded := seq\<rparr>
      in (if seq \<le> skip then v1
          else v1\<lparr>rv_last_replayed := seq, rv_commits := rv_commits v + 1,
                  rv_versions := rv_versions v + of_nat (length (wc_writes c))\<rparr>)\<lparr>rv_last_valid := rv_offset v + of_nat n\<rparr>)"

lemma slice_record_size:
  assumes "data = pre @ record_bytes app c @ rest" "length data < 2 ^ 64" "at_head pre v"
  shows "record_size (Some (length (record_bytes app c))) (of_nat (length data) - rv_offset v) = Some (of_nat (length (record_bytes app c)))"
proof -
  let ?n = "length (record_bytes app c)"
  have o: "unat (rv_offset v) = length pre" "rv_offset v < of_nat (length data)"
    using slice_offset [of pre "record_bytes app c @ rest" v] assms by simp_all
  have n: "?n < 2 ^ 64" "0 < ?n" "?n \<le> length data - length pre" using assms(1,2) length_record_bytes [of app c] by auto
  have un: "unat (of_nat ?n :: u64) = ?n" using n(1) by (simp add: unat_of_nat)
  have "unat (of_nat (length data) :: u64) = length data" using assms(2) by (simp add: unat_of_nat)
  then have "unat (of_nat (length data) - rv_offset v) = length data - length pre"
    using o by (simp add: unat_sub)
  then have "0 < (of_nat ?n :: u64) \<and> of_nat ?n \<le> of_nat (length data) - rv_offset v"
    using n(2,3) un by (simp add: word_less_nat_alt word_le_nat_alt)
  then show ?thesis using n(1) by (simp add: record_size_def try_from_nat_def)
qed

lemma slice_loop_record:
  assumes "data = pre @ record_bytes app c @ rest" "length data < 2 ^ 64" "at_head pre v" "payload_fits c"
    and "\<not> rejected (rv_last_decoded v) c"
  shows "slice_loop app policy data skip f v (cx, s) =
    slice_loop app policy data skip f (after_record skip (length (record_bytes app c)) c v)
      (cx, if seq_val (wc_commit_seq c) \<le> skip then s else f c s)"
    "at_head (pre @ record_bytes app c) (after_record skip (length (record_bytes app c)) c v)"
proof -
  let ?n = "length (record_bytes app c)"
  note off = slice_offset [of pre "record_bytes app c @ rest" v]
  have o: "unat (rv_offset v) = length pre" "rv_offset v < of_nat (length data)" using off assms(1-3) by simp_all
  have tail: "drop (unat (rv_offset v)) data = record_bytes app c @ rest" using o assms(1) by simp
  note sz = slice_record_size [OF assms(1-3)]
  have w: "length (wc_writes c) < 2 ^ 64"
    using assms(4) write_count_bound [of "wc_writes c"] by (simp add: length_payload)
  show "slice_loop app policy data skip f v (cx, s) =
    slice_loop app policy data skip f (after_record skip ?n c v) (cx, if seq_val (wc_commit_seq c) \<le> skip then s else f c s)"
    using assms(5) o(2) w
    by (subst replay_loop.simps)
      (simp add: io_then_return io_bind_return io_then_modify tail Let_def decode_record [OF assms(4)] sz rejected_def
        after_record_def try_from_nat_def)
  show "at_head (pre @ record_bytes app c) (after_record skip ?n c v)"
    using assms(3) by (simp add: at_head_def after_record_def Let_def)
qed

text \<open>
  How the loop ends: with variables that count the applied commits \<open>us\<close> and the valid bytes \<open>n\<close>,
  or, when failing fast on a bad tail, with an error.
\<close>

definition counted :: "replay_outcome \<Rightarrow> nat \<Rightarrow> wal_commit list \<Rightarrow> replay_vars \<Rightarrow> replay_vars \<Rightarrow> bool" where
  "counted out n us v v' \<longleftrightarrow>
     rv_outcome v' = out \<and> rv_discarded v' = (if out = Clean then 0 else 1) \<and> rv_last_valid v' = of_nat n
   \<and> rv_commits v' = rv_commits v + of_nat (length us) \<and> rv_versions v' = rv_versions v + of_nat (version_total us)
   \<and> rv_last_replayed v' = last_seq (rv_last_replayed v) us"

definition loop_ends ::
  "tail_policy \<Rightarrow> replay_outcome \<Rightarrow> nat \<Rightarrow> wal_commit list \<Rightarrow> replay_vars \<Rightarrow> io_fault + replay_vars \<Rightarrow> bool" where
  "loop_ends policy out n us v r \<longleftrightarrow>
     (if policy = FailFast \<and> out \<noteq> Clean then \<exists>msg. r = Inl (Err (Format msg)) else \<exists>v'. r = Inr v' \<and> counted out n us v v')"

lemma counted_start: "at_head pre v \<Longrightarrow> counted Clean (length pre) [] v v"
  by (simp add: counted_def at_head_def version_total_def last_seq_def)

lemma bad_tail_ends:
  assumes "at_head pre v" "v' = v\<lparr>rv_offset := off\<rparr>" "outcome 1 \<noteq> Clean"
  shows "\<exists>r. bad_tail policy msg outcome v' (cx, s) = (r, cx, s) \<and> loop_ends policy (outcome 1) (length pre) [] v r"
  using assms by (cases policy)
    (auto simp: bad_tail_def io_fail_def io_return_def loop_ends_def counted_def discard_tail_def at_head_def Let_def
      version_total_def last_seq_def)

lemma slice_loop_end:
  assumes "data = pre @ rest" "length data < 2 ^ 64" "at_head pre v"
    and "\<And>c. decode_commit app rest = Commit c \<Longrightarrow> rejected (rv_last_decoded v) c"
  shows "\<exists>r. slice_loop app policy data skip f v (cx, s) = (r, cx, s)
    \<and> loop_ends policy (ending app (rv_last_decoded v) (rv_offset v) rest) (length pre) [] v r"
proof -
  have o: "unat (rv_offset v) = length pre" "rv_offset v < of_nat (length data) \<longleftrightarrow> rest \<noteq> []"
    using slice_offset [of pre rest v] assms(1-3) by simp_all
  have same: "v = v\<lparr>rv_offset := rv_offset v\<rparr>" by simp
  note bad = bad_tail_ends [OF assms(3) same] bad_tail_ends [OF assms(3) refl]
  have tail: "drop (unat (rv_offset v)) data = rest" using o(1) assms(1) by simp
  have clean: "loop_ends policy Clean (length pre) [] v (Inr v)"
    using counted_start [OF assms(3)] by (simp add: loop_ends_def)
  have valid: "v\<lparr>rv_last_valid := rv_offset v\<rparr> = v" using assms(3) by (simp add: at_head_def)
  show ?thesis
  proof (cases "rest = []")
    case True
    then show ?thesis using o(2) clean
      by (subst replay_loop.simps) (simp add: io_return_def ending_def decode_commit_def)
  next
    case False
    then have lt: "rv_offset v < of_nat (length data)" using o(2) by simp
    show ?thesis
    proof (cases "decode_commit app rest")
      case (Commit c)
      let ?n = "length (record_bytes app c)"
      note snd = decode_commit_sound [OF Commit]
      have rest: "rest = record_bytes app c @ drop ?n rest" by (rule snd(2))
      have sz: "record_size (commit_byte_size rest) (of_nat (length data) - rv_offset v) = Some (of_nat ?n)"
        using slice_record_size [of data pre app c "drop ?n rest" v] decode_record(2) [OF snd(1), of app "drop ?n rest"] rest assms(1-3) snd(1) by simp
      let ?sentinel = "seq_val (wc_commit_seq c) = - 1 \<or> txn_val (wc_txn_id c) = - 1"
      have "rejected (rv_last_decoded v) c" using assms(4) Commit by simp
      then consider ?sentinel | "\<not> ?sentinel" "seq_val (wc_commit_seq c) \<le> rv_last_decoded v" by (auto simp: rejected_def)
      then show ?thesis
      proof cases
        case 1
        then show ?thesis using lt bad(2) [of "\<lambda>n. CorruptTail n (rv_offset v)"]
          by (subst replay_loop.simps) (simp add: io_then_return io_bind_return tail Commit sz Let_def ending_def)
      next
        case 2
        then show ?thesis using lt bad(2) [of "\<lambda>_. MonotonicityViolation (seq_val (wc_commit_seq c)) (rv_last_decoded v)"]
          by (subst replay_loop.simps) (simp add: io_then_return io_bind_return tail Commit sz Let_def ending_def)
      qed
    next
      case (NeedMore k)
      then show ?thesis using lt
        by (subst replay_loop.simps) (simp add: io_then_return io_bind_return tail ending_def bad(1) [of TruncatedTail])
    next
      case (Corrupted msg)
      then show ?thesis using lt bad(1) [of "\<lambda>n. CorruptTail n (rv_offset v)"]
        by (subst replay_loop.simps) (simp add: io_then_return io_bind_return tail ending_def)
    next
      case EndOfData
      then show ?thesis using lt clean valid
        by (subst replay_loop.simps) (simp add: io_then_return io_bind_return tail ending_def io_return_def)
    qed
  qed
qed

lemma slice_loop_law:
  assumes "data = pre @ rest0" "length data < 2 ^ 64" "at_head pre v" "good_prefix app (rv_last_decoded v) rest0 = (cs, rest)"
  shows "\<exists>r. slice_loop app policy data skip f v (cx, s) = (r, cx, fold f (uncovered skip cs) s)
    \<and> loop_ends policy (ending app (last_seq (rv_last_decoded v) cs) (of_nat (length pre + length (log_bytes app cs))) rest)
        (length pre + length (log_bytes app cs)) (uncovered skip cs) v r"
  using assms(1-3) good_prefix_sound [OF assms(4)]
proof (induction cs arbitrary: pre rest0 v s)
  case Nil
  then show ?case using slice_loop_end [of data pre rest v app policy skip f cx s]
    by (simp add: uncovered_def last_seq_def at_head_def)
next
  case (Cons c cs)
  let ?n = "length (record_bytes app c)" and ?v = "after_record skip (length (record_bytes app c)) c v"
  let ?s = "if seq_val (wc_commit_seq c) \<le> skip then s else f c s"
  have d: "data = pre @ record_bytes app c @ (log_bytes app cs @ rest)" using Cons.prems by simp
  have c: "payload_fits c" "\<not> rejected (rv_last_decoded v) c" using Cons.prems(5) by simp_all
  note one = slice_loop_record [OF d Cons.prems(2,3) c]
  have dec: "rv_last_decoded ?v = seq_val (wc_commit_seq c)" by (simp add: after_record_def Let_def)
  have ls: "last_seq (rv_last_decoded ?v) cs = last_seq (rv_last_decoded v) (c # cs)" by (simp add: dec last_seq_def)
  obtain r where r: "slice_loop app policy data skip f ?v (cx, ?s) = (r, cx, fold f (uncovered skip cs) ?s)"
    "loop_ends policy (ending app (last_seq (rv_last_decoded ?v) cs) (of_nat (length (pre @ record_bytes app c) + length (log_bytes app cs))) rest)
        (length (pre @ record_bytes app c) + length (log_bytes app cs)) (uncovered skip cs) ?v r"
    using Cons.IH [of "pre @ record_bytes app c" "log_bytes app cs @ rest" ?v ?s] one(2) d Cons.prems(2,5,6) ls dec
    by auto
  have "counted out n (uncovered skip (c # cs)) v v'" if "counted out n (uncovered skip cs) ?v v'" for out n v'
    using that by (auto simp: counted_def after_record_def Let_def uncovered_def version_total_def last_seq_def not_less not_le)
  then have "loop_ends policy out n (uncovered skip (c # cs)) v r" if "loop_ends policy out n (uncovered skip cs) ?v r" for out n
    using that by (auto simp: loop_ends_def split: if_splits)
  from this [OF r(2)] show ?case
    unfolding one(1) r(1) ls by (simp add: uncovered_def add.assoc linorder_not_less [symmetric])
qed

section \<open>The whole replay\<close>

definition summary :: "nat \<Rightarrow> u64 \<Rightarrow> replay_outcome \<Rightarrow> nat \<Rightarrow> wal_commit list \<Rightarrow> replay_report" where
  "summary sz skip out n us =
     \<lparr>rp_outcome = out, rp_commits_replayed = of_nat (length us), rp_versions_replayed = of_nat (version_total us),
      rp_records_discarded = (if is_clean out then 0 else 1), rp_last_valid_offset = of_nat n,
      rp_total_data_bytes = of_nat sz, rp_last_commit_seq = last_seq skip us\<rparr>"

definition log_outcome :: "(u32 \<Rightarrow> bytes \<Rightarrow> u32) \<Rightarrow> wal_commit list \<Rightarrow> bytes \<Rightarrow> replay_outcome" where
  "log_outcome app cs rest =
     (if cs = [] \<and> rest = [] then EmptyLog
      else ending app (last_seq 0 cs) (of_nat (length (log_bytes app cs))) rest)"

lemma ending_clean: "is_clean (ending app prev off rest) \<longleftrightarrow> ending app prev off rest = Clean"
  by (simp add: ending_def split: decode_result.splits)

lemma log_bytes_Nil_iff [simp]: "log_bytes app cs = [] \<longleftrightarrow> cs = []"
  by (cases cs) auto

lemma replay_law:
  assumes "length data < 2 ^ 64" "good_prefix app 0 data = (cs, rest)"
  shows "policy = TruncateToLastGood \<or> is_clean (log_outcome app cs rest) \<Longrightarrow>
      replay app policy data skip f (cx, s) =
        (Inr (summary (length data) skip (log_outcome app cs rest) (length (log_bytes app cs)) (uncovered skip cs)),
         cx, fold f (uncovered skip cs) s)"
    "policy = FailFast \<Longrightarrow> \<not> is_clean (log_outcome app cs rest) \<Longrightarrow>
      \<exists>msg. replay app policy data skip f (cx, s) = (Inl (Err (Format msg)), cx, fold f (uncovered skip cs) s)"
proof -
  let ?out = "ending app (last_seq 0 cs) (of_nat (length (log_bytes app cs))) rest"
  have total: "try_from_nat (length data) = Some (of_nat (length data) :: u64)" using assms(1) by (simp add: try_from_nat_def)
  have data: "data = log_bytes app cs @ rest" by (rule good_prefix_sound [OF assms(2)])
  have zero: "(of_nat (length data) :: u64) = 0 \<longleftrightarrow> data = []"
    using assms(1) unat_of_nat [of "length data", where 'a = 64] by (auto dest: arg_cong [of _ _ unat])
  have head: "at_head [] (replay_start skip)" "rv_last_decoded (replay_start skip) = 0"
    by (simp_all add: at_head_def replay_start_def)
  obtain r where r: "slice_loop app policy data skip f (replay_start skip) (cx, s) = (r, cx, fold f (uncovered skip cs) s)"
    "loop_ends policy ?out (length (log_bytes app cs)) (uncovered skip cs) (replay_start skip) r"
    using slice_loop_law [of data "[]" data, OF _ assms(1) head(1), of app cs rest policy skip f cx s] assms(2) head(2) by auto
  have nonempty: "log_outcome app cs rest = ?out" if "data \<noteq> []" using that data by (auto simp: log_outcome_def)
  have empty: "cs = [] \<and> rest = []" if "data = []" using that data by simp
  show "replay app policy data skip f (cx, s) =
        (Inr (summary (length data) skip (log_outcome app cs rest) (length (log_bytes app cs)) (uncovered skip cs)),
         cx, fold f (uncovered skip cs) s)" if good: "policy = TruncateToLastGood \<or> is_clean (log_outcome app cs rest)"
  proof (cases "data = []")
    case True
    then show ?thesis using empty zero total
      by (simp add: replay_def replay_records_def io_then_return io_return_def summary_def log_outcome_def uncovered_def
          version_total_def last_seq_def)
  next
    case False
    obtain v where v: "r = Inr v" "counted ?out (length (log_bytes app cs)) (uncovered skip cs) (replay_start skip) v"
      using r(2) good nonempty [OF False] by (auto simp: loop_ends_def ending_clean split: if_splits)
    show ?thesis using False v r(1) zero total nonempty [OF False]
      by (simp add: replay_def replay_records_def io_then_return io_bind_def io_return_def [where s = "(_, _)"] summary_def counted_def replay_start_def ending_clean)
  qed
  show "\<exists>msg. replay app policy data skip f (cx, s) = (Inl (Err (Format msg)), cx, fold f (uncovered skip cs) s)"
    if "policy = FailFast" "\<not> is_clean (log_outcome app cs rest)"
  proof -
    have ne: "data \<noteq> []" using that(2) empty by (auto simp: log_outcome_def)
    have "?out \<noteq> Clean" using that(2) nonempty [OF ne] by (auto simp: ending_clean)
    then show ?thesis using ne r zero total that(1)
      by (auto simp: replay_def replay_records_def io_then_return io_bind_def loop_ends_def)
  qed
qed

end
