(* ===== verification/Wal_Store.thy ===== *)
theory Wal_Store
  imports Replay_Law Store_Props
begin

text \<open>
  Recovery of the version store from the log (\<open>ffs-mvcc/src/persist.rs\<close>): a logged commit is
  inserted into the store as versions at its own commit sequence, and the counters move past it.
  A store recovered from a good log keeps the invariant of the store and shows, at every snapshot,
  the newest logged write of each block.
\<close>

section \<open>Applying a logged commit\<close>

definition apply_wal_write :: "'f host \<Rightarrow> wal_commit \<Rightarrow> wal_write \<Rightarrow> 'f mvcc_store \<Rightarrow> 'f mvcc_store" where
  "apply_wal_write h commit w st =
     push_version (ww_block w)
       \<lparr>bv_block = ww_block w, bv_commit_seq = wc_commit_seq commit, bv_writer = wc_txn_id commit,
        bv_data = (if dedup_identical (compression_policy_of st) then maybe_dedup h st (ww_block w) (ww_data w)
                   else compress_data h (compression_policy_of st) (ww_data w))\<rparr> st"

definition apply_wal_commit :: "'f host \<Rightarrow> wal_commit \<Rightarrow> 'f mvcc_store \<Rightarrow> 'f mvcc_store" where
  "apply_wal_commit h commit st =
     (let seq = seq_val (wc_commit_seq commit); ident = txn_val (wc_txn_id commit);
          st = (if next_commit st \<le> seq then st\<lparr>next_commit := saturating_add seq 1\<rparr> else st);
          st = (if next_txn st \<le> ident then st\<lparr>next_txn := saturating_add ident 1\<rparr> else st)
      in fold (apply_wal_write h commit) (wc_writes commit) st)"

section \<open>What a replayed store shows\<close>

definition write_of :: "wal_commit \<Rightarrow> block_number \<Rightarrow> bytes option" where
  "write_of c b = map_of (map (\<lambda>w. (ww_block w, ww_data w)) (wc_writes c)) b"

text \<open>The newest write of a block among the logged commits up to a sequence.\<close>

fun logged_read :: "wal_commit list \<Rightarrow> block_number \<Rightarrow> commit_seq \<Rightarrow> bytes option" where
  "logged_read [] b s = None"
| "logged_read (c # cs) b s =
     (case logged_read cs b s of
        Some bs \<Rightarrow> Some bs
      | None \<Rightarrow> if wc_commit_seq c \<le> s then write_of c b else None)"

abbreviation well_logged :: "wal_commit \<Rightarrow> bool" where
  "well_logged c \<equiv> distinct (map ww_block (wc_writes c))"

lemma wal_write_data:
  "(if dedup_identical (compression_policy_of st) then maybe_dedup h st b bs else compress_data h (compression_policy_of st) bs)
   = version_data_for h st b bs"
  by (auto simp: maybe_dedup_def version_data_for_def compress_data_def split: compression_algo.splits)

lemma apply_wal_write_new:
  "apply_wal_write h c w st = push_version (ww_block w) (new_version h (wc_txn_id c) (wc_commit_seq c) (ww_block w) (ww_data w) st) st"
  by (simp add: apply_wal_write_def wal_write_data)

lemma apply_wal_write_ok:
  assumes "lossless h" "chains_ok h st" "all_before (wc_commit_seq c) st (ww_block w)"
    and "0 < seq_val (wc_commit_seq c)" "seq_val (wc_commit_seq c) < next_commit st"
    and st': "st' = apply_wal_write h c w st"
  shows "chains_ok h st'" "install_frame st st'" "physical_versions st' = physical_versions st"
    "b \<noteq> ww_block w \<Longrightarrow> chain_of (versions st') b = chain_of (versions st) b"
    "chain_value h (visible s (chain_of (versions st') (ww_block w))) =
       (if wc_commit_seq c \<le> s then Some (ww_data w) else chain_value h (visible s (chain_of (versions st) (ww_block w))))"
proof -
  let ?b = "ww_block w" and ?old = "chain_of (versions st) (ww_block w)"
  let ?v = "new_version h (wc_txn_id c) (wc_commit_seq c) ?b (ww_data w) st"
  have inv: "bt_inv (versions st)" using assms(2) by (simp add: chains_ok_def)
  have vs: "versions st' = bt_insert ?b (?old @ [?v]) (versions st)" "st' = st\<lparr>versions := versions st'\<rparr>"
    by (simp_all add: st' apply_wal_write_new push_version_def chain_of_def)
  have val: "chain_value h (?old @ [?v]) = Some (ww_data w)" using assms(1) by (rule new_version_value)
  have ok: "chain_ok h ?b (next_commit st) (?old @ [?v])"
    by (rule chain_ok_append [OF chains_ok_chain_of [OF assms(2)]]) (use assms(3-5) val in \<open>simp_all add: all_before_def\<close>)
  have get: "bt_get (versions st') b = (if b = ?b then Some (?old @ [?v]) else bt_get (versions st) b)" for b
    using inv by (simp add: vs(1))
  show "install_frame st st'" by (simp add: st' apply_wal_write_new)
  show "physical_versions st' = physical_versions st" by (subst vs(2)) simp
  show "chains_ok h st'"
    using assms(2) inv get ok by (subst vs(2)) (auto simp: chains_ok_def vs(1) split: if_splits)
  show "b \<noteq> ?b \<Longrightarrow> chain_of (versions st') b = chain_of (versions st) b" by (simp add: chain_of_def get)
  have "visible s (?old @ [?v]) = (if wc_commit_seq c \<le> s then ?old @ [?v] else visible s ?old)"
  proof (cases "wc_commit_seq c \<le> s")
    case True
    then have "\<forall>v \<in> set (?old @ [?v]). bv_commit_seq v \<le> s" using assms(3) by (auto simp: all_before_def)
    with True show ?thesis by (simp add: visible_def)
  qed (simp add: visible_def takeWhile_tail)
  then show "chain_value h (visible s (chain_of (versions st') ?b)) =
      (if wc_commit_seq c \<le> s then Some (ww_data w) else chain_value h (visible s ?old))"
    using val by (simp add: chain_of_def get)
qed

lemma not_max_room: "n \<noteq> - 1 \<Longrightarrow> unat n + 1 < 2 ^ 64" for n :: u64
proof (rule ccontr)
  assume "n \<noteq> - 1" "\<not> unat n + 1 < 2 ^ 64"
  moreover from this(2) have "unat n = 2 ^ 64 - 1" using unsigned_less [of n, where 'a = nat] by simp
  then have "n = of_nat (2 ^ 64 - 1)" by (rule word_of_nat_unatI)
  ultimately show False by simp
qed

definition shown :: "'f host \<Rightarrow> 'f mvcc_store \<Rightarrow> block_number \<Rightarrow> commit_seq \<Rightarrow> bytes option" where
  "shown h st b s = chain_value h (visible s (chain_of (versions st) b))"

lemma apply_wal_writes_ok:
  assumes "lossless h" "0 < seq_val (wc_commit_seq c)"
    and "chains_ok h st" "\<forall>w \<in> set ws. all_before (wc_commit_seq c) st (ww_block w)" "distinct (map ww_block ws)"
    and "seq_val (wc_commit_seq c) < next_commit st"
  shows "chains_ok h (fold (apply_wal_write h c) ws st) \<and> install_frame st (fold (apply_wal_write h c) ws st)
    \<and> (\<forall>b s. shown h (fold (apply_wal_write h c) ws st) b s =
         (if wc_commit_seq c \<le> s \<and> b \<in> ww_block ` set ws then map_of (map (\<lambda>w. (ww_block w, ww_data w)) ws) b else shown h st b s))"
  using assms(3-)
proof (induction ws arbitrary: st)
  case (Cons w ws)
  define st1 where "st1 = apply_wal_write h c w st"
  have bef: "all_before (wc_commit_seq c) st (ww_block w)" using Cons.prems(2) by simp
  note one = apply_wal_write_ok [OF assms(1) Cons.prems(1) bef assms(2) Cons.prems(4) st1_def]
  have "\<forall>w' \<in> set ws. all_before (wc_commit_seq c) st1 (ww_block w')"
  proof
    fix w' assume "w' \<in> set ws"
    then have "ww_block w' \<in> set (map ww_block ws)" "all_before (wc_commit_seq c) st (ww_block w')"
      using Cons.prems(2) by simp_all
    moreover from this(1) have "ww_block w' \<noteq> ww_block w" using Cons.prems(3) by (metis distinct.simps(2) list.simps(9))
    ultimately show "all_before (wc_commit_seq c) st1 (ww_block w')" using one(3,4) by (simp add: all_before_def chain_of_def)
  qed
  moreover have "seq_val (wc_commit_seq c) < next_commit st1" using one(2) Cons.prems(4) by (simp add: install_frame_def)
  moreover have "distinct (map ww_block ws)" using Cons.prems(3) by simp
  ultimately have ih: "chains_ok h (fold (apply_wal_write h c) ws st1)" "install_frame st1 (fold (apply_wal_write h c) ws st1)"
    "shown h (fold (apply_wal_write h c) ws st1) b s =
       (if wc_commit_seq c \<le> s \<and> b \<in> ww_block ` set ws then map_of (map (\<lambda>w. (ww_block w, ww_data w)) ws) b else shown h st1 b s)" for b s
    using Cons.IH [OF one(1)] by blast+
  have here: "shown h st1 b s = (if wc_commit_seq c \<le> s \<and> b = ww_block w then Some (ww_data w) else shown h st b s)" for b s
    using one(4) [of b] one(5) [of s] by (cases "b = ww_block w") (simp_all add: shown_def)
  have fresh: "ww_block w \<notin> ww_block ` set ws" using Cons.prems(3) by simp
  show ?case
    using ih one(2) fresh install_frame_trans [OF one(2) ih(2)] by (auto simp: here st1_def [symmetric])
qed simp

lemma apply_wal_commit_ok:
  assumes "lossless h" "store_ok h st" "next_commit st \<le> seq_val (wc_commit_seq c)" "seq_val (wc_commit_seq c) \<noteq> - 1" "well_logged c"
  shows "store_ok h (apply_wal_commit h c st)" "next_commit (apply_wal_commit h c st) = seq_val (wc_commit_seq c) + 1"
    "shown h (apply_wal_commit h c st) b s =
       (case if wc_commit_seq c \<le> s then write_of c b else None of Some bs \<Rightarrow> Some bs | None \<Rightarrow> shown h st b s)"
proof -
  let ?seq = "seq_val (wc_commit_seq c)"
  define st1 where "st1 = st\<lparr>next_commit := ?seq + 1\<rparr>"
  define st2 where "st2 = (if next_txn st1 \<le> txn_val (wc_txn_id c) then st1\<lparr>next_txn := saturating_add (txn_val (wc_txn_id c)) 1\<rparr> else st1)"
  have room: "unat ?seq + 1 < 2 ^ 64"
    using assms(4) by (rule not_max_room)
  have sat: "saturating_add ?seq 1 = ?seq + 1" using room by (simp add: saturating_add_def)
  have eq: "apply_wal_commit h c st = fold (apply_wal_write h c) (wc_writes c) st2"
    using assms(3) by (simp add: apply_wal_commit_def Let_def sat st2_def st1_def)
  have lt: "?seq < ?seq + 1" "n < next_commit st \<Longrightarrow> n < ?seq + 1" for n
    using word_less_Suc [OF room] assms(3) by (auto intro: less_le_trans)
  have same: "versions st2 = versions st" "physical_versions st2 = physical_versions st" "next_commit st2 = ?seq + 1"
    "same_snapshots st st2" "ssi_log st2 = ssi_log st"
    by (simp_all add: st2_def st1_def same_snapshots_def)
  have ok2: "chains_ok h st2"
    using assms(2) lt(2) by (auto simp: store_ok_def chains_ok_def same chain_ok_def physical_ok_def)
  have bef: "all_before (wc_commit_seq c) st2 b" for b
  proof -
    have "chains_ok h st" using assms(2) by (simp add: store_ok_def)
    from chain_below_next [OF this, of b] show ?thesis
      using assms(3) by (force simp: all_before_def chain_of_def same less_commit_seq_def)
  qed
  have pos: "0 < ?seq" using assms(2,3) by (auto simp: store_ok_def intro: less_le_trans)
  note ws = apply_wal_writes_ok [OF assms(1) pos ok2 _ assms(5), unfolded same(3), OF _ lt(1)]
  have fr: "install_frame st2 (apply_wal_commit h c st)" "chains_ok h (apply_wal_commit h c st)"
    unfolding eq using ws bef by blast+
  show "next_commit (apply_wal_commit h c st) = ?seq + 1" using fr(1) by (simp add: install_frame_def same)
  show "store_ok h (apply_wal_commit h c st)"
    using assms(2) fr same lt(2) word_less_Suc(1) [OF room] pos
    by (auto simp: store_ok_def snapshots_ok_def log_ok_def install_frame_def same_snapshots_def intro: less_trans)
  have "shown h st2 b s = shown h st b s" by (simp add: shown_def same)
  then show "shown h (apply_wal_commit h c st) b s =
       (case if wc_commit_seq c \<le> s then write_of c b else None of Some bs \<Rightarrow> Some bs | None \<Rightarrow> shown h st b s)"
    unfolding eq using ws bef
    by (auto simp: write_of_def map_of_eq_None_iff image_image dest!: map_of_SomeD split: option.split)
qed

section \<open>Applying a log\<close>

lemma good_log_mono: "good_log p cs \<Longrightarrow> q \<le> p \<Longrightarrow> good_log q cs"
  by (cases cs) (auto simp: rejected_def)

lemma good_log_filter: "good_log p cs \<Longrightarrow> good_log p (filter P cs)"
proof (induction cs arbitrary: p)
  case (Cons c cs)
  then show ?case
    using good_log_mono [of "seq_val (wc_commit_seq c)" "filter P cs" p] by (auto simp: rejected_def)
qed simp

lemma good_log_uncovered: "good_log p cs \<Longrightarrow> good_log skip (uncovered skip cs)"
proof (induction cs arbitrary: p)
  case (Cons c cs)
  then show ?case
    using good_log_filter [of "seq_val (wc_commit_seq c)" cs] by (auto simp: uncovered_def rejected_def)
qed (simp add: uncovered_def)

lemma apply_log_ok:
  assumes "lossless h" "store_ok h st" "good_log p cs" "unat (next_commit st) \<le> unat p + 1" "\<forall>c \<in> set cs. well_logged c"
  shows "store_ok h (fold (apply_wal_commit h) cs st)
    \<and> next_commit (fold (apply_wal_commit h) cs st) = (if cs = [] then next_commit st else last_seq p cs + 1)
    \<and> (\<forall>b s. shown h (fold (apply_wal_commit h) cs st) b s = (case logged_read cs b s of Some bs \<Rightarrow> Some bs | None \<Rightarrow> shown h st b s))"
  using assms(2-)
proof (induction cs arbitrary: st p)
  case (Cons c cs)
  let ?seq = "seq_val (wc_commit_seq c)" and ?st = "apply_wal_commit h c st"
  have c: "?seq \<noteq> - 1" "p < ?seq" using Cons.prems(2) by (auto simp: rejected_def)
  then have le: "next_commit st \<le> ?seq" using Cons.prems(3) by (simp add: word_less_nat_alt word_le_nat_alt)
  have w: "well_logged c" using Cons.prems(4) by simp
  note one = apply_wal_commit_ok [OF assms(1) Cons.prems(1) le c(1) w]
  have n: "unat (next_commit ?st) \<le> unat ?seq + 1" unfolding one(2) using not_max_room [OF c(1)] by (simp add: unat_word_ariths)
  note ih = Cons.IH [OF one(1) _ n]
  have "shown h (fold (apply_wal_commit h) cs ?st) b s =
      (case logged_read (c # cs) b s of Some bs \<Rightarrow> Some bs | None \<Rightarrow> shown h st b s)" for b s
    using ih Cons.prems(2,4) one(3) [of b s] by (simp split: option.splits)
  then show ?case using ih Cons.prems(2,4) one(2) by (simp add: last_seq_def)
qed simp

lemma shown_read: "store_ok h st \<Longrightarrow> read_visible h st b snap = shown h st b (high snap)"
  by (simp add: store_ok_def shown_def read_visible_bytes_at version_bytes_at_value)

end
