(* ===== verification/Wal_Props.thy ===== *)
theory Wal_Props
  imports Wal_Store
begin

text \<open>
  Recovery after a crash while the log was written: whatever prefix of the encoded commits the
  file keeps, replay finds the complete records, and the store shows exactly their writes.
\<close>

section \<open>Cutting a log\<close>

lemma log_cut:
  assumes "m \<le> length (log_bytes app cs)"
  shows "\<exists>k rest. k \<le> length cs \<and> take m (log_bytes app cs) = log_bytes app (take k cs) @ rest \<and>
    (rest \<noteq> [] \<longrightarrow> k < length cs \<and> length rest < length (record_bytes app (cs ! k)) \<and> rest = take (length rest) (record_bytes app (cs ! k)))"
  using assms
proof (induction cs arbitrary: m)
  case (Cons c cs)
  let ?r = "record_bytes app c"
  show ?case
  proof (cases "m < length ?r")
    case True
    then show ?thesis by (intro exI [of _ 0] exI [of _ "take m ?r"]) simp
  next
    case False
    with Cons.prems have "m - length ?r \<le> length (log_bytes app cs)" by simp
    from Cons.IH [OF this] obtain k rest where k: "k \<le> length cs"
      "take (m - length ?r) (log_bytes app cs) = log_bytes app (take k cs) @ rest"
      "rest \<noteq> [] \<longrightarrow> k < length cs \<and> length rest < length (record_bytes app (cs ! k)) \<and> rest = take (length rest) (record_bytes app (cs ! k))"
      by blast
    then show ?thesis using False by (intro exI [of _ "Suc k"] exI [of _ rest]) simp
  qed
qed simp

lemma decode_cut:
  assumes "payload_fits c" "rest = take (length rest) (record_bytes app c)" "length rest < length (record_bytes app c)" "rest \<noteq> []"
  shows "\<exists>n. decode_commit app rest = NeedMore n"
proof -
  have "0 < length rest" using assms(4) by simp
  from decode_torn [OF assms(1,3) this] show ?thesis unfolding assms(2) [symmetric] by blast
qed

text \<open>Commits as the writer logs them: increasing sequences, no sentinel, one write per block.\<close>

definition logged_commits :: "wal_commit list \<Rightarrow> bool" where
  "logged_commits cs \<longleftrightarrow> sorted_wrt (<) (map wc_commit_seq cs) \<and>
     (\<forall>c \<in> set cs. 0 < seq_val (wc_commit_seq c) \<and> seq_val (wc_commit_seq c) \<noteq> - 1 \<and> txn_val (wc_txn_id c) \<noteq> - 1
        \<and> distinct (map ww_block (wc_writes c)))"

lemma logged_good:
  assumes "logged_commits cs" "\<forall>c \<in> set cs. payload_fits c \<and> p < seq_val (wc_commit_seq c)"
  shows "good_log p cs"
  using assms
proof (induction cs arbitrary: p)
  case (Cons c cs)
  then show ?case
    using Cons.IH [of "seq_val (wc_commit_seq c)"] by (auto simp: logged_commits_def rejected_def less_commit_seq_def not_le)
qed simp

lemma good_log_take: "good_log p cs \<Longrightarrow> good_log p (take k cs)"
  by (induction cs arbitrary: p k) (simp_all add: take_Cons split: nat.split)

lemma encoded_records:
  "list_all2 (\<lambda>c r. encode_commit app c = Inr r) cs recs \<longleftrightarrow> recs = map (record_bytes app) cs \<and> (\<forall>c \<in> set cs. payload_fits c)"
  by (induction cs arbitrary: recs) (auto simp: encode_commit_iff list_all2_Cons1)

lemma log_prefix:
  assumes "good_log 0 cs" "k \<le> length cs"
    and "rest \<noteq> [] \<longrightarrow> k < length cs \<and> length rest < length (record_bytes app (cs ! k)) \<and> rest = take (length rest) (record_bytes app (cs ! k))"
    and "\<forall>c \<in> set cs. payload_fits c"
  shows "good_prefix app 0 (log_bytes app (take k cs) @ rest) = (take k cs, rest)"
    "log_outcome app (take k cs) rest = (if k = 0 \<and> rest = [] then EmptyLog else if rest = [] then Clean else TruncatedTail 1)"
proof -
  have d: "if rest = [] then decode_commit app rest = EndOfData else \<exists>n. decode_commit app rest = NeedMore n"
    using decode_cut [of "cs ! k" rest app] assms(3,4) by (auto simp: decode_commit_def [of app "[]"])
  show "good_prefix app 0 (log_bytes app (take k cs) @ rest) = (take k cs, rest)"
    by (rule good_prefix_complete [OF good_log_take [OF assms(1)]]) (use d in \<open>auto split: if_splits\<close>)
  show "log_outcome app (take k cs) rest = (if k = 0 \<and> rest = [] then EmptyLog else if rest = [] then Clean else TruncatedTail 1)"
    using d assms(2) by (auto simp: log_outcome_def ending_def split: if_splits)
qed

section \<open>Recovery\<close>

lemma take_concat_records: "concat (take k (map (record_bytes app) cs)) = log_bytes app (take k cs)"
  by (simp add: log_bytes_def take_map)

lemma take_Suc_log: "k < length cs \<Longrightarrow> log_bytes app (take (Suc k) cs) = log_bytes app (take k cs) @ record_bytes app (cs ! k)"
  by (simp add: take_Suc_conv_app_nth)

lemma recover_law:
  assumes "lossless h" "store_ok h st" "unat (next_commit st) \<le> unat skip + 1" "good_log 0 cs"
    and "\<forall>c \<in> set cs. well_logged c" "st' = fold (apply_wal_commit h) (uncovered skip cs) st"
  shows "store_ok h st' \<and> (\<forall>b snap. read_visible h st' b snap =
    (case logged_read (uncovered skip cs) b (high snap) of Some bs \<Rightarrow> Some bs | None \<Rightarrow> read_visible h st b snap))"
proof -
  have "\<forall>c \<in> set (uncovered skip cs). well_logged c" using assms(5) by (simp add: uncovered_def)
  from apply_log_ok [OF assms(1,2) good_log_uncovered [OF assms(4), of skip] assms(3) this]
  show ?thesis using assms(2,6) by (simp add: shown_read split: option.split)
qed

abbreviation cut_report where
  "cut_report app skip cs k rest \<equiv> summary (length (log_bytes app (take k cs) @ rest)) skip
     (if k = 0 \<and> rest = [] then EmptyLog else if rest = [] then Clean else TruncatedTail 1)
     (length (log_bytes app (take k cs))) (uncovered skip (take k cs))"

lemma replay_cut:
  assumes "length (log_bytes app (take k cs) @ rest) < 2 ^ 64" "good_log 0 cs" "k \<le> length cs"
    and "rest \<noteq> [] \<longrightarrow> k < length cs \<and> length rest < length (record_bytes app (cs ! k)) \<and> rest = take (length rest) (record_bytes app (cs ! k))"
    and "\<forall>c \<in> set cs. payload_fits c"
  shows "policy = TruncateToLastGood \<or> rest = [] \<Longrightarrow> replay app policy (log_bytes app (take k cs) @ rest) skip f (cx, s)
      = (Inr (cut_report app skip cs k rest), cx, fold f (uncovered skip (take k cs)) s)"
    "rest \<noteq> [] \<Longrightarrow> \<exists>msg. fst (replay app FailFast (log_bytes app (take k cs) @ rest) skip f (cx, s)) = Inl (Err (Format msg))"
proof -
  note law = replay_law [OF assms(1) log_prefix(1) [OF assms(2-5)], unfolded log_prefix(2) [OF assms(2-5)]]
  show "replay app policy (log_bytes app (take k cs) @ rest) skip f (cx, s)
      = (Inr (cut_report app skip cs k rest), cx, fold f (uncovered skip (take k cs)) s)"
    if "policy = TruncateToLastGood \<or> rest = []"
    by (rule law(1)) (use that in auto)
  show "\<exists>msg. fst (replay app FailFast (log_bytes app (take k cs) @ rest) skip f (cx, s)) = Inl (Err (Format msg))"
    if "rest \<noteq> []"
    using law(2) [OF refl, of skip f cx s] that by auto
qed

text \<open>
  C6: recovery from a torn log. Let a log hold the encodings of commits with increasing sequences,
  let a crash cut it at any byte, and let the store hold what a checkpoint up to \<open>skip\<close> restored.
  Replay under the default policy succeeds and accepts exactly the records that are complete in what is left: it
  reports where they end and whether a torn record was discarded, keeps the invariant of the store,
  and every snapshot reads the newest write of the complete commits after the checkpoint, or what
  the checkpoint shows. Under the strict policy replay succeeds on a log cut between records and
  fails on one cut inside a record.
\<close>

theorem torn_log_recovers:
  assumes "lossless h" "store_ok h st" "unat (next_commit st) \<le> unat skip + 1"
    and "list_all2 (\<lambda>c r. encode_commit app c = Inr r) cs recs" "logged_commits cs"
    and "length (concat recs) < 2 ^ 64" "m \<le> length (concat recs)"
  shows "\<exists>k \<le> length cs. \<exists>report st'.
    length (concat (take k recs)) \<le> m \<and> (k < length cs \<longrightarrow> m < length (concat (take (Suc k) recs))) \<and>
    replay app TruncateToLastGood (take m (concat recs)) skip (apply_wal_commit h) (cx, st) = (Inr report, cx, st') \<and>
    rp_last_valid_offset report = of_nat (length (concat (take k recs))) \<and>
    rp_outcome report = (if m = 0 then EmptyLog else if m = length (concat (take k recs)) then Clean else TruncatedTail 1) \<and>
    rp_commits_replayed report = of_nat (length (uncovered skip (take k cs))) \<and>
    store_ok h st' \<and>
    (\<forall>b snap. read_visible h st' b snap =
       (case logged_read (uncovered skip (take k cs)) b (high snap) of Some bs \<Rightarrow> Some bs | None \<Rightarrow> read_visible h st b snap)) \<and>
    (if m = length (concat (take k recs))
     then replay app FailFast (take m (concat recs)) skip (apply_wal_commit h) (cx, st) = (Inr report, cx, st')
     else \<exists>msg. fst (replay app FailFast (take m (concat recs)) skip (apply_wal_commit h) (cx, st)) = Inl (Err (Format msg)))"
proof -
  have recs: "recs = map (record_bytes app) cs" and fits: "\<forall>c \<in> set cs. payload_fits c"
    using assms(4) by (simp_all add: encoded_records)
  have log: "concat recs = log_bytes app cs" by (simp add: recs log_bytes_def)
  have pre: "concat (take j recs) = log_bytes app (take j cs)" for j by (simp add: recs take_concat_records)
  have good: "good_log 0 cs" by (rule logged_good [OF assms(5)]) (use fits assms(5) in \<open>simp add: logged_commits_def\<close>)
  obtain k rest where k: "k \<le> length cs" and cut: "take m (log_bytes app cs) = log_bytes app (take k cs) @ rest"
    and rest: "rest \<noteq> [] \<longrightarrow> k < length cs \<and> length rest < length (record_bytes app (cs ! k)) \<and> rest = take (length rest) (record_bytes app (cs ! k))"
    using log_cut assms(7) unfolding log by blast
  let ?n = "length (log_bytes app (take k cs))" and ?rep = "cut_report app skip cs k rest"
  define st' where "st' = fold (apply_wal_commit h) (uncovered skip (take k cs)) st"
  have m: "m = ?n + length rest" using arg_cong [OF cut, of length] assms(7) by (simp add: log)
  have "length (log_bytes app (take k cs) @ rest) < 2 ^ 64" using assms(6,7) m by (simp add: log)
  note run = replay_cut [OF this good k rest fits, where skip = skip and f = "apply_wal_commit h" and cx = cx and s = st, folded st'_def]
  have torn: "rest = [] \<longleftrightarrow> m = ?n" and zero: "k = 0 \<and> rest = [] \<longleftrightarrow> m = 0" using k by (auto simp: m)
  have after: "k < length cs \<longrightarrow> m < length (log_bytes app (take (Suc k) cs))"
    using rest length_record_bytes [of app "cs ! k"] by (cases "rest = []") (auto simp: m take_Suc_log)
  have "good_log 0 (take k cs)" "\<forall>c \<in> set (take k cs). well_logged c"
    using good_log_take [OF good] assms(5) by (auto simp: logged_commits_def dest: in_set_takeD)
  note rec = recover_law [OF assms(1-3) this st'_def]
  have rep: "rp_outcome ?rep = (if m = 0 then EmptyLog else if m = ?n then Clean else TruncatedTail 1)"
    "rp_last_valid_offset ?rep = of_nat ?n" "rp_commits_replayed ?rep = of_nat (length (uncovered skip (take k cs)))"
    unfolding zero unfolding torn by (simp_all add: summary_def)
  have le: "?n \<le> m" by (simp add: m)
  have strict: "if m = ?n then replay app FailFast (log_bytes app (take k cs) @ rest) skip (apply_wal_commit h) (cx, st) = (Inr ?rep, cx, st')
      else \<exists>msg. fst (replay app FailFast (log_bytes app (take k cs) @ rest) skip (apply_wal_commit h) (cx, st)) = Inl (Err (Format msg))"
    using run(1) [of FailFast] run(2) unfolding torn by (cases "m = ?n") (simp_all only: if_True if_False simp_thms)
  show ?thesis unfolding log pre cut
    by (intro exI [of _ k] exI [of _ ?rep] exI [of _ st'] conjI)
      (rule k le after run(1) [OF disjI1 [OF refl]] rep rec [THEN conjunct1] rec [THEN conjunct2] strict)+
qed

definition sample_log :: "wal_commit list" where
  "sample_log = map (\<lambda>(n, b, x). \<lparr>wc_commit_seq = CommitSeq n, wc_txn_id = TxnId n,
     wc_writes = [\<lparr>ww_block = BlockNumber b, ww_data = [x]\<rparr>]\<rparr>) [(1, 5, 7), (2, 6, 8), (3, 5, 9)]"

lemma sample_log_ok: "logged_commits sample_log" "length sample_log = 3"
  by (simp_all add: sample_log_def logged_commits_def less_commit_seq_def)

lemma sample_records: "c \<in> set sample_log \<Longrightarrow> payload_fits c \<and> length (record_bytes app c) = 42"
  by (auto simp: sample_log_def length_record_bytes length_payload write_bytes_def)

lemma sample_log_length: "k \<le> 3 \<Longrightarrow> length (concat (take k (map (record_bytes app) sample_log))) = 42 * k"
proof -
  have "length (concat (map (record_bytes app) cs)) = 42 * length cs" if "set cs \<subseteq> set sample_log" for cs
    using that by (induction cs) (simp_all add: sample_records)
  from this [OF set_take_subset, of k] show "k \<le> 3 \<Longrightarrow> length (concat (take k (map (record_bytes app) sample_log))) = 42 * k"
    by (simp add: take_map sample_log_ok)
qed

lemma sample_log_reads:
  "logged_read (uncovered 1 (take 2 sample_log)) (BlockNumber 6) (CommitSeq 3) = Some [8]"
  "logged_read (uncovered 1 (take 2 sample_log)) (BlockNumber 5) (CommitSeq 3) = None"
  by (simp_all add: sample_log_def uncovered_def write_of_def less_eq_commit_seq_def)

text \<open>A checkpoint at sequence 1, a complete commit after it and a torn one.\<close>

theorem torn_log_recovers_witness:
  "\<exists>recs report st'. list_all2 (\<lambda>c r. encode_commit reference_crc c = Inr r) sample_log recs \<and>
     replay reference_crc TruncateToLastGood (take 100 (concat recs)) 1 (apply_wal_commit plain_host) ([], sample_store)
       = (Inr report, [], st') \<and>
     rp_outcome report = TruncatedTail 1 \<and> rp_last_valid_offset report = 84 \<and>
     read_visible plain_host st' (BlockNumber 6) \<lparr>high = CommitSeq 3\<rparr> = Some [8] \<and>
     read_visible plain_host st' (BlockNumber 5) \<lparr>high = CommitSeq 3\<rparr> = Some [7]"
proof -
  let ?recs = "map (record_bytes reference_crc) sample_log" and ?data = "take 100 (concat (map (record_bytes reference_crc) sample_log))"
  have enc: "list_all2 (\<lambda>c r. encode_commit reference_crc c = Inr r) sample_log ?recs"
    using sample_records by (simp add: encoded_records)
  have len: "length (concat ?recs) = 126" using sample_log_length [of 3 reference_crc] by (simp add: sample_log_ok)
  have room: "unat (next_commit sample_store) \<le> unat (1 :: u64) + 1" "length (concat ?recs) < 2 ^ 64" "100 \<le> length (concat ?recs)"
    by (simp_all add: sample_store_fields len)
  from torn_log_recovers [OF plain_lossless sample_store_ok room(1) enc sample_log_ok(1) room(2,3), of "[]"]
  obtain k report st' where k: "k \<le> 3" "length (concat (take k ?recs)) \<le> 100" "k < 3 \<longrightarrow> 100 < length (concat (take (Suc k) ?recs))"
    and run: "replay reference_crc TruncateToLastGood ?data 1 (apply_wal_commit plain_host) ([], sample_store) = (Inr report, [], st')"
    and rep: "rp_last_valid_offset report = of_nat (length (concat (take k ?recs)))"
      "rp_outcome report = (if 100 = length (concat (take k ?recs)) then Clean else TruncatedTail 1)"
    and reads: "\<And>b snap. read_visible plain_host st' b snap =
       (case logged_read (uncovered 1 (take k sample_log)) b (high snap) of Some bs \<Rightarrow> Some bs | None \<Rightarrow> read_visible plain_host sample_store b snap)"
    unfolding sample_log_ok(2) by (simp only: if_False if_True simp_thms zero_neq_numeral [symmetric]) blast
  have "k = 2" using k sample_log_length [of k reference_crc] sample_log_length [of "Suc k" reference_crc] by (cases "k = 3") simp_all
  moreover have "length (concat (take 2 ?recs)) = 84" using sample_log_length [of 2 reference_crc] by simp
  ultimately have "rp_outcome report = TruncatedTail 1" "rp_last_valid_offset report = 84" using rep by simp_all
  moreover have "read_visible plain_host sample_store (BlockNumber 5) \<lparr>high = CommitSeq 3\<rparr> = Some [7]"
    by (simp add: shown_read [OF sample_store_ok] shown_def sample_store_fields chain_of_def visible_def chain_value_def apply_version_def
        less_eq_commit_seq_def)
  then have "read_visible plain_host st' (BlockNumber 6) \<lparr>high = CommitSeq 3\<rparr> = Some [8]"
    "read_visible plain_host st' (BlockNumber 5) \<lparr>high = CommitSeq 3\<rparr> = Some [7]"
    unfolding reads \<open>k = 2\<close> by (simp_all add: sample_log_reads)
  ultimately show ?thesis using enc run by blast
qed

end
