(* ===== verification/Spec2Isabelle.thy ===== *)
theory Spec2Isabelle
  imports Ffs_Error Ffs_Types Dir_Stamp Store_Props Crash_Props Volume_Locks Clean_Sync
    Wal_Props
begin

text \<open>
  FrankenFS: a verification library for the Rust file-system workspace under \<open>src/crates\<close>.

  \<^bold>\<open>Parts and how they interact.\<close> The bottom layer is a byte device (\<open>ffs-block\<close>): a file, a bounded
  volume on another device, or a device that injects faults. A block device views a byte device
  as equal blocks. The versioned store (\<open>ffs-mvcc\<close>) keeps committed versions of blocks in memory;
  transactions stage writes and commit under first-committer-wins or serializable checks, with
  merge proofs that let two writers of one block both succeed. A write-ahead log records commits,
  and replay restores the store from it. \<open>MvccBlockDevice\<close> shows the store
  over a block device, and flushing moves committed versions down to it. The contents of the
  blocks are the business of the upper layers, of which the library covers directory blocks
  (\<open>ffs-dir\<close>) and the checksums of ext4 metadata (\<open>ffs-ondisk\<close>), together with the code of
  \<open>ffs-core\<close> that stamps a directory block after a mutation.

  \<^bold>\<open>Conventions.\<close> Unsigned integers of the source are words of the same width, \<open>usize\<close> is a natural
  number whose checked operations test the 64-bit bound. \<open>Inl\<close> is an error and \<open>Inr\<close> a result; a
  panic is a value of its own (\<open>None\<close>, \<open>Panics\<close> or \<open>Panic\<close>), so that a theorem can exclude it.
  \<open>BTreeMap\<close> and \<open>FxHashMap\<close> are strictly sorted association lists. Third-party code is a parameter:
  the compression codecs and floating-point operations of the store are the record \<open>host\<close> with the
  hypothesis \<open>lossless\<close>, and the checksum of the \<open>crc32c\<close> crate is a function with the hypothesis
  \<open>crc32c_crate\<close>, which states CRC-32C bit by bit from the exponents of its polynomial. Log records and metrics output are left out.

  \<^bold>\<open>Theories.\<close>
  \<^item> \<open>Prelude\<close>: machine integers, slices, little-endian codecs (locale \<open>byte_codec\<close>), the binary
    search of the Rust standard library, sorted maps. \<open>Ffs_Error\<close>, \<open>Ffs_Types\<close>: the crates
    \<open>ffs-error\<close> and \<open>ffs-types\<close> (errors and errno, newtypes, readers and writers, alignment, groups).
  \<^item> \<open>Dir_Block\<close>, \<open>Dir_Names\<close>: \<open>ffs-dir/src/lib.rs\<close>, one definition per function, the scanning loops
    with their termination proofs. \<open>Dir_Layout\<close>, \<open>Dir_Refine\<close>, \<open>Dir_Map\<close>: the layout invariant of a
    block and its abstraction to a finite map from names. \<open>Dir_Props\<close>: every operation refines the
    map, whole histories simulate it, the one-pass insertion equals the two-pass one, the reported
    edits are exact, the index keeps its order.
  \<^item> \<open>Merge_Proof\<close>, \<open>Merge_Law\<close>, \<open>Mvcc_Txn\<close>, \<open>Txn_Law\<close>: merge proofs, transactions and the detection of
    dangerous structures (\<open>ffs-mvcc/src/lib.rs\<close>): a merge keeps both writers, in either order, and
    detection is exact.
  \<^item> \<open>Version_Chain\<close>, \<open>Mvcc_Metrics\<close>, \<open>Mvcc_Store\<close>: the store of \<open>ffs-mvcc/src/store.rs\<close>.
    \<open>Store_Inv\<close>, \<open>Store_Ops\<close>, \<open>Store_Props\<close>: its invariant, preserved by every operation, isolation of
    snapshots, reading back a commit, failed commits, first committer wins, serializable commits.
  \<^item> \<open>Wal_Format\<close>, \<open>Wal_Law\<close>: the records of the write-ahead log (\<open>ffs-mvcc/src/wal.rs\<close>); decoding
    accepts exactly the encodings, asks for more on a torn record and detects short bursts.
    \<open>Wal_Replay\<close>, \<open>Replay_Law\<close>: replay of a log in memory (\<open>ffs-mvcc/src/wal_replay.rs\<close>) applies exactly its
    longest good prefix. \<open>Wal_Store\<close>, \<open>Wal_Props\<close>: applying logged commits to the store
    (\<open>apply_wal_commit\<close> of \<open>ffs-mvcc/src/persist.rs\<close>), and recovery from a log cut at any byte.
  \<^item> \<open>Byte_Device\<close>, \<open>Device_Law\<close>: the monad of device operations, triples that also exclude panics,
    the trait \<open>ByteDevice\<close> as a record with the contract \<open>device_contract\<close>, and the file device.
    \<open>Volume_Device\<close>, \<open>Volume_Law\<close>, \<open>Sector_Fault\<close>, \<open>Fault_Law\<close>: the volume, and the fault injector
    as long as no bit rot is injected, meet that contract over any device that does. \<open>Block_Device\<close>, \<open>Block_Law\<close>, \<open>Block_History\<close>: the contract
    \<open>block_contract\<close> of block devices, its instance over a byte device, and sequences of operations.
  \<^item> \<open>Mvcc_Flush\<close>, \<open>Flush_Law\<close>, \<open>Snapshot_Registry\<close>, \<open>Mvcc_Device\<close>, \<open>Mvcc_Law\<close>: flushing and eviction,
    the registry of live snapshots, and the versioned device, which with read-your-writes
    meets \<open>block_contract\<close> over any device that does.
    \<open>Device_Props\<close>: the whole stack of file, volume, blocks and versions behaves as an array of
    blocks, for operations in range with data of the block size, also up to the first failing one. The locales \<open>steady_device\<close> and
    \<open>steady_blocks\<close> add to the two contracts that a failing sync keeps the content, which holds for
    all of this stack and not for the fault injector.
  \<^item> \<open>Crash_Props\<close>: a crash of the fault injector restores what was synced. \<open>Clean_Sync\<close>: writes and
    syncs of several threads over the two epochs of \<open>FileByteDevice\<close>, as a step relation.
    \<open>Volume_Locks\<close>: the stripe locks of concurrent volume writers, as a step relation, with mutual
    exclusion and the return of every writer.
  \<^item> \<open>Crc_Incremental\<close>: \<open>ffs-ondisk/src/crc_incremental.rs\<close> and the linear algebra behind it.
    \<open>Ext4_Checksum\<close>, \<open>Checksum_Law\<close>, \<open>Checksum_Props\<close>: the checksums of \<open>ffs-ondisk/src/ext4.rs\<close>; the
    locale \<open>stamped_field\<close> is the contract of a structure with a checksum field, interpreted for
    directory, index, extent and attribute blocks and for group descriptors. \<open>Dir_Stamp\<close>: the incremental stamping of a mutated directory block in
    \<open>ffs-core/src/lib.rs\<close>, across \<open>ffs-dir\<close> and \<open>ffs-ondisk\<close>.

  \<^bold>\<open>Bounds.\<close> No model uses fuel: loops are recursive functions with a measure. Buffers handed to the
  incremental checksums are below \<open>2 ^ 37\<close> bytes, since the 40 shift operators of the source cover
  fewer than \<open>2 ^ 40\<close> bits. The step relation of \<open>Clean_Sync\<close> excludes a wrap of the write epoch,
  which takes \<open>2 ^ 64 - 1\<close> writes. The law of a volume assumes that its length is at least one
  largest sector (65536 bytes) below \<open>2 ^ 64\<close>, so that rounding to sectors does not overflow.

  \<^bold>\<open>Not modelled.\<close> Atomic operations are interleaved in sequentially consistent order; the memory
  orderings of the source are not modelled, nor are clocks other than as parameters. The caches
  and the I/O engine of \<open>ffs-block\<close> rest on threads, clocks and system interfaces. Of the
  write-ahead log, the streaming reader, the writer and the files of the persistent store, and the
  sharded store of \<open>ffs-mvcc\<close>, the allocator, extent trees, journals, the drivers of the
  file systems, repair, the parsers of the other on-disk formats and the kernel protocol could be
  modelled and are outside the scope of this library; the manifest lists each of them.
\<close>

end
